(* ===== verification/Prelude.thy ===== *)
theory Prelude
  imports Main "HOL-Library.Word"
begin

unbundle bit_operations_syntax

text \<open>
  Shared vocabulary of the development: the machine integer types of
  \<^verbatim>\<open>kernel/stdint.h\<close> (i386: \<^verbatim>\<open>long\<close>, \<^verbatim>\<open>int\<close> and pointers have 32 bits), results that can be a
  kernel panic, and generic facts on lists and words that several components use.
\<close>

section \<open>Machine integers\<close>

type_synonym u8 = "8 word"
type_synonym u16 = "16 word"
type_synonym u32 = "32 word"
type_synonym u64 = "64 word"

section \<open>Results that can be a panic\<close>

text \<open>
  \<^verbatim>\<open>Debug::panic\<close> never returns: the rest of the caller is skipped.
  A fallible operation returns a sum, \<open>Inl\<close> the panic and \<open>Inr\<close> the result, and
  \<open>rbind\<close> runs the rest of the caller only after a normal return.
\<close>

definition rbind :: "'e + 'a \<Rightarrow> ('a \<Rightarrow> 'e + 'b) \<Rightarrow> 'e + 'b" where
  "rbind m f = (case m of Inl e \<Rightarrow> Inl e | Inr x \<Rightarrow> f x)"

lemma rbind_Inl [simp]: "rbind (Inl e) f = Inl e"
  by (simp add: rbind_def)

lemma rbind_Inr [simp]: "rbind (Inr x) f = f x"
  by (simp add: rbind_def)

lemma rbind_eq_Inr: "rbind m f = Inr y \<longleftrightarrow> (\<exists>x. m = Inr x \<and> f x = Inr y)"
  by (cases m) auto

lemma rbind_eq_Inl: "rbind m f = Inl e \<longleftrightarrow> m = Inl e \<or> (\<exists>x. m = Inr x \<and> f x = Inl e)"
  by (cases m) auto

lemma rbind_assoc: "rbind (rbind m f) g = rbind m (\<lambda>x. rbind (f x) g)"
  by (cases m) auto

text \<open>A \<^verbatim>\<open>for\<close> loop over a list whose body may fail.\<close>

fun rfold :: "('a \<Rightarrow> 's \<Rightarrow> 'e + 's) \<Rightarrow> 'a list \<Rightarrow> 's \<Rightarrow> 'e + 's" where
  "rfold f [] s = Inr s"
| "rfold f (x # xs) s = rbind (f x s) (rfold f xs)"

lemma rfold_append: "rfold f (xs @ ys) s = rbind (rfold f xs s) (rfold f ys)"
  by (induction xs arbitrary: s) (auto simp: rbind_def split: sum.splits)

section \<open>Lists\<close>

lemma last_neq: "x \<notin> set us \<Longrightarrow> us \<noteq> [] \<Longrightarrow> last us \<noteq> x"
  using last_in_set by blast

lemma hd_neq: "x \<notin> set us \<Longrightarrow> us \<noteq> [] \<Longrightarrow> hd us \<noteq> x"
  using hd_in_set by blast

section \<open>Interleavings\<close>

text \<open>
  The states several agents reach from \<open>s0\<close> by atomic steps in any order; \<open>step s a s'\<close> is a step of
  the agent \<open>a\<close>.
\<close>

inductive reachable :: "('s \<Rightarrow> 'a \<Rightarrow> 's \<Rightarrow> bool) \<Rightarrow> 's \<Rightarrow> 's \<Rightarrow> bool" for step s0 where
  start: "reachable step s0 s0"
| move: "reachable step s0 s \<Longrightarrow> step s a s' \<Longrightarrow> reachable step s0 s'"

lemma reachable_invariant:
  assumes "reachable step s0 s" and "I s0" and "\<And>s a s'. I s \<Longrightarrow> step s a s' \<Longrightarrow> I s'"
  shows "I s"
  using assms by induction auto

text \<open>How many agents of a list have a program counter with a property.\<close>

definition tally :: "'t list \<Rightarrow> ('p \<Rightarrow> bool) \<Rightarrow> ('t \<Rightarrow> 'p) \<Rightarrow> int" where
  "tally ts P pc = sum_list (map (\<lambda>t. of_bool (P (pc t))) ts)"

lemma tally_Nil [simp]: "tally [] P pc = 0"
  by (simp add: tally_def)

lemma tally_Cons [simp]: "tally (u # ts) P pc = of_bool (P (pc u)) + tally ts P pc"
  by (simp add: tally_def)

lemma tally_other: "t \<notin> set ts \<Longrightarrow> tally ts P (pc(t := x)) = tally ts P pc"
  by (induction ts) auto

lemma tally_update:
  "distinct ts \<Longrightarrow> t \<in> set ts \<Longrightarrow>
   tally ts P (pc(t := x)) = tally ts P pc - of_bool (P (pc t)) + of_bool (P x)"
proof (induction ts)
  case (Cons u ts)
  show ?case
  proof (cases "u = t")
    case True
    then show ?thesis
      using Cons.prems tally_other [of t ts P pc x] by (simp del: fun_upd_apply add: fun_upd_same)
  next
    case False
    then show ?thesis using Cons by (simp del: fun_upd_apply add: fun_upd_other)
  qed
qed simp

lemma tally_nonneg: "0 \<le> tally ts P pc"
  by (induction ts) auto

lemma tally_pos: "t \<in> set ts \<Longrightarrow> P (pc t) \<Longrightarrow> 1 \<le> tally ts P pc"
proof (induction ts)
  case (Cons u ts)
  then show ?case using tally_nonneg [of ts P pc] by auto
qed simp

lemma tally_unique:
  assumes "tally ts P pc \<le> 1" and "t \<in> set ts" and "u \<in> set ts" and "P (pc t)" and "P (pc u)" and "distinct ts"
  shows "t = u"
  using assms
proof (induction ts)
  case (Cons w ts)
  show ?case
  proof (cases "w = t \<or> w = u")
    case True
    then show ?thesis
      using Cons.prems tally_pos [of t ts P pc] tally_pos [of u ts P pc] by auto
  next
    case False
    moreover have "tally ts P pc \<le> 1" using Cons.prems(1) by (cases "P (pc w)") simp_all
    ultimately show ?thesis using Cons by auto
  qed
qed simp

lemma tally_zero: "(\<And>t. t \<in> set ts \<Longrightarrow> \<not> P (pc t)) \<Longrightarrow> tally ts P pc = 0"
  by (induction ts) auto

section \<open>Words\<close>

text \<open>Multiples of a page size (or of any size) that differ, differ by at least the size.\<close>

lemma multiple_gap:
  fixes x y m :: int
  assumes "x mod m = 0" and "y mod m = 0" and "x < y" and "0 < m"
  shows "x + m \<le> y"
proof -
  obtain i j where ij: "x = m * i" "y = m * j" using assms(1,2) by (metis mod_0_imp_dvd dvdE)
  then have "i < j" using assms(3,4) by simp
  then have "m * (i + 1) \<le> m * j" using assms(4) by simp
  then show ?thesis using ij by (simp add: distrib_left)
qed

lemma uint_times_4: "uint (x :: u32) < 2 ^ 30 \<Longrightarrow> uint (4 * x) = 4 * uint x"
  by (simp add: uint_word_ariths)

lemma unat_bound: "unat (w :: u32) < 2 ^ 32"
  using unsigned_less [of w] by simp

lemma uint_word_of_int_small: "0 \<le> k \<Longrightarrow> k < 2 ^ 32 \<Longrightarrow> uint (word_of_int k :: u32) = k"
  by (simp add: uint_word_of_int)

lemma sint_word_of_int_small: "0 \<le> k \<Longrightarrow> k < 2 ^ 31 \<Longrightarrow> sint (word_of_int k :: u32) = k"
  by (simp add: sint_uint uint_word_of_int signed_take_bit_int_eq_self)

lemma four_div:
  assumes "0 \<le> k" and "k < 2 ^ 30"
  shows "(4 * word_of_int k :: u32) div 4 = word_of_int k"
proof -
  have "uint (word_of_int (4 * k) :: u32) = 4 * k"
    using assms by (intro uint_word_of_int_small) auto
  then have "uint ((4 * word_of_int k :: u32) div 4) = k"
    by (simp add: uint_div_distrib)
  then show ?thesis by (metis word_of_int_uint)
qed

lemma uint_div_4: "uint (w div 4 :: u32) = uint w div 4"
  by (simp add: uint_div_distrib)

end
