(* ===== verification/Heap.thy ===== *)
theory Heap
  imports Prelude
begin

text \<open>
  The kernel heap, \<^verbatim>\<open>kernel/heap.cc\<close>: one array of \<^verbatim>\<open>int\<close>s tiled by blocks. A block of \<open>n\<close> words
  at index \<open>i\<close> has the header \<open>array[i]\<close> and the footer \<open>array[i+n-1]\<close>, both \<open>n\<close> when it is
  available and \<open>-n\<close> when it is taken; an available block keeps the links of the doubly
  linked free list in its words 1 and 2. The static variables of the file are the record
  \<open>heap\<close>; the array is a function of the index, since the code indexes memory without a check.
\<close>

section \<open>State and block operations\<close>

datatype heap_panic =
    BadHeader int
  | BadFooter int
  | BadBlock int int int
  | BlockNotAvailable int
  | FreeingFree u32 int
  | OutOfMemory

record heap =
  heap_array :: "int \<Rightarrow> int"
  heap_base :: u32
  heap_len :: int
  heap_safe :: bool
  heap_avail :: int

definition heap_size :: "heap \<Rightarrow> int \<Rightarrow> int" where
  "heap_size h i = \<bar>heap_array h i\<bar>"

definition headerFromFooter :: "heap \<Rightarrow> int \<Rightarrow> int" where
  "headerFromFooter h i = i - heap_size h i + 1"

definition footerFromHeader :: "heap \<Rightarrow> int \<Rightarrow> int" where
  "footerFromHeader h i = i + heap_size h i - 1"

definition heap_sanity :: "heap \<Rightarrow> int \<Rightarrow> heap_panic + int" where
  "heap_sanity h i =
     (if heap_safe h then
        if i = 0 then Inr 0
        else if i < 0 \<or> heap_len h \<le> i then Inl (BadHeader i)
        else let footer = footerFromHeader h i in
          if footer < 0 \<or> heap_len h \<le> footer then Inl (BadFooter footer)
          else let hv = heap_array h i; fv = heap_array h footer in
            if hv \<noteq> fv then Inl (BadBlock i hv fv) else Inr i
      else Inr i)"

definition heap_left :: "heap \<Rightarrow> int \<Rightarrow> heap_panic + int" where
  "heap_left h i = heap_sanity h (headerFromFooter h (i - 1))"

definition heap_right :: "heap \<Rightarrow> int \<Rightarrow> heap_panic + int" where
  "heap_right h i = heap_sanity h (i + heap_size h i)"

definition heap_next :: "heap \<Rightarrow> int \<Rightarrow> heap_panic + int" where
  "heap_next h i = heap_sanity h (heap_array h (i + 1))"

definition heap_prev :: "heap \<Rightarrow> int \<Rightarrow> heap_panic + int" where
  "heap_prev h i = heap_sanity h (heap_array h (i + 2))"

definition heap_write :: "heap \<Rightarrow> int \<Rightarrow> int \<Rightarrow> heap" where
  "heap_write h i x = h\<lparr>heap_array := (heap_array h)(i := x)\<rparr>"

definition setNext :: "heap \<Rightarrow> int \<Rightarrow> int \<Rightarrow> heap" where
  "setNext h i x = heap_write h (i + 1) x"

definition setPrev :: "heap \<Rightarrow> int \<Rightarrow> int \<Rightarrow> heap" where
  "setPrev h i x = heap_write h (i + 2) x"

definition heap_remove :: "heap \<Rightarrow> int \<Rightarrow> heap_panic + heap" where
  "heap_remove h i =
     rbind (heap_prev h i) (\<lambda>prevIndex.
     rbind (heap_next h i) (\<lambda>nextIndex.
       let h1 = (if prevIndex = 0 then h\<lparr>heap_avail := nextIndex\<rparr>
                 else setNext h prevIndex nextIndex)
       in Inr (if nextIndex \<noteq> 0 then setPrev h1 nextIndex prevIndex else h1)))"

definition makeAvail :: "heap \<Rightarrow> int \<Rightarrow> int \<Rightarrow> heap" where
  "makeAvail h i ints =
     (let h1 = heap_write h i ints;
          h2 = heap_write h1 (footerFromHeader h1 i) ints;
          h3 = setNext h2 i (heap_avail h2);
          h4 = setPrev h3 i 0;
          h5 = (if heap_avail h4 \<noteq> 0 then setPrev h4 (heap_avail h4) i else h4)
      in h5\<lparr>heap_avail := i\<rparr>)"

definition makeTaken :: "heap \<Rightarrow> int \<Rightarrow> int \<Rightarrow> heap" where
  "makeTaken h i ints =
     (let h1 = heap_write h i (- ints)
      in heap_write h1 (footerFromHeader h1 i) (- ints))"

definition heap_isAvail :: "heap \<Rightarrow> int \<Rightarrow> bool" where
  "heap_isAvail h i \<longleftrightarrow> 0 < heap_array h i"

definition heap_isTaken :: "heap \<Rightarrow> int \<Rightarrow> bool" where
  "heap_isTaken h i \<longleftrightarrow> heap_array h i < 0"

section \<open>malloc, free, operator new and heapInit\<close>

text \<open>
  Pointers are addresses: \<open>&array[i]\<close> is \<open>base + 4 * i\<close> modulo \<open>2^32\<close>. \<^verbatim>\<open>malloc\<close> computes the
  number of words with the unsigned arithmetic of \<^verbatim>\<open>size_t\<close>, which wraps. Both functions run
  between the lock and the unlock of \<^verbatim>\<open>theLock\<close>, so each is one atomic operation here.
\<close>

definition heap_addr :: "heap \<Rightarrow> int \<Rightarrow> u32" where
  "heap_addr h i = heap_base h + 4 * word_of_int i"

definition heap_index :: "heap \<Rightarrow> u32 \<Rightarrow> int" where
  "heap_index h p = sint ((p - heap_base h) div 4 - 1)"

definition malloc_ints :: "u32 \<Rightarrow> int" where
  "malloc_ints bytes =
     (let ints = sint ((bytes + 3) div 4 + 2) in if ints < 4 then 4 else ints)"

partial_function (option) malloc_search ::
  "heap \<Rightarrow> int \<Rightarrow> int \<Rightarrow> int \<Rightarrow> int \<Rightarrow> int \<Rightarrow> (heap_panic + int \<times> int) option" where
  "malloc_search h ints p mx it countDown =
     (if p = 0 then Some (Inr (mx, it))
      else if \<not> heap_isAvail h p then Some (Inl (BlockNotAvailable p))
      else let sz = heap_size h p in
        if ints \<le> sz then
          let mx' = (if sz < mx then sz else mx);
              it' = (if sz < mx then p else it);
              cd' = countDown - 1
          in if cd' = 0 then Some (Inr (mx', it'))
             else (case heap_next h p of
                     Inl e \<Rightarrow> Some (Inl e)
                   | Inr q \<Rightarrow> malloc_search h ints q mx' it' cd')
        else (case heap_next h p of
                Inl e \<Rightarrow> Some (Inl e)
              | Inr q \<Rightarrow> malloc_search h ints q mx it countDown))"

definition malloc_take :: "heap \<Rightarrow> int \<Rightarrow> int \<Rightarrow> int \<Rightarrow> heap_panic + heap \<times> u32" where
  "malloc_take h ints mx it =
     (if it \<noteq> 0 then
        rbind (heap_remove h it) (\<lambda>h1.
          let extra = mx - ints;
              h2 = (if 4 \<le> extra then makeAvail (makeTaken h1 it ints) (it + ints) extra
                    else makeTaken h1 it mx)
          in Inr (h2, heap_addr h2 (it + 1)))
      else Inr (h, 0))"

definition malloc :: "heap \<Rightarrow> u32 \<Rightarrow> (heap_panic + heap \<times> u32) option" where
  "malloc h bytes =
     (if bytes = 0 then Some (Inr (h, heap_base h))
      else let ints = malloc_ints bytes in
        map_option (\<lambda>r. rbind r (\<lambda>(mx, it). malloc_take h ints mx it))
          (malloc_search h ints (heap_avail h) 0x7FFFFFFF 0 20))"

definition heap_free :: "heap \<Rightarrow> u32 \<Rightarrow> heap_panic + heap" where
  "heap_free h p =
     (if p = 0 then Inr h
      else if p = heap_base h then Inr h
      else let idx = heap_index h p in
        rbind (heap_sanity h idx) (\<lambda>_.
          if \<not> heap_isTaken h idx then Inl (FreeingFree p idx)
          else let sz = heap_size h idx in
            rbind (heap_left h idx) (\<lambda>leftIndex.
            rbind (heap_right h idx) (\<lambda>rightIndex.
            rbind (if heap_isAvail h leftIndex
                   then rbind (heap_remove h leftIndex)
                          (\<lambda>h1. Inr (h1, leftIndex, sz + heap_size h1 leftIndex))
                   else Inr (h, idx, sz)) (\<lambda>(h1, idx1, sz1).
            rbind (if heap_isAvail h1 rightIndex
                   then rbind (heap_remove h1 rightIndex)
                          (\<lambda>h2. Inr (h2, sz1 + heap_size h2 rightIndex))
                   else Inr (h1, sz1)) (\<lambda>(h2, sz2).
              Inr (makeAvail h2 idx1 sz2)))))))"

definition operator_new :: "heap \<Rightarrow> u32 \<Rightarrow> (heap_panic + heap \<times> u32) option" where
  "operator_new h sz =
     map_option (\<lambda>r. rbind r (\<lambda>(h1, p). if p = 0 then Inl OutOfMemory else Inr (h1, p)))
       (malloc h sz)"

text \<open>
  \<open>lock_bytes\<close> is \<^verbatim>\<open>sizeof(BlockingLock)\<close>, which the compiler fixes; the memory the heap is laid
  over is \<open>m\<close>. The static \<open>safe\<close> is 0 in the source; it is an argument so that the facts
  below also cover a build with the sanity checks on.
\<close>

definition heapInit_layout :: "(int \<Rightarrow> int) \<Rightarrow> bool \<Rightarrow> u32 \<Rightarrow> u32 \<Rightarrow> heap" where
  "heapInit_layout m sf base bytes =
     (let h0 = \<lparr>heap_array = m, heap_base = base, heap_len = uint (bytes div 4),
                heap_safe = sf, heap_avail = 0\<rparr>;
          h1 = makeTaken h0 0 2;
          h2 = makeAvail h1 2 (heap_len h1 - 4)
      in makeTaken h2 (heap_len h2 - 2) 2)"

definition heapInit ::
  "(int \<Rightarrow> int) \<Rightarrow> bool \<Rightarrow> u32 \<Rightarrow> u32 \<Rightarrow> u32 \<Rightarrow> (heap_panic + heap \<times> u32) option" where
  "heapInit m sf base bytes lock_bytes =
     operator_new (heapInit_layout m sf base bytes) lock_bytes"

end
