(* ===== verification/Heap_Layout.thy ===== *)
theory Heap_Layout
  imports Heap
begin

text \<open>
  Abstract views of the heap array: a list of signed block sizes that tiles an interval of
  the array, and the doubly linked list threaded through the available blocks. The lemmas
  here say which words each view reads, so that a write elsewhere leaves it alone.
\<close>

section \<open>Tilings\<close>

definition width :: "int list \<Rightarrow> int" where
  "width vs = sum_list (map abs vs)"

lemma width_simps [simp]:
  "width [] = 0"
  "width (v # vs) = \<bar>v\<bar> + width vs"
  "width (xs @ ys) = width xs + width ys"
  by (simp_all add: width_def)

lemma width_nonneg: "0 \<le> width vs"
  by (induction vs) auto

fun tiles :: "(int \<Rightarrow> int) \<Rightarrow> int \<Rightarrow> int list \<Rightarrow> bool" where
  "tiles a i [] \<longleftrightarrow> True"
| "tiles a i (v # vs) \<longleftrightarrow> a i = v \<and> a (i + \<bar>v\<bar> - 1) = v \<and> tiles a (i + \<bar>v\<bar>) vs"

text \<open>The words that hold a header or a footer, and the headers of the available blocks.\<close>

fun edges :: "int \<Rightarrow> int list \<Rightarrow> int set" where
  "edges i [] = {}"
| "edges i (v # vs) = {i, i + \<bar>v\<bar> - 1} \<union> edges (i + \<bar>v\<bar>) vs"

fun free_at :: "int \<Rightarrow> int list \<Rightarrow> int set" where
  "free_at i [] = {}"
| "free_at i (v # vs) = (if 0 < v then {i} else {}) \<union> free_at (i + \<bar>v\<bar>) vs"

fun hdrs :: "int \<Rightarrow> int list \<Rightarrow> (int \<times> int) list" where
  "hdrs i [] = []"
| "hdrs i (v # vs) = (i, v) # hdrs (i + \<bar>v\<bar>) vs"

definition big :: "int list \<Rightarrow> bool" where
  "big vs \<longleftrightarrow> (\<forall>v \<in> set vs. 4 \<le> \<bar>v\<bar>)"

lemma big_simps [simp]:
  "big []"
  "big (v # vs) \<longleftrightarrow> 4 \<le> \<bar>v\<bar> \<and> big vs"
  "big (xs @ ys) \<longleftrightarrow> big xs \<and> big ys"
  by (auto simp: big_def)

lemma tiles_append [simp]:
  "tiles a i (xs @ ys) \<longleftrightarrow> tiles a i xs \<and> tiles a (i + width xs) ys"
  by (induction xs arbitrary: i) (auto simp: add.assoc)

lemma free_at_append [simp]:
  "free_at i (xs @ ys) = free_at i xs \<union> free_at (i + width xs) ys"
  by (induction xs arbitrary: i) (auto simp: add.assoc)

lemma hdrs_append [simp]:
  "hdrs i (xs @ ys) = hdrs i xs @ hdrs (i + width xs) ys"
  by (induction xs arbitrary: i) (auto simp: add.assoc)

lemma edges_append [simp]:
  "edges i (xs @ ys) = edges i xs \<union> edges (i + width xs) ys"
  by (induction xs arbitrary: i) (auto simp: add.assoc)

lemma tiles_cong: "(\<And>k. k \<in> edges i vs \<Longrightarrow> a k = b k) \<Longrightarrow> tiles a i vs = tiles b i vs"
  by (induction vs arbitrary: i) auto

lemma edges_bounds: "k \<in> edges i vs \<Longrightarrow> 0 \<notin> set vs \<Longrightarrow> i \<le> k \<and> k < i + width vs"
proof (induction vs arbitrary: i)
  case (Cons v vs)
  then consider "k = i" | "k = i + \<bar>v\<bar> - 1" | "k \<in> edges (i + \<bar>v\<bar>) vs" by auto
  then show ?case
  proof cases
    case 3
    then show ?thesis using Cons.IH [of "i + \<bar>v\<bar>"] Cons.prems by auto
  qed (use Cons.prems width_nonneg [of vs] in auto)
qed simp

lemma free_at_bounds: "x \<in> free_at i vs \<Longrightarrow> big vs \<Longrightarrow> i \<le> x \<and> x + 4 \<le> i + width vs"
proof (induction vs arbitrary: i)
  case (Cons v vs)
  then consider "x = i" | "x \<in> free_at (i + \<bar>v\<bar>) vs" by (auto split: if_splits)
  then show ?case
  proof cases
    case 2
    then show ?thesis using Cons.IH [of "i + \<bar>v\<bar>"] Cons.prems by auto
  qed (use Cons.prems width_nonneg [of vs] in auto)
qed simp

lemma hdrs_bounds: "(x, v) \<in> set (hdrs i vs) \<Longrightarrow> i \<le> x \<and> x + \<bar>v\<bar> \<le> i + width vs"
proof (induction vs arbitrary: i)
  case (Cons w vs)
  then consider "x = i" "v = w" | "(x, v) \<in> set (hdrs (i + \<bar>w\<bar>) vs)" by auto
  then show ?case
  proof cases
    case 2
    then show ?thesis using Cons.IH [of "i + \<bar>w\<bar>"] by auto
  qed (use width_nonneg [of vs] in auto)
qed simp

lemma hdrs_split:
  "(x, v) \<in> set (hdrs i vs) \<Longrightarrow> \<exists>xs ys. vs = xs @ v # ys \<and> x = i + width xs"
proof (induction vs arbitrary: i)
  case (Cons w vs)
  then consider "x = i" "v = w" | "(x, v) \<in> set (hdrs (i + \<bar>w\<bar>) vs)" by auto
  then show ?case
  proof cases
    case 1
    then show ?thesis by (intro exI [of _ "[]"] exI [of _ vs]) simp
  next
    case 2
    then obtain xs ys where "vs = xs @ v # ys" "x = i + \<bar>w\<bar> + width xs"
      using Cons.IH by blast
    then show ?thesis by (intro exI [of _ "w # xs"] exI [of _ ys]) simp
  qed
qed simp

lemma free_at_hdrs: "x \<in> free_at i vs \<longleftrightarrow> (\<exists>v > 0. (x, v) \<in> set (hdrs i vs))"
  by (induction vs arbitrary: i) auto

lemma free_at_split:
  assumes "x \<in> free_at i vs"
  obtains xs v ys where "vs = xs @ v # ys" "0 < v" "x = i + width xs"
  using assms hdrs_split unfolding free_at_hdrs by blast

lemma tiles_hdrs:
  "tiles a i vs \<Longrightarrow> (x, v) \<in> set (hdrs i vs) \<Longrightarrow> a x = v \<and> a (x + \<bar>v\<bar> - 1) = v"
  by (induction vs arbitrary: i) auto

text \<open>The link words of an available block are inside it, never on an edge.\<close>

lemma big_nonzero: "big vs \<Longrightarrow> 0 \<notin> set vs"
  by (auto simp: big_def)

lemma link_not_edge:
  "x \<in> free_at i vs \<Longrightarrow> big vs \<Longrightarrow> x + 1 \<notin> edges i vs \<and> x + 2 \<notin> edges i vs"
proof (induction vs arbitrary: i)
  case (Cons v vs)
  have z: "0 \<notin> set vs" using Cons.prems big_nonzero by simp
  show ?case
  proof (cases "x \<in> free_at (i + \<bar>v\<bar>) vs")
    case True
    then have "i + \<bar>v\<bar> \<le> x" using Cons.prems free_at_bounds by fastforce
    with True Cons show ?thesis by auto
  next
    case False
    then have "x = i" using Cons.prems by (auto split: if_splits)
    moreover have "x + 1 \<notin> edges (i + \<bar>v\<bar>) vs" "x + 2 \<notin> edges (i + \<bar>v\<bar>) vs"
      using edges_bounds [OF _ z] Cons.prems \<open>x = i\<close> by fastforce+
    ultimately show ?thesis using Cons.prems by auto
  qed
qed simp

lemma free_at_spaced:
  "x \<in> free_at i vs \<Longrightarrow> y \<in> free_at i vs \<Longrightarrow> big vs \<Longrightarrow> x \<noteq> y \<Longrightarrow> 4 \<le> \<bar>x - y\<bar>"
proof (induction vs arbitrary: i)
  case (Cons v vs)
  let ?j = "i + \<bar>v\<bar>"
  have big: "big vs" "4 \<le> \<bar>v\<bar>" using Cons.prems by simp_all
  have in_or: "z = i \<or> z \<in> free_at ?j vs" if "z \<in> free_at i (v # vs)" for z
    using that by (auto split: if_splits)
  have far: "i + 4 \<le> z" if "z \<in> free_at ?j vs" for z
    using free_at_bounds [OF that big(1)] big(2) by linarith
  consider "x \<in> free_at ?j vs" "y \<in> free_at ?j vs" | "x = i" "y \<in> free_at ?j vs"
    | "y = i" "x \<in> free_at ?j vs"
    using in_or [OF Cons.prems(1)] in_or [OF Cons.prems(2)] Cons.prems(4) by blast
  then show ?case
  proof cases
    case 1
    then show ?thesis using Cons.IH big Cons.prems(4) by blast
  next
    case 2
    then show ?thesis using far [OF 2(2)] by linarith
  next
    case 3
    then show ?thesis using far [OF 3(2)] by linarith
  qed
qed simp

section \<open>The free list\<close>

fun dll :: "(int \<Rightarrow> int) \<Rightarrow> int \<Rightarrow> int \<Rightarrow> int list \<Rightarrow> bool" where
  "dll a q p [] \<longleftrightarrow> p = 0"
| "dll a q p (x # xs) \<longleftrightarrow> p = x \<and> x \<noteq> 0 \<and> a (x + 2) = q \<and> dll a x (a (x + 1)) xs"

definition spaced :: "int set \<Rightarrow> bool" where
  "spaced S \<longleftrightarrow> (\<forall>x \<in> S. \<forall>y \<in> S. x \<noteq> y \<longrightarrow> 4 \<le> \<bar>x - y\<bar>)"

lemma spaced_subset: "spaced S \<Longrightarrow> T \<subseteq> S \<Longrightarrow> spaced T"
  by (auto simp: spaced_def)

lemma spaced_free_at: "big vs \<Longrightarrow> spaced (free_at i vs)"
  unfolding spaced_def using free_at_spaced by blast

lemma dll_cong:
  "(\<And>x. x \<in> set xs \<Longrightarrow> a (x + 1) = b (x + 1) \<and> a (x + 2) = b (x + 2)) \<Longrightarrow>
   dll a q p xs = dll b q p xs"
  by (induction xs arbitrary: q p) auto

lemma dll_head: "dll a q p xs \<Longrightarrow> p = (if xs = [] then 0 else hd xs)"
  by (cases xs) auto

lemma dll_nonzero: "dll a q p xs \<Longrightarrow> 0 \<notin> set xs"
  by (induction xs arbitrary: q p) auto

lemma dll_links:
  "dll a q p (us @ x # ws) \<Longrightarrow>
     a (x + 2) = (if us = [] then q else last us) \<and>
     a (x + 1) = (if ws = [] then 0 else hd ws) \<and>
     dll a x (a (x + 1)) ws"
proof (induction us arbitrary: q p)
  case Nil
  then have "dll a x (a (x + 1)) ws" "a (x + 2) = q" by simp_all
  then show ?case using dll_head [of a x "a (x + 1)" ws] by simp
next
  case (Cons u us)
  then have "dll a u (a (u + 1)) (us @ x # ws)" by simp
  from Cons.IH [OF this] show ?case by (metis last.simps append_Cons list.distinct(1))
qed

text \<open>The array and the head of the list after \<open>x\<close> is unlinked between \<open>us\<close> and \<open>ws\<close>.\<close>

definition unlinked :: "(int \<Rightarrow> int) \<Rightarrow> int \<Rightarrow> int list \<Rightarrow> int list \<Rightarrow> int \<Rightarrow> int" where
  "unlinked a q us ws =
     (let n = (if ws = [] then 0 else hd ws);
          p = (if us = [] then q else last us);
          a1 = (if us = [] then a else a(p + 1 := n))
      in if ws = [] then a1 else a1(n + 2 := p))"

lemma unlinked_same:
  "(us \<noteq> [] \<Longrightarrow> k \<noteq> last us + 1) \<Longrightarrow> (ws \<noteq> [] \<Longrightarrow> k \<noteq> hd ws + 2) \<Longrightarrow>
   unlinked a q us ws k = a k"
  by (simp add: unlinked_def Let_def)

lemma spacedD: "spaced S \<Longrightarrow> x \<in> S \<Longrightarrow> y \<in> S \<Longrightarrow> x \<noteq> y \<Longrightarrow> 4 \<le> \<bar>x - y\<bar>"
  by (simp add: spaced_def)

lemma dll_unlink_head:
  assumes "dll a x n ws" and "spaced (set ws)" and "distinct ws"
  shows "dll (if ws = [] then a else a(hd ws + 2 := q)) q n ws"
proof (cases ws)
  case (Cons w ws')
  let ?b = "a(w + 2 := q)"
  have "?b (y + 1) = a (y + 1) \<and> ?b (y + 2) = a (y + 2)" if "y \<in> set ws'" for y
  proof -
    have "4 \<le> \<bar>y - w\<bar>"
      using that assms(2,3) Cons spacedD [of "set ws" y w] by auto
    then show ?thesis by auto
  qed
  then have "dll ?b w (a (w + 1)) ws' = dll a w (a (w + 1)) ws'" by (intro dll_cong [symmetric]) simp
  then show ?thesis using assms(1) Cons by auto
qed (use assms in simp)

lemma dll_unlink:
  assumes "dll a q p (us @ x # ws)" and "distinct (us @ x # ws)" and "spaced (set (us @ x # ws))"
  shows "dll (unlinked a q us ws) q (if us = [] then a (x + 1) else p) (us @ ws)"
  using assms
proof (induction us arbitrary: q p)
  case Nil
  have "dll a x (a (x + 1)) ws" using Nil.prems by simp
  moreover have "spaced (set ws)" using Nil.prems spaced_subset by fastforce
  ultimately have "dll (if ws = [] then a else a(hd ws + 2 := q)) q (a (x + 1)) ws"
    using Nil.prems by (intro dll_unlink_head) auto
  then show ?case by (simp add: unlinked_def Let_def split: if_splits)
next
  case (Cons u us)
  let ?n = "if ws = [] then 0 else hd ws"
  have p: "p = u" "u \<noteq> 0" "a (u + 2) = q" and rest: "dll a u (a (u + 1)) (us @ x # ws)"
    using Cons.prems by auto
  have far: "4 \<le> \<bar>u - y\<bar>" if "y \<in> set (us @ ws)" for y
    using that Cons.prems spacedD [of "set ((u # us) @ x # ws)" u y] by auto
  show ?case
  proof (cases us)
    case Nil
    have links: "a (x + 1) = ?n" "dll a x ?n ws"
      using dll_links [OF Cons.prems(1)] Nil by auto
    let ?a1 = "a(u + 1 := ?n)"
    have "?a1 (y + 1) = a (y + 1) \<and> ?a1 (y + 2) = a (y + 2)" if "y \<in> set ws" for y
      using far [of y] that by auto
    then have "dll ?a1 x ?n ws" using links(2) dll_cong [of ws a ?a1] by auto
    then have "dll (if ws = [] then ?a1 else ?a1(hd ws + 2 := u)) u ?n ws"
      using Cons.prems spaced_subset [OF Cons.prems(3), of "set ws"]
      by (intro dll_unlink_head) auto
    moreover have "u + 2 \<noteq> hd ws + 2" "u + 1 \<noteq> hd ws + 2" if "ws \<noteq> []"
      using far [of "hd ws"] that by auto
    ultimately show ?thesis using Nil p by (auto simp: unlinked_def Let_def)
  next
    case (Cons u' us')
    have "dll (unlinked a u us ws) u (a (u + 1)) (us @ ws)"
      using Cons.IH [OF rest] Cons.prems Cons spaced_subset [OF Cons.prems(3), of "set (us @ x # ws)"]
      by auto
    moreover have "unlinked a u us ws = unlinked a q (u # us) ws"
      using Cons by (auto simp: unlinked_def Let_def)
    moreover have "last us \<in> set (us @ ws)" using Cons by simp
    then have "unlinked a q (u # us) ws (u + 1) = a (u + 1)"
        "unlinked a q (u # us) ws (u + 2) = a (u + 2)"
      using far [of "last us"] far [of "hd ws"] Cons
      by (intro unlinked_same; force)+
    ultimately show ?thesis using p by simp
  qed
qed

text \<open>A block pushed on the front.\<close>

lemma dll_push:
  assumes "dll a 0 p xs" and "\<forall>y \<in> set xs. 4 \<le> \<bar>i - y\<bar>" and "distinct xs" and "spaced (set xs)"
    and "i \<noteq> 0"
    and "b (i + 1) = p" and "b (i + 2) = 0" and "xs \<noteq> [] \<Longrightarrow> b (hd xs + 2) = i"
    and "\<And>y. y \<in> set xs \<Longrightarrow> b (y + 1) = a (y + 1) \<and> (y = hd xs \<or> b (y + 2) = a (y + 2))"
  shows "dll b 0 i (i # xs)"
proof (cases xs)
  case (Cons w ws)
  have "dll a w (a (w + 1)) ws" using assms(1) Cons by simp
  moreover have "\<And>y. y \<in> set ws \<Longrightarrow> b (y + 1) = a (y + 1) \<and> b (y + 2) = a (y + 2)"
    using assms(3,9) Cons by auto
  ultimately have "dll b w (a (w + 1)) ws" using dll_cong [of ws a b] by auto
  then show ?thesis using assms Cons by auto
qed (use assms in simp)

end
