(* ===== verification/Heap_Correct.thy ===== *)
theory Heap_Correct
  imports Heap_Layout
begin

text \<open>
  Correctness of the kernel heap: the representation invariant, what each internal operation
  does to it, and the specifications of \<^verbatim>\<open>malloc\<close>, \<^verbatim>\<open>free\<close> and \<^verbatim>\<open>heapInit\<close> over the blocks of the heap.
\<close>

section \<open>The representation invariant\<close>

text \<open>
  Between the two taken sentinels of two words, the array is tiled by blocks of at least four
  words, each with its size in its header and its footer; the free list runs through exactly
  the available blocks; no two available blocks touch.
\<close>

definition all_blocks :: "int list \<Rightarrow> int list" where
  "all_blocks ms = -2 # ms @ [-2]"

definition heap_layout :: "heap \<Rightarrow> int list \<Rightarrow> bool" where
  "heap_layout h ms \<longleftrightarrow>
     tiles (heap_array h) 0 (all_blocks ms) \<and> heap_len h = width ms + 4 \<and> big ms"

definition free_list :: "heap \<Rightarrow> int list \<Rightarrow> int list \<Rightarrow> bool" where
  "free_list h ms fl \<longleftrightarrow>
     dll (heap_array h) 0 (heap_avail h) fl \<and> distinct fl \<and> set fl = free_at 2 ms"

definition coalesced :: "int list \<Rightarrow> bool" where
  "coalesced ms \<longleftrightarrow> successively (\<lambda>v w. \<not> (0 < v \<and> 0 < w)) ms"

definition heap_rep :: "heap \<Rightarrow> int list \<Rightarrow> int list \<Rightarrow> bool" where
  "heap_rep h ms fl \<longleftrightarrow>
     heap_layout h ms \<and> free_list h ms fl \<and> coalesced ms \<and>
     heap_base h \<noteq> 0 \<and> uint (heap_base h) + 4 * heap_len h \<le> 2 ^ 32"

definition links :: "int set \<Rightarrow> int set" where
  "links S = (\<lambda>x. x + 1) ` S \<union> (\<lambda>x. x + 2) ` S"

lemma links_iff: "k \<in> links S \<longleftrightarrow> k - 1 \<in> S \<or> k - 2 \<in> S"
  by (force simp: links_def)

lemma links_Un: "links (S \<union> T) = links S \<union> links T"
  by (auto simp: links_iff)

lemma links_not_edges: "big vs \<Longrightarrow> k \<in> edges i vs \<Longrightarrow> k \<notin> links (free_at i vs)"
  using link_not_edge by (fastforce simp: links_iff)

lemma edges_all: 
  "edges 0 (all_blocks ms) = {0, 1} \<union> edges 2 ms \<union> {2 + width ms, 3 + width ms}"
  by (auto simp: all_blocks_def)

lemma links_bounds: "big vs \<Longrightarrow> k \<in> links (free_at i vs) \<Longrightarrow> i < k \<and> k + 1 < i + width vs"
  using free_at_bounds by (fastforce simp: links_iff)

lemma links_not_all: 
  assumes "big ms" and "k \<in> edges 0 (all_blocks ms)"
  shows "k \<notin> links (free_at 2 ms)"
proof
  assume k: "k \<in> links (free_at 2 ms)"
  then have "k \<notin> edges 2 ms" using links_not_edges assms(1) by blast
  with assms(2) links_bounds [OF assms(1) k] show False by (auto simp: edges_all)
qed

lemma layout_frame:
  assumes "heap_layout h ms" and "heap_len h' = heap_len h"
    and "\<And>k. k \<notin> links (free_at 2 ms) \<Longrightarrow> heap_array h' k = heap_array h k"
  shows "heap_layout h' ms"
proof -
  have "heap_array h k = heap_array h' k" if "k \<in> edges 0 (all_blocks ms)" for k
    using links_not_all [OF _ that] assms by (auto simp: heap_layout_def)
  then have "tiles (heap_array h) 0 (all_blocks ms) = tiles (heap_array h') 0 (all_blocks ms)"
    by (rule tiles_cong)
  then show ?thesis using assms(1,2) unfolding heap_layout_def by simp
qed

section \<open>The internal operations\<close>

lemma heap_block:
  assumes "heap_layout h ms" and "(x, v) \<in> set (hdrs 0 (all_blocks ms))"
  shows "heap_array h x = v" and "heap_array h (x + \<bar>v\<bar> - 1) = v"
    and "0 \<le> x" and "x + \<bar>v\<bar> \<le> heap_len h" and "2 \<le> \<bar>v\<bar>"
proof -
  have t: "tiles (heap_array h) 0 (all_blocks ms)" and w: "heap_len h = width (all_blocks ms)"
    and b: "big ms" using assms(1) by (simp_all add: heap_layout_def all_blocks_def)
  show "heap_array h x = v" "heap_array h (x + \<bar>v\<bar> - 1) = v"
    using tiles_hdrs [OF t assms(2)] by auto
  show "0 \<le> x" "x + \<bar>v\<bar> \<le> heap_len h" using hdrs_bounds [OF assms(2)] w by auto
  have "v \<in> set (all_blocks ms)" using hdrs_split [OF assms(2)] by auto
  then show "2 \<le> \<bar>v\<bar>" using b by (auto simp: all_blocks_def big_def)
qed

text \<open>The sanity check accepts every header of the layout, so it never panics with \<^verbatim>\<open>safe\<close> on.\<close>

lemma sanity_header:
  assumes "heap_layout h ms" and "(x, v) \<in> set (hdrs 0 (all_blocks ms))"
  shows "heap_sanity h x = Inr x"
  using heap_block [OF assms]
  by (auto simp: heap_sanity_def footerFromHeader_def heap_size_def Let_def)

lemma sanity_zero [simp]: "heap_sanity h 0 = Inr 0"
  by (simp add: heap_sanity_def)

lemma free_header:
  assumes "x \<in> free_at 2 ms"
  obtains v where "0 < v" and "(x, v) \<in> set (hdrs 0 (all_blocks ms))"
proof -
  obtain v where "0 < v" "(x, v) \<in> set (hdrs 2 ms)"
    using assms unfolding free_at_hdrs by blast
  then show ?thesis using that by (auto simp: all_blocks_def)
qed

lemma sanity_free: "heap_layout h ms \<Longrightarrow> x \<in> free_at 2 ms \<Longrightarrow> heap_sanity h x = Inr x"
  by (erule free_header) (rule sanity_header)

lemma free_isAvail: "heap_layout h ms \<Longrightarrow> x \<in> free_at 2 ms \<Longrightarrow> heap_isAvail h x"
proof -
  assume lay: "heap_layout h ms" and x: "x \<in> free_at 2 ms"
  obtain v where v: "0 < v" "(x, v) \<in> set (hdrs 0 (all_blocks ms))" using free_header [OF x] .
  show ?thesis using heap_block(1) [OF lay v(2)] v(1) by (simp add: heap_isAvail_def)
qed

lemma heap_remove_eq:
  assumes lay: "heap_layout h ms"
    and dll: "dll (heap_array h) 0 (heap_avail h) (us @ x # ws)"
    and sub: "set (us @ x # ws) \<subseteq> free_at 2 ms"
  shows "heap_remove h x =
    Inr (h\<lparr>heap_array := unlinked (heap_array h) 0 us ws,
           heap_avail := (if us = [] then heap_array h (x + 1) else heap_avail h)\<rparr>)"
proof -
  have nz: "0 \<notin> set (us @ x # ws)" using dll_nonzero [OF dll] .
  have links: "heap_array h (x + 2) = (if us = [] then 0 else last us)"
      "heap_array h (x + 1) = (if ws = [] then 0 else hd ws)"
    using dll_links [OF dll] by auto
  have "heap_prev h x = Inr (if us = [] then 0 else last us)"
    using links sub sanity_free [OF lay, of "last us"] last_in_set [of us]
    by (auto simp: heap_prev_def simp del: last_in_set)
  moreover have "heap_next h x = Inr (if ws = [] then 0 else hd ws)"
    using links sub sanity_free [OF lay, of "hd ws"] hd_in_set [of ws]
    by (auto simp: heap_next_def simp del: hd_in_set)
  moreover have "us \<noteq> [] \<Longrightarrow> last us \<noteq> 0" "ws \<noteq> [] \<Longrightarrow> hd ws \<noteq> 0"
    using nz last_neq [of 0 us] hd_neq [of 0 ws] by auto
  ultimately show ?thesis
    using links
    by (auto simp: heap_remove_def Let_def unlinked_def setNext_def setPrev_def heap_write_def)
qed

text \<open>
  Unlinking keeps the layout, and changes link words of available blocks only.
\<close>

lemma heap_remove_spec:
  assumes lay: "heap_layout h ms"
    and dll: "dll (heap_array h) 0 (heap_avail h) (us @ x # ws)"
    and dist: "distinct (us @ x # ws)" and sub: "set (us @ x # ws) \<subseteq> free_at 2 ms"
  obtains h' where "heap_remove h x = Inr h'" and "heap_layout h' ms"
    and "dll (heap_array h') 0 (heap_avail h') (us @ ws)"
    and "\<And>k. k \<notin> links (set (us @ ws)) \<Longrightarrow> heap_array h' k = heap_array h k"
    and "heap_len h' = heap_len h" and "heap_base h' = heap_base h" and "heap_safe h' = heap_safe h"
proof -
  let ?h' = "h\<lparr>heap_array := unlinked (heap_array h) 0 us ws,
           heap_avail := (if us = [] then heap_array h (x + 1) else heap_avail h)\<rparr>"
  have big: "big ms" using lay by (simp add: heap_layout_def)
  have same: "heap_array ?h' k = heap_array h k" if "k \<notin> links (set (us @ ws))" for k
    using that by (auto simp: links_iff intro!: unlinked_same)
  have "links (set (us @ ws)) \<subseteq> links (free_at 2 ms)" using sub by (auto simp: links_iff)
  then have "heap_layout ?h' ms" using same by (intro layout_frame [OF lay]) auto
  moreover have "dll (heap_array ?h') 0 (heap_avail ?h') (us @ ws)"
    using dll_unlink [OF dll dist] spaced_subset [OF spaced_free_at [OF big] sub] by simp
  ultimately show ?thesis
    using that [OF heap_remove_eq [OF lay dll sub]] same by simp
qed

lemma makeTaken_eq:
  "0 < n \<Longrightarrow> makeTaken h i n =
     h\<lparr>heap_array := (heap_array h)(i := - n, i + n - 1 := - n)\<rparr>"
  by (simp add: makeTaken_def Let_def heap_write_def footerFromHeader_def heap_size_def)

lemma makeAvail_eq:
  "0 < n \<Longrightarrow> makeAvail h i n =
     h\<lparr>heap_array :=
         (let b = (heap_array h)(i := n, i + n - 1 := n, i + 1 := heap_avail h, i + 2 := 0)
          in if heap_avail h = 0 then b else b(heap_avail h + 2 := i)),
       heap_avail := i\<rparr>"
  by (simp add: makeAvail_def Let_def heap_write_def footerFromHeader_def heap_size_def
      setNext_def setPrev_def)

text \<open>
  Turning the \<open>n\<close> words at \<open>i\<close>, between the tilings \<open>as\<close> and \<open>cs\<close>, into an available block.
\<close>

lemma makeAvail_spec:
  assumes left: "tiles (heap_array h) 0 (-2 # as)"
    and right: "tiles (heap_array h) (i + n) (cs @ [-2])"
    and i: "i = 2 + width as" and n: "4 \<le> n" and big: "big as" "big cs"
    and len: "heap_len h = width as + n + width cs + 4"
    and dll: "dll (heap_array h) 0 (heap_avail h) fl" and dist: "distinct fl"
    and fl: "set fl = free_at 2 as \<union> free_at (i + n) cs"
  defines "h' \<equiv> makeAvail h i n"
  shows "heap_layout h' (as @ n # cs)" and "free_list h' (as @ n # cs) (i # fl)"
    and "\<And>k. k < i \<or> i + n \<le> k \<Longrightarrow> k \<notin> links (set fl) \<Longrightarrow> heap_array h' k = heap_array h k"
proof -
  let ?a = "heap_array h" and ?b = "heap_array h'"
  have far: "y + 4 \<le> i \<or> i + n \<le> y" if "y \<in> set fl" for y
    using that fl i free_at_bounds [OF _ big(1), of y 2] free_at_bounds [OF _ big(2), of y "i + n"]
    by auto
  have avail: "heap_avail h = (if fl = [] then 0 else hd fl)" using dll_head [OF dll] .
  have nz: "0 \<notin> set fl" using dll_nonzero [OF dll] .
  have head: "heap_avail h \<in> set fl" "heap_avail h = hd fl" if "heap_avail h \<noteq> 0"
    using that avail by (auto split: if_splits)
  have b: "?b = (let b = ?a(i := n, i + n - 1 := n, i + 1 := heap_avail h, i + 2 := 0)
          in if heap_avail h = 0 then b else b(heap_avail h + 2 := i))"
    and h': "heap_len h' = heap_len h" "heap_avail h' = i"
    using n by (simp_all add: h'_def makeAvail_eq)
  have fa: "heap_avail h = 0 \<or> heap_avail h + 4 \<le> i \<or> i + n \<le> heap_avail h"
    using far [OF head(1)] by blast
  show outside: "?b k = ?a k" if "k < i \<or> i + n \<le> k" "k \<notin> links (set fl)" for k
    using that head(1) n by (auto simp: b Let_def links_iff)
  have block: "?b i = n" "?b (i + n - 1) = n" "?b (i + 1) = heap_avail h" "?b (i + 2) = 0"
    using fa n by (auto simp: b Let_def)
  have w: "0 \<le> width as" "0 \<le> width cs" by (simp_all add: width_nonneg)
  have "tiles ?b 0 (-2 # as)"
  proof -
    have "?a k = ?b k" if k: "k \<in> edges 0 (-2 # as)" for k
    proof -
      have "k < i" using k i w edges_bounds [of k 2 as] big_nonzero [OF big(1)] by auto
      moreover have "k \<notin> links (free_at 2 as)"
        using k links_not_edges [OF big(1)] links_bounds [OF big(1), of k 2] by auto
      moreover have "k \<notin> links (free_at (i + n) cs)"
        using links_bounds [OF big(2), of k "i + n"] n \<open>k < i\<close> by auto
      ultimately show ?thesis using outside [of k] by (auto simp: fl links_Un)
    qed
    then show ?thesis using left tiles_cong [of 0 "-2 # as" ?a ?b] by blast
  qed
  moreover have "tiles ?b (i + n) (cs @ [-2])"
  proof -
    have "?a k = ?b k" if k: "k \<in> edges (i + n) (cs @ [-2])" for k
    proof -
      have ge: "i + n \<le> k" using k w edges_bounds [of k "i + n" cs] big_nonzero [OF big(2)] by auto
      moreover have "k \<notin> links (free_at (i + n) cs)"
        using k links_not_edges [OF big(2)] links_bounds [OF big(2), of k "i + n"] by auto
      moreover have "k \<notin> links (free_at 2 as)"
        using links_bounds [OF big(1), of k 2] i n ge by auto
      ultimately show ?thesis using outside [of k] by (auto simp: fl links_Un)
    qed
    then show ?thesis using right tiles_cong [of "i + n" "cs @ [-2]" ?a ?b] by blast
  qed
  ultimately show "heap_layout h' (as @ n # cs)"
    using block n big len h' i
    by (simp add: heap_layout_def all_blocks_def algebra_simps)
  have sp: "spaced (set fl)"
    unfolding spaced_def
  proof (intro ballI impI)
    fix x y assume xy: "x \<in> set fl" "y \<in> set fl" "x \<noteq> y"
    show "4 \<le> \<bar>x - y\<bar>"
    proof (cases "x \<in> free_at 2 as \<longleftrightarrow> y \<in> free_at 2 as")
      case True
      then show ?thesis
        using xy fl free_at_spaced [OF _ _ big(1)] free_at_spaced [OF _ _ big(2)] by blast
    next
      case False
      then show ?thesis
        using xy fl i n free_at_bounds [OF _ big(1), of _ 2] free_at_bounds [OF _ big(2), of _ "i + n"]
        by (smt (verit) UnE)
    qed
  qed
  have "dll ?b 0 i (i # fl)"
  proof (rule dll_push [OF dll _ dist sp])
    show "\<forall>y\<in>set fl. 4 \<le> \<bar>i - y\<bar>" using far n by fastforce
    show "i \<noteq> 0" using i w by simp
    show "?b (i + 1) = heap_avail h" "?b (i + 2) = 0" by (fact block)+
    show "?b (hd fl + 2) = i" if "fl \<noteq> []" using that avail hd_neq [OF nz] by (auto simp: b Let_def)
    show "?b (y + 1) = ?a (y + 1) \<and> (y = hd fl \<or> ?b (y + 2) = ?a (y + 2))" if "y \<in> set fl" for y
    proof -
      have in_fl: "y + 1 \<notin> {i, i + n - 1, i + 1, i + 2}" "y + 2 \<notin> {i, i + n - 1, i + 1, i + 2}"
        using far [OF that] n by auto
      have "y + 1 \<noteq> heap_avail h + 2 \<and> (y = hd fl \<or> y + 2 \<noteq> heap_avail h + 2)"
        if "heap_avail h \<noteq> 0"
        using spacedD [OF sp \<open>y \<in> set fl\<close> head(1) [OF that]] head(2) [OF that]
        by (cases "y = heap_avail h") auto
      then show ?thesis using in_fl by (auto simp: b Let_def)
    qed
  qed
  moreover have "i \<notin> set fl" using far [of i] n by auto
  moreover have "free_at 2 (as @ n # cs) = insert i (set fl)" using n i fl by simp
  ultimately show "free_list h' (as @ n # cs) (i # fl)"
    using h' dist by (simp add: free_list_def)
qed

section \<open>The search of malloc\<close>

text \<open>
  What the search loop computes: over the first \<open>countDown\<close> blocks of the free list that fit,
  the first one of least size.
\<close>

definition better :: "(int \<Rightarrow> int) \<Rightarrow> int \<times> int \<Rightarrow> int \<Rightarrow> int \<times> int" where
  "better sz best x = (if sz x < fst best then (sz x, x) else best)"

definition fitting :: "(int \<Rightarrow> int) \<Rightarrow> int \<Rightarrow> int list \<Rightarrow> int list" where
  "fitting sz ints xs = filter (\<lambda>x. ints \<le> sz x) xs"

lemma heap_next_dll:
  assumes "heap_layout h ms" and "dll (heap_array h) q p (x # xs)" and "set (x # xs) \<subseteq> free_at 2 ms"
  shows "heap_next h x = Inr (heap_array h (x + 1))"
proof -
  have "dll (heap_array h) x (heap_array h (x + 1)) xs" using assms(2) by simp
  from dll_head [OF this] show ?thesis
    using assms(3) sanity_free [OF assms(1), of "hd xs"] hd_in_set [of xs]
    by (auto simp: heap_next_def simp del: hd_in_set)
qed

lemma malloc_search_eq:
  assumes lay: "heap_layout h ms"
  shows "dll (heap_array h) q p xs \<Longrightarrow> set xs \<subseteq> free_at 2 ms \<Longrightarrow>
    malloc_search h ints p (fst best) (snd best) (int (Suc n)) =
      Some (Inr (foldl (better (heap_size h)) best
                   (take (Suc n) (fitting (heap_size h) ints xs))))"
proof (induction xs arbitrary: q p best n)
  case Nil
  then show ?case by (simp add: malloc_search.simps fitting_def)
next
  case (Cons x xs)
  have p: "p = x" "x \<noteq> 0" and rest: "dll (heap_array h) x (heap_array h (x + 1)) xs"
    and sub: "set xs \<subseteq> free_at 2 ms"
    using Cons.prems by auto
  have av: "heap_isAvail h x" using Cons.prems(2) free_isAvail [OF lay] by simp
  have nx: "heap_next h x = Inr (heap_array h (x + 1))" by (rule heap_next_dll [OF lay Cons.prems])
  show ?case
  proof (cases "ints \<le> heap_size h x")
    case False
    then show ?thesis
      using p av nx Cons.IH [OF rest sub] malloc_search.simps [of h ints p]
      by (simp add: fitting_def)
  next
    case True
    let ?best = "better (heap_size h) best x"
    have step: "malloc_search h ints p (fst best) (snd best) (int (Suc n)) =
        (if n = 0 then Some (Inr ?best)
         else malloc_search h ints (heap_array h (x + 1)) (fst ?best) (snd ?best) (int n))"
      using True p av nx malloc_search.simps [of h ints p]
      by (simp add: better_def Let_def)
    show ?thesis
    proof (cases n)
      case 0
      then show ?thesis using step True by (simp add: fitting_def)
    next
      case (Suc m)
      then show ?thesis
        using step True Cons.IH [OF rest sub, of ?best m] by (simp add: fitting_def)
    qed
  qed
qed

lemma foldl_better:
  "foldl (better sz) best xs = best \<or>
     (\<exists>x \<in> set xs. foldl (better sz) best xs = (sz x, x)) \<and> fst (foldl (better sz) best xs) < fst best"
proof (induction xs arbitrary: best)
  case (Cons x xs)
  have "better sz best x = (if sz x < fst best then (sz x, x) else best)" by (simp add: better_def)
  then show ?case using Cons.IH [of "(sz x, x)"] Cons.IH [of best] by auto
qed simp

lemma foldl_better_min:
  "fst (foldl (better sz) best xs) \<le> fst best \<and>
   (\<forall>x \<in> set xs. fst (foldl (better sz) best xs) \<le> sz x)"
proof (induction xs arbitrary: best)
  case (Cons x xs)
  have "better sz best x = (if sz x < fst best then (sz x, x) else best)" by (simp add: better_def)
  then show ?case using Cons.IH [of "(sz x, x)"] Cons.IH [of best] by auto
qed simp

text \<open>
  Under the invariant the search ends, and its answer is \<open>it = 0\<close> exactly when no available
  block fits; otherwise a fitting block of the free list with its size.
\<close>

lemma malloc_search_spec:
  assumes lay: "heap_layout h ms" and fl: "free_list h ms fl" and len: "heap_len h \<le> 2 ^ 30"
  obtains mx it where "malloc_search h ints (heap_avail h) 0x7FFFFFFF 0 20 = Some (Inr (mx, it))"
    and "it = 0 \<Longrightarrow> \<forall>x \<in> set fl. heap_size h x < ints"
    and "it \<noteq> 0 \<Longrightarrow> it \<in> set fl \<and> mx = heap_size h it \<and> ints \<le> mx \<and>
           (\<forall>x \<in> set (take 20 (fitting (heap_size h) ints fl)). mx \<le> heap_size h x)"
proof -
  let ?cands = "take 20 (fitting (heap_size h) ints fl)"
  let ?r = "foldl (better (heap_size h)) (0x7FFFFFFF, 0) ?cands"
  have sub: "set fl \<subseteq> free_at 2 ms" and dll: "dll (heap_array h) 0 (heap_avail h) fl"
    using fl by (auto simp: free_list_def)
  have nz: "0 \<notin> set fl" using dll_nonzero [OF dll] .
  have small: "heap_size h x < 0x7FFFFFFF" if "x \<in> set fl" for x
  proof -
    have "x \<in> free_at 2 ms" using that sub by blast
    then obtain v where v: "0 < v" "(x, v) \<in> set (hdrs 0 (all_blocks ms))" using free_header by blast
    show ?thesis using heap_block [OF lay v(2)] v(1) len by (simp add: heap_size_def)
  qed
  have cands: "set ?cands \<subseteq> {x \<in> set fl. ints \<le> heap_size h x}"
    using set_take_subset [of 20 "fitting (heap_size h) ints fl"] by (auto simp: fitting_def)
  have "malloc_search h ints (heap_avail h) 0x7FFFFFFF 0 20 = Some (Inr (fst ?r, snd ?r))"
    using malloc_search_eq [OF lay dll sub, of ints "(0x7FFFFFFF, 0)" 19] by simp
  moreover have "\<forall>x \<in> set fl. heap_size h x < ints" if z: "snd ?r = 0"
  proof (rule ccontr)
    assume "\<not> ?thesis"
    then have "fitting (heap_size h) ints fl \<noteq> []" by (auto simp: fitting_def filter_empty_conv not_less)
    then obtain c where c: "c \<in> set ?cands" by (cases "fitting (heap_size h) ints fl") auto
    then have "fst ?r < 0x7FFFFFFF"
      using foldl_better_min [of "heap_size h" "(0x7FFFFFFF, 0)" ?cands] cands small by fastforce
    then have "\<exists>x \<in> set ?cands. ?r = (heap_size h x, x)"
      using foldl_better [of "heap_size h" "(0x7FFFFFFF, 0)" ?cands] by auto
    then show False using z cands nz by force
  qed
  moreover have "snd ?r \<in> set fl \<and> fst ?r = heap_size h (snd ?r) \<and> ints \<le> fst ?r \<and>
      (\<forall>x \<in> set ?cands. fst ?r \<le> heap_size h x)" if nz: "snd ?r \<noteq> 0"
  proof -
    obtain x where x: "x \<in> set ?cands" "?r = (heap_size h x, x)"
      using foldl_better [of "heap_size h" "(0x7FFFFFFF, 0)" ?cands] nz by auto
    show ?thesis
      using x cands foldl_better_min [of "heap_size h" "(0x7FFFFFFF, 0)" ?cands] by auto
  qed
  ultimately show ?thesis using that by blast
qed

section \<open>Taking and freeing a block\<close>

text \<open>Writes inside one region leave the tilings on both sides and the free list alone.\<close>

lemma region_frame:
  assumes "heap_layout h (as @ bs @ cs)"
    and "\<And>k. k < 2 + width as \<or> 2 + width as + width bs \<le> k \<Longrightarrow> a k = heap_array h k"
  shows "tiles a 0 (-2 # as)" and "tiles a (2 + width as + width bs) (cs @ [-2])"
proof -
  have t: "tiles (heap_array h) 0 (-2 # as)" 
      "tiles (heap_array h) (2 + width as + width bs) (cs @ [-2])"
    and z: "0 \<notin> set as" "0 \<notin> set cs"
    using assms(1) big_nonzero by (auto simp: heap_layout_def all_blocks_def algebra_simps)
  have w: "0 \<le> width as" "0 \<le> width bs" "0 \<le> width cs" by (simp_all add: width_nonneg)
  have "tiles (heap_array h) 0 (-2 # as) = tiles a 0 (-2 # as)"
    using assms(2) edges_bounds [OF _ z(1), of _ 2] w by (intro tiles_cong) fastforce
  then show "tiles a 0 (-2 # as)" using t by blast
  have "tiles (heap_array h) (2 + width as + width bs) (cs @ [-2]) =
        tiles a (2 + width as + width bs) (cs @ [-2])"
    using assms(2) edges_bounds [OF _ z(2), of _ "2 + width as + width bs"] w
    by (intro tiles_cong) fastforce
  then show "tiles a (2 + width as + width bs) (cs @ [-2])" using t by blast
qed

lemma region_dll:
  assumes "dll b q p fl" and "\<And>k. k < i \<or> j \<le> k \<Longrightarrow> a k = b k"
    and "\<And>y. y \<in> set fl \<Longrightarrow> y + 4 \<le> i \<or> j \<le> y"
  shows "dll a q p fl"
proof -
  have "dll b q p fl = dll a q p fl" using assms(2,3) by (intro dll_cong) fastforce
  then show ?thesis using assms(1) by blast
qed

text \<open>Unlinking the available block \<open>v\<close> between \<open>as\<close> and \<open>bs\<close>.\<close>

lemma unlink_block:
  assumes lay: "heap_layout h (as @ v # bs)" and v: "0 < v" and x: "x = 2 + width as"
    and dll: "dll (heap_array h) 0 (heap_avail h) fl" and dist: "distinct fl"
    and sub: "set fl \<subseteq> free_at 2 (as @ v # bs)" and mem: "x \<in> set fl"
  obtains h' fl' where "heap_remove h x = Inr h'" and "heap_layout h' (as @ v # bs)"
    and "dll (heap_array h') 0 (heap_avail h') fl'" and "distinct fl'" and "set fl' = set fl - {x}"
    and "\<And>k. k \<notin> links (set fl) \<Longrightarrow> heap_array h' k = heap_array h k"
    and "heap_len h' = heap_len h" and "heap_base h' = heap_base h" and "heap_safe h' = heap_safe h"
proof -
  obtain us ws where fl: "fl = us @ x # ws" using split_list [OF mem] by blast
  obtain h' where h': "heap_remove h x = Inr h'" "heap_layout h' (as @ v # bs)"
    "dll (heap_array h') 0 (heap_avail h') (us @ ws)"
    "\<And>k. k \<notin> links (set (us @ ws)) \<Longrightarrow> heap_array h' k = heap_array h k"
    "heap_len h' = heap_len h" "heap_base h' = heap_base h" "heap_safe h' = heap_safe h"
    using heap_remove_spec [OF lay dll [unfolded fl] dist [unfolded fl] sub [unfolded fl]] by metis
  have "distinct (us @ ws)" "set (us @ ws) = set fl - {x}" using dist fl by auto
  moreover have "\<And>k. k \<notin> links (set fl) \<Longrightarrow> heap_array h' k = heap_array h k"
    using h'(4) fl by (auto simp: links_iff)
  ultimately show ?thesis using that h' by blast
qed

lemma free_at_others:
  assumes "big (as @ v # bs)"
  shows "x \<in> free_at 2 as \<union> free_at (2 + width as + \<bar>v\<bar>) bs \<Longrightarrow>
           x + 4 \<le> 2 + width as \<or> 2 + width as + \<bar>v\<bar> \<le> x"
    and "free_at 2 (as @ v # bs) - {2 + width as} =
           free_at 2 as \<union> free_at (2 + width as + \<bar>v\<bar>) bs"
proof -
  have b: "big as" "big bs" "4 \<le> \<bar>v\<bar>" using assms by auto
  show *: "x + 4 \<le> 2 + width as \<or> 2 + width as + \<bar>v\<bar> \<le> x"
    if "x \<in> free_at 2 as \<union> free_at (2 + width as + \<bar>v\<bar>) bs" for x
    using that free_at_bounds [OF _ b(1), of x 2] free_at_bounds [OF _ b(2)] by auto
  show "free_at 2 (as @ v # bs) - {2 + width as} =
           free_at 2 as \<union> free_at (2 + width as + \<bar>v\<bar>) bs"
    using * [of "2 + width as"] b by auto
qed

lemma makeTaken_spec:
  assumes lay: "heap_layout h (as @ v # bs)" and n: "4 \<le> n" "n \<le> \<bar>v\<bar>"
    and dll: "dll (heap_array h) 0 (heap_avail h) fl"
    and fl: "set fl = free_at 2 as \<union> free_at (2 + width as + \<bar>v\<bar>) bs"
  defines "h' \<equiv> makeTaken h (2 + width as) n"
  shows "tiles (heap_array h') 0 (-2 # as @ [- n])"
    and "tiles (heap_array h') (2 + width as + \<bar>v\<bar>) (bs @ [-2])"
    and "dll (heap_array h') 0 (heap_avail h') fl"
    and "\<And>k. k < 2 + width as \<or> 2 + width as + \<bar>v\<bar> \<le> k \<Longrightarrow> heap_array h' k = heap_array h k"
proof -
  have h': "h' = h\<lparr>heap_array := (heap_array h)(2 + width as := - n, 2 + width as + n - 1 := - n)\<rparr>"
    using n by (simp add: h'_def makeTaken_eq)
  show out: "heap_array h' k = heap_array h k"
    if "k < 2 + width as \<or> 2 + width as + \<bar>v\<bar> \<le> k" for k
    using that n by (auto simp: h')
  have "heap_array h' (2 + width as) = - n" "heap_array h' (2 + width as + n - 1) = - n"
    by (simp_all add: h')
  then show "tiles (heap_array h') 0 (-2 # as @ [- n])"
    using region_frame(1) [of h as "[v]" bs "heap_array h'"] lay out n
    by (simp add: algebra_simps)
  show "tiles (heap_array h') (2 + width as + \<bar>v\<bar>) (bs @ [-2])"
    using region_frame(2) [of h as "[v]" bs "heap_array h'"] lay out by simp
  have "big (as @ v # bs)" using lay by (simp add: heap_layout_def)
  then have "\<And>y. y \<in> set fl \<Longrightarrow> y + 4 \<le> 2 + width as \<or> 2 + width as + \<bar>v\<bar> \<le> y"
    using free_at_others(1) fl by blast
  moreover have "heap_avail h' = heap_avail h" by (simp add: h')
  ultimately show "dll (heap_array h') 0 (heap_avail h') fl"
    using region_dll [OF dll out] by simp
qed

text \<open>The blocks that \<^verbatim>\<open>malloc\<close> leaves in place of an available block of \<open>v\<close> words.\<close>

definition split_block :: "int \<Rightarrow> int \<Rightarrow> int list" where
  "split_block v ints = (if 4 \<le> v - ints then [- ints, v - ints] else [- v])"

lemma coalesced_split:
  "coalesced (as @ v # bs) \<Longrightarrow> 0 < v \<Longrightarrow> 0 < ints \<Longrightarrow> coalesced (as @ split_block v ints @ bs)"
  by (auto simp: coalesced_def split_block_def successively_append_iff successively_Cons)

lemma malloc_take_spec:
  assumes rep: "heap_rep h (as @ v # bs) fl" and v: "0 < v" and it: "it = 2 + width as"
    and ints: "4 \<le> ints" "ints \<le> v"
  obtains h' fl' where "malloc_take h ints v it = Inr (h', heap_addr h (it + 1))"
    and "heap_rep h' (as @ split_block v ints @ bs) fl'"
    and "\<And>k. k < it \<or> it + v \<le> k \<Longrightarrow> k \<notin> links (set fl) \<Longrightarrow> heap_array h' k = heap_array h k"
    and "heap_len h' = heap_len h" and "heap_base h' = heap_base h" and "heap_safe h' = heap_safe h"
proof -
  have lay: "heap_layout h (as @ v # bs)" and dll: "dll (heap_array h) 0 (heap_avail h) fl"
    and dist: "distinct fl" and fl: "set fl = free_at 2 (as @ v # bs)"
    and coal: "coalesced (as @ v # bs)"
    using rep by (auto simp: heap_rep_def free_list_def)
  have big: "big (as @ v # bs)" and len: "heap_len h = width (as @ v # bs) + 4"
    using lay by (simp_all add: heap_layout_def)
  have mem: "it \<in> set fl" using fl it v by simp
  obtain h1 fl1 where h1: "heap_remove h it = Inr h1" "heap_layout h1 (as @ v # bs)"
      "dll (heap_array h1) 0 (heap_avail h1) fl1" "distinct fl1" "set fl1 = set fl - {it}"
      "\<And>k. k \<notin> links (set fl) \<Longrightarrow> heap_array h1 k = heap_array h k"
      "heap_len h1 = heap_len h" "heap_base h1 = heap_base h" "heap_safe h1 = heap_safe h"
    using unlink_block [OF lay v it dll dist _ mem] fl by blast
  have fl1: "set fl1 = free_at 2 as \<union> free_at (2 + width as + \<bar>v\<bar>) bs"
    using h1(5) fl it free_at_others(2) [OF big] by simp
  have nz: "it \<noteq> 0" using it width_nonneg [of as] by simp
  let ?n = "if 4 \<le> v - ints then ints else v"
  define h2 where "h2 = makeTaken h1 it ?n"
  have nn: "4 \<le> ?n" "?n \<le> \<bar>v\<bar>" using ints by auto
  note T = makeTaken_spec [OF h1(2) nn h1(3) fl1, folded it, folded h2_def]
  have h2: "heap_len h2 = heap_len h" "heap_base h2 = heap_base h" "heap_safe h2 = heap_safe h"
    using h1 nn by (simp_all add: h2_def makeTaken_eq)
  show ?thesis
  proof (cases "4 \<le> v - ints")
    case True
    define h3 where "h3 = makeAvail h2 (it + ints) (v - ints)"
    have t: "tiles (heap_array h2) 0 (-2 # as @ [- ints])"
        "tiles (heap_array h2) (it + ints + (v - ints)) (bs @ [-2])"
      using T(1,2) True v by simp_all
    have p: "it + ints = 2 + width (as @ [- ints])" "big (as @ [- ints])" "big bs"
        "heap_len h2 = width (as @ [- ints]) + (v - ints) + width bs + 4"
        "set fl1 = free_at 2 (as @ [- ints]) \<union> free_at (it + ints + (v - ints)) bs"
      using big len h2 fl1 ints it v by (simp_all add: add.assoc)
    note A = makeAvail_spec [OF t(1,2) p(1) True p(2,3,4) T(3) h1(4) p(5), folded h3_def]
    have h3: "heap_len h3 = heap_len h" "heap_base h3 = heap_base h" "heap_safe h3 = heap_safe h"
      using h2 True by (simp_all add: h3_def makeAvail_eq)
    have "malloc_take h ints v it = Inr (h3, heap_addr h (it + 1))"
      using nz h1(1) True h3 by (simp add: malloc_take_def h3_def h2_def Let_def heap_addr_def)
    moreover have "heap_rep h3 (as @ split_block v ints @ bs) ((it + ints) # fl1)"
      using A(1,2) rep h3 coalesced_split [OF coal v, of ints] ints True
      by (simp add: heap_rep_def split_block_def)
    moreover have "heap_array h3 k = heap_array h k"
      if "k < it \<or> it + v \<le> k" "k \<notin> links (set fl)" for k
    proof -
      have "k \<notin> links (set fl1)" using that h1(5) by (auto simp: links_iff)
      then have "heap_array h3 k = heap_array h2 k" using that ints by (intro A(3)) auto
      then show ?thesis using T(4) [of k] h1(6) [of k] that v by simp
    qed
    ultimately show ?thesis using that h3 by blast
  next
    case False
    have "malloc_take h ints v it = Inr (h2, heap_addr h (it + 1))"
      using nz h1(1) False h2 by (simp add: malloc_take_def h2_def Let_def heap_addr_def)
    moreover have "heap_layout h2 (as @ - v # bs)"
      using T(1,2) False big len h2 it by (simp add: heap_layout_def all_blocks_def algebra_simps)
    moreover have "free_list h2 (as @ - v # bs) fl1"
      using T(3) h1(4) fl1 v by (simp add: free_list_def)
    moreover have "heap_array h2 k = heap_array h k"
      if "k < it \<or> it + v \<le> k" "k \<notin> links (set fl)" for k
      using T(4) [of k] h1(6) [of k] that v by simp
    ultimately show ?thesis
      using that [of h2 fl1] rep h2 coalesced_split [OF coal v, of ints] ints False
      by (simp add: heap_rep_def split_block_def)
  qed
qed

text \<open>
  The blocks that \<^verbatim>\<open>free\<close> leaves: the freed block of \<open>n\<close> words joined with the available blocks
  that touch it.
\<close>

definition left_part :: "int list \<Rightarrow> int list \<times> int" where
  "left_part as = (if as \<noteq> [] \<and> 0 < last as then (butlast as, last as) else (as, 0))"

definition right_part :: "int list \<Rightarrow> int list \<times> int" where
  "right_part bs = (if bs \<noteq> [] \<and> 0 < hd bs then (tl bs, hd bs) else (bs, 0))"

definition joined :: "int list \<Rightarrow> int \<Rightarrow> int list \<Rightarrow> int list" where
  "joined as n bs =
     fst (left_part as) @ (snd (left_part as) + n + snd (right_part bs)) # fst (right_part bs)"

lemma left_part_prefix:
  obtains ls where "as = fst (left_part as) @ ls" and "width ls = snd (left_part as)"
proof (cases "as \<noteq> [] \<and> 0 < last as")
  case True
  then have "as = fst (left_part as) @ [last as]" by (simp add: left_part_def)
  then show ?thesis using that [of "[last as]"] True by (simp add: left_part_def)
next
  case False
  then show ?thesis using that [of "[]"] by (auto simp: left_part_def)
qed

lemma right_part_suffix:
  obtains rs where "bs = rs @ fst (right_part bs)" and "width rs = snd (right_part bs)"
proof (cases "bs \<noteq> [] \<and> 0 < hd bs")
  case True
  then have "bs = [hd bs] @ fst (right_part bs)" by (simp add: right_part_def)
  then show ?thesis using that [of "[hd bs]"] True by (simp add: right_part_def)
next
  case False
  then show ?thesis using that [of "[]"] by (auto simp: right_part_def)
qed

lemma left_width: "width as = width (fst (left_part as)) + snd (left_part as)"
  by (rule left_part_prefix [of as]) (metis width_simps(3))

lemma right_width: "width bs = snd (right_part bs) + width (fst (right_part bs))"
  by (rule right_part_suffix [of bs]) (metis width_simps(3))

lemma coalesced_joined:
  assumes "coalesced (as @ - n # bs)"
  shows "coalesced (joined as n bs)"
proof -
  have as: "successively (\<lambda>v w. \<not> (0 < v \<and> 0 < w)) as"
    and bs: "successively (\<lambda>v w. \<not> (0 < v \<and> 0 < w)) bs"
    using assms by (auto simp: coalesced_def successively_append_iff successively_Cons)
  have l: "successively (\<lambda>v w. \<not> (0 < v \<and> 0 < w)) (fst (left_part as)) \<and>
      (fst (left_part as) \<noteq> [] \<longrightarrow> \<not> 0 < last (fst (left_part as)))"
  proof (cases "as \<noteq> [] \<and> 0 < last as")
    case True
    then obtain a bs' where "as = bs' @ [a]" "0 < a" by (metis append_butlast_last_id)
    then show ?thesis using as by (auto simp: left_part_def successively_append_iff)
  qed (use as in \<open>auto simp: left_part_def\<close>)
  have r: "successively (\<lambda>v w. \<not> (0 < v \<and> 0 < w)) (fst (right_part bs)) \<and>
      (fst (right_part bs) \<noteq> [] \<longrightarrow> \<not> 0 < hd (fst (right_part bs)))"
    using bs by (cases bs) (auto simp: right_part_def successively_Cons)
  show ?thesis using l r
    by (auto simp: joined_def coalesced_def successively_append_iff successively_Cons)
qed

text \<open>The neighbours that \<^verbatim>\<open>free\<close> looks up, sentinels included.\<close>

lemma left_neighbour:
  assumes lay: "heap_layout h (as @ v # bs)" and x: "x = 2 + width as"
  shows "heap_left h x = Inr (if as = [] then 0 else x - \<bar>last as\<bar>)"
    and "heap_isAvail h (if as = [] then 0 else x - \<bar>last as\<bar>) \<longleftrightarrow> as \<noteq> [] \<and> 0 < last as"
proof -
  let ?w = "if as = [] then -2 else last as"
  let ?l = "x - \<bar>?w\<bar>"
  have mem: "(?l, ?w) \<in> set (hdrs 0 (all_blocks (as @ v # bs)))"
  proof (cases "as = []")
    case False
    then have "as = butlast as @ [last as]" by simp
    then have w: "width as = width (butlast as) + \<bar>last as\<bar>"
      and "hdrs 2 as = hdrs 2 (butlast as) @ [(2 + width (butlast as), last as)]"
      by (metis width_simps add.right_neutral, metis hdrs_append hdrs.simps)
    then show ?thesis using x False by (simp add: all_blocks_def)
  qed (simp add: x all_blocks_def)
  note B = heap_block [OF lay mem] and S = sanity_header [OF lay mem]
  have "headerFromFooter h (x - 1) = ?l"
    using B(2) by (simp add: headerFromFooter_def heap_size_def)
  then show "heap_left h x = Inr (if as = [] then 0 else x - \<bar>last as\<bar>)"
    using S x by (simp add: heap_left_def split: if_splits)
  show "heap_isAvail h (if as = [] then 0 else x - \<bar>last as\<bar>) \<longleftrightarrow> as \<noteq> [] \<and> 0 < last as"
    using B(1) x by (auto simp: heap_isAvail_def split: if_splits)
qed

lemma right_neighbour:
  assumes lay: "heap_layout h (as @ v # bs)" and x: "x = 2 + width as"
  shows "heap_right h x = Inr (x + \<bar>v\<bar>)"
    and "heap_isAvail h (x + \<bar>v\<bar>) \<longleftrightarrow> bs \<noteq> [] \<and> 0 < hd bs"
proof -
  have "(x, v) \<in> set (hdrs 0 (all_blocks (as @ v # bs)))" using x by (simp add: all_blocks_def)
  note A = heap_block(1) [OF lay this]
  let ?w = "if bs = [] then -2 else hd bs"
  have mem: "(x + \<bar>v\<bar>, ?w) \<in> set (hdrs 0 (all_blocks (as @ v # bs)))"
    using x by (cases bs) (simp_all add: all_blocks_def algebra_simps)
  note B = heap_block(1) [OF lay mem] and S = sanity_header [OF lay mem]
  show "heap_right h x = Inr (x + \<bar>v\<bar>)" using A S by (simp add: heap_right_def heap_size_def)
  show "heap_isAvail h (x + \<bar>v\<bar>) \<longleftrightarrow> bs \<noteq> [] \<and> 0 < hd bs"
    using B by (auto simp: heap_isAvail_def split: if_splits)
qed

text \<open>Addresses of the words of the heap.\<close>

lemma heap_index_addr:
  assumes "0 \<le> x" and "x < 2 ^ 30 - 1"
  shows "heap_index h (heap_addr h (x + 1)) = x"
proof -
  have "(heap_addr h (x + 1) - heap_base h) div 4 = word_of_int (x + 1)"
    using four_div [of "x + 1"] assms by (simp add: heap_addr_def)
  then have "(heap_addr h (x + 1) - heap_base h) div 4 - 1 = word_of_int x" by simp
  then show ?thesis using assms sint_word_of_int_small [of x] by (simp add: heap_index_def)
qed

lemma heap_addr_uint:
  assumes "0 \<le> x" and "uint (heap_base h) + 4 * x < 2 ^ 32"
  shows "uint (heap_addr h x) = uint (heap_base h) + 4 * x"
proof -
  have "heap_addr h x = word_of_int (uint (heap_base h) + 4 * x)"
    by (simp add: heap_addr_def)
  then show ?thesis using assms uint_word_of_int_small [of "uint (heap_base h) + 4 * x"] by simp
qed

lemma payload_addr:
  assumes "heap_rep h (as @ v # bs) fl" and "x = 2 + width as"
  shows "heap_addr h (x + 1) \<noteq> 0" and "heap_addr h (x + 1) \<noteq> heap_base h"
    and "heap_index h (heap_addr h (x + 1)) = x"
proof -
  have w: "0 \<le> width as" "0 \<le> width bs" by (simp_all add: width_nonneg)
  have len: "heap_len h = width as + \<bar>v\<bar> + width bs + 4" "4 \<le> \<bar>v\<bar>"
    and base: "uint (heap_base h) + 4 * heap_len h \<le> 2 ^ 32"
    using assms(1) by (simp_all add: heap_rep_def heap_layout_def)
  have u: "uint (heap_addr h (x + 1)) = uint (heap_base h) + 4 * (x + 1)"
    using len base w assms(2) by (intro heap_addr_uint) auto
  have "uint (heap_base h) < uint (heap_addr h (x + 1))"
    unfolding u using assms(2) w by simp
  moreover from this have "0 < uint (heap_addr h (x + 1))"
    using uint_ge_0 [of "heap_base h"] by linarith
  ultimately show "heap_addr h (x + 1) \<noteq> 0" "heap_addr h (x + 1) \<noteq> heap_base h" by auto
  show "heap_index h (heap_addr h (x + 1)) = x"
  proof -
    have "4 * heap_len h \<le> 2 ^ 32" by (rule order_trans [OF _ base]) simp
    then show ?thesis using len w assms(2) by (intro heap_index_addr) auto
  qed
qed

text \<open>The two conditional unlinkings of \<^verbatim>\<open>free\<close>.\<close>

lemma free_at_left_part:
  assumes "big as"
  shows "free_at i as = free_at i (fst (left_part as)) \<union>
           (if snd (left_part as) = 0 then {} else {i + width (fst (left_part as))})"
proof (cases "as \<noteq> [] \<and> 0 < last as")
  case True
  then have "free_at i as = free_at i (butlast as @ [last as])" by simp
  then show ?thesis using True unfolding free_at_append by (simp add: left_part_def)
qed (auto simp: left_part_def)

lemma free_at_right_part:
  "free_at i bs = free_at (i + snd (right_part bs)) (fst (right_part bs)) \<union>
     (if snd (right_part bs) = 0 then {} else {i})"
  by (cases bs) (auto simp: right_part_def)

lemma part_pos: "0 \<le> snd (left_part as)" "0 \<le> snd (right_part bs)"
  by (auto simp: left_part_def right_part_def)

lemma part_big:
  "big as \<Longrightarrow> big (fst (left_part as))" "big bs \<Longrightarrow> big (fst (right_part bs))"
  by (auto simp: left_part_def right_part_def big_def dest: in_set_butlastD list.set_sel(2))

lemma heap_free_left:
  assumes lay: "heap_layout h (as @ v # bs)" and x: "x = 2 + width as"
    and dll: "dll (heap_array h) 0 (heap_avail h) fl" and dist: "distinct fl"
    and fl: "set fl = free_at 2 as \<union> free_at (x + \<bar>v\<bar>) bs"
  obtains h' fl' where
    "rbind (heap_left h x) (\<lambda>l. if heap_isAvail h l
       then rbind (heap_remove h l) (\<lambda>h1. Inr (h1, l, sz + heap_size h1 l)) else Inr (h, x, sz)) =
     Inr (h', x - snd (left_part as), sz + snd (left_part as))"
    and "heap_layout h' (as @ v # bs)" and "dll (heap_array h') 0 (heap_avail h') fl'"
    and "distinct fl'" and "set fl' = free_at 2 (fst (left_part as)) \<union> free_at (x + \<bar>v\<bar>) bs"
    and "\<And>k. k \<notin> links (set fl) \<Longrightarrow> heap_array h' k = heap_array h k"
    and "heap_len h' = heap_len h" and "heap_base h' = heap_base h" and "heap_safe h' = heap_safe h"
proof (cases "as \<noteq> [] \<and> 0 < last as")
  case False
  then have "left_part as = (as, 0)" by (auto simp: left_part_def)
  then show ?thesis
    using that [of h fl] left_neighbour [OF lay x] False lay dll dist fl by simp
next
  case True
  then obtain cs w where as: "as = cs @ [w]" and w: "0 < w" by (metis append_butlast_last_id)
  have part: "left_part as = (cs, w)" using as w by (simp add: left_part_def)
  have lay': "heap_layout h (cs @ w # v # bs)" using lay as by simp
  have wx: "x = 2 + width cs + w" using x as w by simp
  have big: "big (cs @ w # v # bs)" using lay' by (simp add: heap_layout_def)
  have sub: "set fl \<subseteq> free_at 2 (cs @ w # v # bs)" and mem: "2 + width cs \<in> set fl"
    using fl as w wx by (auto simp: add.assoc)
  obtain h' fl' where h': "heap_remove h (2 + width cs) = Inr h'" "heap_layout h' (cs @ w # v # bs)"
      "dll (heap_array h') 0 (heap_avail h') fl'" "distinct fl'" "set fl' = set fl - {2 + width cs}"
      "\<And>k. k \<notin> links (set fl) \<Longrightarrow> heap_array h' k = heap_array h k"
      "heap_len h' = heap_len h" "heap_base h' = heap_base h" "heap_safe h' = heap_safe h"
    using unlink_block [OF lay' w refl dll dist sub mem] by blast
  have "2 + width cs \<notin> free_at 2 cs \<union> free_at (x + \<bar>v\<bar>) bs"
    using free_at_bounds [of "2 + width cs" 2 cs] free_at_bounds [of "2 + width cs" "x + \<bar>v\<bar>" bs] big wx w
    by auto
  then have fl': "set fl' = free_at 2 cs \<union> free_at (x + \<bar>v\<bar>) bs"
    using h'(5) fl as w by auto
  have sz: "heap_size h' (2 + width cs) = w"
    using heap_block(1) [OF h'(2), of "2 + width cs" w] w by (simp add: all_blocks_def heap_size_def)
  show ?thesis
    using that [of h' fl'] left_neighbour [OF lay x] as w wx h' fl' sz part by simp
qed

lemma heap_free_right:
  assumes lay: "heap_layout h (as @ v # bs)" and x: "x = 2 + width as"
    and dll: "dll (heap_array h) 0 (heap_avail h) fl" and dist: "distinct fl"
    and fl: "set fl = S \<union> free_at (x + \<bar>v\<bar>) bs" and S: "S \<subseteq> free_at 2 as"
  obtains h' fl' where
    "(if heap_isAvail h (x + \<bar>v\<bar>)
      then rbind (heap_remove h (x + \<bar>v\<bar>)) (\<lambda>h2. Inr (h2, sz + heap_size h2 (x + \<bar>v\<bar>)))
      else Inr (h, sz)) = Inr (h', sz + snd (right_part bs))"
    and "heap_layout h' (as @ v # bs)" and "dll (heap_array h') 0 (heap_avail h') fl'"
    and "distinct fl'"
    and "set fl' = S \<union> free_at (x + \<bar>v\<bar> + snd (right_part bs)) (fst (right_part bs))"
    and "\<And>k. k \<notin> links (set fl) \<Longrightarrow> heap_array h' k = heap_array h k"
    and "heap_len h' = heap_len h" and "heap_base h' = heap_base h" and "heap_safe h' = heap_safe h"
proof (cases "bs \<noteq> [] \<and> 0 < hd bs")
  case False
  then have "right_part bs = (bs, 0)" by (auto simp: right_part_def)
  then show ?thesis
    using that [of h fl] right_neighbour [OF lay x] False lay dll dist fl by simp
next
  case True
  then obtain w cs where bs: "bs = w # cs" and w: "0 < w" by (cases bs) auto
  have part: "right_part bs = (cs, w)" using bs w by (simp add: right_part_def)
  have lay': "heap_layout h ((as @ [v]) @ w # cs)" using lay bs by simp
  have wx: "x + \<bar>v\<bar> = 2 + width (as @ [v])" using x by simp
  have big: "big (as @ v # w # cs)" using lay' by (simp add: heap_layout_def)
  have sub: "set fl \<subseteq> free_at 2 ((as @ [v]) @ w # cs)" and mem: "x + \<bar>v\<bar> \<in> set fl"
    using fl S bs w x by (auto simp: add.assoc)
  obtain h' fl' where h': "heap_remove h (x + \<bar>v\<bar>) = Inr h'" "heap_layout h' ((as @ [v]) @ w # cs)"
      "dll (heap_array h') 0 (heap_avail h') fl'" "distinct fl'" "set fl' = set fl - {x + \<bar>v\<bar>}"
      "\<And>k. k \<notin> links (set fl) \<Longrightarrow> heap_array h' k = heap_array h k"
      "heap_len h' = heap_len h" "heap_base h' = heap_base h" "heap_safe h' = heap_safe h"
    using unlink_block [OF lay' w wx dll dist sub mem] by blast
  have "x + \<bar>v\<bar> \<notin> free_at 2 as \<union> free_at (x + \<bar>v\<bar> + w) cs"
    using free_at_bounds [of "x + \<bar>v\<bar>" 2 as] free_at_bounds [of "x + \<bar>v\<bar>" "x + \<bar>v\<bar> + w" cs] big x w
    by auto
  then have fl': "set fl' = S \<union> free_at (x + \<bar>v\<bar> + w) cs"
    using h'(5) fl S bs w by auto
  have sz: "heap_size h' (x + \<bar>v\<bar>) = w"
    using heap_block(1) [OF h'(2), of "x + \<bar>v\<bar>" w] w wx
    by (simp add: all_blocks_def heap_size_def add.assoc)
  show ?thesis
    using that [of h' fl'] right_neighbour [OF lay x] bs w h' fl' sz part by simp
qed

lemma heap_free_spec:
  assumes rep: "heap_rep h (as @ - n # bs) fl" and n: "0 < n" and x: "x = 2 + width as"
  obtains h' fl' where "heap_free h (heap_addr h (x + 1)) = Inr h'"
    and "heap_rep h' (joined as n bs) fl'"
    and "\<And>k. k < x - snd (left_part as) \<or> x + n + snd (right_part bs) \<le> k \<Longrightarrow>
           k \<notin> links (set fl) \<Longrightarrow> heap_array h' k = heap_array h k"
    and "heap_len h' = heap_len h" and "heap_base h' = heap_base h" and "heap_safe h' = heap_safe h"
proof -
  let ?l = "left_part as" and ?r = "right_part bs"
  have lay: "heap_layout h (as @ - n # bs)" and dll: "dll (heap_array h) 0 (heap_avail h) fl"
    and dist: "distinct fl" and fl: "set fl = free_at 2 (as @ - n # bs)"
    and coal: "coalesced (as @ - n # bs)"
    using rep by (auto simp: heap_rep_def free_list_def)
  have big: "big as" "big bs" "4 \<le> n" and len: "heap_len h = width as + n + width bs + 4"
    using lay n by (simp_all add: heap_layout_def)
  have fl2: "set fl = free_at 2 as \<union> free_at (x + \<bar>- n\<bar>) bs" using fl n x by simp
  have hdr: "(x, - n) \<in> set (hdrs 0 (all_blocks (as @ - n # bs)))" using x by (simp add: all_blocks_def)
  note B = heap_block(1) [OF lay hdr] and S = sanity_header [OF lay hdr]
  obtain h1 fl1 where h1: "rbind (heap_left h x) (\<lambda>l. if heap_isAvail h l
       then rbind (heap_remove h l) (\<lambda>h1. Inr (h1, l, n + heap_size h1 l)) else Inr (h, x, n)) =
     Inr (h1, x - snd ?l, n + snd ?l)"
    and lay1: "heap_layout h1 (as @ - n # bs)" and dll1: "dll (heap_array h1) 0 (heap_avail h1) fl1"
    and dist1: "distinct fl1" and fl1: "set fl1 = free_at 2 (fst ?l) \<union> free_at (x + \<bar>- n\<bar>) bs"
    and out1: "\<And>k. k \<notin> links (set fl) \<Longrightarrow> heap_array h1 k = heap_array h k"
    and eq1: "heap_len h1 = heap_len h" "heap_base h1 = heap_base h" "heap_safe h1 = heap_safe h"
    using heap_free_left [OF lay x dll dist fl2] by blast
  have sub: "free_at 2 (fst ?l) \<subseteq> free_at 2 as" using free_at_left_part [OF big(1)] by blast
  obtain h2 fl2 where h2: "(if heap_isAvail h1 (x + \<bar>- n\<bar>)
      then rbind (heap_remove h1 (x + \<bar>- n\<bar>))
             (\<lambda>h2. Inr (h2, n + snd ?l + heap_size h2 (x + \<bar>- n\<bar>)))
      else Inr (h1, n + snd ?l)) = Inr (h2, n + snd ?l + snd ?r)"
    and lay2: "heap_layout h2 (as @ - n # bs)" and dll2: "dll (heap_array h2) 0 (heap_avail h2) fl2"
    and dist2: "distinct fl2"
    and fl2: "set fl2 = free_at 2 (fst ?l) \<union> free_at (x + \<bar>- n\<bar> + snd ?r) (fst ?r)"
    and out2: "\<And>k. k \<notin> links (set fl1) \<Longrightarrow> heap_array h2 k = heap_array h1 k"
    and eq2: "heap_len h2 = heap_len h1" "heap_base h2 = heap_base h1" "heap_safe h2 = heap_safe h1"
    using heap_free_right [OF lay1 x dll1 dist1 fl1 sub] by blast
  define h3 where "h3 = makeAvail h2 (x - snd ?l) (n + snd ?l + snd ?r)"
  have pos: "0 \<le> snd ?l" "0 \<le> snd ?r" by (fact part_pos)+
  obtain L where L: "heap_left h x = Inr L" using left_neighbour(1) [OF lay x] by blast
  have R: "heap_right h x = Inr (x + \<bar>- n\<bar>)" by (rule right_neighbour(1) [OF lay x])
  have sz: "heap_size h x = n" and tk: "heap_isTaken h x"
    using B n by (simp_all add: heap_size_def heap_isTaken_def)
  have total: "heap_free h (heap_addr h (x + 1)) = Inr h3"
    using payload_addr [OF rep x] h2 h1 [unfolded L rbind_Inr]
    by (simp only: heap_free_def Let_def L R S sz tk rbind_Inr if_False simp_thms split h3_def)
  have t: "tiles (heap_array h2) 0 (-2 # fst ?l)"
      "tiles (heap_array h2) (x - snd ?l + (n + snd ?l + snd ?r)) (fst ?r @ [-2])"
  proof -
    obtain ls where ls: "as = fst ?l @ ls" "width ls = snd ?l" using left_part_prefix .
    obtain rs where rs: "bs = rs @ fst ?r" "width rs = snd ?r" using right_part_suffix .
    have T: "tiles (heap_array h2) 0 (-2 # (fst ?l @ ls) @ - n # (rs @ fst ?r) @ [-2])"
      using lay2 unfolding ls(1) [symmetric] rs(1) [symmetric]
      by (simp add: heap_layout_def all_blocks_def)
    have "x = 2 + width (fst ?l) + snd ?l" using x left_width [of as] by simp
    with T show "tiles (heap_array h2) 0 (-2 # fst ?l)"
        "tiles (heap_array h2) (x - snd ?l + (n + snd ?l + snd ?r)) (fst ?r @ [-2])"
      using n by (simp_all add: ls(2) rs(2) algebra_simps)
  qed
  have p: "x - snd ?l = 2 + width (fst ?l)" "4 \<le> n + snd ?l + snd ?r"
      "big (fst ?l)" "big (fst ?r)"
      "heap_len h2 = width (fst ?l) + (n + snd ?l + snd ?r) + width (fst ?r) + 4"
      "set fl2 = free_at 2 (fst ?l) \<union> free_at (x - snd ?l + (n + snd ?l + snd ?r)) (fst ?r)"
    using left_width [of as] right_width [of bs] x pos big part_big len eq1 eq2 fl2
    by (simp_all add: algebra_simps)
  note A = makeAvail_spec [OF t p(1-5) dll2 dist2 p(6), folded h3_def]
  have eq3: "heap_len h3 = heap_len h" "heap_base h3 = heap_base h" "heap_safe h3 = heap_safe h"
    using eq1 eq2 pos big by (simp_all add: h3_def makeAvail_eq)
  have "heap_rep h3 (joined as n bs) ((x - snd ?l) # fl2)"
    using A(1,2) rep eq3 coalesced_joined [OF coal] by (simp add: heap_rep_def joined_def add_ac)
  moreover have "heap_array h3 k = heap_array h k"
    if "k < x - snd ?l \<or> x + n + snd ?r \<le> k" "k \<notin> links (set fl)" for k
  proof -
    have "set fl1 \<subseteq> set fl" "set fl2 \<subseteq> set fl1"
      using fl1 fl2 fl n x sub free_at_right_part [of "x + n" bs] by auto
    then have "k \<notin> links (set fl1)" "k \<notin> links (set fl2)" using that(2) by (auto simp: links_iff)
    then show ?thesis using that A(3) [of k] out1 [of k] out2 [of k] by auto
  qed
  ultimately show ?thesis using that total eq3 by blast
qed

end
