(* ===== verification/Heap_Alloc.thy ===== *)
theory Heap_Alloc
  imports Heap_Correct
begin

text \<open>
  The kernel heap seen from outside: the blocks a walk over the headers finds, and what
  \<^verbatim>\<open>malloc\<close>, \<^verbatim>\<open>free\<close> and \<^verbatim>\<open>heapInit\<close> do to them. The interface of an allocator is a locale; the
  kernel heap is an interpretation of it.
\<close>

section \<open>The blocks of a heap\<close>

fun walk :: "(int \<Rightarrow> int) \<Rightarrow> int \<Rightarrow> nat \<Rightarrow> int \<Rightarrow> int list" where
  "walk a i 0 j = []"
| "walk a i (Suc n) j = (if j \<le> i then [] else a i # walk a (i + \<bar>a i\<bar>) n j)"

definition heap_blocks :: "heap \<Rightarrow> int list" where
  "heap_blocks h = walk (heap_array h) 2 (nat (heap_len h)) (heap_len h - 2)"

fun taken_at :: "int \<Rightarrow> int list \<Rightarrow> (int \<times> int) set" where
  "taken_at i [] = {}"
| "taken_at i (v # vs) = (if v < 0 then {(i, - v)} else {}) \<union> taken_at (i + \<bar>v\<bar>) vs"

fun avail_at :: "int \<Rightarrow> int list \<Rightarrow> (int \<times> int) set" where
  "avail_at i [] = {}"
| "avail_at i (v # vs) = (if 0 < v then {(i, v)} else {}) \<union> avail_at (i + \<bar>v\<bar>) vs"

definition heap_taken :: "heap \<Rightarrow> (int \<times> int) set" where
  "heap_taken h = taken_at 2 (heap_blocks h)"

definition heap_available :: "heap \<Rightarrow> (int \<times> int) set" where
  "heap_available h = avail_at 2 (heap_blocks h)"

definition heap_inv :: "heap \<Rightarrow> bool" where
  "heap_inv h \<longleftrightarrow> (\<exists>fl. heap_rep h (heap_blocks h) fl)"

definition same_words :: "heap \<Rightarrow> heap \<Rightarrow> (int \<times> int) set \<Rightarrow> bool" where
  "same_words h h' B \<longleftrightarrow>
     (\<forall>(y, m) \<in> B. \<forall>k. y \<le> k \<and> k < y + m \<longrightarrow> heap_array h' k = heap_array h k)"

lemma walk_tiles:
  "tiles a i vs \<Longrightarrow> big vs \<Longrightarrow> width vs \<le> int n \<Longrightarrow> walk a i n (i + width vs) = vs"
proof (induction vs arbitrary: i n)
  case Nil
  then show ?case by (cases n) simp_all
next
  case (Cons v vs)
  then obtain m where "n = Suc m" using width_nonneg [of vs] by (cases n) auto
  then show ?case using Cons.IH [of "i + \<bar>v\<bar>" m] Cons.prems width_nonneg [of vs]
    by (simp add: add.assoc)
qed

lemma heap_rep_blocks: "heap_rep h ms fl \<Longrightarrow> heap_blocks h = ms"
  using walk_tiles [of "heap_array h" 2 ms "nat (heap_len h)"] width_nonneg [of ms]
  by (simp add: heap_rep_def heap_layout_def all_blocks_def heap_blocks_def)

lemma heap_rep_inv: "heap_rep h ms fl \<Longrightarrow> heap_inv h"
  using heap_rep_blocks unfolding heap_inv_def by blast

lemma taken_at_append [simp]:
  "taken_at i (xs @ ys) = taken_at i xs \<union> taken_at (i + width xs) ys"
  by (induction xs arbitrary: i) (auto simp: add.assoc)

lemma avail_at_append [simp]:
  "avail_at i (xs @ ys) = avail_at i xs \<union> avail_at (i + width xs) ys"
  by (induction xs arbitrary: i) (auto simp: add.assoc)

lemma taken_at_hdrs: "(x, n) \<in> taken_at i vs \<longleftrightarrow> 0 < n \<and> (x, - n) \<in> set (hdrs i vs)"
proof (induction vs arbitrary: i)
  case (Cons v vs)
  have "(x, n) \<in> (if v < 0 then {(i, - v)} else {}) \<longleftrightarrow> 0 < n \<and> (x, - n) = (i, v)"
    by (cases "v < 0") auto
  then show ?case using Cons.IH [of "i + \<bar>v\<bar>"] by (simp del: prod.inject) blast
qed simp

lemma avail_at_hdrs: "(x, n) \<in> avail_at i vs \<longleftrightarrow> 0 < n \<and> (x, n) \<in> set (hdrs i vs)"
  by (induction vs arbitrary: i) auto

lemma taken_at_bounds:
  assumes "(y, m) \<in> taken_at i vs"
  shows "i \<le> y \<and> 0 < m \<and> y + m \<le> i + width vs"
proof -
  have "0 < m" "(y, - m) \<in> set (hdrs i vs)" using assms by (simp_all add: taken_at_hdrs)
  then show ?thesis using hdrs_bounds [of y "- m" i vs] by simp
qed

lemma taken_not_links:
  "(y, m) \<in> taken_at i vs \<Longrightarrow> big vs \<Longrightarrow> y \<le> k \<Longrightarrow> k < y + m \<Longrightarrow> k \<notin> links (free_at i vs)"
proof (induction vs arbitrary: i)
  case (Cons v vs)
  have rest: "k \<notin> links (free_at (i + \<bar>v\<bar>) vs)"
  proof (cases "(y, m) \<in> taken_at (i + \<bar>v\<bar>) vs")
    case False
    then have "y = i" "m = - v" "v < 0" using Cons.prems by (auto split: if_splits)
    then show ?thesis using links_bounds [of vs k "i + \<bar>v\<bar>"] Cons.prems by auto
  qed (use Cons in simp)
  show ?case
  proof (cases "0 < v")
    case True
    then have "(y, m) \<in> taken_at (i + \<bar>v\<bar>) vs" using Cons.prems by simp
    then have "i + \<bar>v\<bar> \<le> k" using taken_at_bounds Cons.prems by fastforce
    then show ?thesis using rest True Cons.prems by (auto simp: links_iff)
  qed (use rest in \<open>simp add: links_iff\<close>)
qed simp

lemma taken_outside:
  assumes "(y, m) \<in> taken_at 2 as \<union> taken_at (2 + width as + \<bar>v\<bar>) bs"
  shows "y + m \<le> 2 + width as \<or> 2 + width as + \<bar>v\<bar> \<le> y"
  using assms taken_at_bounds [of y m 2 as] taken_at_bounds [of y m "2 + width as + \<bar>v\<bar>" bs]
  by auto

section \<open>malloc\<close>

lemma uint_plus_3: "uint (b + 3 :: u32) = (if uint b \<le> 2 ^ 32 - 4 then uint b + 3 else uint b + 3 - 2 ^ 32)"
proof -
  have b: "uint b < 2 ^ 32" using uint_bounded [of b] by simp
  have "uint (b + 3) = (uint b + 3) mod 2 ^ 32" by (simp add: uint_word_ariths)
  also have "\<dots> = (if uint b \<le> 2 ^ 32 - 4 then uint b + 3 else uint b + 3 - 2 ^ 32)"
  proof (cases "uint b \<le> 2^32 - 4")
    case False
    then have "(uint b + 3) mod 2^32 = (uint b + 3 - 2^32) mod 2^32" by (simp only: minus_mod_self2)
    also have "\<dots> = uint b + 3 - 2^32" using b False by (intro mod_pos_pos_trivial) auto
    finally show ?thesis using False by simp
  qed simp
  finally show ?thesis .
qed

lemma sint_words: "sint ((w :: u32) div 4 + 2) = uint w div 4 + 2"
proof -
  have b: "uint w < 2 ^ 32" "0 \<le> uint w" using uint_bounded [of w] by simp_all
  have "word_of_int (uint w div 4) = w div 4" by (metis uint_div_4 word_of_int_uint)
  then have "w div 4 + 2 = word_of_int (uint w div 4 + 2)" by simp
  then show ?thesis using sint_word_of_int_small [of "uint w div 4 + 2"] b by simp
qed

lemma taken_split_block:
  "0 < v \<Longrightarrow> 0 < ints \<Longrightarrow>
   taken_at 2 (as @ split_block v ints @ bs) =
     insert (2 + width as, if 4 \<le> v - ints then ints else v) (taken_at 2 (as @ v # bs))"
  by (auto simp: split_block_def add.assoc)

lemma malloc_ints_ge: "4 \<le> malloc_ints bytes"
  by (simp add: malloc_ints_def Let_def)

lemma heap_rep_len: "heap_rep h ms fl \<Longrightarrow> heap_len h \<le> 2 ^ 30"
proof -
  assume "heap_rep h ms fl"
  then have "uint (heap_base h) + 4 * heap_len h \<le> 2 ^ 32" by (simp add: heap_rep_def)
  then have "4 * heap_len h \<le> 2 ^ 32" by (rule order_trans [rotated]) simp
  then show ?thesis by simp
qed

lemma rep_available:
  assumes "heap_rep h ms fl" and "x \<in> set fl"
  obtains as v bs where "ms = as @ v # bs" "0 < v" "x = 2 + width as" "heap_size h x = v"
    "(x, v) \<in> avail_at 2 ms"
proof -
  have lay: "heap_layout h ms" and "x \<in> free_at 2 ms"
    using assms by (auto simp: heap_rep_def free_list_def)
  then obtain as v bs where ms: "ms = as @ v # bs" "0 < v" "x = 2 + width as"
    by (auto elim: free_at_split)
  then have "(x, v) \<in> set (hdrs 0 (all_blocks ms))" by (simp add: all_blocks_def)
  from heap_block(1) [OF lay this] ms show ?thesis
    using that by (simp add: heap_size_def)
qed

lemma available_size:
  assumes "heap_rep h ms fl" and "(x, n) \<in> avail_at 2 ms"
  shows "x \<in> set fl \<and> heap_size h x = n"
proof -
  have lay: "heap_layout h ms" and fl: "set fl = free_at 2 ms"
    using assms(1) by (simp_all add: heap_rep_def free_list_def)
  have hdr: "(x, n) \<in> set (hdrs 0 (all_blocks ms))" and "0 < n"
    using assms(2) by (simp_all add: avail_at_hdrs all_blocks_def)
  then show ?thesis
    using heap_block(1) [OF lay hdr] fl assms(2)
    by (auto simp: heap_size_def avail_at_hdrs free_at_hdrs)
qed

lemma take_block:
  assumes rep: "heap_rep h (as @ v # bs) fl" and v: "0 < v" and it: "it = 2 + width as"
    and fits: "malloc_ints bytes \<le> v"
  obtains h' fl' where "malloc_take h (malloc_ints bytes) v it = Inr (h', heap_addr h (it + 1))"
    and "heap_rep h' (as @ split_block v (malloc_ints bytes) @ bs) fl'"
    and "same_words h h' (taken_at 2 (as @ v # bs))"
    and "heap_len h' = heap_len h" and "heap_base h' = heap_base h" and "heap_safe h' = heap_safe h"
proof -
  obtain h' fl' where h': "malloc_take h (malloc_ints bytes) v it = Inr (h', heap_addr h (it + 1))"
      "heap_rep h' (as @ split_block v (malloc_ints bytes) @ bs) fl'"
      "\<And>k. k < it \<or> it + v \<le> k \<Longrightarrow> k \<notin> links (set fl) \<Longrightarrow> heap_array h' k = heap_array h k"
      "heap_len h' = heap_len h" "heap_base h' = heap_base h" "heap_safe h' = heap_safe h"
    using malloc_take_spec [OF rep v it malloc_ints_ge fits] by blast
  have "heap_array h' k = heap_array h k"
    if tk: "(y, n) \<in> taken_at 2 (as @ v # bs)" and k: "y \<le> k" "k < y + n" for y n k
  proof -
    have "big (as @ v # bs)" "set fl = free_at 2 (as @ v # bs)"
      using rep by (simp_all add: heap_rep_def heap_layout_def free_list_def)
    then have "k \<notin> links (set fl)" using taken_not_links [OF tk _ k] by simp
    moreover have "y + n \<le> it \<or> it + v \<le> y"
      using taken_outside [of y n as v bs] tk v it by simp
    ultimately show ?thesis using h'(3) [of k] k by auto
  qed
  then have "same_words h h' (taken_at 2 (as @ v # bs))" unfolding same_words_def by blast
  then show ?thesis using that h' by blast
qed

text \<open>The whole of \<^verbatim>\<open>malloc\<close>, in terms of the representation.\<close>

lemma malloc_spec:
  assumes rep: "heap_rep h ms fl" and pos: "0 < bytes"
  shows "(malloc h bytes = Some (Inr (h, 0)) \<and> (\<forall>(x, n) \<in> avail_at 2 ms. n < malloc_ints bytes))
    \<or> (\<exists>as v bs h' fl' x. ms = as @ v # bs \<and> 0 < v \<and> malloc_ints bytes \<le> v \<and> x = 2 + width as \<and>
         malloc h bytes = Some (Inr (h', heap_addr h (x + 1))) \<and>
         heap_rep h' (as @ split_block v (malloc_ints bytes) @ bs) fl' \<and>
         same_words h h' (taken_at 2 ms) \<and> x \<in> set fl \<and> heap_size h x = v \<and>
         heap_base h' = heap_base h \<and> heap_len h' = heap_len h \<and> heap_safe h' = heap_safe h \<and>
         (\<forall>y \<in> set (take 20 (fitting (heap_size h) (malloc_ints bytes) fl)). v \<le> heap_size h y))"
proof -
  let ?ints = "malloc_ints bytes"
  have lay: "heap_layout h ms" and fl: "free_list h ms fl" using rep by (simp_all add: heap_rep_def)
  obtain mx it where s: "malloc_search h ?ints (heap_avail h) 0x7FFFFFFF 0 20 = Some (Inr (mx, it))"
    and none: "it = 0 \<Longrightarrow> \<forall>x \<in> set fl. heap_size h x < ?ints"
    and some: "it \<noteq> 0 \<Longrightarrow> it \<in> set fl \<and> mx = heap_size h it \<and> ?ints \<le> mx \<and>
           (\<forall>x \<in> set (take 20 (fitting (heap_size h) ?ints fl)). mx \<le> heap_size h x)"
    using malloc_search_spec [OF lay fl heap_rep_len [OF rep]] by blast
  have nz: "bytes \<noteq> 0" using pos by auto
  have m: "malloc h bytes = Some (malloc_take h ?ints mx it)"
    using s nz by (simp add: malloc_def Let_def)
  show ?thesis
  proof (cases "it = 0")
    case True
    have "n < ?ints" if av: "(x, n) \<in> avail_at 2 ms" for x n
    proof -
      have "x \<in> set fl" using av fl by (auto simp: free_list_def free_at_hdrs avail_at_hdrs)
      then have "heap_size h x < ?ints" using none [OF True] by blast
      moreover have "(x, n) \<in> set (hdrs 0 (all_blocks ms))"
        using av by (simp add: avail_at_hdrs all_blocks_def)
      then have "heap_size h x = n"
        using heap_block(1) [OF lay, of x n] av by (simp add: heap_size_def avail_at_hdrs)
      ultimately show ?thesis by simp
    qed
    then show ?thesis using m True by (auto simp: malloc_take_def)
  next
    case False
    note it = some [OF False]
    obtain as v bs where ms: "ms = as @ v # bs" "0 < v" "it = 2 + width as" "heap_size h it = v"
      using rep_available [OF rep] it by metis
    obtain h' fl' where h': "malloc_take h ?ints v it = Inr (h', heap_addr h (it + 1))"
        "heap_rep h' (as @ split_block v ?ints @ bs) fl'" "same_words h h' (taken_at 2 ms)"
        "heap_len h' = heap_len h" "heap_base h' = heap_base h" "heap_safe h' = heap_safe h"
      using take_block [of h as v bs fl it bytes] rep ms it by auto
    then show ?thesis using m ms it h'(1,2,4,5,6)
      by - (rule disjI2, rule exI [of _ as], rule exI [of _ v], rule exI [of _ bs],
          rule exI [of _ h'], rule exI [of _ fl'], rule exI [of _ it], auto)
  qed
qed

section \<open>free\<close>

lemma taken_at_pos: "\<forall>v \<in> set vs. 0 < v \<Longrightarrow> taken_at i vs = {}"
  by (induction vs arbitrary: i) auto

lemma taken_left_part: "taken_at i as = taken_at i (fst (left_part as))"
proof (cases "as \<noteq> [] \<and> 0 < last as")
  case True
  then obtain cs w where "as = cs @ [w]" "0 < w" by (metis append_butlast_last_id)
  then show ?thesis by (simp add: left_part_def)
qed (auto simp: left_part_def)

lemma taken_right_part: "taken_at i bs = taken_at (i + snd (right_part bs)) (fst (right_part bs))"
  by (cases bs) (auto simp: right_part_def)

lemma taken_joined:
  assumes "0 < n"
  shows "taken_at 2 (joined as n bs) = taken_at 2 (as @ - n # bs) - {(2 + width as, n)}"
proof -
  have "(2 + width as, n) \<notin> taken_at 2 as \<union> taken_at (2 + width as + n) bs"
    using taken_at_bounds [of "2 + width as" n 2 as]
      taken_at_bounds [of "2 + width as" n "2 + width as + n" bs] assms by auto
  then have "taken_at 2 (as @ - n # bs) - {(2 + width as, n)} =
      taken_at 2 as \<union> taken_at (2 + width as + n) bs" using assms by auto
  also have "\<dots> = taken_at 2 (joined as n bs)"
    using assms part_pos(1) [of as] part_pos(2) [of bs] left_width [of as] taken_left_part [of 2 as]
      taken_right_part [of "2 + width as + n" bs]
    by (auto simp: joined_def algebra_simps)
  finally show ?thesis by simp
qed

lemma taken_split:
  assumes "(x, n) \<in> taken_at 2 ms"
  obtains as bs where "ms = as @ - n # bs" "0 < n" "x = 2 + width as"
  using assms hdrs_split [of x "- n" 2 ms] unfolding taken_at_hdrs by blast

lemma free_spec:
  assumes rep: "heap_rep h (as @ - n # bs) fl" and n: "0 < n" and x: "x = 2 + width as"
  obtains h' fl' where "heap_free h (heap_addr h (x + 1)) = Inr h'"
    and "heap_rep h' (joined as n bs) fl'"
    and "same_words h h' (taken_at 2 (as @ - n # bs) - {(x, n)})"
    and "heap_base h' = heap_base h" and "heap_len h' = heap_len h" and "heap_safe h' = heap_safe h"
proof -
  obtain h' fl' where h': "heap_free h (heap_addr h (x + 1)) = Inr h'"
    "heap_rep h' (joined as n bs) fl'"
    and out: "\<And>k. k < x - snd (left_part as) \<or> x + n + snd (right_part bs) \<le> k \<Longrightarrow>
           k \<notin> links (set fl) \<Longrightarrow> heap_array h' k = heap_array h k"
    and eqs: "heap_len h' = heap_len h" "heap_base h' = heap_base h" "heap_safe h' = heap_safe h"
    using heap_free_spec [OF rep n x] by blast
  have big: "big (as @ - n # bs)" and fl: "set fl = free_at 2 (as @ - n # bs)"
    using rep by (simp_all add: heap_rep_def heap_layout_def free_list_def)
  have "heap_array h' k = heap_array h k"
    if tk: "(y, m) \<in> taken_at 2 (as @ - n # bs) - {(x, n)}" and k: "y \<le> k" "k < y + m" for y m k
  proof -
    have "(y, m) \<in> taken_at 2 (fst (left_part as)) \<union>
        taken_at (x + n + snd (right_part bs)) (fst (right_part bs))"
      using tk n x taken_left_part [of 2 as] taken_right_part [of "x + n" bs] by auto
    then have "y + m \<le> x - snd (left_part as) \<or> x + n + snd (right_part bs) \<le> y"
      using taken_at_bounds x left_width [of as] by fastforce
    moreover have "k \<notin> links (set fl)" using taken_not_links [OF _ big k] tk fl by auto
    ultimately show ?thesis using out [of k] k by auto
  qed
  then have "same_words h h' (taken_at 2 (as @ - n # bs) - {(x, n)})"
    unfolding same_words_def by blast
  then show ?thesis using that h' eqs by blast
qed

lemma joined_split:
  assumes "coalesced (as @ v # bs)" and "0 < v" and "0 < ints" and "ints \<le> v"
  shows "split_block v ints = [- ints, v - ints] \<and> joined as ints ((v - ints) # bs) = as @ v # bs \<or>
         split_block v ints = [- v] \<and> joined as v bs = as @ v # bs"
proof -
  have "as \<noteq> [] \<Longrightarrow> \<not> 0 < last as" "bs \<noteq> [] \<Longrightarrow> \<not> 0 < hd bs"
    using assms by (auto simp: coalesced_def successively_append_iff successively_Cons)
  then show ?thesis
    using assms by (auto simp: joined_def left_part_def right_part_def split_block_def)
qed

section \<open>The allocator interface\<close>

text \<open>
  What a client of an allocator relies on: an allocation succeeds with a fresh pointer or
  returns the null pointer and changes nothing; freeing a live pointer never fails and removes
  exactly that pointer. The client here is any script of requests and releases.
\<close>

datatype heap_op = Alloc u32 | Release nat

fun run_script ::
  "('s \<Rightarrow> u32 \<Rightarrow> ('s \<times> u32) option) \<Rightarrow> ('s \<Rightarrow> u32 \<Rightarrow> 's option) \<Rightarrow> 's \<Rightarrow> u32 list \<Rightarrow>
   heap_op list \<Rightarrow> ('s \<times> u32 list) option" where
  "run_script alloc dealloc s ps [] = Some (s, ps)"
| "run_script alloc dealloc s ps (Alloc b # ops) =
     (case alloc s b of
        None \<Rightarrow> None
      | Some (s', p) \<Rightarrow> run_script alloc dealloc s' (if p = 0 then ps else p # ps) ops)"
| "run_script alloc dealloc s ps (Release i # ops) =
     (if i < length ps
      then (case dealloc s (ps ! i) of
              None \<Rightarrow> None
            | Some s' \<Rightarrow> run_script alloc dealloc s' (take i ps @ drop (Suc i) ps) ops)
      else run_script alloc dealloc s ps ops)"

locale allocator =
  fixes inv :: "'s \<Rightarrow> bool"
    and live :: "'s \<Rightarrow> u32 set"
    and alloc :: "'s \<Rightarrow> u32 \<Rightarrow> ('s \<times> u32) option"
    and dealloc :: "'s \<Rightarrow> u32 \<Rightarrow> 's option"
  assumes alloc_law: "inv s \<Longrightarrow> b \<noteq> 0 \<Longrightarrow> \<exists>s' p. alloc s b = Some (s', p) \<and> inv s' \<and>
      (if p = 0 then live s' = live s else p \<notin> live s \<and> live s' = insert p (live s))"
    and dealloc_law: "inv s \<Longrightarrow> p \<in> live s \<Longrightarrow>
      \<exists>s'. dealloc s p = Some s' \<and> inv s' \<and> live s' = live s - {p}"
begin

lemma run_script_safe:
  "inv s \<Longrightarrow> set ps \<subseteq> live s \<Longrightarrow> distinct ps \<Longrightarrow> Alloc 0 \<notin> set ops \<Longrightarrow>
   \<exists>s' ps'. run_script alloc dealloc s ps ops = Some (s', ps') \<and> inv s' \<and>
     set ps' \<subseteq> live s' \<and> distinct ps' \<and> live s' - set ps' = live s - set ps"
proof (induction ops arbitrary: s ps)
  case Nil
  then show ?case by simp
next
  case (Cons op ops)
  show ?case
  proof (cases op)
    case (Alloc b)
    then have "b \<noteq> 0" using Cons.prems by auto
    then obtain s' p where s': "alloc s b = Some (s', p)" "inv s'"
        "if p = 0 then live s' = live s else p \<notin> live s \<and> live s' = insert p (live s)"
      using alloc_law Cons.prems(1) by blast
    let ?ps = "if p = 0 then ps else p # ps"
    have "set ?ps \<subseteq> live s'" "distinct ?ps" "live s' - set ?ps = live s - set ps"
      using s'(3) Cons.prems by (auto split: if_splits)
    then show ?thesis using Cons.IH [OF s'(2), of ?ps] Cons.prems s' Alloc by auto
  next
    case (Release i)
    show ?thesis
    proof (cases "i < length ps")
      case True
      then have "ps ! i \<in> live s" using Cons.prems(2) nth_mem by blast
      then obtain s' where s': "dealloc s (ps ! i) = Some s'" "inv s'" "live s' = live s - {ps ! i}"
        using dealloc_law Cons.prems(1) by blast
      let ?ps = "take i ps @ drop (Suc i) ps"
      have ps: "ps = take i ps @ ps ! i # drop (Suc i) ps" using True by (rule id_take_nth_drop)
      have "distinct (take i ps @ ps ! i # drop (Suc i) ps)" using Cons.prems ps by simp
      then have d: "distinct ?ps" "ps ! i \<notin> set ?ps" by auto
      have "set ps = insert (ps ! i) (set ?ps)" by (subst ps) auto
      then have "set ?ps \<subseteq> live s'" "live s' - set ?ps = live s - set ps"
        using s'(3) d Cons.prems by auto
      then show ?thesis using Cons.IH [OF s'(2), of ?ps] d Cons.prems s' Release True by auto
    next
      case False
      then show ?thesis using Cons.IH [of s ps] Cons.prems Release by auto
    qed
  qed
qed

end

section \<open>The kernel heap as an allocator\<close>

definition heap_live :: "heap \<Rightarrow> u32 set" where
  "heap_live h = (\<lambda>(x, n). heap_addr h (x + 1)) ` heap_taken h"

definition kernel_alloc :: "heap \<Rightarrow> u32 \<Rightarrow> (heap \<times> u32) option" where
  "kernel_alloc h b = (case malloc h b of Some (Inr r) \<Rightarrow> Some r | _ \<Rightarrow> None)"

definition kernel_dealloc :: "heap \<Rightarrow> u32 \<Rightarrow> heap option" where
  "kernel_dealloc h p = (case heap_free h p of Inr h' \<Rightarrow> Some h' | Inl _ \<Rightarrow> None)"

lemma heap_inv_rep: "heap_inv h \<Longrightarrow> \<exists>fl. heap_rep h (heap_blocks h) fl"
  by (simp add: heap_inv_def)

lemma taken_index:
  assumes "heap_rep h ms fl" and "(x, n) \<in> taken_at 2 ms"
  shows "heap_index h (heap_addr h (x + 1)) = x" and "heap_addr h (x + 1) \<noteq> 0"
proof -
  obtain as bs where ms: "ms = as @ - n # bs" "0 < n" "x = 2 + width as"
    using taken_split [OF assms(2)] .
  then show "heap_index h (heap_addr h (x + 1)) = x" "heap_addr h (x + 1) \<noteq> 0"
    using payload_addr [of h as "- n" bs fl x] assms(1) by auto
qed

lemma taken_unique: "(x, n) \<in> taken_at i vs \<Longrightarrow> (x, m) \<in> taken_at i vs \<Longrightarrow> n = m"
proof (induction vs arbitrary: i)
  case (Cons v vs)
  then show ?case using taken_at_bounds [of x n "i + \<bar>v\<bar>" vs] taken_at_bounds [of x m "i + \<bar>v\<bar>" vs]
    by (auto split: if_splits)
qed simp

lemma heap_addr_cong: "heap_base h' = heap_base h \<Longrightarrow> heap_addr h' x = heap_addr h x"
  by (simp add: heap_addr_def)

text \<open>
  The specification of \<^verbatim>\<open>malloc\<close> over the abstract blocks: what every client can rely on.
\<close>

definition malloc_post :: "heap \<Rightarrow> u32 \<Rightarrow> heap \<Rightarrow> u32 \<Rightarrow> bool" where
  "malloc_post h bytes h' p \<longleftrightarrow>
     heap_inv h' \<and> heap_base h' = heap_base h \<and> heap_len h' = heap_len h \<and>
     same_words h h' (heap_taken h) \<and>
     (if \<exists>(x, n) \<in> heap_available h. malloc_ints bytes \<le> n
      then \<exists>x n. p = heap_addr h (x + 1) \<and> p \<noteq> 0 \<and>
             malloc_ints bytes \<le> n \<and> n < malloc_ints bytes + 4 \<and>
             heap_taken h' = insert (x, n) (heap_taken h) \<and>
             (\<forall>(y, m) \<in> heap_taken h. y + m \<le> x \<or> x + n \<le> y)
      else p = 0 \<and> h' = h)"

lemma malloc_post_none:
  "heap_inv h \<Longrightarrow> \<forall>(x, n) \<in> heap_available h. n < malloc_ints bytes \<Longrightarrow> malloc_post h bytes h 0"
  by (fastforce simp: malloc_post_def same_words_def)

lemma malloc_post_some:
  assumes rep: "heap_rep h (as @ v # bs) fl" and v: "0 < v" "malloc_ints bytes \<le> v"
    and rep': "heap_rep h' (as @ split_block v (malloc_ints bytes) @ bs) fl'"
    and same: "same_words h h' (taken_at 2 (as @ v # bs))"
    and eqs: "heap_base h' = heap_base h" "heap_len h' = heap_len h"
  shows "malloc_post h bytes h' (heap_addr h (2 + width as + 1))"
proof -
  let ?ints = "malloc_ints bytes" and ?x = "2 + width as"
  let ?n = "if 4 \<le> v - ?ints then ?ints else v"
  have blocks: "heap_blocks h = as @ v # bs" by (rule heap_rep_blocks [OF rep])
  have ints: "0 < ?ints" using malloc_ints_ge [of bytes] by simp
  have tk: "heap_taken h' = insert (?x, ?n) (heap_taken h)"
    using taken_split_block [OF v(1) ints] blocks
    by (simp add: heap_taken_def heap_rep_blocks [OF rep'])
  have "y + m \<le> ?x \<or> ?x + ?n \<le> y" if "(y, m) \<in> heap_taken h" for y m
    using taken_outside [of y m as v bs] that blocks v by (auto simp: heap_taken_def)
  then have "\<forall>(y, m) \<in> heap_taken h. y + m \<le> ?x \<or> ?x + ?n \<le> y" by blast
  moreover have "(?x, v) \<in> heap_available h" using blocks v by (simp add: heap_available_def)
  then have fits: "\<exists>(x, n) \<in> heap_available h. ?ints \<le> n" using v by blast
  moreover have "heap_addr h (?x + 1) \<noteq> 0" using payload_addr(1) rep by metis
  moreover have "?ints \<le> ?n" "?n < ?ints + 4" using v by auto
  moreover have "same_words h h' (heap_taken h)" using same blocks by (simp add: heap_taken_def)
  ultimately show ?thesis
    unfolding malloc_post_def if_P [OF fits]
    using eqs tk heap_rep_inv [OF rep'] by blast
qed

lemma malloc_sound:
  assumes inv: "heap_inv h" and pos: "0 < bytes"
  obtains h' p where "malloc h bytes = Some (Inr (h', p))" and "malloc_post h bytes h' p"
proof -
  obtain fl where rep: "heap_rep h (heap_blocks h) fl" using heap_inv_rep [OF inv] by blast
  let ?ms = "heap_blocks h" and ?ints = "malloc_ints bytes"
  consider (none) "malloc h bytes = Some (Inr (h, 0))" "\<forall>(x, n) \<in> avail_at 2 ?ms. n < ?ints"
    | (some) as v bs h' fl' where "?ms = as @ v # bs" "0 < v" "?ints \<le> v"
        "malloc h bytes = Some (Inr (h', heap_addr h (2 + width as + 1)))"
        "heap_rep h' (as @ split_block v ?ints @ bs) fl'" "same_words h h' (taken_at 2 ?ms)"
        "heap_base h' = heap_base h" "heap_len h' = heap_len h"
    using malloc_spec [OF rep pos] by blast
  then show ?thesis
  proof cases
    case none
    then show ?thesis using that malloc_post_none [OF inv] by (metis heap_available_def)
  next
    case some
    then show ?thesis using that malloc_post_some [of h as v bs fl bytes h' fl'] rep by simp
  qed
qed

lemma free_sound:
  assumes inv: "heap_inv h" and tk: "(x, n) \<in> heap_taken h"
  obtains h' where "heap_free h (heap_addr h (x + 1)) = Inr h'" and "heap_inv h'"
    and "heap_taken h' = heap_taken h - {(x, n)}"
    and "same_words h h' (heap_taken h - {(x, n)})"
    and "heap_base h' = heap_base h" and "heap_len h' = heap_len h"
proof -
  obtain fl where rep: "heap_rep h (heap_blocks h) fl" using heap_inv_rep [OF inv] by blast
  obtain as bs where ms: "heap_blocks h = as @ - n # bs" "0 < n" "x = 2 + width as"
    using taken_split tk unfolding heap_taken_def by blast
  obtain h' fl' where h': "heap_free h (heap_addr h (x + 1)) = Inr h'"
      "heap_rep h' (joined as n bs) fl'"
      "same_words h h' (taken_at 2 (as @ - n # bs) - {(x, n)})"
      "heap_base h' = heap_base h" "heap_len h' = heap_len h"
    using free_spec [OF rep [unfolded ms(1)] ms(2,3)] by blast
  have "heap_taken h' = heap_taken h - {(x, n)}"
    using taken_joined [OF ms(2), of as bs] ms by (simp add: heap_taken_def heap_rep_blocks [OF h'(2)])
  then show ?thesis
    using that h' heap_rep_inv [OF h'(2)] ms(1) by (simp add: heap_taken_def)
qed

lemma heap_live_inj:
  assumes "heap_inv h" and "(x, n) \<in> heap_taken h" and "(y, m) \<in> heap_taken h"
    and "heap_addr h (x + 1) = heap_addr h (y + 1)"
  shows "x = y \<and> n = m"
proof -
  obtain fl where rep: "heap_rep h (heap_blocks h) fl" using heap_inv_rep [OF assms(1)] by blast
  have "x = y" using taken_index(1) [OF rep] assms(2-4) by (metis heap_taken_def)
  then show ?thesis using taken_unique assms(2,3) unfolding heap_taken_def by blast
qed

lemma heap_live_image:
  "heap_base h' = heap_base h \<Longrightarrow> heap_live h' = (\<lambda>(x, n). heap_addr h (x + 1)) ` heap_taken h'"
  by (simp add: heap_live_def heap_addr_def)

lemma malloc_post_live:
  assumes post: "malloc_post h b h' p"
  shows "if p = 0 then heap_live h' = heap_live h
         else p \<notin> heap_live h \<and> heap_live h' = insert p (heap_live h)"
proof (cases "\<exists>(x, n) \<in> heap_available h. malloc_ints b \<le> n")
  case False
  then show ?thesis using post unfolding malloc_post_def if_not_P [OF False] by simp
next
  case True
  obtain x n where x: "p = heap_addr h (x + 1)" "p \<noteq> 0"
      "heap_taken h' = insert (x, n) (heap_taken h)" "malloc_ints b \<le> n"
      "\<forall>(y, m) \<in> heap_taken h. y + m \<le> x \<or> x + n \<le> y"
    and base: "heap_base h' = heap_base h" and inv': "heap_inv h'"
    using post unfolding malloc_post_def if_P [OF True] by blast
  have "heap_live h' = insert p (heap_live h)"
    using x by (simp add: heap_live_image [OF base] heap_live_def [of h])
  moreover have "p \<notin> heap_live h"
  proof
    assume "p \<in> heap_live h"
    then obtain y m where y: "(y, m) \<in> heap_taken h" "p = heap_addr h (y + 1)"
      by (auto simp: heap_live_def)
    then have "x = y \<and> n = m"
      using heap_live_inj [OF inv', of x n y m] x base by (simp add: heap_addr_def)
    moreover have "y + m \<le> x \<or> x + n \<le> y" using x(5) y(1) by blast
    ultimately show False using x(4) malloc_ints_ge [of b] by simp
  qed
  ultimately show ?thesis using x(2) by simp
qed

lemma freed_live:
  assumes inv: "heap_inv h" and x: "(x, n) \<in> heap_taken h" "p = heap_addr h (x + 1)"
    and h': "heap_taken h' = heap_taken h - {(x, n)}" "heap_base h' = heap_base h"
  shows "heap_live h' = heap_live h - {p}"
proof -
  have "inj_on (\<lambda>(x, n). heap_addr h (x + 1)) (heap_taken h)"
    using heap_live_inj [OF inv] by (auto simp: inj_on_def)
  then show ?thesis
    using x unfolding heap_live_image [OF h'(2)] h'(1) heap_live_def [of h]
    by (simp add: inj_on_image_set_diff)
qed

interpretation kernel_heap: allocator heap_inv heap_live kernel_alloc kernel_dealloc
proof unfold_locales
  fix h b
  assume inv: "heap_inv h" and b: "b \<noteq> (0 :: u32)"
  then have "0 < b" by (simp add: word_neq_0_conv)
  then obtain h' p where m: "malloc h b = Some (Inr (h', p))" and post: "malloc_post h b h' p"
    using malloc_sound [OF inv] by blast
  have "heap_inv h'" using post by (simp add: malloc_post_def)
  then show "\<exists>s' p. kernel_alloc h b = Some (s', p) \<and> heap_inv s' \<and>
      (if p = 0 then heap_live s' = heap_live h
       else p \<notin> heap_live h \<and> heap_live s' = insert p (heap_live h))"
    using m malloc_post_live [OF post] by (simp add: kernel_alloc_def)
next
  fix h p
  assume inv: "heap_inv h" and p: "p \<in> heap_live h"
  then obtain x n where x: "(x, n) \<in> heap_taken h" "p = heap_addr h (x + 1)"
    by (auto simp: heap_live_def)
  obtain h' where h': "heap_free h p = Inr h'" "heap_inv h'"
      "heap_taken h' = heap_taken h - {(x, n)}" "heap_base h' = heap_base h"
    using free_sound [OF inv x(1)] x(2) by metis
  then show "\<exists>s'. kernel_dealloc h p = Some s' \<and> heap_inv s' \<and> heap_live s' = heap_live h - {p}"
    using freed_live [OF inv x h'(3,4)] by (simp add: kernel_dealloc_def)
qed

section \<open>heapInit\<close>

lemma heapInit_layout_rep:
  assumes "base \<noteq> 0" and "32 \<le> uint bytes" and "uint base + 4 * (uint bytes div 4) \<le> 2 ^ 32"
  shows "heap_rep (heapInit_layout m sf base bytes) [uint bytes div 4 - 4] [2]"
proof -
  let ?n = "uint bytes div 4"
  define n where "n = ?n"
  have n: "8 \<le> n" using assms(2) by (simp add: n_def)
  have eq: "heapInit_layout m sf base bytes =
      \<lparr>heap_array = m(0 := -2, 1 := -2, 2 := n - 4, n - 3 := n - 4, 3 := 0, 4 := 0, n - 2 := -2, n - 1 := -2),
       heap_base = base, heap_len = n, heap_safe = sf, heap_avail = 2\<rparr>"
    using n by (simp add: heapInit_layout_def Let_def makeTaken_eq makeAvail_eq uint_div_4 n_def)
  show ?thesis
    using n assms unfolding eq n_def [symmetric]
    by (simp add: heap_rep_def heap_layout_def all_blocks_def free_list_def coalesced_def)
qed

lemma heapInit_layout_blocks:
  assumes "base \<noteq> 0" and "32 \<le> uint bytes" and "uint base + 4 * (uint bytes div 4) \<le> 2 ^ 32"
  shows "heap_inv (heapInit_layout m sf base bytes)"
    and "heap_taken (heapInit_layout m sf base bytes) = {}"
    and "heap_available (heapInit_layout m sf base bytes) = {(2, uint bytes div 4 - 4)}"
proof -
  note rep = heapInit_layout_rep [OF assms, of m sf]
  show "heap_inv (heapInit_layout m sf base bytes)" by (rule heap_rep_inv [OF rep])
  have "0 < uint bytes div 4 - 4" using assms(2) by simp
  then show "heap_taken (heapInit_layout m sf base bytes) = {}"
    "heap_available (heapInit_layout m sf base bytes) = {(2, uint bytes div 4 - 4)}"
    by (simp_all add: heap_taken_def heap_available_def heap_rep_blocks [OF rep])
qed

text \<open>A heap of 16 words at 1 MB, for concrete instances.\<close>

definition small_heap :: heap where
  "small_heap = heapInit_layout (\<lambda>_. 0) False 0x100000 64"

lemma small_heap_facts:
  "heap_inv small_heap" "heap_taken small_heap = {}" "heap_available small_heap = {(2, 12)}"
  using heapInit_layout_blocks [of "0x100000" 64 "\<lambda>_. 0" False] by (simp_all add: small_heap_def)

lemma small_alloc:
  obtains h p x n where "malloc small_heap 10 = Some (Inr (h, p))" and "p \<noteq> 0"
    and "heap_inv h" and "(x, n) \<in> heap_taken h"
proof -
  have fits: "\<exists>(x, n) \<in> heap_available small_heap. malloc_ints 10 \<le> n"
    by (simp add: small_heap_facts malloc_ints_def)
  obtain h p where h: "malloc small_heap 10 = Some (Inr (h, p))" "malloc_post small_heap 10 h p"
    by (rule malloc_sound [OF small_heap_facts(1), of 10]) simp
  have "heap_inv h" using h(2) by (simp add: malloc_post_def)
  moreover obtain x n where "(x, n) \<in> heap_taken h" and "p \<noteq> 0"
    using h(2) unfolding malloc_post_def if_P [OF fits] by blast
  ultimately show ?thesis using that h(1) by blast
qed

section \<open>Properties\<close>

text \<open>
  C1. On a well-formed heap \<^verbatim>\<open>malloc\<close> returns (the search loop ends and nothing panics, with the
  sanity checks on or off), keeps the heap well formed and every word of every taken block. If
  some available block has the words needed, the result is a fresh non-null pointer to a
  block that overlaps no taken block, is large enough and wastes fewer than 4 words; otherwise
  the result is the null pointer and the heap is unchanged.
\<close>

theorem malloc_correct:
  assumes "heap_inv h" and "0 < bytes"
  shows "\<exists>h' p. malloc h bytes = Some (Inr (h', p)) \<and> malloc_post h bytes h' p"
  using malloc_sound [OF assms] by blast

theorem malloc_correct_witness:
  "heap_inv small_heap \<and> (\<exists>h' p. malloc small_heap 10 = Some (Inr (h', p)) \<and> malloc_post small_heap 10 h' p)"
  using malloc_correct [OF small_heap_facts(1), of 10] small_heap_facts(1) by simp

text \<open>
  C2. Freeing the payload pointer of a taken block never panics, keeps the heap well formed,
  removes exactly that block from the taken blocks, and keeps every word of the other ones.
\<close>

theorem free_correct:
  assumes "heap_inv h" and "(x, n) \<in> heap_taken h"
  shows "\<exists>h'. heap_free h (heap_addr h (x + 1)) = Inr h' \<and> heap_inv h' \<and>
    heap_taken h' = heap_taken h - {(x, n)} \<and> same_words h h' (heap_taken h - {(x, n)})"
  using free_sound [OF assms] by metis

theorem free_correct_witness:
  "\<exists>h x n h'. heap_inv h \<and> (x, n) \<in> heap_taken h \<and> heap_free h (heap_addr h (x + 1)) = Inr h' \<and> heap_inv h'"
proof -
  obtain h p x n where h: "heap_inv h" "(x, n) \<in> heap_taken h" using small_alloc by blast
  then show ?thesis using free_correct [OF h] by blast
qed

text \<open>
  C3. Allocating and freeing again restores the block structure exactly: \<^verbatim>\<open>free\<close> joins the split
  remainder with the block again, and no word of a taken block has changed.
\<close>

theorem malloc_free_roundtrip:
  assumes "heap_inv h" and "0 < bytes" and "malloc h bytes = Some (Inr (h1, p))" and "p \<noteq> 0"
  shows "\<exists>h2. heap_free h1 p = Inr h2 \<and> heap_inv h2 \<and> heap_blocks h2 = heap_blocks h \<and>
    same_words h h2 (heap_taken h)"
proof -
  obtain fl where rep: "heap_rep h (heap_blocks h) fl" using heap_inv_rep [OF assms(1)] by blast
  let ?ints = "malloc_ints bytes"
  obtain as v bs fl1 where ms: "heap_blocks h = as @ v # bs" "0 < v" "?ints \<le> v"
    and p: "p = heap_addr h (2 + width as + 1)"
    and rep1: "heap_rep h1 (as @ split_block v ?ints @ bs) fl1"
    and same: "same_words h h1 (heap_taken h)" and base: "heap_base h1 = heap_base h"
    using malloc_spec [OF rep assms(2)] assms(3,4) unfolding heap_taken_def by auto
  have coal: "coalesced (as @ v # bs)" using rep ms(1) by (simp add: heap_rep_def)
  have ints: "0 < ?ints" using malloc_ints_ge [of bytes] by simp
  obtain n cs where cs: "as @ split_block v ?ints @ bs = as @ - n # cs" "0 < n"
      "joined as n cs = as @ v # bs"
    using joined_split [OF coal ms(2) ints ms(3)] ints ms(2) by auto
  have p1: "p = heap_addr h1 (2 + width as + 1)" using p base by (simp add: heap_addr_def)
  obtain h2 fl2 where h2: "heap_free h1 p = Inr h2" "heap_rep h2 (joined as n cs) fl2"
      "same_words h1 h2 (taken_at 2 (as @ - n # cs) - {(2 + width as, n)})"
    using free_spec [OF rep1 [unfolded cs(1)] cs(2) refl] unfolding p1 by blast
  have "heap_taken h = taken_at 2 (as @ - n # cs) - {(2 + width as, n)}"
    using taken_joined [OF cs(2), of as cs] cs(3) ms(1) by (simp add: heap_taken_def)
  then have "same_words h h2 (heap_taken h)" using same h2(3) by (fastforce simp: same_words_def)
  then show ?thesis
    using h2 heap_rep_inv [OF h2(2)] heap_rep_blocks [OF h2(2)] cs(3) ms(1) by auto
qed

theorem malloc_free_roundtrip_witness:
  "\<exists>h1 p h2. malloc small_heap 10 = Some (Inr (h1, p)) \<and> p \<noteq> 0 \<and>
     heap_free h1 p = Inr h2 \<and> heap_blocks h2 = heap_blocks small_heap"
proof -
  obtain h p where h: "malloc small_heap 10 = Some (Inr (h, p))" "p \<noteq> 0" using small_alloc by blast
  then show ?thesis using malloc_free_roundtrip [OF small_heap_facts(1) _ h] by fastforce
qed

text \<open>
   Of the free list, \<^verbatim>\<open>malloc\<close> takes the smallest block among the first 20 that fit. (The
  comment at the top of the file calls it a first-fit heap.)
\<close>

theorem malloc_picks_best_of_20:
  assumes "heap_rep h ms fl" and "0 < bytes" and "malloc h bytes = Some (Inr (h', p))" and "p \<noteq> 0"
  shows "\<exists>x \<in> set fl. p = heap_addr h (x + 1) \<and> malloc_ints bytes \<le> heap_size h x \<and>
    (\<forall>y \<in> set (take 20 (fitting (heap_size h) (malloc_ints bytes) fl)). heap_size h x \<le> heap_size h y)"
proof -
  obtain x v where "x \<in> set fl" "p = heap_addr h (x + 1)" "heap_size h x = v" "malloc_ints bytes \<le> v"
      "\<forall>y \<in> set (take 20 (fitting (heap_size h) (malloc_ints bytes) fl)). v \<le> heap_size h y"
    using malloc_spec [OF assms(1,2)] assms(3,4) by auto
  then show ?thesis by blast
qed

theorem malloc_picks_best_of_20_witness:
  "\<exists>h' p. malloc small_heap 10 = Some (Inr (h', p)) \<and> p \<noteq> 0 \<and> p = heap_addr small_heap (2 + 1)"
proof -
  have rep: "heap_rep small_heap [12] [2]"
    using heapInit_layout_rep [of "0x100000" 64 "\<lambda>_. 0" False] by (simp add: small_heap_def)
  obtain h p where h: "malloc small_heap 10 = Some (Inr (h, p))" "p \<noteq> 0" using small_alloc by blast
  then show ?thesis using malloc_picks_best_of_20 [OF rep _ h] by fastforce
qed

lemma malloc_ints_wrap:
  assumes "2 ^ 32 - 4 < uint bytes"
  shows "malloc_ints bytes = 4"
proof -
  have "uint bytes < 2 ^ 32" using uint_bounded [of bytes] by simp
  then have "uint (bytes + 3) div 4 = 0" using assms by (simp add: uint_plus_3)
  then show ?thesis by (simp add: malloc_ints_def Let_def sint_words)
qed

text \<open>
  C4. The size computation wraps around: a request for the last three sizes of \<^verbatim>\<open>size_t\<close>,
  4 GB less at most 3 bytes, succeeds as soon as any block is available, with a block of fewer
  than 8 words.
\<close>

theorem malloc_overflow_succeeds:
  assumes "heap_inv h" and "heap_available h \<noteq> {}" and "2 ^ 32 - 4 < uint bytes"
  shows "\<exists>h' p x n. malloc h bytes = Some (Inr (h', p)) \<and> p \<noteq> 0 \<and>
    heap_taken h' = insert (x, n) (heap_taken h) \<and> n < 8"
proof -
  have four: "malloc_ints bytes = 4" and pos: "0 < bytes"
    using assms(3) malloc_ints_wrap [of bytes] by (auto simp: word_neq_0_conv [symmetric])
  obtain fl where rep: "heap_rep h (heap_blocks h) fl" using heap_inv_rep [OF assms(1)] by blast
  obtain x n where x: "(x, n) \<in> heap_available h" using assms(2) by auto
  then have "4 \<le> n" using rep hdrs_split [of x n 2 "heap_blocks h"]
    by (auto simp: heap_rep_def heap_layout_def heap_available_def avail_at_hdrs)
  then have fits: "\<exists>(x, n) \<in> heap_available h. malloc_ints bytes \<le> n" using x four by auto
  obtain h' p where h': "malloc h bytes = Some (Inr (h', p))" "malloc_post h bytes h' p"
    using malloc_sound [OF assms(1) pos] by blast
  obtain y k where "p \<noteq> 0" "k < malloc_ints bytes + 4"
      "heap_taken h' = insert (y, k) (heap_taken h)"
    using h'(2) unfolding malloc_post_def if_P [OF fits] by blast
  then show ?thesis using h'(1) four by auto
qed

theorem malloc_overflow_succeeds_witness:
  "\<exists>h' p. malloc small_heap 0xFFFFFFFF = Some (Inr (h', p)) \<and> p \<noteq> 0"
  using malloc_overflow_succeeds [OF small_heap_facts(1), of "0xFFFFFFFF"] small_heap_facts(3) by auto

text \<open>
   \<^verbatim>\<open>heapInit\<close> over at least 8 words builds a well-formed heap, and its allocation of the
  lock succeeds when the lock fits: the lock is the first block, and the only taken one.
\<close>

theorem heapInit_correct:
  assumes "base \<noteq> 0" and "32 \<le> uint bytes" and "uint base + 4 * (uint bytes div 4) \<le> 2 ^ 32"
    and "0 < lock_bytes" and "malloc_ints lock_bytes \<le> uint bytes div 4 - 4"
  shows "\<exists>h n. heapInit m sf base bytes lock_bytes = Some (Inr (h, base + 12)) \<and> heap_inv h \<and>
    heap_taken h = {(2, n)} \<and> malloc_ints lock_bytes \<le> n"
proof -
  let ?h0 = "heapInit_layout m sf base bytes"
  note rep = heapInit_layout_rep [OF assms(1-3), of m sf]
  have avail: "avail_at 2 [uint bytes div 4 - 4] = {(2, uint bytes div 4 - 4)}"
    and taken: "taken_at 2 [uint bytes div 4 - 4] = {}" using assms(2) by auto
  obtain as v bs h' fl' where ms: "[uint bytes div 4 - 4] = as @ v # bs" "0 < v" "malloc_ints lock_bytes \<le> v"
    and m: "malloc ?h0 lock_bytes = Some (Inr (h', heap_addr ?h0 (2 + width as + 1)))"
    and rep': "heap_rep h' (as @ split_block v (malloc_ints lock_bytes) @ bs) fl'"
    using malloc_spec [OF rep assms(4)] assms(5) unfolding avail by auto
  have as: "as = []" using ms(1) by (cases as) auto
  have ints: "0 < malloc_ints lock_bytes" using malloc_ints_ge [of lock_bytes] by simp
  have addr: "heap_addr ?h0 (2 + width as + 1) = base + 12"
    using as by (simp add: heap_addr_def heapInit_layout_def Let_def makeTaken_def makeAvail_def
        heap_write_def setNext_def setPrev_def)
  have "base + 12 \<noteq> 0" using payload_addr(1) [OF rep [unfolded ms(1)] refl] addr by simp
  then have "heapInit m sf base bytes lock_bytes = Some (Inr (h', base + 12))"
    using m addr by (simp add: heapInit_def operator_new_def)
  moreover have "heap_taken h' =
      {(2, if 4 \<le> v - malloc_ints lock_bytes then malloc_ints lock_bytes else v)}"
    using taken_split_block [OF ms(2) ints, of as bs] as taken ms(1)
    by (simp add: heap_taken_def heap_rep_blocks [OF rep'])
  ultimately show ?thesis using heap_rep_inv [OF rep'] ms(3) by auto
qed

theorem heapInit_correct_witness:
  "\<exists>h n. heapInit (\<lambda>_. 0) False 0x100000 0x500000 32 = Some (Inr (h, 0x10000C)) \<and> heap_inv h \<and>
    heap_taken h = {(2, n)}"
  using heapInit_correct [of "0x100000" "0x500000" 32 "\<lambda>_. 0" False]
  by (auto simp: malloc_ints_def Let_def)

text \<open>
   Freeing the payload pointer of an available block is caught: \<^verbatim>\<open>free\<close> panics.
\<close>

theorem free_available_panics:
  assumes "heap_inv h" and "(x, n) \<in> heap_available h"
  shows "heap_free h (heap_addr h (x + 1)) = Inl (FreeingFree (heap_addr h (x + 1)) x)"
proof -
  obtain fl where rep: "heap_rep h (heap_blocks h) fl" using heap_inv_rep [OF assms(1)] by blast
  obtain as bs where ms: "heap_blocks h = as @ n # bs" "0 < n" "x = 2 + width as"
    using assms(2) hdrs_split [of x n 2 "heap_blocks h"]
    by (auto simp: heap_available_def avail_at_hdrs)
  note rep' = rep [unfolded ms(1)]
  have lay: "heap_layout h (as @ n # bs)" using rep' by (simp add: heap_rep_def)
  have hdr: "(x, n) \<in> set (hdrs 0 (all_blocks (as @ n # bs)))" using ms by (simp add: all_blocks_def)
  show ?thesis
    using payload_addr [OF rep' ms(3)] heap_block(1) [OF lay hdr] sanity_header [OF lay hdr] ms(2)
    by (simp add: heap_free_def heap_isTaken_def Let_def)
qed

theorem free_available_panics_witness:
  "heap_free small_heap (heap_addr small_heap 3) = Inl (FreeingFree (heap_addr small_heap 3) 2)"
  using free_available_panics [OF small_heap_facts(1), of 2 12] small_heap_facts(3) by simp

text \<open>
  C5. No script of requests (of at least one byte) and releases of pointers it holds makes the
  kernel heap panic or loop; the heap stays well formed, the script's pointers stay live and
  distinct, and the blocks of everybody else are the ones there were.
\<close>

theorem heap_scripts_safe:
  assumes "heap_inv h" and "set ps \<subseteq> heap_live h" and "distinct ps" and "Alloc 0 \<notin> set ops"
  shows "\<exists>h' ps'. run_script kernel_alloc kernel_dealloc h ps ops = Some (h', ps') \<and> heap_inv h' \<and>
     set ps' \<subseteq> heap_live h' \<and> distinct ps' \<and> heap_live h' - set ps' = heap_live h - set ps"
  using assms by (rule kernel_heap.run_script_safe)

theorem heap_scripts_safe_witness:
  "\<exists>h' ps'. run_script kernel_alloc kernel_dealloc small_heap [] [Alloc 8, Alloc 4, Release 0, Alloc 100] =
     Some (h', ps') \<and> heap_inv h' \<and> set ps' \<subseteq> heap_live h'"
  using heap_scripts_safe [of small_heap "[]" "[Alloc 8, Alloc 4, Release 0, Alloc 100]"]
    small_heap_facts(1) by auto

end
