(* ===== verification/UserHeap.thy ===== *)
theory UserHeap
  imports Heap_Alloc "HOL-Library.Signed_Division"
begin

unbundle bit_operations_syntax

text \<open>
  The heap of user programs, \<^verbatim>\<open>t0.dir/sbin/heap.c\<close>. Its block primitives (\<^verbatim>\<open>size\<close>,
  \<^verbatim>\<open>headerFromFooter\<close>, \<^verbatim>\<open>makeAvail\<close>, \<^verbatim>\<open>makeTaken\<close>, ...) are the ones of \<^verbatim>\<open>kernel/heap.cc\<close> and are
  shared with the theory Heap; what differs is modelled here: the sanity checks that return the
  index whatever they find, the first-fit \<^verbatim>\<open>malloc\<close>, the \<^verbatim>\<open>free\<close> that ignores bad pointers, and
  \<^verbatim>\<open>realloc\<close>, with the byte copy \<^verbatim>\<open>memcpy\<close> of \<^verbatim>\<open>machine.S\<close>. The array has \<open>2^20\<close> words, so the
  arithmetic of block sizes, also \<^verbatim>\<open>size(idx) * 4\<close>, is exact on \<^typ>\<open>int\<close>.
\<close>

section \<open>The operations\<close>

definition u_heap_init :: "u32 \<Rightarrow> heap" where
  "u_heap_init base =
     (let h0 = \<lparr>heap_array = (\<lambda>_. 0), heap_base = base, heap_len = 0x100000,
                heap_safe = True, heap_avail = 0\<rparr>;
          h1 = makeTaken h0 0 2;
          h2 = makeAvail h1 2 (heap_len h1 - 4)
      in makeTaken h2 (heap_len h2 - 2) 2)"

definition u_sanity :: "heap \<Rightarrow> int \<Rightarrow> int" where
  "u_sanity h i =
     (if heap_safe h then
        if i = 0 then 0
        else if i < 0 \<or> heap_len h \<le> i then i
        else let footer = footerFromHeader h i in
          if footer < 0 \<or> heap_len h \<le> footer then i
          else let hv = heap_array h i; fv = heap_array h footer in
            if hv \<noteq> fv then i else i
      else i)"

definition u_left :: "heap \<Rightarrow> int \<Rightarrow> int" where
  "u_left h i = u_sanity h (headerFromFooter h (i - 1))"

definition u_right :: "heap \<Rightarrow> int \<Rightarrow> int" where
  "u_right h i = u_sanity h (i + heap_size h i)"

definition next1 :: "heap \<Rightarrow> int \<Rightarrow> int" where
  "next1 h i = u_sanity h (heap_array h (i + 1))"

definition prev1 :: "heap \<Rightarrow> int \<Rightarrow> int" where
  "prev1 h i = u_sanity h (heap_array h (i + 2))"

definition u_remove :: "heap \<Rightarrow> int \<Rightarrow> heap" where
  "u_remove h i =
     (let prevIndex = prev1 h i;
          nextIndex = next1 h i;
          h1 = (if prevIndex = 0 then h\<lparr>heap_avail := nextIndex\<rparr>
                else setNext h prevIndex nextIndex)
      in if nextIndex \<noteq> 0 then setPrev h1 nextIndex prevIndex else h1)"

partial_function (option) u_malloc_loop :: "heap \<Rightarrow> int \<Rightarrow> int \<Rightarrow> u32 \<Rightarrow> (heap \<times> u32) option" where
  "u_malloc_loop h ints p res =
     (if p \<noteq> 0 \<and> res = 0 then
        let sz = heap_size h p in
        if ints \<le> sz then
          let h1 = u_remove h p;
              extra = sz - ints;
              h2 = (if 4 \<le> extra then makeAvail (makeTaken h1 p ints) (p + ints) extra
                    else makeTaken h1 p sz)
          in u_malloc_loop h2 ints p (heap_addr h2 (p + 1))
        else u_malloc_loop h ints (next1 h p) res
      else Some (h, res))"

definition u_malloc :: "heap \<Rightarrow> u32 \<Rightarrow> (heap \<times> u32) option" where
  "u_malloc h bytes =
     (if bytes = 0 then Some (h, heap_base h)
      else u_malloc_loop h (malloc_ints bytes) (heap_avail h) 0)"

definition u_index :: "heap \<Rightarrow> u32 \<Rightarrow> int" where
  "u_index h p = sint (p - heap_base h) sdiv 4 - 1"

definition u_free :: "heap \<Rightarrow> u32 \<Rightarrow> heap" where
  "u_free h p =
     (if p = 0 then h
      else if p = heap_base h then h
      else let idx = u_index h p in
        if \<not> heap_isTaken h idx then h
        else let sz = heap_size h idx;
                 leftIndex = u_left h idx;
                 rightIndex = u_right h idx;
                 (h1, idx1, sz1) =
                   (if heap_isAvail h leftIndex
                    then let h1 = u_remove h leftIndex in (h1, leftIndex, sz + heap_size h1 leftIndex)
                    else (h, idx, sz));
                 (h2, sz2) =
                   (if heap_isAvail h1 rightIndex
                    then let h2 = u_remove h1 rightIndex in (h2, sz1 + heap_size h2 rightIndex)
                    else (h1, sz1))
             in makeAvail h2 idx1 sz2)"

text \<open>Bytes of the array, little endian, and the copy loop over them (offsets from the array).\<close>

definition heap_byte :: "heap \<Rightarrow> int \<Rightarrow> u8" where
  "heap_byte h a = ucast (drop_bit (8 * nat (a mod 4)) (word_of_int (heap_array h (a div 4)) :: u32))"

definition heap_set_byte :: "heap \<Rightarrow> int \<Rightarrow> u8 \<Rightarrow> heap" where
  "heap_set_byte h a b =
     (let k = 8 * nat (a mod 4); w = word_of_int (heap_array h (a div 4)) :: u32
      in heap_write h (a div 4) (sint (w AND NOT (push_bit k 0xFF) OR push_bit k (ucast b))))"

fun u_memcpy :: "heap \<Rightarrow> int \<Rightarrow> int \<Rightarrow> nat \<Rightarrow> heap" where
  "u_memcpy h dest src 0 = h"
| "u_memcpy h dest src (Suc n) =
     u_memcpy (heap_set_byte h dest (heap_byte h src)) (dest + 1) (src + 1) n"

definition u_realloc :: "heap \<Rightarrow> u32 \<Rightarrow> u32 \<Rightarrow> (heap \<times> u32) option" where
  "u_realloc h p newSize =
     (if p = 0 then u_malloc h newSize
      else if newSize = 0 then Some (u_free h p, 0)
      else let idx = u_index h p in
        if \<not> heap_isTaken h idx then Some (h, 0)
        else let sz = heap_size h idx * 4 in
          (case u_malloc h newSize of
             None \<Rightarrow> None
           | Some (h1, newPtr) \<Rightarrow>
               let m = (if word_of_int sz < newSize then sz else uint newSize);
                   h2 = (if newPtr \<noteq> 0
                         then u_memcpy h1 (uint (newPtr - heap_base h1)) (uint (p - heap_base h1)) (nat m)
                         else h1)
               in Some (u_free h2 p, newPtr)))"

section \<open>The operations are those of the kernel heap without the checks\<close>

definition relaxed :: "heap \<Rightarrow> heap" where
  "relaxed h = h\<lparr>heap_safe := False\<rparr>"

lemma relaxed_simps [simp]:
  "heap_array (relaxed h) = heap_array h" "heap_base (relaxed h) = heap_base h"
  "heap_len (relaxed h) = heap_len h" "heap_avail (relaxed h) = heap_avail h"
  "heap_safe (relaxed h) = False"
  by (simp_all add: relaxed_def)

lemma relaxed_ops [simp]:
  "heap_size (relaxed h) i = heap_size h i"
  "heap_isAvail (relaxed h) i = heap_isAvail h i" "heap_isTaken (relaxed h) i = heap_isTaken h i"
  "heap_addr (relaxed h) i = heap_addr h i" "heap_index (relaxed h) p = heap_index h p"
  by (simp_all add: heap_size_def heap_isAvail_def heap_isTaken_def heap_addr_def heap_index_def)

lemma relaxed_writes:
  "heap_write (relaxed h) i x = relaxed (heap_write h i x)"
  "setNext (relaxed h) i x = relaxed (setNext h i x)"
  "setPrev (relaxed h) i x = relaxed (setPrev h i x)"
  "relaxed h\<lparr>heap_avail := i\<rparr> = relaxed (h\<lparr>heap_avail := i\<rparr>)"
  by (simp_all add: heap_write_def setNext_def setPrev_def relaxed_def)

lemma relaxed_make:
  "makeTaken (relaxed h) i n = relaxed (makeTaken h i n)"
  "makeAvail (relaxed h) i n = relaxed (makeAvail h i n)"
  by (simp_all add: makeTaken_def makeAvail_def Let_def relaxed_writes footerFromHeader_def)

lemma u_sanity_id: "u_sanity h i = i"
  by (simp add: u_sanity_def Let_def)

lemma relaxed_sanity: "heap_sanity (relaxed h) i = Inr i"
  by (simp add: heap_sanity_def)

lemmas relaxed_walk = relaxed_sanity u_sanity_id heap_left_def heap_right_def heap_next_def
  heap_prev_def u_left_def u_right_def next1_def prev1_def headerFromFooter_def

lemma relaxed_remove: "heap_remove (relaxed h) i = Inr (relaxed (u_remove h i))"
  by (simp add: heap_remove_def u_remove_def Let_def relaxed_walk relaxed_writes)

lemma relaxed_free:
  assumes "u_index h p = heap_index h p" and "heap_isTaken h (heap_index h p)"
  shows "heap_free (relaxed h) p = Inr (relaxed (u_free h p))"
  using assms
  by (simp add: heap_free_def u_free_def Let_def relaxed_walk relaxed_remove relaxed_make
      split: prod.split)

lemma relaxed_rep [simp]: "heap_rep (relaxed h) ms fl = heap_rep h ms fl"
  by (simp add: heap_rep_def heap_layout_def free_list_def)

lemma relaxed_inv [simp]:
  "heap_blocks (relaxed h) = heap_blocks h" "heap_inv (relaxed h) = heap_inv h"
  "heap_taken (relaxed h) = heap_taken h" "heap_available (relaxed h) = heap_available h"
  "same_words (relaxed h) (relaxed h') B = same_words h h' B"
  by (simp_all add: heap_blocks_def heap_inv_def heap_taken_def heap_available_def same_words_def)

definition uheap_inv :: "heap \<Rightarrow> bool" where
  "uheap_inv h \<longleftrightarrow> heap_inv h \<and> heap_len h = 0x100000"


section \<open>malloc takes the first block that fits\<close>

definition u_take :: "heap \<Rightarrow> int \<Rightarrow> int \<Rightarrow> heap" where
  "u_take h ints p =
     (let sz = heap_size h p; h1 = u_remove h p; extra = sz - ints
      in if 4 \<le> extra then makeAvail (makeTaken h1 p ints) (p + ints) extra
         else makeTaken h1 p sz)"

lemma base_keeps [simp]:
  "heap_base (makeAvail h i n) = heap_base h" "heap_base (makeTaken h i n) = heap_base h"
  "heap_base (u_remove h i) = heap_base h"
  by (simp_all add: makeAvail_def makeTaken_def u_remove_def heap_write_def setNext_def setPrev_def Let_def)

lemma u_take_base [simp]: "heap_base (u_take h ints p) = heap_base h"
  by (simp add: u_take_def Let_def)

lemma heap_addr_take [simp]: "heap_addr (u_take h ints p) x = heap_addr h x"
  by (simp add: heap_addr_def)

lemma relaxed_take:
  "p \<noteq> 0 \<Longrightarrow> malloc_take (relaxed h) ints (heap_size h p) p = Inr (relaxed (u_take h ints p), heap_addr h (p + 1))"
  by (simp add: malloc_take_def relaxed_remove relaxed_make Let_def u_take_def heap_addr_def)

lemma u_malloc_loop_eq:
  "dll (heap_array h) q p xs \<Longrightarrow> \<forall>x \<in> set xs. heap_addr h (x + 1) \<noteq> 0 \<Longrightarrow>
   u_malloc_loop h ints p 0 =
     (case fitting (heap_size h) ints xs of
        [] \<Rightarrow> Some (h, 0)
      | x # _ \<Rightarrow> Some (u_take h ints x, heap_addr h (x + 1)))"
proof (induction xs arbitrary: q p)
  case Nil
  then show ?case by (simp add: u_malloc_loop.simps fitting_def)
next
  case (Cons x xs)
  then have p: "p = x" "x \<noteq> 0" and rest: "dll (heap_array h) x (heap_array h (x + 1)) xs" by auto
  show ?case
  proof (cases "ints \<le> heap_size h x")
    case True
    then have "u_malloc_loop h ints p 0 = u_malloc_loop (u_take h ints x) ints x (heap_addr h (x + 1))"
      using p u_malloc_loop.simps [of h ints p 0]
      by (simp add: Let_def u_take_def heap_addr_def)
    then show ?thesis
      using True Cons.prems(2) u_malloc_loop.simps [of "u_take h ints x" ints x "heap_addr h (x + 1)"]
      by (simp add: fitting_def)
  next
    case False
    then show ?thesis
      using p Cons.IH [OF rest] Cons.prems(2) u_malloc_loop.simps [of h ints p 0]
      by (simp add: fitting_def next1_def u_sanity_id)
  qed
qed

lemma u_malloc_spec:
  assumes rep: "heap_rep h ms fl" and pos: "0 < bytes"
  obtains (none) "u_malloc h bytes = Some (h, 0)" and "\<forall>x \<in> set fl. heap_size h x < malloc_ints bytes"
    | (some) x us ws h' where "fl = us @ x # ws" and "\<forall>y \<in> set us. heap_size h y < malloc_ints bytes"
        and "malloc_ints bytes \<le> heap_size h x" and "u_malloc h bytes = Some (h', heap_addr h (x + 1))"
        and "malloc_take (relaxed h) (malloc_ints bytes) (heap_size h x) x =
               Inr (relaxed h', heap_addr h (x + 1))"
proof -
  let ?ints = "malloc_ints bytes"
  have dll: "dll (heap_array h) 0 (heap_avail h) fl" using rep by (simp add: heap_rep_def free_list_def)
  have "heap_addr h (x + 1) \<noteq> 0" if x: "x \<in> set fl" for x
    using rep_available [OF rep x] payload_addr(1) rep by metis
  then have eq: "u_malloc h bytes = (case fitting (heap_size h) ?ints fl of [] \<Rightarrow> Some (h, 0)
      | x # _ \<Rightarrow> Some (u_take h ?ints x, heap_addr h (x + 1)))"
    using u_malloc_loop_eq [OF dll] pos by (auto simp: u_malloc_def)
  show ?thesis
  proof (cases "fitting (heap_size h) ?ints fl")
    case Nil
    then show ?thesis using eq by (intro none) (auto simp: fitting_def filter_empty_conv not_le)
  next
    case (Cons x xs)
    then obtain us ws where ws: "fl = us @ x # ws" "\<forall>y \<in> set us. heap_size h y < ?ints" "?ints \<le> heap_size h x"
      unfolding fitting_def filter_eq_Cons_iff by (auto simp: not_le)
    moreover have "x \<noteq> 0" using dll_nonzero [OF dll] ws(1) by auto
    ultimately show ?thesis using eq Cons relaxed_take [of x h ?ints] by (intro some [of us x ws]) auto
  qed
qed

lemma u_malloc_sound:
  assumes inv: "heap_inv h" and pos: "0 < bytes"
  obtains h' p where "u_malloc h bytes = Some (h', p)" and "malloc_post h bytes h' p"
proof -
  obtain fl where rep: "heap_rep h (heap_blocks h) fl" using heap_inv_rep [OF inv] by blast
  show ?thesis
  proof (cases rule: u_malloc_spec [OF rep pos])
    case 1
    have "n < malloc_ints bytes" if "(x, n) \<in> heap_available h" for x n
      using 1(2) available_size [OF rep] that unfolding heap_available_def by blast
    then show ?thesis using 1(1) that malloc_post_none [OF inv] by blast
  next
    case (2 x us ws h')
    have "x \<in> set fl" using 2(1) by simp
    then obtain as v bs where ms: "heap_blocks h = as @ v # bs" "0 < v" "x = 2 + width as" "heap_size h x = v"
      using rep_available [OF rep] by metis
    have rep0: "heap_rep (relaxed h) (as @ v # bs) fl" using rep ms(1) by simp
    obtain h0 fl0 where "malloc_take (relaxed h) (malloc_ints bytes) v x = Inr (h0, heap_addr (relaxed h) (x + 1))"
        "heap_rep h0 (as @ split_block v (malloc_ints bytes) @ bs) fl0"
        "same_words (relaxed h) h0 (taken_at 2 (as @ v # bs))"
        "heap_len h0 = heap_len (relaxed h)" "heap_base h0 = heap_base (relaxed h)"
      using take_block [OF rep0 ms(2,3)] 2(3) ms(4) by metis
    then have "malloc_post h bytes h' (heap_addr h (x + 1))"
      using malloc_post_some [of h as v bs fl bytes h' fl0] 2(3,5) rep ms by auto
    then show ?thesis using that 2(4) by blast
  qed
qed


section \<open>free\<close>

lemma taken_block_bounds:
  assumes "heap_inv h" and "(x, n) \<in> heap_taken h"
  shows "2 \<le> x" and "4 \<le> n" and "x + n \<le> heap_len h - 2" and "heap_size h x = n" and "heap_isTaken h x"
proof -
  obtain fl where rep: "heap_rep h (heap_blocks h) fl" using heap_inv_rep [OF assms(1)] by blast
  then have lay: "heap_layout h (heap_blocks h)" by (simp add: heap_rep_def)
  have tk: "(x, n) \<in> taken_at 2 (heap_blocks h)" using assms(2) by (simp add: heap_taken_def)
  have hdr: "(x, - n) \<in> set (hdrs 0 (all_blocks (heap_blocks h)))" and n: "0 < n"
    using tk by (simp_all add: taken_at_hdrs all_blocks_def)
  show "2 \<le> x" "x + n \<le> heap_len h - 2"
    using taken_at_bounds [OF tk] lay by (simp_all add: heap_layout_def)
  show "heap_size h x = n" "heap_isTaken h x"
    using heap_block(1) [OF lay hdr] n by (simp_all add: heap_size_def heap_isTaken_def)
  obtain as bs where "heap_blocks h = as @ - n # bs" using taken_split [OF tk] by blast
  then show "4 \<le> n" using lay n by (simp add: heap_layout_def)
qed

lemma heap_addr_offset:
  assumes "0 \<le> x" and "x < 2 ^ 28"
  shows "uint (heap_addr h x - heap_base h) = 4 * x" and "sint (heap_addr h x - heap_base h) = 4 * x"
proof -
  have "heap_addr h x - heap_base h = word_of_int (4 * x)" by (simp add: heap_addr_def)
  then show "uint (heap_addr h x - heap_base h) = 4 * x" "sint (heap_addr h x - heap_base h) = 4 * x"
    using assms uint_word_of_int_small [of "4 * x"] sint_word_of_int_small [of "4 * x"] by simp_all
qed

lemma u_index_addr: "0 \<le> x \<Longrightarrow> x + 1 < 2 ^ 28 \<Longrightarrow> u_index h (heap_addr h (x + 1)) = x"
  using heap_addr_offset(2) [of "x + 1" h] by (simp add: u_index_def signed_divide_int_eq_divide_int)

lemma u_free_sound:
  assumes inv: "uheap_inv h" and tk: "(x, n) \<in> heap_taken h"
  shows "uheap_inv (u_free h (heap_addr h (x + 1)))"
    and "heap_taken (u_free h (heap_addr h (x + 1))) = heap_taken h - {(x, n)}"
    and "same_words h (u_free h (heap_addr h (x + 1))) (heap_taken h - {(x, n)})"
    and "heap_base (u_free h (heap_addr h (x + 1))) = heap_base h"
proof -
  have hinv: "heap_inv h" and len: "heap_len h = 0x100000" using inv by (simp_all add: uheap_inv_def)
  note B = taken_block_bounds [OF hinv tk]
  have i: "u_index h (heap_addr h (x + 1)) = x" "heap_index h (heap_addr h (x + 1)) = x"
    using u_index_addr [of x h] heap_index_addr [of x h] B len by auto
  have f: "heap_free (relaxed h) (heap_addr h (x + 1)) = Inr (relaxed (u_free h (heap_addr h (x + 1))))"
    using relaxed_free i B(5) by simp
  obtain h' where "heap_free (relaxed h) (heap_addr (relaxed h) (x + 1)) = Inr h'" "heap_inv h'"
      "heap_taken h' = heap_taken (relaxed h) - {(x, n)}"
      "same_words (relaxed h) h' (heap_taken (relaxed h) - {(x, n)})"
      "heap_base h' = heap_base (relaxed h)" "heap_len h' = heap_len (relaxed h)"
    by (rule free_sound [of "relaxed h" x n]) (use hinv tk in auto)
  then have h': "heap_inv (relaxed (u_free h (heap_addr h (x + 1))))"
      "heap_taken (relaxed (u_free h (heap_addr h (x + 1)))) = heap_taken h - {(x, n)}"
      "same_words (relaxed h) (relaxed (u_free h (heap_addr h (x + 1)))) (heap_taken h - {(x, n)})"
      "heap_base (relaxed (u_free h (heap_addr h (x + 1)))) = heap_base h"
      "heap_len (relaxed (u_free h (heap_addr h (x + 1)))) = heap_len h"
    using f by auto
  then show "uheap_inv (u_free h (heap_addr h (x + 1)))"
    "heap_taken (u_free h (heap_addr h (x + 1))) = heap_taken h - {(x, n)}"
    "same_words h (u_free h (heap_addr h (x + 1))) (heap_taken h - {(x, n)})"
    "heap_base (u_free h (heap_addr h (x + 1))) = heap_base h"
    using len by (simp_all add: uheap_inv_def)
qed

text \<open>A pointer that is not taken is ignored, where the kernel heap panics.\<close>

lemma u_free_ignores: "\<not> heap_isTaken h (u_index h p) \<Longrightarrow> u_free h p = h"
  by (simp add: u_free_def Let_def)

section \<open>memcpy\<close>

lemma bit_FF: "bit (0xFF :: int) n \<longleftrightarrow> n < 8"
proof -
  have "(0xFF :: int) = mask 8" by (simp add: mask_eq_exp_minus_1)
  then show ?thesis by (simp only: bit_mask_iff) auto
qed

lemma byte_high: "bit (b :: u8) n \<Longrightarrow> n < 8"
  using bit_imp_le_length [of b n] by simp

lemma word_byte_update:
  fixes w :: u32
  assumes "k < 4" and "l < 4"
  shows "ucast (drop_bit (8 * l) (w AND NOT (push_bit (8 * k) 0xFF) OR push_bit (8 * k) (ucast b))) =
     (if l = k then (b :: u8) else ucast (drop_bit (8 * l) w))" (is "?L = ?R")
proof (rule bit_word_eqI)
  fix n
  assume n: "n < LENGTH(8)"
  show "bit ?L n = bit ?R n"
    using n assms by (auto simp: bit_simps bit_FF dest: byte_high)
qed

lemma heap_byte_set: "heap_byte (heap_set_byte h a b) c = (if c = a then b else heap_byte h c)"
proof (cases "c div 4 = a div 4")
  case True
  have "nat (a mod 4) < 4" "nat (c mod 4) < 4" by auto
  moreover have "nat (c mod 4) = nat (a mod 4) \<longleftrightarrow> c = a"
    using True div_mult_mod_eq [of c 4] div_mult_mod_eq [of a 4] eq_nat_nat_iff [of "c mod 4" "a mod 4"]
    by (metis pos_mod_sign zero_less_numeral)
  ultimately show ?thesis
    using True
    by (simp add: heap_byte_def heap_set_byte_def Let_def heap_write_def word_byte_update
        del: drop_bit_and drop_bit_or)
qed (auto simp: heap_byte_def heap_set_byte_def heap_write_def Let_def)

lemma heap_set_byte_keeps [simp]:
  "heap_base (heap_set_byte h a b) = heap_base h" "heap_len (heap_set_byte h a b) = heap_len h"
  "heap_avail (heap_set_byte h a b) = heap_avail h"
  "k \<noteq> a div 4 \<Longrightarrow> heap_array (heap_set_byte h a b) k = heap_array h k"
  by (simp_all add: heap_set_byte_def Let_def heap_write_def)

lemma u_memcpy_keeps [simp]:
  "heap_base (u_memcpy h d s n) = heap_base h" "heap_len (u_memcpy h d s n) = heap_len h"
  "heap_avail (u_memcpy h d s n) = heap_avail h"
  by (induction h d s n rule: u_memcpy.induct) simp_all

lemma u_memcpy_words:
  "4 * k + 3 < d \<or> d + int n \<le> 4 * k \<Longrightarrow> heap_array (u_memcpy h d s n) k = heap_array h k"
proof (induction h d s n rule: u_memcpy.induct)
  case (2 h d s n)
  then have "k \<noteq> d div 4" by auto
  then show ?case using 2 by auto
qed simp

lemma u_memcpy_other: "a < d \<or> d + int n \<le> a \<Longrightarrow> heap_byte (u_memcpy h d s n) a = heap_byte h a"
  by (induction h d s n rule: u_memcpy.induct) (auto simp: heap_byte_set)

lemma u_memcpy_copied:
  "d + int n \<le> s \<or> s + int n \<le> d \<Longrightarrow> 0 \<le> i \<Longrightarrow> i < int n \<Longrightarrow>
   heap_byte (u_memcpy h d s n) (d + i) = heap_byte h (s + i)"
proof (induction h d s n arbitrary: i rule: u_memcpy.induct)
  case (2 h d s n)
  show ?case
  proof (cases "i = 0")
    case True
    then show ?thesis by (simp add: u_memcpy_other heap_byte_set)
  next
    case False
    then show ?thesis using 2(1) [of "i - 1"] 2(2-) by (auto simp: heap_byte_set)
  qed
qed simp

section \<open>realloc\<close>

text \<open>The payload of a taken block is nobody's business: any change to it keeps the layout.\<close>

lemma payload_frame:
  assumes rep: "heap_rep h ms fl" and tk: "(y, k) \<in> taken_at 2 ms"
    and eq: "heap_base h' = heap_base h" "heap_len h' = heap_len h" "heap_avail h' = heap_avail h"
    and out: "\<And>j. j \<le> y \<or> y + k - 1 \<le> j \<Longrightarrow> heap_array h' j = heap_array h j"
  shows "heap_rep h' ms fl"
proof -
  obtain as bs where ms: "ms = as @ - k # bs" "0 < k" "y = 2 + width as" using taken_split [OF tk] .
  have lay: "heap_layout h ms" and fl: "free_list h ms fl" using rep by (simp_all add: heap_rep_def)
  have big: "big ms" using lay by (simp add: heap_layout_def)
  have z: "0 \<notin> set as" "0 \<notin> set bs" using big ms(1) big_nonzero by auto
  have out': "heap_array h j = heap_array h' j" if "j \<in> edges 0 (all_blocks ms)" for j
  proof -
    have "j \<in> {0, 1, y, y + k - 1} \<union> edges 2 as \<union> edges (y + k) bs \<union> {heap_len h - 2, heap_len h - 1}"
      using that ms lay by (auto simp: all_blocks_def heap_layout_def algebra_simps)
    then have "j \<le> y \<or> y + k - 1 \<le> j"
      using edges_bounds [OF _ z(1), of j 2] edges_bounds [OF _ z(2), of j "y + k"] ms
        width_nonneg [of as] width_nonneg [of bs] lay
      by (auto simp: heap_layout_def)
    then show ?thesis using out by simp
  qed
  have "tiles (heap_array h) 0 (all_blocks ms) = tiles (heap_array h') 0 (all_blocks ms)"
    by (rule tiles_cong) (rule out')
  moreover have "dll (heap_array h) 0 (heap_avail h) fl = dll (heap_array h') 0 (heap_avail h) fl"
  proof (rule dll_cong)
    fix x
    assume "x \<in> set fl"
    then have l: "x + 1 \<in> links (free_at 2 ms)" "x + 2 \<in> links (free_at 2 ms)"
      using fl by (auto simp: free_list_def links_iff)
    have "j < y \<or> y + k \<le> j" if "j \<in> links (free_at 2 ms)" for j
      using taken_not_links [OF tk big, of j] that by force
    then show "heap_array h (x + 1) = heap_array h' (x + 1) \<and> heap_array h (x + 2) = heap_array h' (x + 2)"
      using l out by fastforce
  qed
  ultimately show ?thesis
    using rep eq unfolding heap_rep_def heap_layout_def free_list_def by simp
qed

lemma same_words_mono: "same_words h h' B \<Longrightarrow> A \<subseteq> B \<Longrightarrow> same_words h h' A"
  unfolding same_words_def by blast

lemma same_words_trans: "same_words h h' B \<Longrightarrow> same_words h' h'' B \<Longrightarrow> same_words h h'' B"
  unfolding same_words_def by fastforce

lemma same_words_bytes:
  assumes "same_words h h' B" and "(y, k) \<in> B" and "4 * y \<le> a" and "a < 4 * (y + k)"
  shows "heap_byte h' a = heap_byte h a"
proof -
  have "y \<le> a div 4" "a div 4 < y + k" using assms(3,4) by auto
  then show ?thesis using assms(1,2) by (fastforce simp: same_words_def heap_byte_def)
qed

definition realloc_post :: "heap \<Rightarrow> int \<Rightarrow> int \<Rightarrow> u32 \<Rightarrow> heap \<Rightarrow> u32 \<Rightarrow> bool" where
  "realloc_post h x n newSize h' q \<longleftrightarrow>
     uheap_inv h' \<and> same_words h h' (heap_taken h - {(x, n)}) \<and>
     (if q = 0 then heap_taken h' = heap_taken h - {(x, n)}
      else \<exists>y k. q = heap_addr h (y + 1) \<and> malloc_ints newSize \<le> k \<and>
             heap_taken h' = insert (y, k) (heap_taken h - {(x, n)}) \<and>
             (\<forall>i. 0 \<le> i \<and> i < min (uint newSize) (4 * (n - 2)) \<longrightarrow>
                heap_byte h' (4 * (y + 1) + i) = heap_byte h (4 * (x + 1) + i)))"

lemma malloc_ints_bytes: "uint bytes \<le> 2 ^ 32 - 4 \<Longrightarrow> uint bytes \<le> 4 * (malloc_ints bytes - 2)"
proof -
  assume "uint bytes \<le> 2 ^ 32 - 4"
  then have "malloc_ints bytes = max 4 ((uint bytes + 3) div 4 + 2)"
    by (simp add: malloc_ints_def Let_def sint_words uint_plus_3 max_def)
  moreover have "uint bytes \<le> 4 * ((uint bytes + 3) div 4)"
    using div_mult_mod_eq [of "uint bytes + 3" 4] pos_mod_bound [of 4 "uint bytes + 3"] by simp
  ultimately show ?thesis by (simp add: max_def)
qed

lemma u_realloc_sound:
  assumes inv: "uheap_inv h" and tk: "(x, n) \<in> heap_taken h"
    and size: "0 < newSize" "uint newSize \<le> 2 ^ 32 - 4"
  obtains h' q where "u_realloc h (heap_addr h (x + 1)) newSize = Some (h', q)"
    and "realloc_post h x n newSize h' q"
proof -
  let ?p = "heap_addr h (x + 1)"
  have hinv: "heap_inv h" and len: "heap_len h = 0x100000" using inv by (simp_all add: uheap_inv_def)
  note B = taken_block_bounds [OF hinv tk]
  obtain fl where rep: "heap_rep h (heap_blocks h) fl" using heap_inv_rep [OF hinv] by blast
  have p0: "?p \<noteq> 0" using taken_index(2) [OF rep] tk by (simp add: heap_taken_def)
  have idx: "u_index h ?p = x" using u_index_addr [of x h] B len by auto
  obtain h1 q where m: "u_malloc h newSize = Some (h1, q)" and post: "malloc_post h newSize h1 q"
    by (rule u_malloc_sound [OF hinv size(1)])
  have h1: "heap_inv h1" "heap_base h1 = heap_base h" "heap_len h1 = heap_len h"
      "same_words h h1 (heap_taken h)" using post by (simp_all add: malloc_post_def)
  define c where "c = (if word_of_int (n * 4) < newSize then n * 4 else uint newSize)"
  have n4: "uint (word_of_int (n * 4) :: u32) = n * 4"
    using uint_word_of_int_small [of "n * 4"] B len by simp
  have c: "0 \<le> c" "c = min (uint newSize) (4 * n)"
    using n4 B(2) by (auto simp: c_def word_less_def)
  define h2 where "h2 = (if q \<noteq> 0
      then u_memcpy h1 (uint (q - heap_base h1)) (uint (?p - heap_base h1)) (nat c) else h1)"
  have r: "u_realloc h ?p newSize = Some (u_free h2 ?p, q)"
    using p0 idx B(4,5) m size(1)
    by (auto simp: u_realloc_def Let_def c_def h2_def word_neq_0_conv)
  have base2: "heap_base h2 = heap_base h" using h1(2) by (simp add: h2_def)
  then have p2: "?p = heap_addr h2 (x + 1)" by (simp add: heap_addr_def)
  show ?thesis
  proof (cases "q = 0")
    case True
    have "heap_taken h1 = heap_taken h"
      using post True by (auto simp: malloc_post_def split: if_splits)
    moreover have h21: "h2 = h1" using True by (simp add: h2_def)
    ultimately have "uheap_inv h2" "(x, n) \<in> heap_taken h2" "heap_taken h2 = heap_taken h"
      using h1 len tk by (simp_all add: uheap_inv_def)
    note F = u_free_sound [OF this(1,2), folded p2]
    have "same_words h (u_free h2 ?p) (heap_taken h - {(x, n)})"
      using F(3) same_words_mono [OF h1(4)] h21 \<open>heap_taken h2 = heap_taken h\<close>
      by (auto intro: same_words_trans [of h h1])
    then have "realloc_post h x n newSize (u_free h2 ?p) q"
      using F True \<open>heap_taken h2 = heap_taken h\<close> by (simp add: realloc_post_def)
    then show ?thesis using that r by blast
  next
    case False
    then have fits: "\<exists>(x, n) \<in> heap_available h. malloc_ints newSize \<le> n"
      using post unfolding malloc_post_def by meson
    obtain y k where q: "q = heap_addr h (y + 1)" "malloc_ints newSize \<le> k"
      and tk1: "heap_taken h1 = insert (y, k) (heap_taken h)"
      and dis: "\<forall>(z, m) \<in> heap_taken h. z + m \<le> y \<or> y + k \<le> z"
      using post unfolding malloc_post_def if_P [OF fits] by blast
    have yk: "(y, k) \<in> heap_taken h1" using tk1 by simp
    note Y = taken_block_bounds [OF h1(1) yk]
    have xy: "x + n \<le> y \<or> y + k \<le> x" using dis tk by blast
    have off: "uint (q - heap_base h1) = 4 * (y + 1)" "uint (?p - heap_base h1) = 4 * (x + 1)"
      using heap_addr_offset(1) [of "y + 1" h1] heap_addr_offset(1) [of "x + 1" h1] Y B h1(2,3) len
      by (simp_all add: q(1) heap_addr_def)
    have h2: "h2 = u_memcpy h1 (4 * (y + 1)) (4 * (x + 1)) (nat c)"
      using False off by (simp add: h2_def)
    have cy: "c \<le> 4 * (k - 2)" using malloc_ints_bytes [OF size(2)] q(2) c by simp
    obtain fl1 where rep1: "heap_rep h1 (heap_blocks h1) fl1" using heap_inv_rep [OF h1(1)] by blast
    have words: "heap_array h2 j = heap_array h1 j" if "j \<le> y \<or> y + k - 1 \<le> j" for j
      using that cy c(1) unfolding h2 by (intro u_memcpy_words) auto
    have rep2: "heap_rep h2 (heap_blocks h1) fl1"
      using payload_frame [OF rep1, of y k h2] yk words h2 by (simp add: heap_taken_def)
    have inv2: "uheap_inv h2" using heap_rep_inv [OF rep2] h1(3) len by (simp add: uheap_inv_def h2)
    have tk2: "heap_taken h2 = insert (y, k) (heap_taken h)"
      using tk1 heap_rep_blocks [OF rep2] by (simp add: heap_taken_def)
    note F = u_free_sound [OF inv2, of x n, folded p2]
    have ne: "(y, k) \<noteq> (x, n)" using xy B(2) by auto
    have same: "same_words h1 h2 (heap_taken h)"
      unfolding same_words_def using words dis by fastforce
    have tk': "(x, n) \<in> heap_taken h2" using tk tk2 by simp
    have "same_words h h2 (heap_taken h)" using same_words_trans [OF h1(4) same] .
    moreover have "same_words h2 (u_free h2 ?p) (heap_taken h - {(x, n)})"
      using F(3) [OF tk'] tk2 by (auto elim: same_words_mono)
    ultimately have "same_words h (u_free h2 ?p) (heap_taken h - {(x, n)})"
      using same_words_trans [OF same_words_mono] by blast
    moreover have "heap_byte (u_free h2 ?p) (4 * (y + 1) + i) = heap_byte h (4 * (x + 1) + i)"
      if i: "0 \<le> i" "i < min (uint newSize) (4 * (n - 2))" for i
    proof -
      have ic: "i < c" "i < 4 * (k - 2)" using i c cy by auto
      have "heap_byte (u_free h2 ?p) (4 * (y + 1) + i) = heap_byte h2 (4 * (y + 1) + i)"
        using F(3) [OF tk'] tk2 ne ic i by (intro same_words_bytes [of h2 _ "heap_taken h2 - {(x, n)}" y k]) auto
      also have "\<dots> = heap_byte h1 (4 * (x + 1) + i)"
        unfolding h2 using xy ic i(1) c cy B(2) by (intro u_memcpy_copied) auto
      also have "\<dots> = heap_byte h (4 * (x + 1) + i)"
        using h1(4) tk i by (intro same_words_bytes [of h h1 "heap_taken h" x n]) auto
      finally show ?thesis .
    qed
    ultimately have "realloc_post h x n newSize (u_free h2 ?p) q"
      using F(1,2) [OF tk'] tk2 ne False q unfolding realloc_post_def by auto
    then show ?thesis using that r by blast
  qed
qed

section \<open>Initialisation and live pointers\<close>

lemma u_heap_init_layout: "u_heap_init base = heapInit_layout (\<lambda>_. 0) True base 0x400000"
  by (simp add: u_heap_init_def heapInit_layout_def)

lemma u_heap_init_facts:
  assumes "base \<noteq> 0" and "uint base + 0x400000 \<le> 2 ^ 32"
  shows "uheap_inv (u_heap_init base)" and "heap_taken (u_heap_init base) = {}"
    and "heap_available (u_heap_init base) = {(2, 0xFFFFC)}"
    and "heap_rep (u_heap_init base) [0xFFFFC] [2]"
proof -
  have "heap_len (u_heap_init base) = 0x100000"
    by (simp add: u_heap_init_def Let_def makeTaken_def makeAvail_def heap_write_def setNext_def setPrev_def)
  then show "uheap_inv (u_heap_init base)" "heap_taken (u_heap_init base) = {}"
    "heap_available (u_heap_init base) = {(2, 0xFFFFC)}" "heap_rep (u_heap_init base) [0xFFFFC] [2]"
    using heapInit_layout_blocks [of base "0x400000" "\<lambda>_. 0" True]
      heapInit_layout_rep [of base "0x400000" "\<lambda>_. 0" True] assms
    by (simp_all add: uheap_inv_def u_heap_init_layout)
qed

section \<open>The user heap as an allocator\<close>

definition user_dealloc :: "heap \<Rightarrow> u32 \<Rightarrow> heap option" where
  "user_dealloc h p = Some (u_free h p)"

interpretation user_heap: allocator uheap_inv heap_live u_malloc user_dealloc
proof unfold_locales
  fix h b
  assume inv: "uheap_inv h" and b: "b \<noteq> (0 :: u32)"
  have "0 < b" and hinv: "heap_inv h" using inv b by (simp_all add: uheap_inv_def word_neq_0_conv)
  then obtain h' p where m: "u_malloc h b = Some (h', p)" "malloc_post h b h' p"
    using u_malloc_sound [OF hinv] by blast
  moreover have "uheap_inv h'" using m(2) inv by (simp add: malloc_post_def uheap_inv_def)
  ultimately show "\<exists>s' p. u_malloc h b = Some (s', p) \<and> uheap_inv s' \<and>
      (if p = 0 then heap_live s' = heap_live h
       else p \<notin> heap_live h \<and> heap_live s' = insert p (heap_live h))"
    using malloc_post_live by blast
next
  fix h p
  assume inv: "uheap_inv h" and p: "p \<in> heap_live h"
  have hinv: "heap_inv h" using inv by (simp add: uheap_inv_def)
  obtain x n where x: "(x, n) \<in> heap_taken h" "p = heap_addr h (x + 1)"
    using p by (auto simp: heap_live_def)
  note F = u_free_sound [OF inv x(1), folded x(2)]
  show "\<exists>s'. user_dealloc h p = Some s' \<and> uheap_inv s' \<and> heap_live s' = heap_live h - {p}"
    using F freed_live [OF hinv x F(2,4)] by (simp add: user_dealloc_def)
qed

section \<open>Properties\<close>

text \<open>
   \<^verbatim>\<open>malloc\<close> of the user heap is first fit: the loop ends, the outcome is as for the kernel
  heap (a fresh disjoint block, or the null pointer when nothing fits), and the block is the
  first one of the free list with enough words.
\<close>

theorem u_malloc_first_fit:
  assumes "heap_rep h ms fl" and "0 < bytes"
  shows "\<exists>h' p. u_malloc h bytes = Some (h', p) \<and> malloc_post h bytes h' p \<and>
    (p \<noteq> 0 \<longrightarrow> (\<exists>us x ws. fl = us @ x # ws \<and> p = heap_addr h (x + 1) \<and>
       malloc_ints bytes \<le> heap_size h x \<and> (\<forall>y \<in> set us. heap_size h y < malloc_ints bytes)))"
proof -
  obtain h' p where m: "u_malloc h bytes = Some (h', p)" "malloc_post h bytes h' p"
    using u_malloc_sound heap_rep_inv assms by metis
  show ?thesis using m by (cases rule: u_malloc_spec [OF assms]) auto
qed

theorem u_malloc_first_fit_witness:
  "\<exists>h' p. u_malloc (u_heap_init 0x80000000) 10 = Some (h', p) \<and>
     malloc_post (u_heap_init 0x80000000) 10 h' p"
  using u_malloc_first_fit [OF u_heap_init_facts(4) [of "0x80000000"], of 10] by auto

text \<open>
  C6. \<^verbatim>\<open>realloc\<close> of a live pointer to at most \<open>2^32 - 4\<close> bytes returns, keeps the heap well formed
  and every other taken block, and releases the old block. A non-null result is a block with
  the words requested whose first bytes, as many as both blocks have, are the old ones.
\<close>

theorem u_realloc_correct:
  assumes "uheap_inv h" and "(x, n) \<in> heap_taken h" and "0 < newSize" and "uint newSize \<le> 2 ^ 32 - 4"
  shows "\<exists>h' q. u_realloc h (heap_addr h (x + 1)) newSize = Some (h', q) \<and>
    realloc_post h x n newSize h' q"
  using u_realloc_sound [OF assms] by blast

lemma user_alloc:
  obtains h x n where "u_malloc (u_heap_init 0x80000000) 10 = Some (h, heap_addr h (x + 1))" and "uheap_inv h"
    and "(x, n) \<in> heap_taken h" and "heap_taken h = {(x, n)}"
proof -
  let ?h = "u_heap_init 0x80000000"
  note I = u_heap_init_facts [of "0x80000000", simplified]
  have hinv: "heap_inv ?h" using I(1) by (simp add: uheap_inv_def)
  have fits: "\<exists>(x, n) \<in> heap_available ?h. malloc_ints 10 \<le> n"
    using I(3) by (simp add: malloc_ints_def)
  obtain h p where m: "u_malloc ?h 10 = Some (h, p)" "malloc_post ?h 10 h p"
    by (rule u_malloc_sound [OF hinv, of 10]) auto
  obtain x n where x: "p = heap_addr ?h (x + 1)" "heap_taken h = {(x, n)}"
    using m(2) I(2) unfolding malloc_post_def if_P [OF fits] by auto
  moreover have "uheap_inv h" "heap_base h = heap_base ?h"
    using m(2) I(1) by (simp_all add: malloc_post_def uheap_inv_def)
  ultimately show ?thesis using that m(1) by (simp add: heap_addr_def)
qed

theorem u_realloc_correct_witness:
  "\<exists>h x n h' q. uheap_inv h \<and> (x, n) \<in> heap_taken h \<and>
     u_realloc h (heap_addr h (x + 1)) 40 = Some (h', q) \<and> realloc_post h x n 40 h' q"
proof -
  obtain h x n where h: "uheap_inv h" "(x, n) \<in> heap_taken h" by (rule user_alloc)
  then show ?thesis using u_realloc_correct [OF h, of 40] by force
qed

text \<open>
   When no available block has the words needed, \<^verbatim>\<open>realloc\<close> returns the null pointer and still
  frees the old block: the caller loses its data, where C's \<^verbatim>\<open>realloc\<close> leaves the block alone.
\<close>

theorem u_realloc_failure_frees:
  assumes "uheap_inv h" and "(x, n) \<in> heap_taken h" and "0 < newSize"
    and "\<forall>(y, k) \<in> heap_available h. k < malloc_ints newSize"
  shows "\<exists>h'. u_realloc h (heap_addr h (x + 1)) newSize = Some (h', 0) \<and>
    heap_taken h' = heap_taken h - {(x, n)}"
proof -
  have hinv: "heap_inv h" and len: "heap_len h = 0x100000" using assms(1) by (simp_all add: uheap_inv_def)
  note B = taken_block_bounds [OF hinv assms(2)]
  obtain fl where rep: "heap_rep h (heap_blocks h) fl" using heap_inv_rep [OF hinv] by blast
  have p0: "heap_addr h (x + 1) \<noteq> 0" using taken_index(2) [OF rep] assms(2) by (simp add: heap_taken_def)
  have idx: "u_index h (heap_addr h (x + 1)) = x" using u_index_addr [of x h] B len by auto
  obtain h1 q where m: "u_malloc h newSize = Some (h1, q)" and post: "malloc_post h newSize h1 q"
    by (rule u_malloc_sound [OF hinv assms(3)])
  have none: "\<not> (\<exists>(y, k) \<in> heap_available h. malloc_ints newSize \<le> k)" using assms(4) by fastforce
  have "q = 0" "h1 = h" using post unfolding malloc_post_def if_not_P [OF none] by simp_all
  then have "u_realloc h (heap_addr h (x + 1)) newSize = Some (u_free h (heap_addr h (x + 1)), 0)"
    using p0 idx B(5) m assms(3) by (auto simp: u_realloc_def Let_def word_neq_0_conv)
  then show ?thesis using u_free_sound(2) [OF assms(1,2)] by blast
qed

theorem u_realloc_failure_frees_witness:
  "\<exists>h x n h'. uheap_inv h \<and> heap_taken h = {(x, n)} \<and>
     u_realloc h (heap_addr h (x + 1)) 0x7FFFFFFF = Some (h', 0) \<and> heap_taken h' = {}"
proof -
  obtain h x n where h: "uheap_inv h" "(x, n) \<in> heap_taken h" "heap_taken h = {(x, n)}" by (rule user_alloc)
  have hinv: "heap_inv h" and len: "heap_len h = 0x100000" using h(1) by (simp_all add: uheap_inv_def)
  obtain fl where rep: "heap_rep h (heap_blocks h) fl" using heap_inv_rep [OF hinv] by blast
  have "k < malloc_ints 0x7FFFFFFF" if "(y, k) \<in> heap_available h" for y k
  proof -
    have "(y, k) \<in> set (hdrs 2 (heap_blocks h))" using that by (simp add: heap_available_def avail_at_hdrs)
    moreover have "width (heap_blocks h) \<le> 0x100000"
      using rep len by (simp add: heap_rep_def heap_layout_def)
    moreover have "y + k \<le> 2 + width (heap_blocks h) \<and> 2 \<le> y"
      using hdrs_bounds [of y k 2 "heap_blocks h"] calculation(1) by auto
    moreover have "0x100000 < malloc_ints 0x7FFFFFFF" by (simp add: malloc_ints_def)
    ultimately show ?thesis by simp
  qed
  then have "\<forall>(y, k) \<in> heap_available h. k < malloc_ints 0x7FFFFFFF" by blast
  then show ?thesis using u_realloc_failure_frees [OF h(1,2), of "0x7FFFFFFF"] h by auto
qed

text \<open>
  C7. No script of requests and releases of live pointers makes the user heap loop, and live
  pointers stay distinct.
\<close>

theorem user_heap_scripts_safe:
  assumes "uheap_inv h" and "set ps \<subseteq> heap_live h" and "distinct ps" and "Alloc 0 \<notin> set ops"
  shows "\<exists>h' ps'. run_script u_malloc user_dealloc h ps ops = Some (h', ps') \<and> uheap_inv h' \<and>
     set ps' \<subseteq> heap_live h' \<and> distinct ps' \<and> heap_live h' - set ps' = heap_live h - set ps"
  using assms by (rule user_heap.run_script_safe)

theorem user_heap_scripts_safe_witness:
  "\<exists>h' ps'. run_script u_malloc user_dealloc (u_heap_init 0x80000000) [] [Alloc 8, Alloc 4, Release 1, Alloc 100] =
     Some (h', ps') \<and> uheap_inv h' \<and> set ps' \<subseteq> heap_live h'"
  using user_heap_scripts_safe [of "u_heap_init 0x80000000" "[]" "[Alloc 8, Alloc 4, Release 1, Alloc 100]"]
    u_heap_init_facts(1) [of "0x80000000"] by auto

end
