(* ===== verification/PhysMem.thy ===== *)
theory PhysMem
  imports Prelude
begin

unbundle bit_operations_syntax

text \<open>
  Physical memory, \<^verbatim>\<open>kernel/physmem.cc\<close>: frames of 4096 bytes, handed out from a free list that
  is threaded through the first words of the free frames, and from the fresh range between
  \<^verbatim>\<open>avail\<close> and \<^verbatim>\<open>limit\<close>. The memory is a map from addresses to 32-bit words, read and written at
  multiples of 4; the page tables of the theory VMM live in it too.
\<close>

section \<open>State and operations\<close>

datatype pm_panic = NoMoreFrames | AssertFailed | BadPageFault u32

record pmem =
  pm_mem :: "u32 \<Rightarrow> u32"
  pm_firstFree :: u32
  pm_avail :: u32
  pm_limit :: u32

definition FRAME_SIZE :: u32 where
  "FRAME_SIZE = push_bit 12 1"

definition pm_offset :: "u32 \<Rightarrow> u32" where
  "pm_offset pa = pa AND 0xFFF"

definition ppn :: "u32 \<Rightarrow> u32" where
  "ppn pa = drop_bit 12 pa"

definition framedown :: "u32 \<Rightarrow> u32" where
  "framedown pa = (pa div FRAME_SIZE) * FRAME_SIZE"

definition frameup :: "u32 \<Rightarrow> u32" where
  "frameup pa = framedown (pa + FRAME_SIZE - 1)"

text \<open>\<^verbatim>\<open>bzero(p, FRAME_SIZE)\<close>: every word of the frame becomes 0.\<close>

definition bzero_frame :: "(u32 \<Rightarrow> u32) \<Rightarrow> u32 \<Rightarrow> (u32 \<Rightarrow> u32)" where
  "bzero_frame m p = (\<lambda>a. if a - p < FRAME_SIZE then 0 else m a)"

definition alloc_frame :: "pmem \<Rightarrow> pm_panic + pmem \<times> u32" where
  "alloc_frame s =
     rbind
       (if pm_firstFree s \<noteq> 0
        then Inr (s\<lparr>pm_firstFree := pm_mem s (pm_firstFree s)\<rparr>, pm_firstFree s)
        else if pm_avail s = pm_limit s then Inl NoMoreFrames
        else Inr (s\<lparr>pm_avail := pm_avail s + FRAME_SIZE\<rparr>, pm_avail s))
       (\<lambda>(s1, p).
          if pm_offset p \<noteq> 0 then Inl AssertFailed
          else Inr (s1\<lparr>pm_mem := bzero_frame (pm_mem s1) p\<rparr>, p))"

definition dealloc_frame :: "pmem \<Rightarrow> u32 \<Rightarrow> pm_panic + pmem" where
  "dealloc_frame s p =
     (if pm_offset p \<noteq> 0 then Inl AssertFailed
      else Inr (s\<lparr>pm_mem := (pm_mem s)(p := pm_firstFree s), pm_firstFree := p\<rparr>))"

definition pm_init :: "(u32 \<Rightarrow> u32) \<Rightarrow> u32 \<Rightarrow> u32 \<Rightarrow> pm_panic + pmem" where
  "pm_init m start sz =
     (if pm_offset start \<noteq> 0 \<or> pm_offset sz \<noteq> 0 then Inl AssertFailed
      else Inr \<lparr>pm_mem = m, pm_firstFree = 0, pm_avail = start, pm_limit = start + sz\<rparr>)"

section \<open>Frames\<close>

definition frame :: "u32 \<Rightarrow> u32" where
  "frame a = a AND 0xFFFFF000"

lemma frame_size [simp]: "FRAME_SIZE = 4096"
  by (simp add: FRAME_SIZE_def)

lemma frame_mask: "(0xFFFFF000 :: u32) = NOT (mask 12)" "(0xFFF :: u32) = mask 12"
  by (simp_all add: mask_eq_exp_minus_1)

lemma frame_bits: "frame a = push_bit 12 (drop_bit 12 a)"
  unfolding frame_def frame_mask
  by (rule bit_word_eqI) (auto simp: bit_simps not_less)

lemma uint_mult_4096:
  assumes "uint (b :: u32) < 2 ^ 20"
  shows "uint (4096 * b) = 4096 * uint b"
proof -
  have "uint (4096 * b) = (4096 * uint b) mod 2 ^ 32" by (simp add: uint_word_ariths)
  then show ?thesis using assms by simp
qed

lemma uint_div_4096: "uint ((a :: u32) div 4096) = uint a div 4096"
  by (simp add: uint_div_distrib)

lemma uint_frame: "uint (frame a) = 4096 * (uint a div 4096)"
proof -
  have "uint a < 2 ^ 32" using uint_bounded [of a] by simp
  then have "uint (a div 4096) < 2 ^ 20" by (simp add: uint_div_4096)
  moreover have "frame a = 4096 * (a div 4096)"
    by (simp add: frame_bits push_bit_eq_mult drop_bit_eq_div mult.commute)
  ultimately show ?thesis by (simp add: uint_mult_4096 uint_div_4096)
qed

lemma framedown_frame: "framedown a = frame a"
  by (simp add: frame_bits framedown_def push_bit_eq_mult drop_bit_eq_div)

lemma uint_offset: "uint (pm_offset a) = uint a mod 4096"
proof -
  have "pm_offset a = take_bit 12 a"
    unfolding pm_offset_def frame_mask by (rule bit_word_eqI) (auto simp: bit_simps)
  then show ?thesis by (simp add: unsigned_take_bit_eq take_bit_eq_mod uint_mod_distrib)
qed

lemma offset_0_iff: "pm_offset a = 0 \<longleftrightarrow> uint a mod 4096 = 0"
  using uint_offset [of a] by (metis uint_0_eq uint_0_iff)

lemma frame_aligned [simp]: "pm_offset (frame a) = 0"
  by (simp add: offset_0_iff uint_frame)

lemma frame_id: "pm_offset f = 0 \<Longrightarrow> frame f = f"
  using uint_frame [of f] by (intro word_uint_eqI) (auto simp: offset_0_iff)

text \<open>The frame of an address, and the 1024 words of a frame.\<close>

lemma frame_eq_iff: "pm_offset f = 0 \<Longrightarrow> frame a = f \<longleftrightarrow> a - f < 4096"
proof -
  assume f: "pm_offset f = 0"
  have m: "uint f mod 4096 = 0" using f by (simp add: offset_0_iff)
  have b: "uint a < 2 ^ 32" "uint f < 2 ^ 32" "0 \<le> uint a" "0 \<le> uint f"
    using uint_bounded [of a] uint_bounded [of f] by simp_all
  have "uint (a - f) = (if uint f \<le> uint a then uint a - uint f else uint a - uint f + 2 ^ 32)"
    by (simp add: uint_sub_if')
  then have "a - f < 4096 \<longleftrightarrow>
      (if uint f \<le> uint a then uint a - uint f else uint a - uint f + 2 ^ 32) < 4096"
    by (simp add: word_less_def)
  moreover have "frame a = f \<longleftrightarrow> 4096 * (uint a div 4096) = uint f"
    using uint_frame [of a] by (metis word_uint_eqI)
  moreover have "4096 * (x div 4096) = y \<longleftrightarrow> (if y \<le> x then x - y else x - y + 2 ^ 32) < 4096"
    if "y mod 4096 = 0" "0 \<le> x" "x < 2 ^ 32" "0 \<le> y" "y < 2 ^ 32" for x y :: int
    using that by auto
  ultimately show ?thesis using m b by metis
qed

lemma uint_slot:
  assumes "pm_offset f = 0" and "i < 1024"
  shows "uint (f + 4 * i) = uint f + 4 * uint i"
proof -
  have i: "uint i < 1024" "0 \<le> uint i" using assms(2) by (simp_all add: word_less_def)
  have f: "uint f mod 4096 = 0" "uint f < 2 ^ 32" using assms(1) uint_bounded [of f] by (simp_all add: offset_0_iff)
  have "y \<le> 2 ^ 32 - 4096" if "y mod 4096 = 0" "y < 2 ^ 32" for y :: int
    using multiple_gap [of y 4096 "2 ^ 32"] that by simp
  from this [OF f] have "uint f \<le> 2 ^ 32 - 4096" .
  then have s: "uint f + 4 * uint i < 2 ^ 32" using i by simp
  have i4: "uint (4 * i) = 4 * uint i" using i by (simp add: uint_word_ariths)
  have "uint (f + 4 * i) = (uint f + uint (4 * i)) mod 2 ^ 32" by (simp add: uint_word_ariths)
  then show ?thesis using s i i4 uint_ge_0 [of f] by simp
qed

lemma aligned_div:
  assumes "0 \<le> (y :: int)" and "y < 1024" and "x mod 4096 = 0"
  shows "4096 * ((x + 4 * y) div 4096) = x"
proof -
  obtain k where k: "x = 4096 * k" using assms(3) by (metis dvdE mod_0_imp_dvd)
  have "(x + 4 * y) div 4096 = k"
    by (rule int_div_pos_eq [of _ _ _ "4 * y"]) (use k assms in auto)
  then show ?thesis using k by simp
qed

lemma frame_slot: "pm_offset f = 0 \<Longrightarrow> i < 1024 \<Longrightarrow> frame (f + 4 * i) = f"
proof -
  assume f: "pm_offset f = 0" and i: "i < 1024"
  have y: "0 \<le> uint i" "uint i < 1024" and x: "uint f mod 4096 = 0"
    using f i by (simp_all add: offset_0_iff word_less_def)
  show ?thesis
    using uint_frame [of "f + 4 * i"] uint_slot [OF f i] aligned_div [OF y x] by (intro word_uint_eqI) simp
qed

lemma slot_inj:
  assumes "pm_offset f = 0" and "i < 1024" and "j < 1024"
  shows "f + 4 * i = f + 4 * j \<longleftrightarrow> i = j"
proof
  assume "f + 4 * i = f + 4 * j"
  then have "uint i = uint j" using uint_slot [OF assms(1,2)] uint_slot [OF assms(1,3)] by simp
  then show "i = j" by (rule word_uint_eqI)
qed simp

section \<open>The free frames\<close>

fun chain :: "(u32 \<Rightarrow> u32) \<Rightarrow> u32 \<Rightarrow> u32 list \<Rightarrow> bool" where
  "chain m p [] \<longleftrightarrow> p = 0"
| "chain m p (f # fs) \<longleftrightarrow> p = f \<and> f \<noteq> 0 \<and> chain m (m f) fs"

definition pm_rep :: "pmem \<Rightarrow> u32 list \<Rightarrow> bool" where
  "pm_rep s fs \<longleftrightarrow>
     chain (pm_mem s) (pm_firstFree s) fs \<and> distinct fs \<and>
     (\<forall>f \<in> set fs. pm_offset f = 0 \<and> f < pm_avail s) \<and>
     pm_offset (pm_avail s) = 0 \<and> pm_offset (pm_limit s) = 0 \<and> 0 < pm_avail s \<and>
     pm_avail s \<le> pm_limit s"

definition pm_inv :: "pmem \<Rightarrow> bool" where
  "pm_inv s \<longleftrightarrow> (\<exists>fs. pm_rep s fs)"

text \<open>
  The walk over the free list, with as many steps as there are frames, and the set of the
  frames that can still be handed out.
\<close>

fun free_walk :: "(u32 \<Rightarrow> u32) \<Rightarrow> nat \<Rightarrow> u32 \<Rightarrow> u32 list" where
  "free_walk m 0 p = []"
| "free_walk m (Suc n) p = (if p = 0 then [] else p # free_walk m n (m p))"

definition pm_free :: "pmem \<Rightarrow> u32 set" where
  "pm_free s = set (free_walk (pm_mem s) (2 ^ 20) (pm_firstFree s)) \<union>
     {p. pm_offset p = 0 \<and> pm_avail s \<le> p \<and> p < pm_limit s}"

lemma chain_cong: "(\<And>f. f \<in> set fs \<Longrightarrow> m f = m' f) \<Longrightarrow> chain m p fs = chain m' p fs"
  by (induction fs arbitrary: p) auto

lemma chain_walk: "chain m p fs \<Longrightarrow> length fs \<le> n \<Longrightarrow> free_walk m n p = fs"
proof (induction fs arbitrary: p n)
  case Nil
  then show ?case by (cases n) simp_all
next
  case (Cons f fs)
  then show ?case by (cases n) simp_all
qed

lemma frames_card:
  assumes "distinct fs" and "\<forall>f \<in> set fs. pm_offset f = 0"
  shows "length fs \<le> 2 ^ 20"
proof -
  have "inj_on (\<lambda>f. nat (uint f div 4096)) (set fs)"
  proof (rule inj_onI)
    fix f g
    assume fg: "f \<in> set fs" "g \<in> set fs" "nat (uint f div 4096) = nat (uint g div 4096)"
    then have "uint f div 4096 = uint g div 4096" by (simp add: eq_nat_nat_iff pos_imp_zdiv_nonneg_iff)
    then have "frame f = frame g" using uint_frame [of f] uint_frame [of g] by (intro word_uint_eqI) simp
    then show "f = g" using assms(2) fg frame_id by simp
  qed
  moreover have "(\<lambda>f. nat (uint f div 4096)) ` set fs \<subseteq> {..<2 ^ 20}"
  proof
    fix k
    assume "k \<in> (\<lambda>f. nat (uint f div 4096)) ` set fs"
    then obtain f :: u32 where "k = nat (uint f div 4096)" by auto
    moreover have "uint f < 2 ^ 32" using uint_bounded [of f] by simp
    then have "uint f div 4096 < 2 ^ 20" by simp
    ultimately show "k \<in> {..<2 ^ 20}" by simp
  qed
  ultimately have "card (set fs) \<le> 2 ^ 20"
    using card_inj_on_le [of _ "set fs" "{..<2 ^ 20 :: nat}"] by fastforce
  then show ?thesis using assms(1) by (simp add: distinct_card)
qed

lemma pm_rep_free:
  assumes "pm_rep s fs"
  shows "pm_free s = set fs \<union> {p. pm_offset p = 0 \<and> pm_avail s \<le> p \<and> p < pm_limit s}"
  using chain_walk [of "pm_mem s" "pm_firstFree s" fs "2 ^ 20"] frames_card [of fs] assms
  by (auto simp: pm_rep_def pm_free_def simp del: power_numeral)

lemma offset_frame_less:
  assumes "pm_offset p = 0" and "pm_offset q = 0" and "p < q"
  shows "p + 4096 \<le> q" and "0 < p + 4096" and "p < p + 4096"
proof -
  have u: "uint p mod 4096 = 0" "uint q mod 4096 = 0" "uint p < uint q"
    using assms by (simp_all add: offset_0_iff word_less_def)
  have "x + 4096 \<le> y" if "x mod 4096 = 0" "y mod 4096 = 0" "x < y" for x y :: int
    using multiple_gap [of x 4096 y] that by simp
  from this [OF u] have l: "uint p + 4096 \<le> uint q" .
  then have "uint (p + 4096) = uint p + 4096"
    using uint_bounded [of q] by (simp add: uint_word_ariths)
  then show "p + 4096 \<le> q" "0 < p + 4096" "p < p + 4096" using l by (simp_all add: word_le_def word_less_def add_nonneg_pos)
qed

lemma offset_frame_uint:
  assumes "pm_offset p = 0" and "pm_offset q = 0" and "p < q"
  shows "uint p + 4096 \<le> uint q"
proof -
  have u: "uint p mod 4096 = 0" "uint q mod 4096 = 0" "uint p < uint q"
    using assms by (simp_all add: offset_0_iff word_less_def)
  have "x + 4096 \<le> y" if "x mod 4096 = 0" "y mod 4096 = 0" "x < y" for x y :: int
    using multiple_gap [of x 4096 y] that by simp
  from this [OF u] show ?thesis .
qed

lemma offset_add:
  assumes "pm_offset p = 0" and "pm_offset q = 0"
  shows "pm_offset (p + q) = 0"
proof -
  have "uint (p + q) mod 4096 = (uint p + uint q) mod 4096"
    by (simp add: uint_word_ariths mod_mod_cancel)
  also have "\<dots> = (uint p mod 4096 + uint q mod 4096) mod 4096" by (simp only: mod_add_eq)
  also have "\<dots> = 0" using assms by (simp add: offset_0_iff)
  finally show ?thesis by (simp add: offset_0_iff)
qed

lemma offset_add_frame: "pm_offset p = 0 \<Longrightarrow> pm_offset (p + 4096) = 0"
proof -
  assume "pm_offset p = 0"
  then have "uint p mod 4096 = 0" by (simp add: offset_0_iff)
  moreover have "uint (p + 4096) = (uint p + 4096) mod 2 ^ 32" by (simp add: uint_word_ariths)
  ultimately show ?thesis by (simp add: offset_0_iff mod_mod_cancel)
qed

section \<open>alloc_frame and dealloc_frame\<close>

lemma chain_head: "chain m p fs \<Longrightarrow> p = 0 \<longleftrightarrow> fs = []"
  by (cases fs) auto

lemma bzero_other: "pm_offset f = 0 \<Longrightarrow> frame a \<noteq> f \<Longrightarrow> bzero_frame m f a = m a"
  by (auto simp: bzero_frame_def frame_eq_iff)

lemma bzero_in: "pm_offset f = 0 \<Longrightarrow> frame a = f \<Longrightarrow> bzero_frame m f a = 0"
  by (auto simp: bzero_frame_def frame_eq_iff)

lemma pm_inv_rep: "pm_inv s \<Longrightarrow> \<exists>fs. pm_rep s fs"
  by (simp add: pm_inv_def)

lemma alloc_sound:
  assumes inv: "pm_inv s"
  obtains (panics) "pm_free s = {}" and "alloc_frame s = Inl NoMoreFrames"
    | (allocates) s' p where "alloc_frame s = Inr (s', p)" and "p \<in> pm_free s" and "p \<noteq> 0"
        and "pm_offset p = 0" and "pm_inv s'" and "pm_free s' = pm_free s - {p}"
        and "pm_mem s' = bzero_frame (pm_mem s) p" and "pm_limit s' = pm_limit s"
proof -
  obtain fs where rep: "pm_rep s fs" using pm_inv_rep [OF inv] by blast
  note free = pm_rep_free [OF rep]
  have off: "pm_offset (pm_avail s) = 0" "pm_offset (pm_limit s) = 0" and le: "pm_avail s \<le> pm_limit s"
    and ch: "chain (pm_mem s) (pm_firstFree s) fs" and pos: "0 < pm_avail s"
    using rep by (simp_all add: pm_rep_def)
  show ?thesis
  proof (cases fs)
    case Nil
    then have ff: "pm_firstFree s = 0" using chain_head [OF ch] by simp
    show ?thesis
    proof (cases "pm_avail s = pm_limit s")
      case True
      have "pm_free s = {}" unfolding free using Nil True by auto
      moreover have "alloc_frame s = Inl NoMoreFrames" using ff True by (simp add: alloc_frame_def)
      ultimately show ?thesis by (rule panics)
    next
      case False
      then have lt: "pm_avail s < pm_limit s" using le by simp
      let ?p = "pm_avail s"
      let ?s' = "s\<lparr>pm_avail := ?p + 4096, pm_mem := bzero_frame (pm_mem s) ?p\<rparr>"
      note next_frame = offset_frame_less [OF off lt]
      have rep': "pm_rep ?s' []"
        using rep Nil ff next_frame offset_add_frame [OF off(1)] by (simp add: pm_rep_def)
      have "\<lbrakk>pm_offset q = 0; ?p \<le> q; q \<noteq> ?p\<rbrakk> \<Longrightarrow> ?p + 4096 \<le> q" for q
        using offset_frame_less(1) [OF off(1), of q] by simp
      moreover have "q \<noteq> ?p \<and> ?p \<le> q" if "?p + 4096 \<le> q" for q
      proof -
        have "?p < ?p + 4096" using offset_frame_less(3) [OF off lt] .
        then show ?thesis using that by auto
      qed
      ultimately have "pm_free ?s' = pm_free s - {?p}"
        unfolding free pm_rep_free [OF rep'] using Nil by auto
      moreover have "?p \<in> pm_free s" unfolding free using off lt by simp
      moreover have "alloc_frame s = Inr (?s', ?p)"
        using False ff off by (simp add: alloc_frame_def)
      moreover have "pm_inv ?s'" using rep' unfolding pm_inv_def by blast
      ultimately show ?thesis using off pos by (intro allocates [of ?s' ?p]) simp_all
    qed
  next
    case (Cons f gs)
    then have ff: "pm_firstFree s = f" "f \<noteq> 0" and ch': "chain (pm_mem s) (pm_mem s f) gs"
      using ch by auto
    have f: "pm_offset f = 0" "f \<notin> set gs" using rep Cons by (simp_all add: pm_rep_def)
    let ?s' = "s\<lparr>pm_firstFree := pm_mem s f, pm_mem := bzero_frame (pm_mem s) f\<rparr>"
    have "bzero_frame (pm_mem s) f g = pm_mem s g" if "g \<in> set gs" for g
      using that f rep Cons by (intro bzero_other) (auto simp: pm_rep_def frame_id)
    then have "chain (pm_mem s) (pm_mem s f) gs = chain (bzero_frame (pm_mem s) f) (pm_mem s f) gs"
      by (intro chain_cong) simp
    then have rep': "pm_rep ?s' gs" using rep Cons ch' by (simp add: pm_rep_def)
    have "pm_free ?s' = pm_free s - {f}"
      unfolding free pm_rep_free [OF rep'] using Cons f rep by (auto simp: pm_rep_def)
    moreover have "f \<in> pm_free s" unfolding free using Cons by simp
    moreover have "alloc_frame s = Inr (?s', f)" using ff f by (simp add: alloc_frame_def)
    moreover have "pm_inv ?s'" using rep' unfolding pm_inv_def by blast
    ultimately show ?thesis using ff f by (intro allocates [of ?s' f]) simp_all
  qed
qed

text \<open>A frame that may be given back: one of the range that was handed out and is not free.\<close>

definition pm_owned :: "pmem \<Rightarrow> u32 \<Rightarrow> bool" where
  "pm_owned s p \<longleftrightarrow> pm_offset p = 0 \<and> p \<noteq> 0 \<and> p < pm_limit s \<and> p \<notin> pm_free s"

lemma dealloc_sound:
  assumes inv: "pm_inv s" and p: "pm_owned s p"
  obtains s' where "dealloc_frame s p = Inr s'" and "pm_inv s'" and "pm_free s' = insert p (pm_free s)"
    and "pm_mem s' = (pm_mem s)(p := pm_firstFree s)" and "pm_limit s' = pm_limit s"
proof -
  obtain fs where rep: "pm_rep s fs" using pm_inv_rep [OF inv] by blast
  let ?s' = "s\<lparr>pm_mem := (pm_mem s)(p := pm_firstFree s), pm_firstFree := p\<rparr>"
  have nf: "p \<notin> set fs" and av: "p < pm_avail s" and o: "pm_offset p = 0" "p \<noteq> 0"
    using p pm_rep_free [OF rep] by (auto simp: pm_owned_def not_le)
  have "chain (pm_mem s) (pm_firstFree s) fs = chain (pm_mem ?s') (pm_firstFree s) fs"
    using nf by (intro chain_cong) auto
  then have rep': "pm_rep ?s' (p # fs)" using rep nf av o by (simp add: pm_rep_def)
  have "pm_free ?s' = insert p (pm_free s)"
    unfolding pm_rep_free [OF rep] pm_rep_free [OF rep'] by auto
  then show ?thesis using that [of ?s'] o rep' by (auto simp: dealloc_frame_def pm_inv_def)
qed

section \<open>The interface of a frame allocator\<close>

fun alloc_many :: "('s \<Rightarrow> ('s \<times> u32) option) \<Rightarrow> nat \<Rightarrow> 's \<Rightarrow> ('s \<times> u32 list) option" where
  "alloc_many alloc 0 s = Some (s, [])"
| "alloc_many alloc (Suc n) s =
     (case alloc s of
        None \<Rightarrow> None
      | Some (s1, p) \<Rightarrow> map_option (\<lambda>(s2, ps). (s2, p # ps)) (alloc_many alloc n s1))"

locale frame_pool =
  fixes inv :: "'s \<Rightarrow> bool"
    and free :: "'s \<Rightarrow> u32 set"
    and alloc :: "'s \<Rightarrow> ('s \<times> u32) option"
    and dealloc :: "'s \<Rightarrow> u32 \<Rightarrow> 's option"
  assumes alloc_law: "inv s \<Longrightarrow> free s \<noteq> {} \<Longrightarrow>
      \<exists>s' p. alloc s = Some (s', p) \<and> p \<in> free s \<and> inv s' \<and> free s' = free s - {p}"
    and dealloc_alloc_law: "inv s \<Longrightarrow> alloc s = Some (s1, p) \<Longrightarrow>
      \<exists>s2. dealloc s1 p = Some s2 \<and> inv s2 \<and> free s2 = free s"
begin

lemma alloc_many_distinct:
  "inv s \<Longrightarrow> n \<le> card (free s) \<Longrightarrow>
   \<exists>s' ps. alloc_many alloc n s = Some (s', ps) \<and> length ps = n \<and> distinct ps \<and> set ps \<subseteq> free s \<and>
     inv s' \<and> free s' = free s - set ps"
proof (induction n arbitrary: s)
  case (Suc n)
  then have "free s \<noteq> {}" by auto
  then obtain s1 p where s1: "alloc s = Some (s1, p)" "p \<in> free s" "inv s1" "free s1 = free s - {p}"
    using alloc_law Suc.prems(1) by blast
  have "n \<le> card (free s1)" using Suc.prems(2) s1(2,4) by simp
  then obtain s' ps where "alloc_many alloc n s1 = Some (s', ps)" "length ps = n" "distinct ps"
      "set ps \<subseteq> free s1" "inv s'" "free s' = free s1 - set ps"
    using Suc.IH [OF s1(3)] by blast
  then show ?case using s1 by auto
qed simp

end

definition pool_alloc :: "pmem \<Rightarrow> (pmem \<times> u32) option" where
  "pool_alloc s = (case alloc_frame s of Inr r \<Rightarrow> Some r | Inl _ \<Rightarrow> None)"

definition pool_dealloc :: "pmem \<Rightarrow> u32 \<Rightarrow> pmem option" where
  "pool_dealloc s p = (case dealloc_frame s p of Inr s' \<Rightarrow> Some s' | Inl _ \<Rightarrow> None)"

lemma free_limit:
  assumes "pm_inv s" and "p \<in> pm_free s"
  shows "p < pm_limit s"
proof -
  obtain fs where rep: "pm_rep s fs" using pm_inv_rep [OF assms(1)] by blast
  show ?thesis
    using assms(2) rep unfolding pm_rep_free [OF rep] by (auto simp: pm_rep_def intro: order_less_le_trans)
qed

interpretation phys_pool: frame_pool pm_inv pm_free pool_alloc pool_dealloc
proof unfold_locales
  fix s
  assume "pm_inv s" and "pm_free s \<noteq> {}"
  then show "\<exists>s' p. pool_alloc s = Some (s', p) \<and> p \<in> pm_free s \<and> pm_inv s' \<and> pm_free s' = pm_free s - {p}"
    by (cases rule: alloc_sound [of s]) (auto simp: pool_alloc_def)
next
  fix s s1 p
  assume inv: "pm_inv s" and al: "pool_alloc s = Some (s1, p)"
  show "\<exists>s2. pool_dealloc s1 p = Some s2 \<and> pm_inv s2 \<and> pm_free s2 = pm_free s"
  proof (cases rule: alloc_sound [OF inv])
    case 1
    then show ?thesis using al by (simp add: pool_alloc_def)
  next
    case (2 s' q)
    then have eq: "s' = s1" "q = p" using al by (simp_all add: pool_alloc_def)
    have "pm_owned s1 p" using 2 free_limit [OF inv 2(2)] unfolding eq by (simp add: pm_owned_def)
    then obtain s2 where "dealloc_frame s1 p = Inr s2" "pm_inv s2" "pm_free s2 = insert p (pm_free s1)"
      using dealloc_sound 2(5) unfolding eq by metis
    then show ?thesis using 2(2,6) unfolding eq by (auto simp: pool_dealloc_def)
  qed
qed

section \<open>Properties\<close>

text \<open>
   \<^verbatim>\<open>PhysMem::init\<close> over aligned memory makes every frame of the range free, and no other.
\<close>

theorem pm_init_correct:
  assumes "pm_offset start = 0" and "pm_offset sz = 0" and "0 < start" and "start \<le> start + sz"
  shows "\<exists>s. pm_init m start sz = Inr s \<and> pm_inv s \<and>
    pm_free s = {p. pm_offset p = 0 \<and> start \<le> p \<and> p < start + sz}"
proof -
  let ?s = "\<lparr>pm_mem = m, pm_firstFree = 0, pm_avail = start, pm_limit = start + sz\<rparr>"
  have "pm_offset (start + sz) = 0" using offset_add [OF assms(1,2)] .
  then have rep: "pm_rep ?s []" using assms by (simp add: pm_rep_def)
  then show ?thesis
    using assms pm_rep_free [OF rep] unfolding pm_init_def pm_inv_def by auto
qed

theorem pm_init_correct_witness:
  "\<exists>s. pm_init (\<lambda>_. 0) 0x100000 0x8000 = Inr s \<and> pm_inv s \<and>
     pm_free s = {p. pm_offset p = 0 \<and> 0x100000 \<le> p \<and> p < 0x108000}"
  using pm_init_correct [of "0x100000" "0x8000" "\<lambda>_. 0"] by (simp add: pm_offset_def)

text \<open>
   As many frames as are free can be allocated one after the other; they are distinct, and
  exactly they are taken from the free ones.
\<close>

theorem alloc_frames_distinct:
  assumes "pm_inv s" and "n \<le> card (pm_free s)"
  shows "\<exists>s' ps. alloc_many pool_alloc n s = Some (s', ps) \<and> length ps = n \<and> distinct ps \<and>
    set ps \<subseteq> pm_free s \<and> pm_inv s' \<and> pm_free s' = pm_free s - set ps"
  using assms by (rule phys_pool.alloc_many_distinct)

text \<open>A machine with 7 free frames from \<open>0x101000\<close> on, for concrete instances.\<close>

definition small_pm :: pmem where
  "small_pm = \<lparr>pm_mem = (\<lambda>_. 0), pm_firstFree = 0, pm_avail = 0x101000, pm_limit = 0x108000\<rparr>"

lemma small_pm_rep: "pm_rep small_pm []"
  by (simp add: pm_rep_def small_pm_def pm_offset_def)

lemma small_pm_inv: "pm_inv small_pm"
  using small_pm_rep unfolding pm_inv_def by blast

lemma small_pm_free: "{0x101000, 0x102000, 0x103000, 0x104000} \<subseteq> pm_free small_pm"
  unfolding pm_rep_free [OF small_pm_rep] by (simp add: small_pm_def pm_offset_def)

theorem alloc_frames_distinct_witness:
  "\<exists>s' p q. alloc_many pool_alloc 2 small_pm = Some (s', [p, q]) \<and> p \<noteq> q \<and> {p, q} \<subseteq> pm_free small_pm"
proof -
  have "card {0x101000, 0x102000 :: u32} \<le> card (pm_free small_pm)"
    using small_pm_free by (intro card_mono) auto
  then have "2 \<le> card (pm_free small_pm)" by simp
  from alloc_frames_distinct [OF small_pm_inv this] show ?thesis
    by (auto simp: length_Suc_conv numeral_2_eq_2)
qed

end
