(* ===== verification/Config.thy ===== *)
theory Config
  imports Prelude
begin

text \<open>
  The machine configuration, \<^verbatim>\<open>kernel/config.h\<close>: what the ACPI tables say about the memory, the
  processors and the interrupt controllers.
\<close>

record ApicInfo =
  processorId :: u8
  apicId :: u8
  apicFlags :: u32

record Config =
  memSize :: u32
  nOtherProcs :: u32
  totalProcs :: u32
  localAPIC :: u32
  madtFlags :: u32
  ioAPIC :: u32
  apicInfo :: "ApicInfo list"
  oemid :: "u8 list"

end
