(* ===== verification/VMM.thy ===== *)
theory VMM
  imports PhysMem Config
begin

text \<open>
  Virtual memory, \<^verbatim>\<open>kernel/vmm.cc\<close>: two-level page tables of the i386 in frames of physical
  memory. A page directory is the address of its frame; the word \<open>i\<close> of the frame at \<open>f\<close> is at
  \<open>f + 4 * i\<close>. Flushing the translation cache (\<^verbatim>\<open>invlpg\<close>) has no counterpart, since the model has
  no cache: \<open>translate\<close> is the walk of the processor over the tables in memory.
\<close>

section \<open>Operations\<close>

definition pm_write :: "pmem \<Rightarrow> u32 \<Rightarrow> u32 \<Rightarrow> pmem" where
  "pm_write s a v = s\<lparr>pm_mem := (pm_mem s)(a := v)\<rparr>"

definition pdi_of :: "u32 \<Rightarrow> u32" where
  "pdi_of va = drop_bit 22 va"

definition pti_of :: "u32 \<Rightarrow> u32" where
  "pti_of va = drop_bit 12 va AND 0x3FF"

definition vm_map :: "pmem \<Rightarrow> u32 \<Rightarrow> u32 \<Rightarrow> u32 \<Rightarrow> pm_panic + pmem" where
  "vm_map s pd va pa =
     (let pdi = pdi_of va;
          pti = pti_of va;
          pde = pm_mem s (pd + 4 * pdi)
      in rbind
           (if pde AND 1 = 0
            then rbind (alloc_frame s) (\<lambda>(s1, p).
                   let pde1 = p OR 7 in Inr (pm_write s1 (pd + 4 * pdi) pde1, pde1))
            else Inr (s, pde))
           (\<lambda>(s1, pde1).
              let pt = pde1 AND 0xFFFFF000
              in Inr (pm_write s1 (pt + 4 * pti) (pa OR 7))))"

definition vm_unmap :: "pmem \<Rightarrow> u32 \<Rightarrow> u32 \<Rightarrow> pm_panic + pmem" where
  "vm_unmap s pd va =
     (let pdi = pdi_of va;
          pti = pti_of va;
          pde = pm_mem s (pd + 4 * pdi)
      in if pde AND 1 = 0 then Inr s
         else let pt = pm_mem s (pd + 4 * pdi) AND 0xFFFFF000;
                  pte = pm_mem s (pt + 4 * pti)
              in if pte AND 1 = 0 then Inr s
                 else let pa = pte AND 0xFFFFF000
                      in dealloc_frame (pm_write s (pt + 4 * pti) 0) pa)"

definition is_special :: "Config \<Rightarrow> u32 \<Rightarrow> bool" where
  "is_special cfg va \<longleftrightarrow> va < 0x80000000 \<or> va = ioAPIC cfg \<or> va = localAPIC cfg"

text \<open>\<^verbatim>\<open>memcpy\<close> of a number of words between two frames.\<close>

fun copy_words :: "pmem \<Rightarrow> u32 \<Rightarrow> u32 \<Rightarrow> nat \<Rightarrow> pmem" where
  "copy_words s dest src 0 = s"
| "copy_words s dest src (Suc n) =
     copy_words (pm_write s dest (pm_mem s src)) (dest + 4) (src + 4) n"

definition shared_size :: "Config \<Rightarrow> u32" where
  "shared_size cfg = (let m4 = 4 * 1024 * 1024 in 4 * ((memSize cfg + m4 - 1) div m4))"

definition make_pd :: "Config \<Rightarrow> u32 \<Rightarrow> pmem \<Rightarrow> pm_panic + pmem \<times> u32" where
  "make_pd cfg shared s =
     rbind (alloc_frame s) (\<lambda>(s1, pd).
       let s2 = copy_words s1 pd shared (unat (shared_size cfg) div 4) in
       rbind (vm_map s2 pd (ioAPIC cfg) (ioAPIC cfg)) (\<lambda>s3.
       rbind (vm_map s3 pd (localAPIC cfg) (localAPIC cfg)) (\<lambda>s4. Inr (s4, pd))))"

definition delete_private_pte :: "Config \<Rightarrow> u32 \<Rightarrow> u32 \<Rightarrow> nat \<Rightarrow> pmem \<times> bool \<Rightarrow> pm_panic + pmem \<times> bool" where
  "delete_private_pte cfg pdi pt j = (\<lambda>(s, contains_special).
     let pti = word_of_nat j;
         va = push_bit 22 pdi OR push_bit 12 pti
     in if is_special cfg va then Inr (s, True)
        else let pte = pm_mem s (pt + 4 * pti)
             in if pte AND 1 = 0 then Inr (s, contains_special)
                else rbind (dealloc_frame (pm_write s (pt + 4 * pti) 0) (pte AND 0xFFFFF000))
                       (\<lambda>s1. Inr (s1, contains_special)))"

definition delete_private_pde :: "Config \<Rightarrow> u32 \<Rightarrow> nat \<Rightarrow> pmem \<Rightarrow> pm_panic + pmem" where
  "delete_private_pde cfg pd i s =
     (let pdi = word_of_nat i;
          pde = pm_mem s (pd + 4 * pdi)
      in if pde AND 1 = 0 then Inr s
         else let pt = pde AND 0xFFFFF000 in
           rbind (rfold (delete_private_pte cfg pdi pt) [0..<1024] (s, False))
             (\<lambda>(s1, contains_special).
                if \<not> contains_special then dealloc_frame (pm_write s1 (pd + 4 * pdi) 0) pt
                else Inr s1))"

definition delete_private :: "Config \<Rightarrow> u32 \<Rightarrow> u32 \<Rightarrow> pmem \<Rightarrow> pm_panic + pmem" where
  "delete_private cfg cr3 pd s =
     (if pd \<noteq> cr3 then Inl AssertFailed
      else rfold (delete_private_pde cfg pd) [512..<1024] s)"

definition delete_pd_pte :: "Config \<Rightarrow> u32 \<Rightarrow> u32 \<Rightarrow> nat \<Rightarrow> pmem \<Rightarrow> pm_panic + pmem" where
  "delete_pd_pte cfg pdi pt j s =
     (let pti = word_of_nat j;
          va = push_bit 22 pdi OR push_bit 12 pti;
          pte = pm_mem s (pt + 4 * pti)
      in if pte AND 1 = 0 then Inr s
         else let frame = pte AND 0xFFFFF000
              in if \<not> is_special cfg va then dealloc_frame s frame else Inr s)"

definition delete_pd_pde :: "Config \<Rightarrow> u32 \<Rightarrow> nat \<Rightarrow> pmem \<Rightarrow> pm_panic + pmem" where
  "delete_pd_pde cfg pd i s =
     (let pdi = word_of_nat i;
          pde = pm_mem s (pd + 4 * pdi)
      in if pde AND 1 = 0 then Inr s
         else let pt = pde AND 0xFFFFF000 in
           rbind (rfold (delete_pd_pte cfg pdi pt) [0..<1024] s) (\<lambda>s1. dealloc_frame s1 pt))"

definition delete_pd :: "Config \<Rightarrow> u32 \<Rightarrow> u32 \<Rightarrow> pmem \<Rightarrow> pm_panic + pmem" where
  "delete_pd cfg cr3 pd s =
     (if pd = cr3 then Inl AssertFailed
      else rbind (rfold (delete_pd_pde cfg pd) [512..<1024] s) (\<lambda>s1. dealloc_frame s1 pd))"

text \<open>
  The loop of \<^verbatim>\<open>global_init\<close> counts in 32 bits, so it need not end for the last 4095 memory sizes.
\<close>

partial_function (option) map_identity :: "Config \<Rightarrow> u32 \<Rightarrow> u32 \<Rightarrow> pmem \<Rightarrow> (pm_panic + pmem) option" where
  "map_identity cfg shared va s =
     (if va < memSize cfg
      then (case vm_map s shared va va of
              Inl e \<Rightarrow> Some (Inl e)
            | Inr s1 \<Rightarrow> map_identity cfg shared (va + FRAME_SIZE) s1)
      else Some (Inr s))"

definition global_init :: "Config \<Rightarrow> pmem \<Rightarrow> (pm_panic + pmem \<times> u32) option" where
  "global_init cfg s =
     (case alloc_frame s of
        Inl e \<Rightarrow> Some (Inl e)
      | Inr (s1, shared) \<Rightarrow>
          map_option (\<lambda>r. rbind r (\<lambda>s2. Inr (s2, shared)))
            (map_identity cfg shared FRAME_SIZE s1))"

text \<open>
  The page fault handler: \<open>pd\<close> is the directory of the current process, \<open>save_cr3\<close> the one in the
  save area of the current thread.
\<close>

definition vmm_pageFault :: "u32 \<Rightarrow> u32 \<Rightarrow> u32 \<Rightarrow> u32 \<Rightarrow> pmem \<Rightarrow> pm_panic + pmem" where
  "vmm_pageFault cr3 pd save_cr3 va0 s =
     (if pd \<noteq> cr3 \<or> save_cr3 \<noteq> cr3 then Inl AssertFailed
      else let va = framedown va0 in
        if 0x80000000 \<le> va
        then rbind (alloc_frame s) (\<lambda>(s1, pa). vm_map s1 pd va pa)
        else Inl (BadPageFault va0))"

section \<open>The walk of the processor\<close>

definition translate :: "(u32 \<Rightarrow> u32) \<Rightarrow> u32 \<Rightarrow> u32 \<Rightarrow> u32 option" where
  "translate m pd va =
     (let pde = m (pd + 4 * pdi_of va) in
      if pde AND 1 = 0 then None
      else let pte = m ((pde AND 0xFFFFF000) + 4 * pti_of va) in
        if pte AND 1 = 0 then None else Some (pte AND 0xFFFFF000))"

section \<open>Well-formed directories\<close>

abbreviation present :: "u32 \<Rightarrow> bool" where
  "present e \<equiv> e AND 1 \<noteq> 0"

definition vm_wf :: "pmem \<Rightarrow> u32 \<Rightarrow> bool" where
  "vm_wf s pd \<longleftrightarrow>
     pm_inv s \<and> pm_owned s pd \<and>
     (\<forall>i < 1024. present (pm_mem s (pd + 4 * i)) \<longrightarrow>
        pm_owned s (frame (pm_mem s (pd + 4 * i))) \<and> frame (pm_mem s (pd + 4 * i)) \<noteq> pd \<and>
        (\<forall>j < 1024. present (pm_mem s (pd + 4 * j)) \<longrightarrow> i \<noteq> j \<longrightarrow>
           frame (pm_mem s (pd + 4 * i)) \<noteq> frame (pm_mem s (pd + 4 * j))))"

lemma pdi_less: "pdi_of va < 1024"
proof -
  have "uint va < 2 ^ 32" using uint_bounded [of va] by simp
  then show ?thesis
    by (simp add: pdi_of_def word_less_def drop_bit_eq_div uint_div_distrib)
qed

lemma pti_less: "pti_of va < 1024"
proof -
  have "(0x3FF :: u32) = mask 10" by (simp add: mask_eq_exp_minus_1)
  then have "pti_of va = take_bit 10 (drop_bit 12 va)"
    unfolding pti_of_def by (simp add: take_bit_eq_mask and.commute)
  then show ?thesis by (simp add: word_less_def unsigned_take_bit_eq take_bit_eq_mod uint_mod_distrib)
qed

lemma entry_bits [simp]: "frame (a OR 7) = frame a" "present (a OR 7)"
proof -
  have seven: "(7 :: u32) = mask 3" by (simp add: mask_eq_exp_minus_1)
  show "frame (a OR 7) = frame a"
    unfolding frame_bits seven by (rule bit_word_eqI) (auto simp: bit_simps)
  have "bit ((a OR 7) AND 1) 0" by (simp add: bit_simps)
  then show "present (a OR 7)" by auto
qed

lemma not_present_0 [simp]: "\<not> present 0"
  by simp

text \<open>The two indices and the offset determine an address.\<close>

lemma page_eq_iff: "frame va = frame vb \<longleftrightarrow> pdi_of va = pdi_of vb \<and> pti_of va = pti_of vb"
proof
  have ten: "(0x3FF :: u32) = mask 10" by (simp add: mask_eq_exp_minus_1)
  {
    assume eq: "frame va = frame vb"
    have d: "drop_bit 12 va = drop_bit 12 vb"
    proof (rule bit_word_eqI)
      fix n
      have "bit (frame va) (n + 12) = bit (frame vb) (n + 12)" using eq by simp
      moreover assume "n < LENGTH(32)"
      ultimately show "bit (drop_bit 12 va) n = bit (drop_bit 12 vb) n"
        by (cases "n + 12 < 32") (auto simp: frame_bits bit_simps add.commute dest: bit_imp_le_length)
    qed
    then have "drop_bit (10 + 12) va = drop_bit (10 + 12) vb"
      unfolding drop_bit_drop_bit [symmetric] by simp
    then show "pdi_of va = pdi_of vb \<and> pti_of va = pti_of vb"
      using d by (simp add: pdi_of_def pti_of_def)
  }
  assume eq: "pdi_of va = pdi_of vb \<and> pti_of va = pti_of vb"
  show "frame va = frame vb"
  proof (rule bit_word_eqI)
    fix n
    assume n: "n < LENGTH(32)"
    have "bit (pdi_of va) (n - 22) = bit (pdi_of vb) (n - 22)" "bit (pti_of va) (n - 12) = bit (pti_of vb) (n - 12)"
      using eq by simp_all
    then show "bit (frame va) n = bit (frame vb) n"
      using n by (cases "n < 22") (auto simp: frame_bits pdi_of_def pti_of_def ten bit_simps)
  qed
qed

section \<open>map and unmap\<close>

lemma mem_write [simp]:
  "pm_mem (pm_write s a v) = (pm_mem s)(a := v)" "pm_firstFree (pm_write s a v) = pm_firstFree s"
  "pm_avail (pm_write s a v) = pm_avail s" "pm_limit (pm_write s a v) = pm_limit s"
  by (simp_all add: pm_write_def)

text \<open>A write outside the free frames keeps the free list.\<close>

lemma pm_write_free:
  assumes "pm_inv s" and "frame a \<notin> pm_free s"
  shows "pm_inv (pm_write s a v)" and "pm_free (pm_write s a v) = pm_free s"
proof -
  obtain fs where rep: "pm_rep s fs" using pm_inv_rep [OF assms(1)] by blast
  have "a \<notin> set fs"
    using assms(2) rep frame_id [of a] unfolding pm_rep_free [OF rep] by (auto simp: pm_rep_def)
  then have "chain (pm_mem s) (pm_firstFree s) fs = chain (pm_mem (pm_write s a v)) (pm_firstFree s) fs"
    by (intro chain_cong) auto
  then have rep': "pm_rep (pm_write s a v) fs" using rep by (simp add: pm_rep_def)
  then show "pm_inv (pm_write s a v)" unfolding pm_inv_def by blast
  show "pm_free (pm_write s a v) = pm_free s"
    unfolding pm_rep_free [OF rep] pm_rep_free [OF rep'] by simp
qed

lemma owned_write: "pm_inv s \<Longrightarrow> frame a \<notin> pm_free s \<Longrightarrow> pm_owned (pm_write s a v) f = pm_owned s f"
  by (simp add: pm_owned_def pm_write_free)

lemma slot_other:
  assumes "pm_offset f = 0" and "pm_offset g = 0" and "f \<noteq> g" and "i < 1024" and "j < 1024"
  shows "f + 4 * i \<noteq> g + 4 * j"
  using frame_slot [OF assms(1,4)] frame_slot [OF assms(2,5)] assms(3) by metis

definition vm_tables :: "(u32 \<Rightarrow> u32) \<Rightarrow> u32 \<Rightarrow> u32 set" where
  "vm_tables m pd = insert pd {frame (m (pd + 4 * i)) |i. i < 1024 \<and> present (m (pd + 4 * i))}"

lemma vm_wfD:
  assumes "vm_wf s pd"
  shows "pm_inv s" and "pm_owned s pd" and "pm_offset pd = 0" and "pd \<notin> pm_free s"
    and "\<And>i. i < 1024 \<Longrightarrow> present (pm_mem s (pd + 4 * i)) \<Longrightarrow>
           pm_owned s (frame (pm_mem s (pd + 4 * i))) \<and> frame (pm_mem s (pd + 4 * i)) \<noteq> pd \<and>
           frame (pm_mem s (pd + 4 * i)) \<notin> pm_free s"
  using assms by (auto simp: vm_wf_def pm_owned_def)

lemma translate_entry:
  "translate m pd va =
     (if present (m (pd + 4 * pdi_of va)) \<and>
         present (m (frame (m (pd + 4 * pdi_of va)) + 4 * pti_of va))
      then Some (frame (m (frame (m (pd + 4 * pdi_of va)) + 4 * pti_of va))) else None)"
  by (simp add: translate_def Let_def frame_def)

text \<open>Writing an entry of a page table of the directory.\<close>

lemma table_write:
  fixes v :: u32
  assumes wf: "vm_wf s pd" and i: "i < 1024" and pr: "present (pm_mem s (pd + 4 * i))"
    and pt: "pt = frame (pm_mem s (pd + 4 * i))" and j: "j < 1024"
  defines "s' \<equiv> pm_write s (pt + 4 * j) v"
  shows "vm_wf s' pd" and "pm_free s' = pm_free s" and "pm_limit s' = pm_limit s"
    and "vm_tables (pm_mem s') pd = vm_tables (pm_mem s) pd"
    and "translate (pm_mem s') pd va =
           (if pdi_of va = i \<and> pti_of va = j then (if present v then Some (frame v) else None)
            else translate (pm_mem s) pd va)"
    and "k < 1024 \<Longrightarrow> pm_mem s' (pd + 4 * k) = pm_mem s (pd + 4 * k)"
proof -
  note W = vm_wfD [OF wf]
  have P: "pm_owned s pt" "pt \<noteq> pd" "pt \<notin> pm_free s" using W(5) [OF i pr] pt by auto
  have off: "pm_offset pt = 0" using pt by simp
  have fr: "frame (pt + 4 * j) \<notin> pm_free s" using frame_slot [OF off j] P by simp
  note F = pm_write_free [OF W(1) fr, of v]
  have pds: "pm_mem s' (pd + 4 * k) = pm_mem s (pd + 4 * k)" if "k < 1024" for k
    using slot_other [OF W(3) off _ that j] P(2) by (auto simp: s'_def)
  then show "k < 1024 \<Longrightarrow> pm_mem s' (pd + 4 * k) = pm_mem s (pd + 4 * k)" .
  have own: "pm_owned s' f = pm_owned s f" for f
    unfolding s'_def using owned_write [OF W(1) fr] .
  show "pm_free s' = pm_free s" "pm_limit s' = pm_limit s" using F by (simp_all add: s'_def)
  show "vm_wf s' pd" using wf pds F(1) own unfolding vm_wf_def by (simp add: s'_def)
  have "(\<exists>i. f = frame (pm_mem s' (pd + 4 * i)) \<and> i < 1024 \<and> present (pm_mem s' (pd + 4 * i))) =
      (\<exists>i. f = frame (pm_mem s (pd + 4 * i)) \<and> i < 1024 \<and> present (pm_mem s (pd + 4 * i)))" for f
    using pds by metis
  then show "vm_tables (pm_mem s') pd = vm_tables (pm_mem s) pd" by (simp add: vm_tables_def)
  show "translate (pm_mem s') pd va =
           (if pdi_of va = i \<and> pti_of va = j then (if present v then Some (frame v) else None)
            else translate (pm_mem s) pd va)"
  proof (cases "pdi_of va = i")
    case True
    then show ?thesis
      using pds [OF i] pr slot_inj [OF off pti_less j, of va] pt
      by (auto simp: translate_entry s'_def)
  next
    case False
    let ?e = "pm_mem s (pd + 4 * pdi_of va)"
    have "frame ?e + 4 * pti_of va \<noteq> pt + 4 * j" if "present ?e"
    proof -
      have "frame ?e \<noteq> pt" using wf pdi_less i False that pr unfolding vm_wf_def pt by blast
      then show ?thesis using slot_other [OF _ off _ pti_less j] by simp
    qed
    then have "present ?e \<Longrightarrow> pm_mem s' (frame ?e + 4 * pti_of va) = pm_mem s (frame ?e + 4 * pti_of va)"
      by (simp add: s'_def)
    then show ?thesis
      using False pds [OF pdi_less, of va] by (cases "present ?e") (simp_all add: translate_entry)
  qed
qed

text \<open>Adding an empty page table.\<close>

lemma table_add:
  assumes wf: "vm_wf s pd" and i: "i < 1024" and np: "\<not> present (pm_mem s (pd + 4 * i))"
    and p: "p \<in> pm_free s" "p \<noteq> 0" "pm_offset p = 0"
    and s1: "pm_inv s1" "pm_free s1 = pm_free s - {p}" "pm_mem s1 = bzero_frame (pm_mem s) p"
      "pm_limit s1 = pm_limit s" and lim: "p < pm_limit s"
  defines "s' \<equiv> pm_write s1 (pd + 4 * i) (p OR 7)"
  shows "vm_wf s' pd" and "pm_free s' = pm_free s - {p}" and "pm_limit s' = pm_limit s"
    and "vm_tables (pm_mem s') pd = insert p (vm_tables (pm_mem s) pd)"
    and "translate (pm_mem s') pd = translate (pm_mem s) pd"
    and "present (pm_mem s' (pd + 4 * i))" and "frame (pm_mem s' (pd + 4 * i)) = p"
proof -
  note W = vm_wfD [OF wf]
  have pd: "pd \<noteq> p" using W(4) p(1) by blast
  have fr: "frame (pd + 4 * i) \<notin> pm_free s1" using frame_slot [OF W(3) i] W(4) s1(2) by simp
  note F = pm_write_free [OF s1(1) fr, of "p OR 7"]
  have pds: "pm_mem s' (pd + 4 * k) = (if k = i then p OR 7 else pm_mem s (pd + 4 * k))" if "k < 1024" for k
    using slot_inj [OF W(3) that i] frame_slot [OF W(3) that] pd
    by (auto simp: s'_def s1(3) bzero_other [OF p(3)])
  have own: "pm_owned s' f \<longleftrightarrow> pm_owned s f \<or> f = p" for f
    using F(2) s1 lim p by (auto simp: pm_owned_def s'_def)
  have old: "pm_owned s (frame e) \<Longrightarrow> frame e \<noteq> p" for e
    using p(1) by (auto simp: pm_owned_def)
  show "pm_free s' = pm_free s - {p}" "pm_limit s' = pm_limit s" using F s1 by (simp_all add: s'_def)
  show ent: "present (pm_mem s' (pd + 4 * i))" "frame (pm_mem s' (pd + 4 * i)) = p"
    using pds [OF i] frame_id [OF p(3)] by simp_all
  show "vm_wf s' pd"
    using wf F(1) own pds pd old frame_id [OF p(3)]
    unfolding vm_wf_def s'_def [symmetric] by (auto split: if_splits)
  have "(\<exists>k. f = frame (pm_mem s' (pd + 4 * k)) \<and> k < 1024 \<and> present (pm_mem s' (pd + 4 * k))) =
      (f = p \<or> (\<exists>k. f = frame (pm_mem s (pd + 4 * k)) \<and> k < 1024 \<and> present (pm_mem s (pd + 4 * k))))" for f
    using pds ent i np by metis
  then show "vm_tables (pm_mem s') pd = insert p (vm_tables (pm_mem s) pd)"
    by (auto simp: vm_tables_def)
  show "translate (pm_mem s') pd = translate (pm_mem s) pd"
  proof
    fix va
    show "translate (pm_mem s') pd va = translate (pm_mem s) pd va"
    proof (cases "pdi_of va = i")
      case True
      have "pm_mem s' (p + 4 * pti_of va) = 0"
        using slot_other [OF p(3) W(3) _ pti_less i] pd bzero_in [OF p(3) frame_slot [OF p(3) pti_less]]
        by (simp add: s'_def s1(3))
      then show ?thesis using True ent np by (simp add: translate_entry)
    next
      case False
      let ?e = "pm_mem s (pd + 4 * pdi_of va)"
      have "pm_mem s' (frame ?e + 4 * pti_of va) = pm_mem s (frame ?e + 4 * pti_of va)" if pr: "present ?e"
      proof -
        note e = W(5) [OF pdi_less pr]
        have "frame ?e + 4 * pti_of va \<noteq> pd + 4 * i"
          using slot_other [OF _ W(3) _ pti_less i] e by simp
        then show ?thesis
          using bzero_other [OF p(3)] frame_slot [of "frame ?e", OF _ pti_less] e old
          by (simp add: s'_def s1(3))
      qed
      then show ?thesis
      using False pds [OF pdi_less, of va] by (cases "present ?e") (simp_all add: translate_entry)
    qed
  qed
qed

text \<open>The effect of \<^verbatim>\<open>map\<close>: only the page of \<open>va\<close> changes its translation.\<close>

definition maps_page :: "pmem \<Rightarrow> u32 \<Rightarrow> u32 \<Rightarrow> u32 \<Rightarrow> pmem \<Rightarrow> bool" where
  "maps_page s pd va pa s' \<longleftrightarrow>
     vm_wf s' pd \<and> pm_limit s' = pm_limit s \<and>
     (\<forall>vb. translate (pm_mem s') pd vb =
        (if frame vb = frame va then Some (frame pa) else translate (pm_mem s) pd vb)) \<and>
     pm_free s' = pm_free s - vm_tables (pm_mem s') pd \<and>
     vm_tables (pm_mem s) pd \<subseteq> vm_tables (pm_mem s') pd \<and>
     vm_tables (pm_mem s') pd \<subseteq> vm_tables (pm_mem s) pd \<union> pm_free s \<and>
     (\<forall>a. frame a \<notin> vm_tables (pm_mem s') pd \<longrightarrow> pm_mem s' a = pm_mem s a)"

lemma tables_owned: "vm_wf s pd \<Longrightarrow> f \<in> vm_tables (pm_mem s) pd \<Longrightarrow> pm_owned s f"
  using vm_wfD(2,5) [of s pd] by (auto simp: vm_tables_def)

lemma tables_not_free: "vm_wf s pd \<Longrightarrow> pm_free s - vm_tables (pm_mem s) pd = pm_free s"
  using tables_owned by (auto simp: pm_owned_def)

lemma map_sound:
  assumes wf: "vm_wf s pd"
  obtains (panics) "pm_free s = {}" and "\<not> present (pm_mem s (pd + 4 * pdi_of va))"
      and "vm_map s pd va pa = Inl NoMoreFrames"
    | (maps) s' where "vm_map s pd va pa = Inr s'" and "maps_page s pd va pa s'"
        and "present (pm_mem s (pd + 4 * pdi_of va)) \<Longrightarrow> pm_free s' = pm_free s"
proof (cases "present (pm_mem s (pd + 4 * pdi_of va))")
  case True
  let ?pt = "frame (pm_mem s (pd + 4 * pdi_of va))"
  let ?s' = "pm_write s (?pt + 4 * pti_of va) (pa OR 7)"
  note T = table_write [OF wf pdi_less True refl pti_less, of va "pa OR 7"]
  have m: "vm_map s pd va pa = Inr ?s'" using True by (simp add: vm_map_def Let_def frame_def)
  have pt: "?pt \<in> vm_tables (pm_mem s) pd" using True pdi_less by (auto simp: vm_tables_def)
  have "pm_mem ?s' a = pm_mem s a" if "frame a \<notin> vm_tables (pm_mem s) pd" for a
    using that pt frame_slot [of ?pt "pti_of va", OF _ pti_less] by auto
  then have "maps_page s pd va pa ?s'"
    using T tables_not_free [OF wf] unfolding maps_page_def page_eq_iff by auto
  then show ?thesis using maps m T(2) by blast
next
  case False
  note W = vm_wfD [OF wf]
  show ?thesis
  proof (cases rule: alloc_sound [OF W(1)])
    case 1
    then show ?thesis using panics False by (simp add: vm_map_def Let_def)
  next
    case (2 s1 p)
    let ?s2 = "pm_write s1 (pd + 4 * pdi_of va) (p OR 7)"
    note A = table_add [OF wf pdi_less False 2(2-7,8) free_limit [OF W(1) 2(2)]]
    let ?s' = "pm_write ?s2 (p + 4 * pti_of va) (pa OR 7)"
    note T = table_write [OF A(1) pdi_less A(6) A(7) [symmetric] pti_less, of va "pa OR 7"]
    have m: "vm_map s pd va pa = Inr ?s'"
      using False 2 frame_id [of p] by (simp add: vm_map_def Let_def frame_def [symmetric])
    have tabs: "vm_tables (pm_mem ?s') pd = insert p (vm_tables (pm_mem s) pd)" using T(4) A(4) by simp
    have pd: "pd \<in> vm_tables (pm_mem s) pd" by (simp add: vm_tables_def)
    have "pm_mem ?s' a = pm_mem s a" if a: "frame a \<notin> vm_tables (pm_mem ?s') pd" for a
    proof -
      have "frame a \<noteq> p" "frame a \<noteq> pd" using a tabs pd by auto
      then show ?thesis
        using bzero_other [OF 2(4)] frame_slot [OF 2(4) pti_less] frame_slot [OF W(3) pdi_less] 2(7)
        by auto
    qed
    moreover have "pm_free ?s' = pm_free s - vm_tables (pm_mem ?s') pd"
      using T(2) A(2) tabs tables_not_free [OF wf] by auto
    ultimately have "maps_page s pd va pa ?s'"
      using T(1,3,5) A(3,5) tabs 2(2) unfolding maps_page_def page_eq_iff by auto
    then show ?thesis using maps m False by blast
  qed
qed

text \<open>Operations that leave the tables alone keep the directory.\<close>

lemma wf_keep:
  assumes wf: "vm_wf s pd" and inv: "pm_inv s'" and lim: "pm_limit s' = pm_limit s"
    and free: "pm_free s' \<inter> vm_tables (pm_mem s) pd = {}"
    and mem: "\<And>a. frame a \<in> vm_tables (pm_mem s) pd \<Longrightarrow> pm_mem s' a = pm_mem s a"
  shows "vm_wf s' pd" and "translate (pm_mem s') pd = translate (pm_mem s) pd"
    and "vm_tables (pm_mem s') pd = vm_tables (pm_mem s) pd"
proof -
  note W = vm_wfD [OF wf]
  have pds: "pm_mem s' (pd + 4 * k) = pm_mem s (pd + 4 * k)" if "k < 1024" for k
    using mem frame_slot [OF W(3) that] by (simp add: vm_tables_def)
  have ent: "frame (pm_mem s (pd + 4 * k)) \<in> vm_tables (pm_mem s) pd"
    if "k < 1024" "present (pm_mem s (pd + 4 * k))" for k
    using that by (auto simp: vm_tables_def)
  have own: "pm_owned s' f" if "f \<in> vm_tables (pm_mem s) pd" for f
    using tables_owned [OF wf that] free that lim by (auto simp: pm_owned_def)
  have "(\<exists>i. f = frame (pm_mem s' (pd + 4 * i)) \<and> i < 1024 \<and> present (pm_mem s' (pd + 4 * i))) =
      (\<exists>i. f = frame (pm_mem s (pd + 4 * i)) \<and> i < 1024 \<and> present (pm_mem s (pd + 4 * i)))" for f
    using pds by metis
  then show "vm_tables (pm_mem s') pd = vm_tables (pm_mem s) pd" by (simp add: vm_tables_def)
  have "pm_owned s' pd" using own by (simp add: vm_tables_def)
  then show "vm_wf s' pd"
    using wf inv pds own ent unfolding vm_wf_def by simp
  show "translate (pm_mem s') pd = translate (pm_mem s) pd"
  proof
    fix va
    let ?e = "pm_mem s (pd + 4 * pdi_of va)"
    have "pm_mem s' (frame ?e + 4 * pti_of va) = pm_mem s (frame ?e + 4 * pti_of va)" if "present ?e"
      using mem frame_slot [of "frame ?e", OF _ pti_less] ent [OF pdi_less that] by simp
    then show "translate (pm_mem s') pd va = translate (pm_mem s) pd va"
      using pds [OF pdi_less, of va] by (cases "present ?e") (simp_all add: translate_entry)
  qed
qed

lemma translate_tables:
  assumes "translate (pm_mem s) pd va = Some f"
  shows "present (pm_mem s (pd + 4 * pdi_of va))"
    and "present (pm_mem s (frame (pm_mem s (pd + 4 * pdi_of va)) + 4 * pti_of va))"
    and "f = frame (pm_mem s (frame (pm_mem s (pd + 4 * pdi_of va)) + 4 * pti_of va))"
  using assms by (auto simp: translate_entry split: if_splits)

definition unmaps_page :: "pmem \<Rightarrow> u32 \<Rightarrow> u32 \<Rightarrow> pmem \<Rightarrow> bool" where
  "unmaps_page s pd va s' \<longleftrightarrow>
     vm_wf s' pd \<and> pm_limit s' = pm_limit s \<and>
     (\<forall>vb. translate (pm_mem s') pd vb =
        (if frame vb = frame va then None else translate (pm_mem s) pd vb)) \<and>
     pm_free s' = pm_free s \<union> set_option (translate (pm_mem s) pd va) \<and>
     vm_tables (pm_mem s') pd = vm_tables (pm_mem s) pd \<and>
     (\<forall>i < 1024. pm_mem s' (pd + 4 * i) = pm_mem s (pd + 4 * i)) \<and>
     (\<forall>a. frame a \<notin> vm_tables (pm_mem s) pd \<union> set_option (translate (pm_mem s) pd va) \<longrightarrow>
        pm_mem s' a = pm_mem s a)"

lemma unmap_sound:
  assumes wf: "vm_wf s pd"
    and page: "\<And>f. translate (pm_mem s) pd va = Some f \<Longrightarrow> pm_owned s f \<and> f \<notin> vm_tables (pm_mem s) pd"
  obtains s' where "vm_unmap s pd va = Inr s'" and "unmaps_page s pd va s'"
proof (cases "translate (pm_mem s) pd va")
  case None
  then have "vm_unmap s pd va = Inr s"
    by (auto simp: vm_unmap_def translate_entry frame_def [symmetric] Let_def split: if_splits)
  moreover have "translate (pm_mem s) pd vb = None" if "frame vb = frame va" for vb
    using None that unfolding page_eq_iff by (auto simp: translate_entry split: if_splits)
  then have "unmaps_page s pd va s" using wf None by (simp add: unmaps_page_def)
  ultimately show ?thesis using that by blast
next
  case (Some f)
  note T = translate_tables [OF Some]
  let ?pt = "frame (pm_mem s (pd + 4 * pdi_of va))"
  let ?s1 = "pm_write s (?pt + 4 * pti_of va) 0"
  note A = table_write [OF wf pdi_less T(1) refl pti_less, of va 0]
  have u: "vm_unmap s pd va = dealloc_frame ?s1 f"
    using T by (simp add: vm_unmap_def Let_def frame_def [symmetric])
  have f: "pm_owned s f" "f \<notin> vm_tables (pm_mem s) pd" using page [OF Some] by auto
  have f1: "pm_owned ?s1 f" using f(1) A(2) by (simp add: pm_owned_def)
  obtain s' where d: "dealloc_frame ?s1 f = Inr s'" "pm_inv s'" "pm_free s' = insert f (pm_free ?s1)"
      "pm_mem s' = (pm_mem ?s1)(f := pm_firstFree ?s1)" "pm_limit s' = pm_limit ?s1"
    using dealloc_sound [OF vm_wfD(1) [OF A(1)] f1] by blast
  have ff: "frame f = f" using f(1) by (simp add: pm_owned_def frame_id)
  have mem: "pm_mem s' a = pm_mem ?s1 a" if "frame a \<noteq> f" for a using that d(4) ff by auto
  have "pm_free s' \<inter> vm_tables (pm_mem ?s1) pd = {}"
    using d(3) f(2) A(4) tables_owned [OF A(1)] by (auto simp: pm_owned_def)
  note K = wf_keep [OF A(1) d(2,5) this]
  have K': "vm_wf s' pd" "translate (pm_mem s') pd = translate (pm_mem ?s1) pd"
      "vm_tables (pm_mem s') pd = vm_tables (pm_mem ?s1) pd"
    using K mem f(2) A(4) by metis+
  have pt: "?pt \<in> vm_tables (pm_mem s) pd" using T(1) pdi_less by (auto simp: vm_tables_def)
  have "pm_mem s' a = pm_mem s a" if "frame a \<notin> vm_tables (pm_mem s) pd \<union> {f}" for a
    using mem [of a] that pt frame_slot [of ?pt "pti_of va", OF _ pti_less] by auto
  moreover have "pm_mem s' (pd + 4 * k) = pm_mem s (pd + 4 * k)" if "k < 1024" for k
    using mem [of "pd + 4 * k"] table_write(6) [OF wf pdi_less T(1) refl pti_less that]
      frame_slot [OF vm_wfD(3) [OF wf] that] f(2)
    by (auto simp: vm_tables_def)
  ultimately have "unmaps_page s pd va s'"
    using K' d(3,5) A Some unfolding unmaps_page_def page_eq_iff by simp
  then show ?thesis using that u d(1) by metis
qed

lemma alloc_keeps:
  assumes wf: "vm_wf s pd" and p: "p \<in> pm_free s" "pm_offset p = 0"
    and s1: "pm_inv s1" "pm_free s1 = pm_free s - {p}" "pm_mem s1 = bzero_frame (pm_mem s) p"
      "pm_limit s1 = pm_limit s"
  shows "vm_wf s1 pd" and "translate (pm_mem s1) pd = translate (pm_mem s) pd"
    and "vm_tables (pm_mem s1) pd = vm_tables (pm_mem s) pd"
proof -
  have nt: "p \<notin> vm_tables (pm_mem s) pd" using p tables_owned [OF wf] by (auto simp: pm_owned_def)
  have "pm_free s1 \<inter> vm_tables (pm_mem s) pd = {}"
    using s1(2) tables_owned [OF wf] by (auto simp: pm_owned_def)
  note K = wf_keep [OF wf s1(1,4) this]
  have mem: "pm_mem s1 a = pm_mem s a" if "frame a \<in> vm_tables (pm_mem s) pd" for a
  proof -
    have "frame a \<noteq> p" using that nt by auto
    then show ?thesis using bzero_other [OF p(2)] s1(3) by simp
  qed
  show "vm_wf s1 pd" "translate (pm_mem s1) pd = translate (pm_mem s) pd"
    "vm_tables (pm_mem s1) pd = vm_tables (pm_mem s) pd"
    using K [OF mem] by simp_all
qed

section \<open>Properties of map, unmap and the page fault handler\<close>

lemma frame_high: "0x80000000 \<le> va \<Longrightarrow> 0x80000000 \<le> frame va"
proof -
  assume "0x80000000 \<le> va"
  then have u: "0x80000000 \<le> uint va" by (simp add: word_le_def)
  have "0x80000000 \<le> 4096 * (y div 4096)" if "0x80000000 \<le> y" for y :: int
    using zdiv_mono1 [OF that, of 4096] by simp
  from this [OF u] show ?thesis by (simp add: word_le_def uint_frame)
qed

lemma pageFault_sound:
  assumes wf: "vm_wf s pd" and va: "0x80000000 \<le> va0"
  obtains (panics) p where "pm_free s \<subseteq> {p}" and "vmm_pageFault pd pd pd va0 s = Inl NoMoreFrames"
    | (maps) s1 p s' where "vmm_pageFault pd pd pd va0 s = Inr s'" and "p \<in> pm_free s" and "pm_offset p = 0"
        and "vm_wf s1 pd" and "pm_free s1 = pm_free s - {p}" and "pm_mem s1 = bzero_frame (pm_mem s) p"
        and "translate (pm_mem s1) pd = translate (pm_mem s) pd" and "maps_page s1 pd (frame va0) p s'"
        and "vm_tables (pm_mem s1) pd = vm_tables (pm_mem s) pd"
        and "pm_limit s1 = pm_limit s" and "p \<noteq> 0" and "vm_map s1 pd (frame va0) p = Inr s'"
proof (cases rule: alloc_sound [OF vm_wfD(1) [OF wf]])
  case 1
  then show ?thesis
    using panics frame_high [OF va] by (simp add: vmm_pageFault_def Let_def framedown_frame)
next
  case (2 s1 p)
  note K = alloc_keeps [OF wf 2(2,4,5-8)]
  have pf: "vmm_pageFault pd pd pd va0 s = vm_map s1 pd (frame va0) p"
    using 2(1) frame_high [OF va] by (simp add: vmm_pageFault_def Let_def framedown_frame)
  show ?thesis
  proof (cases rule: map_sound [OF K(1), where va = "frame va0" and pa = p])
    case 1
    then show ?thesis using panics [of p] pf 2(6) by auto
  next
    case 2
    then show ?thesis using maps pf \<open>p \<in> pm_free s\<close> \<open>pm_offset p = 0\<close> K \<open>pm_free s1 = pm_free s - {p}\<close>
      \<open>pm_mem s1 = bzero_frame (pm_mem s) p\<close> \<open>pm_limit s1 = pm_limit s\<close> \<open>p \<noteq> 0\<close> by metis
  qed
qed

end
