(* ===== verification/VMM_Spaces.thy ===== *)
theory VMM_Spaces
  imports VMM
begin

text \<open>
  Taking down an address space: what \<^verbatim>\<open>delete_private\<close> and \<^verbatim>\<open>delete_pd\<close> remove and give back,
  and the properties of the virtual memory.
\<close>

section \<open>Addresses of pages\<close>

definition page_va :: "u32 \<Rightarrow> u32 \<Rightarrow> u32" where
  "page_va i j = push_bit 22 i OR push_bit 12 j"

lemma small_bits: "w < 1024 \<Longrightarrow> bit (w :: u32) n \<Longrightarrow> n < 10"
proof -
  assume w: "w < 1024" and b: "bit w n"
  have "uint w < 2 ^ 10" "0 \<le> uint w" using w by (simp_all add: word_less_def)
  then have "take_bit 10 (uint w) = uint w" by (simp add: take_bit_int_eq_self)
  moreover have "bit (uint w) n" using b bit_imp_le_length [OF b] by (simp add: bit_uint_iff)
  ultimately have "bit (take_bit 10 (uint w)) n" by simp
  then show "n < 10" by (simp add: bit_take_bit_iff)
qed

lemma page_va_parts:
  assumes "i < 1024" and "j < 1024"
  shows "pdi_of (page_va i j) = i" and "pti_of (page_va i j) = j" and "pm_offset (page_va i j) = 0"
proof -
  have ten: "(0x3FF :: u32) = mask 10" by (simp add: mask_eq_exp_minus_1)
  note I = small_bits [OF assms(1)] and J = small_bits [OF assms(2)]
  show "pdi_of (page_va i j) = i"
    by (rule bit_word_eqI) (auto simp: pdi_of_def page_va_def bit_simps dest: I J)
  show "pti_of (page_va i j) = j"
    unfolding pti_of_def ten
    by (rule bit_word_eqI) (auto simp: page_va_def bit_simps dest: I J)
  show "pm_offset (page_va i j) = 0"
    unfolding pm_offset_def frame_mask
    by (rule bit_word_eqI) (auto simp: page_va_def bit_simps)
qed

lemma page_va_eq: "pm_offset va = 0 \<Longrightarrow> va = page_va (pdi_of va) (pti_of va)"
  using page_eq_iff [of va "page_va (pdi_of va) (pti_of va)"] frame_id
    page_va_parts [OF pdi_less pti_less] by metis

lemma of_nat_less_1024: "k < 1024 \<Longrightarrow> (word_of_nat k :: u32) < 1024"
  by (simp add: word_less_nat_alt unat_of_nat)

lemma unat_of_nat_1024: "k < 1024 \<Longrightarrow> unat (word_of_nat k :: u32) = k"
  by (simp add: unat_of_nat)

section \<open>Private pages\<close>

text \<open>
  A directory is private when no page of its user half, the two APIC pages apart, is one of its
  tables or has the same frame as another, and all their frames are owned.
\<close>

definition user_page :: "Config \<Rightarrow> u32 \<Rightarrow> bool" where
  "user_page cfg va \<longleftrightarrow> pm_offset va = 0 \<and> \<not> is_special cfg va"

definition private_ok :: "Config \<Rightarrow> pmem \<Rightarrow> u32 \<Rightarrow> bool" where
  "private_ok cfg s pd \<longleftrightarrow>
     vm_wf s pd \<and>
     (\<forall>va f. user_page cfg va \<and> translate (pm_mem s) pd va = Some f \<longrightarrow>
        pm_owned s f \<and> f \<notin> vm_tables (pm_mem s) pd \<and>
        (\<forall>vb. user_page cfg vb \<and> translate (pm_mem s) pd vb = Some f \<longrightarrow> vb = va))"

lemma private_unique:
  "private_ok cfg s pd \<Longrightarrow> user_page cfg va \<Longrightarrow> translate (pm_mem s) pd va = Some f \<Longrightarrow>
   user_page cfg vb \<Longrightarrow> translate (pm_mem s) pd vb = Some f \<Longrightarrow> va = vb"
  unfolding private_ok_def by blast

text \<open>The pages \<open>V\<close> and the page tables \<open>R\<close> are gone, and their frames are free.\<close>

definition clears :: "pmem \<Rightarrow> u32 \<Rightarrow> u32 set \<Rightarrow> u32 set \<Rightarrow> pmem \<Rightarrow> bool" where
  "clears s pd V R s' \<longleftrightarrow>
     vm_wf s' pd \<and> pm_limit s' = pm_limit s \<and>
     (\<forall>vb. translate (pm_mem s') pd vb = (if frame vb \<in> V then None else translate (pm_mem s) pd vb)) \<and>
     (\<forall>i < 1024. pm_mem s' (pd + 4 * i) = (if i \<in> R then 0 else pm_mem s (pd + 4 * i))) \<and>
     pm_free s' = pm_free s \<union> {f. \<exists>va \<in> V. translate (pm_mem s) pd va = Some f} \<union>
       (\<lambda>i. frame (pm_mem s (pd + 4 * i))) ` R"

lemma clears_refl: "vm_wf s pd \<Longrightarrow> clears s pd {} {} s"
  by (simp add: clears_def)

lemma clears_trans:
  assumes "clears s pd V R s1" and "clears s1 pd W Q s2" and "Q \<inter> R = {}" and "Q \<subseteq> {i. i < 1024}"
    and "\<forall>va \<in> W. pm_offset va = 0"
  shows "clears s pd (V \<union> W) (R \<union> Q) s2"
proof -
  have q: "(\<lambda>i. frame (pm_mem s1 (pd + 4 * i))) ` Q = (\<lambda>i. frame (pm_mem s (pd + 4 * i))) ` Q"
  proof (intro image_cong refl)
    fix i
    assume "i \<in> Q"
    then have "i < 1024" "i \<notin> R" using assms(3,4) by auto
    then show "frame (pm_mem s1 (pd + 4 * i)) = frame (pm_mem s (pd + 4 * i))"
      using assms(1) by (simp add: clears_def)
  qed
  have "\<exists>va \<in> V \<union> W. translate (pm_mem s) pd va = Some f"
    if "va \<in> W" "translate (pm_mem s1) pd va = Some f" for va f
    using that assms(1) by (auto simp: clears_def split: if_splits)
  moreover have "(\<exists>va \<in> V. translate (pm_mem s) pd va = Some f) \<or> (\<exists>va \<in> W. translate (pm_mem s1) pd va = Some f)"
    if "va \<in> V \<union> W" "translate (pm_mem s) pd va = Some f" for va f
  proof (cases "va \<in> V")
    case False
    then have "va \<in> W" "frame va = va" using that(1) assms(5) frame_id by auto
    then have "translate (pm_mem s1) pd va = Some f" using assms(1) that(2) False by (simp add: clears_def)
    then show ?thesis using \<open>va \<in> W\<close> by blast
  qed (use that in blast)
  ultimately have pages: "{f. \<exists>va \<in> V. translate (pm_mem s) pd va = Some f} \<union>
      {f. \<exists>va \<in> W. translate (pm_mem s1) pd va = Some f} =
      {f. \<exists>va \<in> V \<union> W. translate (pm_mem s) pd va = Some f}" by blast
  have "pm_free s2 = pm_free s1 \<union> {f. \<exists>va \<in> W. translate (pm_mem s1) pd va = Some f} \<union>
       (\<lambda>i. frame (pm_mem s1 (pd + 4 * i))) ` Q"
    and "pm_free s1 = pm_free s \<union> {f. \<exists>va \<in> V. translate (pm_mem s) pd va = Some f} \<union>
       (\<lambda>i. frame (pm_mem s (pd + 4 * i))) ` R"
    using assms(1,2) by (simp_all add: clears_def)
  then have "pm_free s2 = pm_free s \<union> {f. \<exists>va \<in> V \<union> W. translate (pm_mem s) pd va = Some f} \<union>
       (\<lambda>i. frame (pm_mem s (pd + 4 * i))) ` (R \<union> Q)"
    unfolding q pages [symmetric] image_Un by (simp only: Un_ac)
  moreover have "vm_wf s2 pd" "pm_limit s2 = pm_limit s"
    using assms(1,2) by (simp_all add: clears_def)
  moreover have "translate (pm_mem s2) pd vb = (if frame vb \<in> V \<union> W then None else translate (pm_mem s) pd vb)" for vb
    using assms(1,2) by (simp add: clears_def)
  moreover have "pm_mem s2 (pd + 4 * i) = (if i \<in> R \<union> Q then 0 else pm_mem s (pd + 4 * i))" if "i < 1024" for i
    using assms(1,2) that by (simp add: clears_def)
  ultimately show ?thesis unfolding clears_def by blast
qed

lemma clears_tables: "clears s pd V R s' \<Longrightarrow> vm_tables (pm_mem s') pd \<subseteq> vm_tables (pm_mem s) pd"
proof -
  assume cl: "clears s pd V R s'"
  have "pm_mem s' (pd + 4 * i) = pm_mem s (pd + 4 * i)" if "i < 1024" "present (pm_mem s' (pd + 4 * i))" for i
    using cl that by (cases "i \<in> R") (auto simp: clears_def)
  then show ?thesis unfolding vm_tables_def by fastforce
qed

lemma clears_private:
  assumes ok: "private_ok cfg s pd" and cl: "clears s pd V R s'" and V: "\<forall>va \<in> V. user_page cfg va"
    and R: "\<forall>i \<in> R. i < 1024 \<and> present (pm_mem s (pd + 4 * i))"
  shows "private_ok cfg s' pd"
proof -
  have keep: "va \<notin> V \<and> translate (pm_mem s) pd va = Some f"
    if "user_page cfg va" "translate (pm_mem s') pd va = Some f" for va f
    using that cl frame_id by (auto simp: clears_def user_page_def split: if_splits)
  have "pm_owned s' f \<and> f \<notin> vm_tables (pm_mem s') pd"
    if va: "user_page cfg va" "translate (pm_mem s') pd va = Some f" for va f
  proof -
    have old: "va \<notin> V" "translate (pm_mem s) pd va = Some f" using keep [OF va] by auto
    then have own: "pm_owned s f" "f \<notin> vm_tables (pm_mem s) pd"
      using ok va(1) unfolding private_ok_def by blast+
    have "\<not> (\<exists>vb \<in> V. translate (pm_mem s) pd vb = Some f)"
      using ok old va(1) V unfolding private_ok_def by blast
    moreover have "f \<notin> (\<lambda>i. frame (pm_mem s (pd + 4 * i))) ` R"
      using own(2) R by (auto simp: vm_tables_def)
    ultimately have "f \<notin> pm_free s'" using own(1) cl by (auto simp: clears_def pm_owned_def)
    then show ?thesis using own clears_tables [OF cl] cl by (auto simp: pm_owned_def clears_def)
  qed
  moreover have "vb = va"
    if "user_page cfg va" "translate (pm_mem s') pd va = Some f"
      "user_page cfg vb" "translate (pm_mem s') pd vb = Some f" for va vb f
    using keep that ok unfolding private_ok_def by blast
  moreover have "vm_wf s' pd" using cl by (simp add: clears_def)
  ultimately show ?thesis unfolding private_ok_def by blast
qed

lemma unmaps_clears:
  assumes "unmaps_page s pd va s'" and "pm_offset va = 0"
  shows "clears s pd {va} {} s'"
  using assms frame_id [OF assms(2)] unfolding unmaps_page_def clears_def by auto

section \<open>delete_private\<close>

lemma pte_step:
  assumes i: "i < 1024" and pr: "present (pm_mem s (pd + 4 * i))" and j: "j < 1024"
  shows "delete_private_pte cfg i (frame (pm_mem s (pd + 4 * i))) j (s, c) =
    (if is_special cfg (page_va i (word_of_nat j)) then Inr (s, True)
     else rbind (vm_unmap s pd (page_va i (word_of_nat j))) (\<lambda>s1. Inr (s1, c)))"
  using page_va_parts [OF i of_nat_less_1024 [OF j]] pr
  by (simp add: delete_private_pte_def vm_unmap_def page_va_def [symmetric] Let_def frame_def [symmetric])

lemma delete_row:
  assumes "private_ok cfg s pd" and i: "i < 1024" and "present (pm_mem s (pd + 4 * i))"
    and "set js \<subseteq> {..<1024}"
  shows "\<exists>s'. rfold (delete_private_pte cfg i (frame (pm_mem s (pd + 4 * i)))) js (s, c) =
      Inr (s', c \<or> (\<exists>j \<in> set js. is_special cfg (page_va i (word_of_nat j)))) \<and>
    clears s pd {page_va i (word_of_nat j) |j. j \<in> set js \<and> \<not> is_special cfg (page_va i (word_of_nat j))} {} s'"
  using assms(1,3,4)
proof (induction js arbitrary: s c)
  case Nil
  then show ?case by (simp add: private_ok_def clears_refl)
next
  case (Cons j js)
  let ?va = "page_va i (word_of_nat j)"
  have j: "j < 1024" using Cons.prems by simp
  have off: "pm_offset ?va = 0" using page_va_parts(3) [OF i of_nat_less_1024 [OF j]] .
  note step = pte_step [OF i Cons.prems(2) j, of cfg]
  show ?case
  proof (cases "is_special cfg ?va")
    case True
    have "{page_va i (word_of_nat k) |k. k \<in> set (j # js) \<and> \<not> is_special cfg (page_va i (word_of_nat k))} =
        {page_va i (word_of_nat k) |k. k \<in> set js \<and> \<not> is_special cfg (page_va i (word_of_nat k))}"
      using True by auto
    then show ?thesis using Cons.IH [OF Cons.prems(1,2), of True] Cons.prems(3) True step by simp
  next
    case False
    have wf: "vm_wf s pd" and page: "\<And>f. translate (pm_mem s) pd ?va = Some f \<Longrightarrow>
        pm_owned s f \<and> f \<notin> vm_tables (pm_mem s) pd"
      using Cons.prems(1) False off by (auto simp: private_ok_def user_page_def)
    obtain s1 where s1: "vm_unmap s pd ?va = Inr s1" "unmaps_page s pd ?va s1"
      using unmap_sound [OF wf page] by blast
    note cl = unmaps_clears [OF s1(2) off]
    have ok1: "private_ok cfg s1 pd"
      using clears_private [OF Cons.prems(1) cl] False off by (simp add: user_page_def)
    have e: "pm_mem s1 (pd + 4 * i) = pm_mem s (pd + 4 * i)" using cl i by (simp add: clears_def)
    obtain s' where s': "rfold (delete_private_pte cfg i (frame (pm_mem s1 (pd + 4 * i)))) js (s1, c) =
        Inr (s', c \<or> (\<exists>j \<in> set js. is_special cfg (page_va i (word_of_nat j))))"
        "clears s1 pd {page_va i (word_of_nat j) |j. j \<in> set js \<and> \<not> is_special cfg (page_va i (word_of_nat j))} {} s'"
      using Cons.IH [OF ok1, of c] Cons.prems(2,3) e by auto
    have "{page_va i (word_of_nat k) |k. k \<in> set (j # js) \<and> \<not> is_special cfg (page_va i (word_of_nat k))} =
        {?va} \<union> {page_va i (word_of_nat k) |k. k \<in> set js \<and> \<not> is_special cfg (page_va i (word_of_nat k))}"
      using False by auto
    moreover have "pm_offset (page_va i (word_of_nat k)) = 0" if "k \<in> set js" for k
      using page_va_parts(3) [OF i of_nat_less_1024 [of k]] that Cons.prems(3) by auto
    then have "clears s pd ({?va} \<union> {page_va i (word_of_nat k) |k. k \<in> set js \<and>
        \<not> is_special cfg (page_va i (word_of_nat k))}) ({} \<union> {}) s'"
      using clears_trans [OF cl s'(2)] by auto
    ultimately show ?thesis using s' e step False s1(1) by auto
  qed
qed

text \<open>Dropping a page table whose pages are gone.\<close>

lemma table_drop:
  assumes wf: "vm_wf s pd" and i: "i < 1024" and pr: "present (pm_mem s (pd + 4 * i))"
    and none: "\<And>va. pdi_of va = i \<Longrightarrow> translate (pm_mem s) pd va = None"
  obtains s' where "dealloc_frame (pm_write s (pd + 4 * i) 0) (frame (pm_mem s (pd + 4 * i))) = Inr s'"
    and "clears s pd {} {i} s'"
proof -
  let ?w = "pm_write s (pd + 4 * i) 0" and ?pt = "frame (pm_mem s (pd + 4 * i))"
  note W = vm_wfD [OF wf]
  have fr: "frame (pd + 4 * i) \<notin> pm_free s" using frame_slot [OF W(3) i] W(4) by simp
  note F = pm_write_free [OF W(1) fr, of 0]
  have own: "pm_owned ?w f = pm_owned s f" for f using owned_write [OF W(1) fr] .
  have pds: "pm_mem ?w (pd + 4 * k) = (if k = i then 0 else pm_mem s (pd + 4 * k))" if "k < 1024" for k
    using slot_inj [OF W(3) that i] by simp
  have wfw: "vm_wf ?w pd"
    using wf pds own F(1) unfolding vm_wf_def by auto
  have pt: "?pt \<notin> vm_tables (pm_mem ?w) pd"
  proof
    assume "?pt \<in> vm_tables (pm_mem ?w) pd"
    then consider "?pt = pd" | k where "k < 1024" "present (pm_mem ?w (pd + 4 * k))" "?pt = frame (pm_mem ?w (pd + 4 * k))"
      by (auto simp: vm_tables_def)
    then show False
    proof cases
      case 1
      then show False using W(5) [OF i pr] by simp
    next
      case 2
      then have "k \<noteq> i" "present (pm_mem s (pd + 4 * k))" "?pt = frame (pm_mem s (pd + 4 * k))"
        using pds [of k] by (auto split: if_splits)
      then show False using wf i pr 2(1) unfolding vm_wf_def by metis
    qed
  qed
  have trw: "translate (pm_mem ?w) pd va = translate (pm_mem s) pd va" for va
  proof (cases "pdi_of va = i")
    case True
    then show ?thesis using none pds [OF i] by (simp add: translate_entry)
  next
    case False
    let ?e = "pm_mem s (pd + 4 * pdi_of va)"
    have "pm_mem ?w (frame ?e + 4 * pti_of va) = pm_mem s (frame ?e + 4 * pti_of va)" if "present ?e"
      using slot_other [OF _ W(3) _ pti_less i, of "frame ?e"] W(5) [OF pdi_less that] by simp
    then show ?thesis
      using False pds [OF pdi_less, of va] by (cases "present ?e") (simp_all add: translate_entry)
  qed
  have ptw: "pm_owned ?w ?pt" using own W(5) [OF i pr] by simp
  obtain s' where d: "dealloc_frame ?w ?pt = Inr s'" "pm_inv s'" "pm_free s' = insert ?pt (pm_free ?w)"
      "pm_mem s' = (pm_mem ?w)(?pt := pm_firstFree ?w)" "pm_limit s' = pm_limit ?w"
    using dealloc_sound [OF vm_wfD(1) [OF wfw] ptw] by blast
  have "pm_free s' \<inter> vm_tables (pm_mem ?w) pd = {}"
    using d(3) pt tables_owned [OF wfw] by (auto simp: pm_owned_def)
  note K = wf_keep [OF wfw d(2,5) this]
  have mem: "pm_mem s' a = pm_mem ?w a" if "frame a \<in> vm_tables (pm_mem ?w) pd" for a
    using that pt d(4) frame_id [of ?pt] by auto
  note K' = K [OF mem]
  have "pm_mem s' (pd + 4 * k) = (if k \<in> {i} then 0 else pm_mem s (pd + 4 * k))" if "k < 1024" for k
    using mem [of "pd + 4 * k"] frame_slot [OF W(3) that] pds [OF that] by (simp add: vm_tables_def)
  then have "clears s pd {} {i} s'"
    using K' d F trw unfolding clears_def by simp
  then show ?thesis using that d(1) by blast
qed

definition row_pages :: "Config \<Rightarrow> u32 \<Rightarrow> u32 set" where
  "row_pages cfg i = {va. user_page cfg va \<and> pdi_of va = i}"

definition row_table :: "Config \<Rightarrow> (u32 \<Rightarrow> u32) \<Rightarrow> u32 \<Rightarrow> u32 \<Rightarrow> bool" where
  "row_table cfg m pd i \<longleftrightarrow>
     present (m (pd + 4 * i)) \<and> (\<forall>va. pm_offset va = 0 \<and> pdi_of va = i \<longrightarrow> \<not> is_special cfg va)"

lemma row_pages_list:
  assumes "i < 1024"
  shows "{page_va i (word_of_nat j) |j. j \<in> set [0..<1024] \<and> \<not> is_special cfg (page_va i (word_of_nat j))} =
      row_pages cfg i"
    and "(\<exists>j \<in> set [0..<1024]. is_special cfg (page_va i (word_of_nat j))) \<longleftrightarrow>
      (\<exists>va. pm_offset va = 0 \<and> pdi_of va = i \<and> is_special cfg va)"
proof -
  have fwd: "pm_offset (page_va i (word_of_nat j)) = 0 \<and> pdi_of (page_va i (word_of_nat j)) = i" if "j < 1024" for j
    using page_va_parts [OF assms of_nat_less_1024 [OF that]] by simp
  have bwd: "\<exists>j < 1024. va = page_va i (word_of_nat j)" if "pm_offset va = 0" "pdi_of va = i" for va
    using page_va_eq [OF that(1)] that(2) pti_less [of va]
    by (intro exI [of _ "unat (pti_of va)"]) (auto simp: word_less_nat_alt)
  show "{page_va i (word_of_nat j) |j. j \<in> set [0..<1024] \<and> \<not> is_special cfg (page_va i (word_of_nat j))} =
      row_pages cfg i"
    unfolding row_pages_def user_page_def using fwd bwd by fastforce
  show "(\<exists>j \<in> set [0..<1024]. is_special cfg (page_va i (word_of_nat j))) \<longleftrightarrow>
      (\<exists>va. pm_offset va = 0 \<and> pdi_of va = i \<and> is_special cfg va)"
    using fwd bwd by (metis atLeastLessThan_iff le0 set_upt)
qed

lemma all_ptes: "set [0..<1024] \<subseteq> {..<1024 :: nat}"
  by auto

lemma delete_pde:
  assumes ok: "private_ok cfg s pd" and k: "k < 1024"
  defines "i \<equiv> word_of_nat k"
  obtains s' where "delete_private_pde cfg pd k s = Inr s'"
    and "clears s pd (row_pages cfg i) (if row_table cfg (pm_mem s) pd i then {i} else {}) s'"
proof -
  have i: "i < 1024" unfolding i_def by (rule of_nat_less_1024 [OF k])
  have wf: "vm_wf s pd" using ok by (simp add: private_ok_def)
  show ?thesis
  proof (cases "present (pm_mem s (pd + 4 * i))")
    case False
    then have "delete_private_pde cfg pd k s = Inr s" by (simp add: delete_private_pde_def Let_def i_def)
    moreover have none: "translate (pm_mem s) pd va = None" if "pdi_of va = i" for va
      using False that by (simp add: translate_entry)
    have "pdi_of vb = i" if "frame vb \<in> row_pages cfg i" for vb
      using that page_eq_iff [of "frame vb" vb] frame_id [of "frame vb"] by (auto simp: row_pages_def)
    then have "clears s pd (row_pages cfg i) {} s"
      using wf none by (auto simp: clears_def row_pages_def)
    moreover have "\<not> row_table cfg (pm_mem s) pd i" using False by (simp add: row_table_def)
    ultimately show ?thesis using that by simp
  next
    case True
    obtain s1 where s1: "rfold (delete_private_pte cfg i (frame (pm_mem s (pd + 4 * i)))) [0..<1024] (s, False) =
        Inr (s1, \<exists>va. pm_offset va = 0 \<and> pdi_of va = i \<and> is_special cfg va)"
      and cl: "clears s pd (row_pages cfg i) {} s1"
      using delete_row [OF ok i True all_ptes, of False] unfolding row_pages_list [OF i] by auto
    have d: "delete_private_pde cfg pd k s =
        (if \<exists>va. pm_offset va = 0 \<and> pdi_of va = i \<and> is_special cfg va then Inr s1
         else dealloc_frame (pm_write s1 (pd + 4 * i) 0) (frame (pm_mem s (pd + 4 * i))))"
      unfolding delete_private_pde_def Let_def i_def [symmetric] frame_def [symmetric] if_not_P [OF True] s1
      by (cases "\<exists>va. pm_offset va = 0 \<and> pdi_of va = i \<and> is_special cfg va")
         (simp_all only: rbind_Inr prod.case if_True if_False not_True_eq_False not_False_eq_True)
    show ?thesis
    proof (cases "row_table cfg (pm_mem s) pd i")
      case False
      then have ex: "\<exists>va. pm_offset va = 0 \<and> pdi_of va = i \<and> is_special cfg va"
        using True unfolding row_table_def by blast
      then have "delete_private_pde cfg pd k s = Inr s1" unfolding d by (simp only: if_True)
      then show ?thesis using that [of s1] cl False by (simp only: if_False)
    next
      case table: True
      have e: "pm_mem s1 (pd + 4 * i) = pm_mem s (pd + 4 * i)" using cl i by (simp add: clears_def)
      have wf1: "vm_wf s1 pd" using cl by (simp add: clears_def)
      have none: "translate (pm_mem s1) pd va = None" if "pdi_of va = i" for va
      proof -
        have "frame va \<in> row_pages cfg i"
          using table that page_eq_iff [of "frame va" va] frame_id [of "frame va"]
          by (auto simp: row_pages_def user_page_def row_table_def)
        then show ?thesis using cl by (simp add: clears_def)
      qed
      obtain s' where s': "dealloc_frame (pm_write s1 (pd + 4 * i) 0) (frame (pm_mem s1 (pd + 4 * i))) = Inr s'"
          "clears s1 pd {} {i} s'"
        using table_drop [OF wf1 i _ none] True e by auto
      have "clears s pd (row_pages cfg i \<union> {}) ({} \<union> {i}) s'"
        using i by (intro clears_trans [OF cl s'(2)]) auto
      moreover have "\<not> (\<exists>va. pm_offset va = 0 \<and> pdi_of va = i \<and> is_special cfg va)"
        using table by (auto simp: row_table_def)
      then have "delete_private_pde cfg pd k s = Inr s'"
        unfolding d using s'(1) e by (simp only: if_False)
      ultimately show ?thesis using that [of s'] table by simp
    qed
  qed
qed

lemma row_table_clears:
  assumes "clears s pd V R s'" and "i < 1024" and "i \<notin> R"
  shows "row_table cfg (pm_mem s') pd i = row_table cfg (pm_mem s) pd i"
  using assms by (simp add: clears_def row_table_def)

lemma delete_rows:
  "private_ok cfg s pd \<Longrightarrow> set is \<subseteq> {..<1024} \<Longrightarrow> distinct is \<Longrightarrow>
   \<exists>s'. rfold (delete_private_pde cfg pd) is s = Inr s' \<and>
     clears s pd (\<Union>k \<in> set is. row_pages cfg (word_of_nat k))
       {i. \<exists>k \<in> set is. i = word_of_nat k \<and> row_table cfg (pm_mem s) pd i} s'"
proof (induction "is" arbitrary: s)
  case Nil
  then show ?case by (simp add: private_ok_def clears_refl)
next
  case (Cons k ks)
  let ?i = "word_of_nat k :: u32"
  let ?R = "if row_table cfg (pm_mem s) pd ?i then {?i} else {}"
  let ?W = "\<Union>k \<in> set ks. row_pages cfg (word_of_nat k)"
  have k: "k < 1024" using Cons.prems(2) by simp
  have inj: "(word_of_nat k :: u32) = word_of_nat l \<longleftrightarrow> k = l" if "k < 1024" "l < 1024" for k l
    using that unat_of_nat_1024 by metis
  obtain s1 where s1: "delete_private_pde cfg pd k s = Inr s1" "clears s pd (row_pages cfg ?i) ?R s1"
    using delete_pde [OF Cons.prems(1) k] by blast
  have ok1: "private_ok cfg s1 pd"
    by (rule clears_private [OF Cons.prems(1) s1(2)])
       (use of_nat_less_1024 [OF k] in \<open>auto simp: row_pages_def row_table_def\<close>)
  let ?Q = "{i. \<exists>k \<in> set ks. i = word_of_nat k \<and> row_table cfg (pm_mem s1) pd i}"
  obtain s' where s': "rfold (delete_private_pde cfg pd) ks s1 = Inr s'" "clears s1 pd ?W ?Q s'"
    using Cons.IH [OF ok1] Cons.prems by auto
  have other: "?i \<noteq> word_of_nat l \<and> l < 1024" if "l \<in> set ks" for l
    using that Cons.prems(2,3) inj [OF k, of l] by auto
  have q: "?Q = {i. \<exists>k \<in> set ks. i = word_of_nat k \<and> row_table cfg (pm_mem s) pd i}"
  proof -
    have "row_table cfg (pm_mem s1) pd (word_of_nat l) = row_table cfg (pm_mem s) pd (word_of_nat l)"
      if "l \<in> set ks" for l
      using row_table_clears [OF s1(2) of_nat_less_1024 [of l]] other [OF that] by auto
    then show ?thesis by blast
  qed
  have cl: "clears s pd (row_pages cfg ?i \<union> ?W) (?R \<union> ?Q) s'"
  proof (rule clears_trans [OF s1(2) s'(2)])
    show "?Q \<inter> ?R = {}" using other by simp
    show "?Q \<subseteq> {i. i < 1024}" using other of_nat_less_1024 by blast
    show "\<forall>va \<in> ?W. pm_offset va = 0" by (simp add: row_pages_def user_page_def)
  qed
  have rq: "{i. \<exists>k \<in> set (k # ks). i = word_of_nat k \<and> row_table cfg (pm_mem s) pd i} = ?R \<union> ?Q"
    unfolding q by auto
  have pg: "(\<Union>k \<in> set (k # ks). row_pages cfg (word_of_nat k)) = row_pages cfg ?i \<union> ?W" by simp
  have "clears s pd (\<Union>k \<in> set (k # ks). row_pages cfg (word_of_nat k))
      {i. \<exists>k \<in> set (k # ks). i = word_of_nat k \<and> row_table cfg (pm_mem s) pd i} s'"
    unfolding rq pg by (rule cl)
  then show ?case using s1(1) s'(1) by simp
qed

text \<open>The user half is the rows from 512 on.\<close>

lemma user_row: "\<not> is_special cfg va \<Longrightarrow> 512 \<le> unat (pdi_of va)"
proof -
  assume "\<not> is_special cfg va"
  then have "0x80000000 \<le> va" by (simp add: is_special_def not_less)
  then have "0x80000000 \<le> unat va" by (simp add: word_le_nat_alt)
  then have "512 \<le> unat va div 4194304" by simp
  then show ?thesis by (simp add: pdi_of_def drop_bit_eq_div unat_div)
qed

lemma in_user_rows: "k \<in> set [512..<1024] \<longleftrightarrow> 512 \<le> k \<and> k < 1024"
  by (simp only: set_upt atLeastLessThan_iff)

lemma user_rows:
  "(\<Union>k \<in> set [512..<1024]. row_pages cfg (word_of_nat k)) = {va. user_page cfg va}"
proof (rule set_eqI)
  fix va
  have "unat (pdi_of va) < 1024" using pdi_less [of va] by (simp add: word_less_nat_alt)
  then have "\<exists>k. (512 \<le> k \<and> k < 1024) \<and> va \<in> row_pages cfg (word_of_nat k)" if "user_page cfg va"
    using that user_row [of cfg va]
    by (intro exI [of _ "unat (pdi_of va)"]) (simp add: row_pages_def user_page_def)
  then show "va \<in> (\<Union>k \<in> set [512..<1024]. row_pages cfg (word_of_nat k)) \<longleftrightarrow> va \<in> {va. user_page cfg va}"
    unfolding UN_iff in_user_rows Bex_def mem_Collect_eq by (auto simp: row_pages_def)
qed

lemma user_tables:
  "{i. \<exists>k \<in> set [512..<1024]. i = word_of_nat k \<and> row_table cfg m pd i} =
   {i. i < 1024 \<and> row_table cfg m pd i}"
proof (rule set_eqI)
  fix i
  have "512 \<le> unat i \<and> unat i < 1024" if "i < 1024" "row_table cfg m pd i"
  proof -
    have "\<not> is_special cfg (page_va i 0)"
      using that page_va_parts [OF that(1), of 0] by (simp add: row_table_def)
    then have "512 \<le> unat i" using user_row page_va_parts(1) [OF that(1), of 0] by fastforce
    then show ?thesis using that(1) by (simp add: word_less_nat_alt)
  qed
  then show "i \<in> {i. \<exists>k \<in> set [512..<1024]. i = word_of_nat k \<and> row_table cfg m pd i} \<longleftrightarrow>
      i \<in> {i. i < 1024 \<and> row_table cfg m pd i}"
    unfolding in_user_rows Bex_def mem_Collect_eq using of_nat_less_1024
    by (auto intro: exI [of _ "unat i"])
qed

lemma delete_private_sound:
  assumes "private_ok cfg s pd"
  obtains s' where "delete_private cfg pd pd s = Inr s'"
    and "clears s pd {va. user_page cfg va} {i. i < 1024 \<and> row_table cfg (pm_mem s) pd i} s'"
proof -
  have "set [512..<1024] \<subseteq> {..<1024 :: nat}" using in_user_rows by blast
  from delete_rows [OF assms this distinct_upt] show ?thesis
    using that unfolding delete_private_def user_rows user_tables by auto
qed

section \<open>delete_pd\<close>

text \<open>
  \<^verbatim>\<open>delete_pd\<close> leaves the tables as they are and reads them while the frames go back: it is the
  release of a list of frames that the tables determine at its start.
\<close>

definition row_page_frames :: "Config \<Rightarrow> (u32 \<Rightarrow> u32) \<Rightarrow> u32 \<Rightarrow> u32 \<Rightarrow> nat list \<Rightarrow> u32 list" where
  "row_page_frames cfg m i pt js =
     map (\<lambda>j. frame (m (pt + 4 * word_of_nat j)))
       (filter (\<lambda>j. present (m (pt + 4 * word_of_nat j)) \<and> \<not> is_special cfg (page_va i (word_of_nat j))) js)"

definition row_frames :: "Config \<Rightarrow> (u32 \<Rightarrow> u32) \<Rightarrow> u32 \<Rightarrow> nat \<Rightarrow> u32 list" where
  "row_frames cfg m pd k =
     (let i = word_of_nat k; pt = frame (m (pd + 4 * i))
      in if present (m (pd + 4 * i)) then row_page_frames cfg m i pt [0..<1024] @ [pt] else [])"

abbreviation dealloc_all :: "u32 list \<Rightarrow> pmem \<Rightarrow> pm_panic + pmem" where
  "dealloc_all \<equiv> rfold (\<lambda>f s. dealloc_frame s f)"

lemma dealloc_all_sound:
  "pm_inv s \<Longrightarrow> distinct fs \<Longrightarrow> \<forall>f \<in> set fs. pm_owned s f \<Longrightarrow>
   \<exists>s'. dealloc_all fs s = Inr s' \<and> pm_inv s' \<and> pm_free s' = pm_free s \<union> set fs \<and>
     pm_limit s' = pm_limit s \<and> (\<forall>a. a \<notin> set fs \<longrightarrow> pm_mem s' a = pm_mem s a)"
proof (induction fs arbitrary: s)
  case (Cons f fs)
  have f: "pm_owned s f" using Cons.prems(3) by simp
  obtain s1 where s1: "dealloc_frame s f = Inr s1" "pm_inv s1" "pm_free s1 = insert f (pm_free s)"
      "pm_mem s1 = (pm_mem s)(f := pm_firstFree s)" "pm_limit s1 = pm_limit s"
    using dealloc_sound [OF Cons.prems(1) f] by blast
  have "\<forall>g \<in> set fs. pm_owned s1 g" using Cons.prems(2,3) s1(3,5) by (auto simp: pm_owned_def)
  then obtain s' where "dealloc_all fs s1 = Inr s'" "pm_inv s'" "pm_free s' = pm_free s1 \<union> set fs"
      "pm_limit s' = pm_limit s1" "\<forall>a. a \<notin> set fs \<longrightarrow> pm_mem s' a = pm_mem s1 a"
    using Cons.IH [OF s1(2)] Cons.prems(2) by auto
  then show ?case using s1 by auto
qed simp

lemma pte_list:
  assumes pt: "pm_offset pt = 0"
  shows "set js \<subseteq> {..<1024} \<Longrightarrow> pt \<notin> set (row_page_frames cfg m i pt js) \<Longrightarrow>
    (\<And>a. frame a = pt \<Longrightarrow> pm_mem s a = m a) \<Longrightarrow>
    rfold (delete_pd_pte cfg i pt) js s = dealloc_all (row_page_frames cfg m i pt js) s"
proof (induction js arbitrary: s)
  case Nil
  then show ?case by (simp add: row_page_frames_def)
next
  case (Cons j js)
  let ?e = "m (pt + 4 * word_of_nat j)"
  have j: "(word_of_nat j :: u32) < 1024" using Cons.prems(1) of_nat_less_1024 by simp
  have e: "pm_mem s (pt + 4 * word_of_nat j) = ?e" using Cons.prems(3) frame_slot [OF pt j] by blast
  show ?case
  proof (cases "present ?e \<and> \<not> is_special cfg (page_va i (word_of_nat j))")
    case False
    then have "delete_pd_pte cfg i pt j s = Inr s"
      using e by (auto simp: delete_pd_pte_def Let_def page_va_def)
    moreover have "row_page_frames cfg m i pt (j # js) = row_page_frames cfg m i pt js"
      using False by (auto simp: row_page_frames_def)
    ultimately show ?thesis using Cons.IH [of s] Cons.prems by simp
  next
    case True
    then have st: "delete_pd_pte cfg i pt j s = dealloc_frame s (frame ?e)"
      using e by (simp add: delete_pd_pte_def Let_def page_va_def frame_def)
    have ls: "row_page_frames cfg m i pt (j # js) = frame ?e # row_page_frames cfg m i pt js"
      using True by (simp add: row_page_frames_def)
    obtain s1 where s1: "dealloc_frame s (frame ?e) = Inr s1" "pm_mem s1 = (pm_mem s)(frame ?e := pm_firstFree s)"
      by (simp add: dealloc_frame_def)
    have "frame (frame ?e) = frame ?e" by (simp add: frame_id)
    then have "pm_mem s1 a = m a" if "frame a = pt" for a
      using Cons.prems(2,3) that s1(2) ls by auto
    then show ?thesis using Cons.IH [of s1] Cons.prems(1,2) st ls s1(1) by simp
  qed
qed

lemma pde_list:
  assumes pd: "pm_offset pd = 0"
  shows "set ks \<subseteq> {..<1024} \<Longrightarrow> pm_inv s \<Longrightarrow> distinct (concat (map (row_frames cfg m pd) ks)) \<Longrightarrow>
    pd \<notin> set (concat (map (row_frames cfg m pd) ks)) \<Longrightarrow>
    \<forall>f \<in> set (concat (map (row_frames cfg m pd) ks)). pm_owned s f \<Longrightarrow>
    (\<And>a. frame a \<in> insert pd (set (concat (map (row_frames cfg m pd) ks))) \<Longrightarrow> pm_mem s a = m a) \<Longrightarrow>
    rfold (delete_pd_pde cfg pd) ks s = dealloc_all (concat (map (row_frames cfg m pd) ks)) s"
proof (induction ks arbitrary: s)
  case (Cons k ks)
  let ?i = "word_of_nat k :: u32"
  let ?e = "m (pd + 4 * ?i)"
  let ?fs = "row_frames cfg m pd k"
  have i: "?i < 1024" using Cons.prems(1) of_nat_less_1024 by simp
  have e: "pm_mem s (pd + 4 * ?i) = ?e" using Cons.prems(6) frame_slot [OF pd i] by blast
  have row: "delete_pd_pde cfg pd k s = dealloc_all ?fs s"
  proof (cases "present ?e")
    case False
    then show ?thesis using e by (simp add: delete_pd_pde_def row_frames_def Let_def)
  next
    case True
    have fs: "?fs = row_page_frames cfg m ?i (frame ?e) [0..<1024] @ [frame ?e]"
      unfolding row_frames_def Let_def using True by simp
    have "distinct ?fs" using Cons.prems(3) by simp
    then have nin: "frame ?e \<notin> set (row_page_frames cfg m ?i (frame ?e) [0..<1024])"
      unfolding fs by simp
    have "rfold (delete_pd_pte cfg ?i (frame ?e)) [0..<1024] s =
        dealloc_all (row_page_frames cfg m ?i (frame ?e) [0..<1024]) s"
    proof (rule pte_list [OF frame_aligned all_ptes nin])
      fix a
      assume "frame a = frame ?e"
      moreover have "frame ?e \<in> set ?fs" unfolding fs by simp
      ultimately show "pm_mem s a = m a" using Cons.prems(6) by simp
    qed
    then show ?thesis
      unfolding delete_pd_pde_def Let_def e if_not_P [OF True] frame_def [symmetric] fs rfold_append
      by (simp only: rfold.simps) (auto simp: rbind_def split: sum.splits)
  qed
  obtain s1 where s1: "dealloc_all ?fs s = Inr s1" "pm_inv s1" "pm_free s1 = pm_free s \<union> set ?fs"
      "pm_limit s1 = pm_limit s" "\<forall>a. a \<notin> set ?fs \<longrightarrow> pm_mem s1 a = pm_mem s a"
    using dealloc_all_sound [of s ?fs] Cons.prems(2,3,5) by auto
  have al: "frame f = f" if "f \<in> set ?fs" for f
    using that Cons.prems(5) by (auto simp: pm_owned_def frame_id)
  have dis: "set ?fs \<inter> set (concat (map (row_frames cfg m pd) ks)) = {}"
    and dist: "distinct (concat (map (row_frames cfg m pd) ks))" using Cons.prems(3) by auto
  have "rfold (delete_pd_pde cfg pd) ks s1 = dealloc_all (concat (map (row_frames cfg m pd) ks)) s1"
  proof (rule Cons.IH [OF _ s1(2) dist])
    show "set ks \<subseteq> {..<1024}" using Cons.prems(1) by simp
    show "pd \<notin> set (concat (map (row_frames cfg m pd) ks))" using Cons.prems(4) by simp
    show "\<forall>f \<in> set (concat (map (row_frames cfg m pd) ks)). pm_owned s1 f"
      using Cons.prems(5) dis s1(3,4) by (fastforce simp: pm_owned_def)
    fix a
    assume a: "frame a \<in> insert pd (set (concat (map (row_frames cfg m pd) ks)))"
    then have "frame a \<notin> set ?fs" using dis Cons.prems(4) by auto
    then have "a \<notin> set ?fs" using al by metis
    then show "pm_mem s1 a = m a" using s1(5) Cons.prems(6) [of a] a by auto
  qed
  then show ?case using row s1(1) by (simp add: rfold_append)
qed simp

lemma distinct_concat_rows:
  assumes "distinct ks" and "\<And>k. k \<in> set ks \<Longrightarrow> distinct (F k)"
    and "\<And>k l. k \<in> set ks \<Longrightarrow> l \<in> set ks \<Longrightarrow> k \<noteq> l \<Longrightarrow> set (F k) \<inter> set (F l) = {}"
  shows "distinct (concat (map F ks))"
  using assms
proof (induction ks)
  case (Cons k ks)
  have "set (F k) \<inter> set (F l) = {}" if "l \<in> set ks" for l using Cons.prems that by auto
  then show ?case using Cons by auto
qed simp

lemma in_ptes: "j \<in> set (filter P [0..<1024]) \<longleftrightarrow> j < 1024 \<and> P j"
  by (simp only: set_filter mem_Collect_eq set_upt atLeastLessThan_iff) auto

lemma in_row_page_frames:
  "f \<in> set (row_page_frames cfg m i pt [0..<1024]) \<longleftrightarrow>
     (\<exists>j < 1024. present (m (pt + 4 * word_of_nat j)) \<and>
        \<not> is_special cfg (page_va i (word_of_nat j)) \<and> f = frame (m (pt + 4 * word_of_nat j)))"
  unfolding row_page_frames_def set_map image_iff Bex_def in_ptes by blast

text \<open>What the frames of a row are: the user pages of the row and its page table.\<close>

lemma row_frames_page:
  assumes "k < 1024" and "f \<in> set (row_frames cfg m pd k)"
  obtains (table) "present (m (pd + 4 * word_of_nat k))" and "f = frame (m (pd + 4 * word_of_nat k))"
    | (page) va where "user_page cfg va" and "pdi_of va = word_of_nat k" and "translate m pd va = Some f"
proof -
  let ?i = "word_of_nat k :: u32"
  let ?pt = "frame (m (pd + 4 * ?i))"
  have i: "?i < 1024" using of_nat_less_1024 [OF assms(1)] .
  have pr: "present (m (pd + 4 * ?i))"
    using assms(2) by (auto simp: row_frames_def Let_def split: if_splits)
  have "f \<in> set (row_page_frames cfg m ?i ?pt [0..<1024]) \<or> f = ?pt"
    using assms(2) pr unfolding row_frames_def Let_def if_P [OF pr] by auto
  moreover have ?thesis if inp: "f \<in> set (row_page_frames cfg m ?i ?pt [0..<1024])"
  proof -
    obtain j where j: "j < 1024" "present (m (?pt + 4 * word_of_nat j))"
        "\<not> is_special cfg (page_va ?i (word_of_nat j))" "f = frame (m (?pt + 4 * word_of_nat j))"
      using inp unfolding in_row_page_frames by blast
    note P = page_va_parts [OF i of_nat_less_1024 [OF j(1)]]
    show ?thesis
      by (rule page [of "page_va ?i (word_of_nat j)"]) (use j P pr in \<open>simp_all add: user_page_def translate_entry\<close>)
  qed
  ultimately show ?thesis using table pr by blast
qed

lemma page_row_frames:
  assumes "user_page cfg va" and "translate m pd va = Some f"
  shows "f \<in> set (row_frames cfg m pd (unat (pdi_of va)))"
proof -
  let ?i = "pdi_of va"
  have pr: "present (m (pd + 4 * ?i))" "present (m (frame (m (pd + 4 * ?i)) + 4 * pti_of va))"
    and f: "f = frame (m (frame (m (pd + 4 * ?i)) + 4 * pti_of va))"
    using assms(2) by (auto simp: translate_entry split: if_splits)
  have "unat (pti_of va) < 1024" using pti_less [of va] by (simp add: word_less_nat_alt)
  moreover have "\<not> is_special cfg (page_va ?i (pti_of va))"
    using assms(1) page_va_eq [of va] by (simp add: user_page_def)
  ultimately have "f \<in> set (row_page_frames cfg m ?i (frame (m (pd + 4 * ?i))) [0..<1024])"
    unfolding in_row_page_frames using pr f by (intro exI [of _ "unat (pti_of va)"]) simp
  then show ?thesis using pr(1) by (simp add: row_frames_def Let_def)
qed

definition user_frames :: "Config \<Rightarrow> (u32 \<Rightarrow> u32) \<Rightarrow> u32 \<Rightarrow> u32 set" where
  "user_frames cfg m pd =
     {f. \<exists>va. user_page cfg va \<and> translate m pd va = Some f} \<union>
     {frame (m (pd + 4 * i)) |i. 512 \<le> unat i \<and> i < 1024 \<and> present (m (pd + 4 * i))}"

lemma concat_rows_set: "set (concat (map (row_frames cfg m pd) [512..<1024])) = user_frames cfg m pd"
proof -
  have "f \<in> user_frames cfg m pd" if "512 \<le> k" "k < 1024" "f \<in> set (row_frames cfg m pd k)" for f k
    using that(2,3)
  proof (cases rule: row_frames_page)
    case table
    then show ?thesis using that(1,2) of_nat_less_1024 [OF that(2)] unat_of_nat_1024 [OF that(2)]
      unfolding user_frames_def by auto
  qed (auto simp: user_frames_def)
  moreover have "\<exists>k. (512 \<le> k \<and> k < 1024) \<and> f \<in> set (row_frames cfg m pd k)" if uf: "f \<in> user_frames cfg m pd" for f
  proof -
    consider va where "user_page cfg va" "translate m pd va = Some f"
      | i where "512 \<le> unat i" "i < 1024" "present (m (pd + 4 * i))" "f = frame (m (pd + 4 * i))"
      using uf unfolding user_frames_def by blast
    then show ?thesis
    proof cases
      case 1
      have "unat (pdi_of va) < 1024" using pdi_less [of va] by (simp add: word_less_nat_alt)
      then show ?thesis using page_row_frames [OF 1] user_row [of cfg va] 1(1) by (auto simp: user_page_def)
    next
      case 2
      then have "f \<in> set (row_frames cfg m pd (unat i))" "unat i < 1024"
        by (simp_all add: row_frames_def Let_def word_less_nat_alt)
      then show ?thesis using 2(1) by blast
    qed
  qed
  ultimately show ?thesis unfolding set_concat set_map by (intro set_eqI) (simp only: UN_iff image_iff Bex_def in_user_rows, blast)
qed

lemma rows_distinct:
  assumes ok: "private_ok cfg s pd"
  shows "distinct (concat (map (row_frames cfg (pm_mem s) pd) [512..<1024]))"
proof (rule distinct_concat_rows)
  have wf: "vm_wf s pd" using ok by (simp add: private_ok_def)
  note W = vm_wfD [OF wf]
  have tab: "frame (pm_mem s (pd + 4 * i)) \<in> vm_tables (pm_mem s) pd"
    if "i < 1024" "present (pm_mem s (pd + 4 * i))" for i
    using that by (auto simp: vm_tables_def)
  have page: "f \<notin> vm_tables (pm_mem s) pd" if "user_page cfg va" "translate (pm_mem s) pd va = Some f" for va f
    using that ok unfolding private_ok_def by blast
  show "distinct [512..<1024 :: nat]" by (rule distinct_upt)
  show "distinct (row_frames cfg (pm_mem s) pd k)" if "k \<in> set [512..<1024]" for k
  proof (cases "present (pm_mem s (pd + 4 * word_of_nat k))")
    case True
    let ?i = "word_of_nat k :: u32"
    let ?pt = "frame (pm_mem s (pd + 4 * ?i))"
    have k: "k < 1024" using that unfolding in_user_rows by simp
    note i = of_nat_less_1024 [OF k]
    have P: "user_page cfg (page_va ?i (word_of_nat j)) \<and>
        translate (pm_mem s) pd (page_va ?i (word_of_nat j)) = Some (frame (pm_mem s (?pt + 4 * word_of_nat j)))"
      if "j < 1024" "present (pm_mem s (?pt + 4 * word_of_nat j))"
        "\<not> is_special cfg (page_va ?i (word_of_nat j))" for j
      using page_va_parts [OF i of_nat_less_1024 [OF that(1)]] that True
      by (simp add: user_page_def translate_entry)
    have "inj_on (\<lambda>j. frame (pm_mem s (?pt + 4 * word_of_nat j)))
        (set (filter (\<lambda>j. present (pm_mem s (?pt + 4 * word_of_nat j)) \<and>
           \<not> is_special cfg (page_va ?i (word_of_nat j))) [0..<1024]))"
    proof (rule inj_onI)
      fix j l
      assume "j \<in> set (filter (\<lambda>j. present (pm_mem s (?pt + 4 * word_of_nat j)) \<and>
           \<not> is_special cfg (page_va ?i (word_of_nat j))) [0..<1024])"
        and "l \<in> set (filter (\<lambda>j. present (pm_mem s (?pt + 4 * word_of_nat j)) \<and>
           \<not> is_special cfg (page_va ?i (word_of_nat j))) [0..<1024])"
        and eq: "frame (pm_mem s (?pt + 4 * word_of_nat j)) = frame (pm_mem s (?pt + 4 * word_of_nat l))"
      then have j: "j < 1024" "present (pm_mem s (?pt + 4 * word_of_nat j))" "\<not> is_special cfg (page_va ?i (word_of_nat j))"
        and l: "l < 1024" "present (pm_mem s (?pt + 4 * word_of_nat l))" "\<not> is_special cfg (page_va ?i (word_of_nat l))"
        unfolding in_ptes by blast+
      have "page_va ?i (word_of_nat j) = page_va ?i (word_of_nat l)"
        using private_unique [OF ok conjunct1 [OF P [OF j]] conjunct2 [OF P [OF j]] conjunct1 [OF P [OF l]]
            conjunct2 [OF P [OF l], folded eq]] .
      then have "(word_of_nat j :: u32) = word_of_nat l"
        using page_va_parts(2) [OF i of_nat_less_1024 [OF j(1)]] page_va_parts(2) [OF i of_nat_less_1024 [OF l(1)]]
        by metis
      then show "j = l" using unat_of_nat_1024 [OF j(1)] unat_of_nat_1024 [OF l(1)] by metis
    qed
    then have d: "distinct (row_page_frames cfg (pm_mem s) ?i ?pt [0..<1024])"
      unfolding row_page_frames_def distinct_map by (simp only: distinct_filter distinct_upt simp_thms)
    have nin: "?pt \<notin> set (row_page_frames cfg (pm_mem s) ?i ?pt [0..<1024])"
    proof
      assume "?pt \<in> set (row_page_frames cfg (pm_mem s) ?i ?pt [0..<1024])"
      then obtain j where "j < 1024" "present (pm_mem s (?pt + 4 * word_of_nat j))"
          "\<not> is_special cfg (page_va ?i (word_of_nat j))" "?pt = frame (pm_mem s (?pt + 4 * word_of_nat j))"
        unfolding in_row_page_frames by blast
      then have "user_page cfg (page_va ?i (word_of_nat j))"
          "translate (pm_mem s) pd (page_va ?i (word_of_nat j)) = Some ?pt" using P by simp_all
      then show False using page tab [OF i True] by blast
    qed
    show ?thesis unfolding row_frames_def Let_def if_P [OF True] using d nin by simp
  qed (simp add: row_frames_def Let_def)
  fix k l
  assume "k \<in> set [512..<1024]" "l \<in> set [512..<1024]" and kl: "k \<noteq> l"
  then have k: "k < 1024" and l: "l < 1024" unfolding in_user_rows by simp_all
  note i = of_nat_less_1024 [OF k] and i' = of_nat_less_1024 [OF l]
  have ii: "(word_of_nat k :: u32) \<noteq> word_of_nat l"
    using kl unat_of_nat_1024 [OF k] unat_of_nat_1024 [OF l] by metis
  show "set (row_frames cfg (pm_mem s) pd k) \<inter> set (row_frames cfg (pm_mem s) pd l) = {}"
  proof (rule ccontr)
    assume "set (row_frames cfg (pm_mem s) pd k) \<inter> set (row_frames cfg (pm_mem s) pd l) \<noteq> {}"
    then obtain f where fk: "f \<in> set (row_frames cfg (pm_mem s) pd k)"
      and fl: "f \<in> set (row_frames cfg (pm_mem s) pd l)" by blast
    show False
    proof (cases rule: row_frames_page [OF k fk])
      case 1
      note pk = this
      show ?thesis
      proof (cases rule: row_frames_page [OF l fl])
        case 1
        have "frame (pm_mem s (pd + 4 * word_of_nat k)) \<noteq> frame (pm_mem s (pd + 4 * word_of_nat l))"
          using wf i i' ii pk(1) 1(1) unfolding vm_wf_def by blast
        then show ?thesis using pk(2) 1(2) by simp
      next
        case (2 vb)
        then show ?thesis using page tab [OF i pk(1)] pk(2) by blast
      qed
    next
      case (2 va)
      show ?thesis
      proof (cases rule: row_frames_page [OF l fl])
        case 1
        then show ?thesis using page [OF 2(1,3)] tab [OF i' 1(1)] by blast
      next
        case (2 vb)
        then have "vb = va"
          using private_unique [OF ok 2(1,3)] \<open>user_page cfg va\<close> \<open>translate (pm_mem s) pd va = Some f\<close>
          by simp
        then show ?thesis using \<open>pdi_of va = word_of_nat k\<close> 2(2) ii by simp
      qed
    qed
  qed
qed

lemma user_frames_owned:
  assumes ok: "private_ok cfg s pd" and f: "f \<in> user_frames cfg (pm_mem s) pd"
  shows "pm_owned s f" and "f \<noteq> pd"
proof -
  have wf: "vm_wf s pd" using ok by (simp add: private_ok_def)
  consider va where "user_page cfg va" "translate (pm_mem s) pd va = Some f"
    | i where "i < 1024" "present (pm_mem s (pd + 4 * i))" "f = frame (pm_mem s (pd + 4 * i))"
    using f unfolding user_frames_def by blast
  then have "pm_owned s f \<and> f \<noteq> pd"
  proof cases
    case 1
    then have "pm_owned s f" "f \<notin> vm_tables (pm_mem s) pd" using ok unfolding private_ok_def by blast+
    then show ?thesis by (auto simp: vm_tables_def)
  next
    case 2
    then show ?thesis using vm_wfD(5) [OF wf] by simp
  qed
  then show "pm_owned s f" "f \<noteq> pd" by simp_all
qed

lemma delete_pd_sound:
  assumes ok: "private_ok cfg s pd" and ne: "pd \<noteq> cr3"
  obtains s' where "delete_pd cfg cr3 pd s = Inr s'" and "pm_inv s'"
    and "pm_free s' = pm_free s \<union> user_frames cfg (pm_mem s) pd \<union> {pd}"
    and "\<And>a. a \<notin> user_frames cfg (pm_mem s) pd \<union> {pd} \<Longrightarrow> pm_mem s' a = pm_mem s a"
proof -
  have wf: "vm_wf s pd" using ok by (simp add: private_ok_def)
  note W = vm_wfD [OF wf]
  let ?L = "concat (map (row_frames cfg (pm_mem s) pd) [512..<1024])"
  have set: "set ?L = user_frames cfg (pm_mem s) pd" by (rule concat_rows_set)
  have own: "\<forall>f \<in> set ?L. pm_owned s f" unfolding set using user_frames_owned(1) [OF ok] by blast
  have pd: "pd \<notin> set ?L" unfolding set using user_frames_owned(2) [OF ok] by blast
  have sub: "set [512..<1024] \<subseteq> {..<1024 :: nat}" using in_user_rows by blast
  have rows: "rfold (delete_pd_pde cfg pd) [512..<1024] s = dealloc_all ?L s"
    by (rule pde_list [OF W(3) sub W(1) rows_distinct [OF ok] pd own refl])
  obtain s1 where s1: "dealloc_all ?L s = Inr s1" "pm_inv s1" "pm_free s1 = pm_free s \<union> set ?L"
      "pm_limit s1 = pm_limit s" "\<forall>a. a \<notin> set ?L \<longrightarrow> pm_mem s1 a = pm_mem s a"
    using dealloc_all_sound [OF W(1) rows_distinct [OF ok] own] by blast
  have "pm_owned s1 pd" using W(2) s1(3,4) pd by (simp add: pm_owned_def)
  then obtain s' where s': "dealloc_frame s1 pd = Inr s'" "pm_inv s'" "pm_free s' = insert pd (pm_free s1)"
      "pm_mem s' = (pm_mem s1)(pd := pm_firstFree s1)"
    using dealloc_sound [OF s1(2)] by metis
  have "delete_pd cfg cr3 pd s = Inr s'"
    unfolding delete_pd_def if_not_P [OF ne] rows s1(1) using s'(1) by simp
  moreover have "pm_free s' = pm_free s \<union> user_frames cfg (pm_mem s) pd \<union> {pd}"
    unfolding s'(3) s1(3) set by blast
  moreover have "pm_mem s' a = pm_mem s a" if "a \<notin> user_frames cfg (pm_mem s) pd \<union> {pd}" for a
    using that s1(5) s'(4) unfolding set by simp
  ultimately show ?thesis using that s'(2) by blast
qed

section \<open>The identity map and new directories\<close>

definition identity_below :: "pmem \<Rightarrow> u32 \<Rightarrow> u32 \<Rightarrow> bool" where
  "identity_below s pd va \<longleftrightarrow>
     vm_wf s pd \<and>
     (\<forall>vb. translate (pm_mem s) pd vb =
        (if 4096 \<le> frame vb \<and> frame vb < va then Some (frame vb) else None))"

lemma identity_step:
  assumes "identity_below s pd va" and "pm_offset va = 0" and "4096 \<le> va" and "va < va + 4096"
    and "maps_page s pd va va s'"
  shows "identity_below s' pd (va + 4096)"
proof -
  have "frame vb < va + 4096 \<longleftrightarrow> frame vb < va \<or> frame vb = va" for vb
  proof -
    have "va < frame vb \<Longrightarrow> va + 4096 \<le> frame vb"
      using offset_frame_less(1) [OF assms(2) frame_aligned] .
    then show ?thesis using assms(4) by force
  qed
  then show ?thesis
    using assms frame_id [OF assms(2)] by (auto simp: identity_below_def maps_page_def)
qed

lemma uint_frameup: "m \<le> 0xFFFFF000 \<Longrightarrow> uint (frameup m) = 4096 * ((uint m + 4095) div 4096)"
proof -
  assume "m \<le> 0xFFFFF000"
  then have "uint m \<le> 2 ^ 32 - 4096" by (simp add: word_le_def)
  then have s: "uint (m + 4095) = uint m + 4095" by (simp add: uint_word_ariths)
  have "frameup m = frame (m + 4095)" by (simp add: frameup_def framedown_frame ac_simps)
  then show ?thesis by (simp only: uint_frame s)
qed

lemma frameup_bounds:
  assumes "m \<le> 0xFFFFF000"
  shows "uint (frameup m) \<le> uint m + 4095"
    and "pm_offset va = 0 \<Longrightarrow> va < m \<Longrightarrow> uint va + 4096 \<le> uint (frameup m)"
proof -
  show "uint (frameup m) \<le> uint m + 4095"
    unfolding uint_frameup [OF assms] by (simp add: minus_mod_eq_mult_div [symmetric])
  assume "pm_offset va = 0" "va < m"
  then have a: "uint va mod 4096 = 0" "uint va < uint m"
    by (simp_all add: offset_0_iff word_less_def)
  have "x + 4096 \<le> 4096 * ((y + 4095) div 4096)" if x: "x mod 4096 = 0" and y: "x < y" for x y :: int
  proof -
    obtain k where k: "x = 4096 * k" using x by (metis dvdE mod_0_imp_dvd)
    then have "k + 1 \<le> (y + 4095) div 4096" using y by (simp add: zdiv_mono1 le_div_geq)
    then show ?thesis using k by simp
  qed
  from this [OF a] show "uint va + 4096 \<le> uint (frameup m)" unfolding uint_frameup [OF assms] .
qed

lemma map_identity_sound:
  assumes "identity_below s pd va" and "pm_offset va = 0" and "4096 \<le> va" and "memSize cfg \<le> 0xFFFFF000"
    and "va \<le> frameup (memSize cfg)"
  shows "map_identity cfg pd va s = Some (Inl NoMoreFrames) \<or>
    (\<exists>s'. map_identity cfg pd va s = Some (Inr s') \<and> identity_below s' pd (frameup (memSize cfg)))"
  using assms
proof (induction "2 ^ 32 - unat va" arbitrary: va s rule: less_induct)
  case less
  show ?case
  proof (cases "va < memSize cfg")
    case False
    have "va = frameup (memSize cfg)"
    proof (rule ccontr)
      assume "va \<noteq> frameup (memSize cfg)"
      then have lt: "va < frameup (memSize cfg)" using less.prems(5) by simp
      have "pm_offset (frameup (memSize cfg)) = 0" by (simp add: frameup_def framedown_frame)
      from offset_frame_uint [OF less.prems(2) this lt]
      have "uint va + 4096 \<le> uint (memSize cfg) + 4095"
        using frameup_bounds(1) [OF less.prems(4)] by simp
      moreover have "uint (memSize cfg) \<le> uint va" using False by (simp add: word_le_def not_less)
      ultimately show False by simp
    qed
    then show ?thesis
      using False less.prems(1) map_identity.simps [of cfg pd va s] by simp
  next
    case True
    have wf: "vm_wf s pd" using less.prems(1) by (simp add: identity_below_def)
    show ?thesis
    proof (cases rule: map_sound [OF wf, where va = va and pa = va])
      case 1
      then show ?thesis using True map_identity.simps [of cfg pd va s] by simp
    next
      case (2 s1)
      have "uint va < uint (memSize cfg)" "uint (memSize cfg) \<le> 2 ^ 32 - 4096"
        using True less.prems(4) by (simp_all add: word_less_def word_le_def)
      then have u: "uint (va + 4096) = uint va + 4096" by (simp add: uint_word_ariths)
      then have lt: "va < va + 4096" by (simp add: word_less_def)
      have step: "map_identity cfg pd va s = map_identity cfg pd (va + 4096) s1"
        using True 2(1) map_identity.simps [of cfg pd va s] by simp
      have below: "identity_below s1 pd (va + 4096)"
        by (rule identity_step [OF less.prems(1-3) lt 2(2)])
      have "va + 4096 \<le> frameup (memSize cfg)"
        using frameup_bounds(2) [OF less.prems(4,2) True] by (simp only: word_le_def u)
      moreover have "2 ^ 32 - unat (va + 4096) < 2 ^ 32 - unat va"
        using lt unat_bound [of va] unfolding word_less_nat_alt by (rule diff_less_mono2)
      moreover have "4096 \<le> va + 4096" using less.prems(3) lt by simp
      ultimately show ?thesis
        unfolding step using less.hyps [OF _ below offset_add_frame [OF less.prems(2)]] less.prems(4) by blast
    qed
  qed
qed

lemma global_init_sound:
  assumes inv: "pm_inv s" and mem: "memSize cfg \<le> 0xFFFFF000" "4096 \<le> memSize cfg"
  shows "global_init cfg s = Some (Inl NoMoreFrames) \<or>
    (\<exists>s' shared. global_init cfg s = Some (Inr (s', shared)) \<and>
       identity_below s' shared (frameup (memSize cfg)))"
proof (cases rule: alloc_sound [OF inv])
  case 1
  then show ?thesis by (simp add: global_init_def)
next
  case (2 s1 p)
  have fr: "frame (p + 4 * i) = p" if "i < 1024" for i using frame_slot [OF 2(4) that] .
  have z: "pm_mem s1 (p + 4 * i) = 0" if "i < 1024" for i
    using bzero_in [OF 2(4) fr [OF that]] 2(7) by simp
  have "pm_owned s1 p" using 2 free_limit [OF inv 2(2)] by (simp add: pm_owned_def)
  then have "vm_wf s1 p" using 2(5) z by (simp add: vm_wf_def)
  moreover have "translate (pm_mem s1) p va = None" for va
    using z [OF pdi_less] by (simp add: translate_entry)
  moreover have "\<not> (4096 \<le> frame vb \<and> frame vb < 4096)" for vb by auto
  ultimately have start: "identity_below s1 p 4096" by (simp add: identity_below_def)
  have "uint (0 :: u32) + 4096 \<le> uint (frameup (memSize cfg))"
    using mem by (intro frameup_bounds(2)) (auto simp: pm_offset_def intro: order_less_le_trans [of _ 4096])
  then have le: "4096 \<le> frameup (memSize cfg)" by (simp add: word_le_def)
  show ?thesis
    using map_identity_sound [OF start _ _ mem(1) le] 2(1)
    by (auto simp: global_init_def pm_offset_def)
qed

text \<open>\<^verbatim>\<open>memcpy\<close> of words between two different frames.\<close>

lemma copy_words_sound:
  assumes d: "pm_offset d = 0" and t: "pm_offset t = 0" and ne: "d \<noteq> t"
  shows "i + n \<le> 1024 \<Longrightarrow>
    (let s' = copy_words s (d + 4 * word_of_nat i) (t + 4 * word_of_nat i) n in
       (\<forall>k < 1024. pm_mem s' (d + 4 * word_of_nat k) =
          pm_mem s ((if i \<le> k \<and> k < i + n then t else d) + 4 * word_of_nat k)) \<and>
       (\<forall>a. frame a \<noteq> d \<longrightarrow> pm_mem s' a = pm_mem s a) \<and>
       pm_firstFree s' = pm_firstFree s \<and> pm_avail s' = pm_avail s \<and> pm_limit s' = pm_limit s)"
proof (induction n arbitrary: s i)
  case (Suc n)
  have i: "i < 1024" using Suc.prems by simp
  let ?s1 = "pm_write s (d + 4 * word_of_nat i) (pm_mem s (t + 4 * word_of_nat i))"
  let ?s' = "copy_words ?s1 (d + 4 * word_of_nat (Suc i)) (t + 4 * word_of_nat (Suc i)) n"
  have eq: "copy_words s (d + 4 * word_of_nat i) (t + 4 * word_of_nat i) (Suc n) = ?s'"
    by (simp add: algebra_simps)
  note IH = Suc.IH [of "Suc i" ?s1, unfolded Let_def]
  have fr: "frame (d + 4 * word_of_nat k) = d" "frame (t + 4 * word_of_nat k) = t" if "k < 1024" for k
    using frame_slot [OF d of_nat_less_1024 [OF that]] frame_slot [OF t of_nat_less_1024 [OF that]] by auto
  have inj: "(d + 4 * word_of_nat k = d + 4 * word_of_nat l) = (k = l)" if "k < 1024" "l < 1024" for k l
    using slot_inj [OF d of_nat_less_1024 [OF that(1)] of_nat_less_1024 [OF that(2)]]
      unat_of_nat_1024 [OF that(1)] unat_of_nat_1024 [OF that(2)] by metis
  have dt: "d + 4 * word_of_nat k \<noteq> t + 4 * word_of_nat l" if "k < 1024" "l < 1024" for k l
    using fr [OF that(1)] fr [OF that(2)] ne by metis
  have "pm_mem ?s' (d + 4 * word_of_nat k) =
      pm_mem s ((if i \<le> k \<and> k < i + Suc n then t else d) + 4 * word_of_nat k)" if k: "k < 1024" for k
  proof -
    have "pm_mem ?s' (d + 4 * word_of_nat k) =
        pm_mem ?s1 ((if Suc i \<le> k \<and> k < Suc i + n then t else d) + 4 * word_of_nat k)"
      using IH Suc.prems k by simp
    then show ?thesis
      using inj [OF k i] dt [OF i k] i k Suc.prems by (cases "k = i") auto
  qed
  moreover have "pm_mem ?s' a = pm_mem s a" if "frame a \<noteq> d" for a
  proof -
    have "pm_mem ?s' a = pm_mem ?s1 a" using IH Suc.prems that by simp
    then show ?thesis using fr(1) [OF i] that by auto
  qed
  moreover have "pm_firstFree ?s' = pm_firstFree s \<and> pm_avail ?s' = pm_avail s \<and> pm_limit ?s' = pm_limit s"
    using IH Suc.prems by simp
  ultimately show ?case unfolding eq Let_def by blast
qed auto

lemma make_pd_size: "unat (shared_size cfg) div 4 \<le> 1024"
proof -
  have "uint ((memSize cfg + 0x3FFFFF) div 0x400000) \<le> 1023"
    using uint_bounded [of "memSize cfg + 0x3FFFFF"] by (simp add: uint_div_distrib)
  then have le: "uint ((memSize cfg + 0x3FFFFF) div 0x400000) \<le> 1023" .
  have "uint (shared_size cfg) = 4 * uint ((memSize cfg + 0x3FFFFF) div 0x400000)"
    using le uint_times_4 [of "(memSize cfg + 0x3FFFFF) div 0x400000"]
    by (simp add: shared_size_def Let_def add.commute)
  then have "uint (shared_size cfg) \<le> 4092" using le by simp
  then have "shared_size cfg \<le> 4092" by (simp add: word_le_def)
  then show ?thesis by (simp add: word_le_nat_alt)
qed

text \<open>
  A new directory: the rows of \<open>shared\<close> that cover the memory, and the two APIC pages.
\<close>

definition new_directory :: "Config \<Rightarrow> u32 \<Rightarrow> pmem \<Rightarrow> pmem \<Rightarrow> u32 \<Rightarrow> bool" where
  "new_directory cfg shared s s' pd \<longleftrightarrow>
     vm_wf s' pd \<and> pd \<in> pm_free s \<and> pd \<notin> pm_free s' \<and>
     (\<forall>va. translate (pm_mem s') pd va =
        (if frame va = frame (localAPIC cfg) then Some (frame (localAPIC cfg))
         else if frame va = frame (ioAPIC cfg) then Some (frame (ioAPIC cfg))
         else if unat (pdi_of va) < unat (shared_size cfg) div 4
         then translate (pm_mem s) shared va else None))"

lemma make_pd_sound:
  assumes wf: "vm_wf s shared"
  shows "make_pd cfg shared s = Inl NoMoreFrames \<or>
    (\<exists>s' pd. make_pd cfg shared s = Inr (s', pd) \<and> new_directory cfg shared s s' pd)"
proof (cases rule: alloc_sound [OF vm_wfD(1) [OF wf]])
  case 1
  then show ?thesis by (simp add: make_pd_def)
next
  case (2 s1 pd)
  let ?n = "unat (shared_size cfg) div 4"
  let ?s2 = "copy_words s1 pd shared ?n"
  note W = vm_wfD [OF wf]
  note K = alloc_keeps [OF wf 2(2,4,5-8)]
  have ne: "pd \<noteq> shared" using 2(2) W(4) by blast
  have C: "k < 1024 \<Longrightarrow> pm_mem ?s2 (pd + 4 * word_of_nat k) =
        pm_mem s1 ((if k < ?n then shared else pd) + 4 * word_of_nat k)"
      "frame a \<noteq> pd \<Longrightarrow> pm_mem ?s2 a = pm_mem s1 a"
      "pm_firstFree ?s2 = pm_firstFree s1" "pm_avail ?s2 = pm_avail s1" "pm_limit ?s2 = pm_limit s1" for k a
    using copy_words_sound [OF 2(4) W(3) ne, of 0 ?n s1] make_pd_size [of cfg] by (simp_all add: Let_def)
  have ent: "pm_mem ?s2 (pd + 4 * i) = (if unat i < ?n then pm_mem s1 (shared + 4 * i) else 0)" if i: "i < 1024" for i
  proof -
    have "unat i < 1024" using i by (simp add: word_less_nat_alt)
    moreover have "pm_mem s1 (pd + 4 * i) = 0"
      using bzero_in [OF 2(4) frame_slot [OF 2(4) i]] 2(7) by simp
    ultimately show ?thesis using C(1) [of "unat i"] by simp
  qed
  have np: "pd \<notin> pm_free s1" using 2(6) by simp
  have free: "pm_inv ?s2 \<and> pm_free ?s2 = pm_free s1"
  proof -
    obtain fs where rep: "pm_rep s1 fs" using pm_inv_rep [OF 2(5)] by blast
    have "pm_mem ?s2 f = pm_mem s1 f" if "f \<in> set fs" for f
      using that np rep frame_id [of f] unfolding pm_rep_free [OF rep]
      by (intro C(2)) (auto simp: pm_rep_def)
    then have "chain (pm_mem s1) (pm_firstFree s1) fs = chain (pm_mem ?s2) (pm_firstFree s1) fs"
      by (intro chain_cong) simp
    then have rep': "pm_rep ?s2 fs" using rep C(3-5) by (simp add: pm_rep_def)
    then show ?thesis
      using C(3-5) unfolding pm_inv_def pm_rep_free [OF rep] pm_rep_free [OF rep'] by auto
  qed
  have own: "pm_owned ?s2 f = pm_owned s1 f" for f using free C(5) by (simp add: pm_owned_def)
  have tabs: "frame e \<noteq> pd" if "pm_owned s (frame e)" for e using that 2(2) by (auto simp: pm_owned_def)
  have sh: "pm_mem s1 (shared + 4 * i) = pm_mem s (shared + 4 * i)" if "i < 1024" for i
    using bzero_other [OF 2(4)] frame_slot [OF W(3) that] ne 2(7) by metis
  have opd: "pm_owned s1 pd" using 2 free_limit [OF W(1) 2(2)] by (simp add: pm_owned_def)
  have wf2: "vm_wf ?s2 pd"
  proof -
    have "pm_owned s1 (frame (pm_mem s1 (shared + 4 * i))) \<and> frame (pm_mem s1 (shared + 4 * i)) \<noteq> pd"
      if "i < 1024" "present (pm_mem s1 (shared + 4 * i))" for i
      using vm_wfD(5) [OF K(1) that] tabs vm_wfD(5) [OF wf that(1)] that(2) sh [OF that(1)] by metis
    then show ?thesis
      using K(1) free own opd ent unfolding vm_wf_def by (auto split: if_splits)
  qed
  have tr: "translate (pm_mem ?s2) pd va = (if unat (pdi_of va) < ?n then translate (pm_mem s) shared va else None)" for va
  proof (cases "unat (pdi_of va) < ?n \<and> present (pm_mem s (shared + 4 * pdi_of va))")
    case True
    let ?e = "pm_mem s (shared + 4 * pdi_of va)"
    have "pm_mem ?s2 (frame ?e + 4 * pti_of va) = pm_mem s1 (frame ?e + 4 * pti_of va)"
      using C(2) frame_slot [of "frame ?e", OF _ pti_less] tabs vm_wfD(5) [OF wf pdi_less] True by simp
    moreover have "pm_mem s1 (frame ?e + 4 * pti_of va) = pm_mem s (frame ?e + 4 * pti_of va)"
      using bzero_other [OF 2(4)] frame_slot [of "frame ?e", OF _ pti_less] tabs vm_wfD(5) [OF wf pdi_less] True 2(7)
      by simp
    ultimately show ?thesis using True ent [OF pdi_less] sh [OF pdi_less] by (simp add: translate_entry)
  next
    case False
    then show ?thesis using ent [OF pdi_less, of va] sh [OF pdi_less, of va] by (auto simp: translate_entry)
  qed
  have mk: "make_pd cfg shared s = rbind (vm_map ?s2 pd (ioAPIC cfg) (ioAPIC cfg)) (\<lambda>s3.
      rbind (vm_map s3 pd (localAPIC cfg) (localAPIC cfg)) (\<lambda>s4. Inr (s4, pd)))"
    using 2(1) by (simp add: make_pd_def Let_def)
  show ?thesis
  proof (cases rule: map_sound [OF wf2, where va = "ioAPIC cfg" and pa = "ioAPIC cfg"])
    case 1
    then show ?thesis using mk by simp
  next
    case (2 s3)
    have wf3: "vm_wf s3 pd" using 2(2) by (simp add: maps_page_def)
    show ?thesis
    proof (cases rule: map_sound [OF wf3, where va = "localAPIC cfg" and pa = "localAPIC cfg"])
      case 1
      then show ?thesis using mk \<open>vm_map ?s2 pd (ioAPIC cfg) (ioAPIC cfg) = Inr s3\<close> by simp
    next
      case (2 s4)
      have "new_directory cfg shared s s4 pd"
        using 2(2) \<open>maps_page ?s2 pd (ioAPIC cfg) (ioAPIC cfg) s3\<close> tr \<open>pd \<in> pm_free s\<close> np free
        by (auto simp: new_directory_def maps_page_def)
      then show ?thesis
        using mk 2(1) \<open>vm_map ?s2 pd (ioAPIC cfg) (ioAPIC cfg) = Inr s3\<close> by simp
    qed
  qed
qed

end
