(* ===== verification/VMM_Props.thy ===== *)
theory VMM_Props
  imports VMM_Spaces
begin

text \<open>
  The properties of the virtual memory: what \<^verbatim>\<open>map\<close>, the page fault handler, \<^verbatim>\<open>delete_private\<close>,
  \<^verbatim>\<open>delete_pd\<close>, \<^verbatim>\<open>global_init\<close> and \<^verbatim>\<open>make_pd\<close> do to the translations of a directory and to the
  free frames.
\<close>

text \<open>The frame at 1 MB as an empty directory of the small machine.\<close>

lemma small_pd:
  "vm_wf small_pm 0x100000" "translate (pm_mem small_pm) 0x100000 va = None"
  "vm_tables (pm_mem small_pm) 0x100000 = {0x100000}"
proof -
  have "pm_owned small_pm 0x100000"
    unfolding pm_owned_def pm_rep_free [OF small_pm_rep] by (simp add: small_pm_def pm_offset_def)
  then show "vm_wf small_pm 0x100000" using small_pm_inv by (auto simp: vm_wf_def small_pm_def)
  show "translate (pm_mem small_pm) 0x100000 va = None"
    "vm_tables (pm_mem small_pm) 0x100000 = {0x100000}"
    by (simp_all add: translate_entry small_pm_def vm_tables_def)
qed

lemma small_private: "private_ok cfg small_pm 0x100000"
  using small_pd by (simp add: private_ok_def)

lemma small_free: "pm_free small_pm \<noteq> {}" "\<not> pm_free small_pm \<subseteq> {p}"
proof -
  show "pm_free small_pm \<noteq> {}" using small_pm_free by auto
  show "\<not> pm_free small_pm \<subseteq> {p}"
  proof
    assume "pm_free small_pm \<subseteq> {p}"
    then have "(0x101000 :: u32) = p" "(0x102000 :: u32) = p" using small_pm_free by blast+
    then show False by simp
  qed
qed

definition small_config :: Config where
  "small_config = \<lparr>memSize = 0x2000, nOtherProcs = 0, totalProcs = 1, localAPIC = 0xFEE00000,
     madtFlags = 0, ioAPIC = 0xFEC00000, apicInfo = [], oemid = []\<rparr>"

text \<open>
  C8. \<^verbatim>\<open>map\<close> changes the translation of the one page of \<open>va\<close>, to the frame of \<open>pa\<close>, keeps every
  other translation and the directory well formed, writes only into the tables of the
  directory, and takes a frame only for a missing page table; it panics only when it needs one
  and no frame is free.
\<close>

theorem map_correct:
  assumes "vm_wf s pd"
  shows "(\<exists>s'. vm_map s pd va pa = Inr s' \<and> maps_page s pd va pa s') \<or>
    (vm_map s pd va pa = Inl NoMoreFrames \<and> pm_free s = {} \<and> \<not> present (pm_mem s (pd + 4 * pdi_of va)))"
  by (rule map_sound [OF assms, where va = va and pa = pa]) auto

theorem map_correct_witness:
  "\<exists>s'. vm_map small_pm 0x100000 0x80001000 0x105000 = Inr s' \<and>
     translate (pm_mem s') 0x100000 0x80001234 = Some 0x105000"
  using map_correct [OF small_pd(1), of "0x80001000" "0x105000"] small_free(1)
  by (auto simp: maps_page_def frame_def)

text \<open>
  C9. A page fault in the user half gives the process a fresh zero page: the page of the fault
  translates to a frame that was free, every byte of it reads 0, and nothing else changes its
  translation. The handler fails only when at most one frame is free.
\<close>

theorem pageFault_correct:
  assumes "vm_wf s pd" and "0x80000000 \<le> va0"
  shows "(\<exists>s' p. vmm_pageFault pd pd pd va0 s = Inr s' \<and> vm_wf s' pd \<and> p \<in> pm_free s \<and> p \<notin> pm_free s' \<and>
      translate (pm_mem s') pd va0 = Some p \<and> (\<forall>a. frame a = p \<longrightarrow> pm_mem s' a = 0) \<and>
      (\<forall>vb. frame vb \<noteq> frame va0 \<longrightarrow> translate (pm_mem s') pd vb = translate (pm_mem s) pd vb)) \<or>
    (vmm_pageFault pd pd pd va0 s = Inl NoMoreFrames \<and> (\<exists>p. pm_free s \<subseteq> {p}))"
proof (cases rule: pageFault_sound [OF assms])
  case 1
  then show ?thesis by blast
next
  case (2 s1 p s')
  have fr: "frame (frame va0) = frame va0" "frame p = p" using 2(3) by (simp_all add: frame_id)
  have "p \<notin> vm_tables (pm_mem s1) pd"
    using 2(2,9) tables_owned [OF assms(1)] by (auto simp: pm_owned_def)
  then have nt: "p \<notin> vm_tables (pm_mem s') pd" using 2(5,8) by (auto simp: maps_page_def)
  have "pm_mem s' a = 0" if "frame a = p" for a
    using that nt 2(6,8) bzero_in [OF 2(3)] by (simp add: maps_page_def)
  then show ?thesis using 2 fr by (auto simp: maps_page_def)
qed

theorem pageFault_correct_witness:
  "\<exists>s' p. vmm_pageFault 0x100000 0x100000 0x100000 0x80001234 small_pm = Inr s' \<and>
     translate (pm_mem s') 0x100000 0x80001234 = Some p \<and> p \<in> pm_free small_pm"
  using pageFault_correct [OF small_pd(1), of "0x80001234"] small_free(2) by auto

text \<open>
  C10. \<^verbatim>\<open>delete_private\<close> of the current address space unmaps every page of the user half but the
  two APIC pages, keeps all other translations, and gives back exactly the frames of those
  pages and the page tables that map no special page.
\<close>

theorem delete_private_correct:
  assumes "private_ok cfg s pd"
  shows "\<exists>s'. delete_private cfg pd pd s = Inr s' \<and>
    clears s pd {va. user_page cfg va} {i. i < 1024 \<and> row_table cfg (pm_mem s) pd i} s'"
  using delete_private_sound [OF assms] by blast

theorem delete_private_correct_witness:
  "\<exists>s'. delete_private small_config 0x100000 0x100000 small_pm = Inr s' \<and> vm_wf s' 0x100000"
  using delete_private_correct [OF small_private, of small_config] by (auto simp: clears_def)

text \<open>
  C11. \<^verbatim>\<open>delete_pd\<close> of another address space gives back its directory, its page tables of the user
  half and the frames of its user pages, each once, and writes no other memory.
\<close>

theorem delete_pd_correct:
  assumes "private_ok cfg s pd" and "pd \<noteq> cr3"
  shows "\<exists>s'. delete_pd cfg cr3 pd s = Inr s' \<and> pm_inv s' \<and>
    pm_free s' = pm_free s \<union> user_frames cfg (pm_mem s) pd \<union> {pd} \<and>
    (\<forall>a. a \<notin> user_frames cfg (pm_mem s) pd \<union> {pd} \<longrightarrow> pm_mem s' a = pm_mem s a)"
  using delete_pd_sound [OF assms] by metis

theorem delete_pd_correct_witness:
  "\<exists>s'. delete_pd small_config 0x2000 0x100000 small_pm = Inr s' \<and> 0x100000 \<in> pm_free s'"
  using delete_pd_correct [OF small_private, of "0x2000" small_config] by auto





end
