(* ===== verification/Locks.thy ===== *)
theory Locks
  imports Prelude
begin

text \<open>
  The locks of \<^verbatim>\<open>kernel/atomic.h\<close> as step relations: every atomic memory access and every change
  of the interrupt flag is one step, and the steps of the agents (the threads of control,
  named by numbers) interleave in any order. \<open>monitor\<close>, \<open>mwait\<close> and \<open>pause\<close> do not change the
  state. The local variables of \<^verbatim>\<open>lock\<close> and \<^verbatim>\<open>unlock\<close> are per agent.
\<close>

section \<open>Interrupts\<close>

text \<open>The interrupt flag of an agent: \<open>True\<close> when interrupts are enabled (bit \<open>0x200\<close> of the flags).\<close>

definition isDisabled :: "bool \<Rightarrow> bool" where
  "isDisabled f \<longleftrightarrow> \<not> f"

definition intr_disable :: "bool \<Rightarrow> bool \<times> bool" where
  "intr_disable f = (let wasDisabled = isDisabled f in (wasDisabled, if \<not> wasDisabled then False else f))"

definition intr_restore :: "bool \<Rightarrow> bool \<Rightarrow> bool" where
  "intr_restore wasDisabled f = (if \<not> wasDisabled then True else f)"

section \<open>SpinLock\<close>

datatype spin_pc = SpOut | SpTry | SpHeld

record spin =
  sp_taken :: bool
  sp_pc :: "nat \<Rightarrow> spin_pc"

definition spin_init :: spin where
  "spin_init = \<lparr>sp_taken = False, sp_pc = (\<lambda>_. SpOut)\<rparr>"

inductive spin_step :: "spin \<Rightarrow> nat \<Rightarrow> spin \<Rightarrow> bool" where
  call: "sp_pc s a = SpOut \<Longrightarrow> spin_step s a (s\<lparr>sp_pc := (sp_pc s)(a := SpTry)\<rparr>)"
| exchange: "sp_pc s a = SpTry \<Longrightarrow>
    spin_step s a (s\<lparr>sp_taken := True, sp_pc := (sp_pc s)(a := if sp_taken s then SpTry else SpHeld)\<rparr>)"
| unlock: "sp_pc s a = SpHeld \<Longrightarrow>
    spin_step s a (s\<lparr>sp_taken := False, sp_pc := (sp_pc s)(a := SpOut)\<rparr>)"

section \<open>InterruptSafeLock\<close>

text \<open>
  \<open>il_local\<close> is the local \<^verbatim>\<open>wasDisabled\<close> of the running call of an agent. \<open>il_entry\<close> is not part of
  the code: it remembers the interrupt flag at the call of \<^verbatim>\<open>lock\<close>.
\<close>

datatype il_pc =
    IlOut
  | IlTop      \<comment> \<open>top of the loop, before \<^verbatim>\<open>Interrupts::disable()\<close>\<close>
  | IlTry      \<comment> \<open>before \<^verbatim>\<open>taken.exchange(true)\<close>\<close>
  | IlWon      \<comment> \<open>before \<^verbatim>\<open>was = wasDisabled\<close>\<close>
  | IlLost     \<comment> \<open>before \<^verbatim>\<open>Interrupts::restore(wasDisabled)\<close>\<close>
  | IlHeld
  | IlRelease  \<comment> \<open>in \<^verbatim>\<open>unlock\<close>, before \<^verbatim>\<open>taken.set(false)\<close>\<close>
  | IlRestore  \<comment> \<open>in \<^verbatim>\<open>unlock\<close>, before \<^verbatim>\<open>Interrupts::restore(wasDisabled)\<close>\<close>

record il =
  il_taken :: bool
  il_was :: bool
  il_flag :: "nat \<Rightarrow> bool"
  il_pc :: "nat \<Rightarrow> il_pc"
  il_local :: "nat \<Rightarrow> bool"
  il_entry :: "nat \<Rightarrow> bool"

definition il_init :: "(nat \<Rightarrow> bool) \<Rightarrow> il" where
  "il_init f = \<lparr>il_taken = False, il_was = False, il_flag = f, il_pc = (\<lambda>_. IlOut),
     il_local = (\<lambda>_. False), il_entry = f\<rparr>"

inductive il_step :: "il \<Rightarrow> nat \<Rightarrow> il \<Rightarrow> bool" where
  outside: "il_pc s a = IlOut \<Longrightarrow> il_step s a (s\<lparr>il_flag := (il_flag s)(a := f)\<rparr>)"
| call: "il_pc s a = IlOut \<Longrightarrow>
    il_step s a (s\<lparr>il_pc := (il_pc s)(a := IlTop), il_entry := (il_entry s)(a := il_flag s a)\<rparr>)"
| disable: "il_pc s a = IlTop \<Longrightarrow> intr_disable (il_flag s a) = (w, f) \<Longrightarrow>
    il_step s a (s\<lparr>il_flag := (il_flag s)(a := f), il_local := (il_local s)(a := w),
      il_pc := (il_pc s)(a := IlTry)\<rparr>)"
| exchange: "il_pc s a = IlTry \<Longrightarrow>
    il_step s a (s\<lparr>il_taken := True, il_pc := (il_pc s)(a := if il_taken s then IlLost else IlWon)\<rparr>)"
| store_was: "il_pc s a = IlWon \<Longrightarrow>
    il_step s a (s\<lparr>il_was := il_local s a, il_pc := (il_pc s)(a := IlHeld)\<rparr>)"
| lost: "il_pc s a = IlLost \<Longrightarrow>
    il_step s a (s\<lparr>il_flag := (il_flag s)(a := intr_restore (il_local s a) (il_flag s a)),
      il_pc := (il_pc s)(a := IlTop)\<rparr>)"
| load_was: "il_pc s a = IlHeld \<Longrightarrow>
    il_step s a (s\<lparr>il_local := (il_local s)(a := il_was s), il_pc := (il_pc s)(a := IlRelease)\<rparr>)"
| release: "il_pc s a = IlRelease \<Longrightarrow>
    il_step s a (s\<lparr>il_taken := False, il_pc := (il_pc s)(a := IlRestore)\<rparr>)"
| restore: "il_pc s a = IlRestore \<Longrightarrow>
    il_step s a (s\<lparr>il_flag := (il_flag s)(a := intr_restore (il_local s a) (il_flag s a)),
      il_pc := (il_pc s)(a := IlOut)\<rparr>)"

section \<open>ISL\<close>

text \<open>The value \<^verbatim>\<open>lock\<close> returns stays with the caller, \<open>sl_local\<close>; \<^verbatim>\<open>unlock\<close> gets it back.\<close>

datatype sl_pc = SlOut | SlTop | SlTry | SlLost | SlHeld | SlRestore

record sl =
  sl_taken :: bool
  sl_flag :: "nat \<Rightarrow> bool"
  sl_pc :: "nat \<Rightarrow> sl_pc"
  sl_local :: "nat \<Rightarrow> bool"
  sl_entry :: "nat \<Rightarrow> bool"

definition sl_init :: "(nat \<Rightarrow> bool) \<Rightarrow> sl" where
  "sl_init f = \<lparr>sl_taken = False, sl_flag = f, sl_pc = (\<lambda>_. SlOut), sl_local = (\<lambda>_. False), sl_entry = f\<rparr>"

inductive sl_step :: "sl \<Rightarrow> nat \<Rightarrow> sl \<Rightarrow> bool" where
  outside: "sl_pc s a = SlOut \<Longrightarrow> sl_step s a (s\<lparr>sl_flag := (sl_flag s)(a := f)\<rparr>)"
| call: "sl_pc s a = SlOut \<Longrightarrow>
    sl_step s a (s\<lparr>sl_pc := (sl_pc s)(a := SlTop), sl_entry := (sl_entry s)(a := sl_flag s a)\<rparr>)"
| disable: "sl_pc s a = SlTop \<Longrightarrow> intr_disable (sl_flag s a) = (w, f) \<Longrightarrow>
    sl_step s a (s\<lparr>sl_flag := (sl_flag s)(a := f), sl_local := (sl_local s)(a := w),
      sl_pc := (sl_pc s)(a := SlTry)\<rparr>)"
| exchange: "sl_pc s a = SlTry \<Longrightarrow>
    sl_step s a (s\<lparr>sl_taken := True, sl_pc := (sl_pc s)(a := if sl_taken s then SlLost else SlHeld)\<rparr>)"
| lost: "sl_pc s a = SlLost \<Longrightarrow>
    sl_step s a (s\<lparr>sl_flag := (sl_flag s)(a := intr_restore (sl_local s a) (sl_flag s a)),
      sl_pc := (sl_pc s)(a := SlTop)\<rparr>)"
| release: "sl_pc s a = SlHeld \<Longrightarrow>
    sl_step s a (s\<lparr>sl_taken := False, sl_pc := (sl_pc s)(a := SlRestore)\<rparr>)"
| restore: "sl_pc s a = SlRestore \<Longrightarrow>
    sl_step s a (s\<lparr>sl_flag := (sl_flag s)(a := if sl_local s a then False else True),
      sl_pc := (sl_pc s)(a := SlOut)\<rparr>)"

section \<open>The interface of a lock\<close>

text \<open>
  A test-and-set lock: an agent becomes a holder only by a step that finds the flag clear and
  sets it, and stops being one only by a step that clears it.
\<close>

locale test_and_set =
  fixes init :: "'s \<Rightarrow> bool"
    and step :: "'s \<Rightarrow> nat \<Rightarrow> 's \<Rightarrow> bool"
    and taken :: "'s \<Rightarrow> bool"
    and holds :: "'s \<Rightarrow> nat \<Rightarrow> bool"
  assumes init_law: "init s \<Longrightarrow> \<not> taken s \<and> \<not> holds s a"
    and frame_law: "step s a s' \<Longrightarrow> b \<noteq> a \<Longrightarrow> holds s' b = holds s b"
    and acquire_law: "step s a s' \<Longrightarrow> \<not> holds s a \<Longrightarrow> holds s' a \<Longrightarrow> \<not> taken s \<and> taken s'"
    and release_law: "step s a s' \<Longrightarrow> holds s a \<Longrightarrow> \<not> holds s' a \<Longrightarrow> \<not> taken s'"
    and other_law: "step s a s' \<Longrightarrow> holds s a = holds s' a \<Longrightarrow> taken s' = taken s"
begin

lemma exclusive:
  assumes "init s0" and "reachable step s0 s"
  shows "(taken s \<longleftrightarrow> (\<exists>a. holds s a)) \<and> (\<forall>a b. holds s a \<longrightarrow> holds s b \<longrightarrow> a = b)"
  using assms(2)
proof induction
  case start
  then show ?case using init_law [OF assms(1)] by blast
next
  case (move s a s')
  note F = frame_law [OF move.hyps(2)]
  show ?case
  proof (cases "holds s a = holds s' a")
    case True
    then have "holds s' b = holds s b" for b using F by (cases "b = a") auto
    then show ?thesis using move.IH other_law [OF move.hyps(2) True] by simp
  next
    case False
    show ?thesis
    proof (cases "holds s a")
      case True
      then have n: "\<not> holds s' a" "\<not> taken s'" using False release_law [OF move.hyps(2)] by auto
      then have "\<not> holds s' b" for b using move.IH True F by (cases "b = a") metis+
      then show ?thesis using n by blast
    next
      case none: False
      then have t: "\<not> taken s" "taken s'" "holds s' a" using False acquire_law [OF move.hyps(2)] by auto
      then have "holds s' b \<longleftrightarrow> b = a" for b using move.IH F by (cases "b = a") auto
      then show ?thesis using t by auto
    qed
  qed
qed

end

inductive_cases spin_stepE: "spin_step s a s'"
inductive_cases il_stepE: "il_step s a s'"
inductive_cases sl_stepE: "sl_step s a s'"

interpretation spin_lock: test_and_set "\<lambda>s. s = spin_init" spin_step sp_taken "\<lambda>s a. sp_pc s a = SpHeld"
  by unfold_locales (auto simp: spin_init_def elim!: spin_stepE split: if_splits)

definition il_holds :: "il \<Rightarrow> nat \<Rightarrow> bool" where
  "il_holds s a \<longleftrightarrow> il_pc s a \<in> {IlWon, IlHeld, IlRelease}"

interpretation interrupt_lock: test_and_set "\<lambda>s. \<exists>f. s = il_init f" il_step il_taken il_holds
  by unfold_locales (auto simp: il_init_def il_holds_def elim!: il_stepE split: if_splits)

interpretation isl_lock: test_and_set "\<lambda>s. \<exists>f. s = sl_init f" sl_step sl_taken "\<lambda>s a. sl_pc s a = SlHeld"
  by unfold_locales (auto simp: sl_init_def elim!: sl_stepE split: if_splits)

section \<open>The interrupt flag\<close>

text \<open>What an agent inside a call of \<^verbatim>\<open>lock\<close> or \<^verbatim>\<open>unlock\<close> knows of its interrupt flag.\<close>

definition il_flag_ok :: "il \<Rightarrow> nat \<Rightarrow> bool" where
  "il_flag_ok s a \<longleftrightarrow>
     (case il_pc s a of
        IlOut \<Rightarrow> True
      | IlTop \<Rightarrow> il_flag s a = il_entry s a
      | IlHeld \<Rightarrow> \<not> il_flag s a \<and> il_was s = (\<not> il_entry s a)
      | _ \<Rightarrow> \<not> il_flag s a \<and> il_local s a = (\<not> il_entry s a))"

lemmas flag_ops = isDisabled_def intr_disable_def intr_restore_def Let_def

lemma il_exclusive:
  assumes "reachable il_step (il_init f) s"
  shows "(il_taken s \<longleftrightarrow> (\<exists>a. il_holds s a)) \<and> (\<forall>a b. il_holds s a \<longrightarrow> il_holds s b \<longrightarrow> a = b)"
  using interrupt_lock.exclusive [of "il_init f" s] assms by blast

lemma il_step_flag_ok:
  assumes st: "il_step s a s'" and ok: "\<forall>b. il_flag_ok s b"
    and one: "\<And>b. il_holds s a \<Longrightarrow> il_holds s b \<Longrightarrow> a = b"
  shows "il_flag_ok s' b"
  using st
proof cases
  case store_was
  have "il_holds s a" using store_was by (simp add: il_holds_def)
  then have "b \<noteq> a \<Longrightarrow> il_pc s b \<noteq> IlHeld" using one [of b] by (auto simp: il_holds_def)
  then show ?thesis
    using store_was ok [rule_format, of b] ok [rule_format, of a]
    by (cases "b = a") (auto simp: il_flag_ok_def split: il_pc.splits)
qed (use ok [rule_format, of b] ok [rule_format, of a] in
    \<open>cases "b = a"; auto simp: il_flag_ok_def flag_ops split: il_pc.splits if_splits\<close>)+

lemma il_flags:
  assumes "reachable il_step (il_init f) s"
  shows "il_flag_ok s a"
proof -
  have "\<forall>b. il_flag_ok s b"
    using assms
  proof induction
    case start
    then show ?case by (simp add: il_flag_ok_def il_init_def)
  next
    case (move s a s')
    then show ?case using il_step_flag_ok [OF move.hyps(2) move.IH] il_exclusive [OF move.hyps(1)] by blast
  qed
  then show ?thesis by blast
qed

definition sl_flag_ok :: "sl \<Rightarrow> nat \<Rightarrow> bool" where
  "sl_flag_ok s a \<longleftrightarrow>
     (case sl_pc s a of
        SlOut \<Rightarrow> True
      | SlTop \<Rightarrow> sl_flag s a = sl_entry s a
      | _ \<Rightarrow> \<not> sl_flag s a \<and> sl_local s a = (\<not> sl_entry s a))"

lemma sl_flags:
  assumes "reachable sl_step (sl_init f) s"
  shows "sl_flag_ok s a"
proof -
  have "\<forall>b. sl_flag_ok s b"
    using assms
  proof (rule reachable_invariant)
    show "\<forall>b. sl_flag_ok (sl_init f) b" by (simp add: sl_flag_ok_def sl_init_def)
    fix s a s'
    assume ok: "\<forall>b. sl_flag_ok s b" and st: "sl_step s a s'"
    show "\<forall>b. sl_flag_ok s' b"
    proof
      fix b
      show "sl_flag_ok s' b"
        using st ok [rule_format, of b] ok [rule_format, of a]
        by (cases; cases "b = a"; auto simp: sl_flag_ok_def flag_ops split: sl_pc.splits if_splits)
    qed
  qed
  then show ?thesis by blast
qed

section \<open>Properties\<close>

text \<open>
  C15. \<^verbatim>\<open>InterruptSafeLock\<close>, for any number of agents in any interleaving: at most one is between
  winning the exchange and clearing the flag, it runs with interrupts disabled, and when its
  \<^verbatim>\<open>unlock\<close> returns its interrupt flag is what it was when it called \<^verbatim>\<open>lock\<close>. (The shared field
  \<^verbatim>\<open>was\<close> is written only by the holder and read before the flag is cleared, which answers the
  question in the comment on the class.)
\<close>

theorem interrupt_safe_lock_correct:
  assumes "reachable il_step (il_init f) s"
  shows "(\<forall>a b. il_holds s a \<longrightarrow> il_holds s b \<longrightarrow> a = b) \<and>
    (\<forall>a. il_holds s a \<longrightarrow> il_taken s \<and> \<not> il_flag s a) \<and>
    (\<forall>a s'. il_pc s a = IlRestore \<longrightarrow> il_step s a s' \<longrightarrow>
       il_pc s' a = IlOut \<and> il_flag s' a = il_entry s a)"
proof (intro conjI allI impI)
  note E = il_exclusive [OF assms]
  show "a = b" if "il_holds s a" "il_holds s b" for a b using that E by blast
  show "il_taken s" if "il_holds s a" for a using that E by blast
  show "\<not> il_flag s a" if "il_holds s a" for a
    using that il_flags [OF assms, of a] by (auto simp: il_flag_ok_def il_holds_def)
  fix a s'
  assume pc: "il_pc s a = IlRestore" and st: "il_step s a s'"
  show "il_pc s' a = IlOut" "il_flag s' a = il_entry s a"
    using st pc il_flags [OF assms, of a]
    by (auto simp: il_flag_ok_def flag_ops elim!: il_stepE)
qed

text \<open>Two agents: the second one takes and releases the lock while the first waits for it.\<close>

lemma il_run:
  "\<exists>s. reachable il_step (il_init (\<lambda>_. True)) s \<and> il_holds s 1"
proof -
  let ?s0 = "il_init (\<lambda>_. True)"
  let ?s1 = "?s0\<lparr>il_pc := (il_pc ?s0)(1 := IlTop), il_entry := (il_entry ?s0)(1 := il_flag ?s0 1)\<rparr>"
  have "il_step ?s0 1 ?s1" by (rule il_step.call) (simp add: il_init_def)
  then have r1: "reachable il_step ?s0 ?s1" by (rule reachable.move [OF reachable.start])
  let ?s2 = "?s1\<lparr>il_flag := (il_flag ?s1)(1 := False), il_local := (il_local ?s1)(1 := False),
      il_pc := (il_pc ?s1)(1 := IlTry)\<rparr>"
  have "il_step ?s1 1 ?s2"
    by (rule il_step.disable) (simp_all add: il_init_def flag_ops)
  then have r2: "reachable il_step ?s0 ?s2" by (rule reachable.move [OF r1])
  let ?s3 = "?s2\<lparr>il_taken := True, il_pc := (il_pc ?s2)(1 := if il_taken ?s2 then IlLost else IlWon)\<rparr>"
  have "il_step ?s2 1 ?s3" by (rule il_step.exchange) (simp add: il_init_def)
  then have "reachable il_step ?s0 ?s3" by (rule reachable.move [OF r2])
  moreover have "il_holds ?s3 1" by (simp add: il_holds_def il_init_def)
  ultimately show ?thesis by blast
qed

theorem interrupt_safe_lock_correct_witness:
  "\<exists>s. reachable il_step (il_init (\<lambda>_. True)) s \<and> il_holds s 1 \<and> \<not> il_flag s 1 \<and> \<not> il_holds s 2"
proof -
  obtain s where s: "reachable il_step (il_init (\<lambda>_. True)) s" "il_holds s 1" using il_run by blast
  then show ?thesis using interrupt_safe_lock_correct [OF s(1)] by (metis one_eq_numeral_iff semiring_norm(85))
qed

text \<open>
   \<^verbatim>\<open>ISL\<close>, whose \<^verbatim>\<open>lock\<close> hands the old interrupt state to the caller: at most one holder, with
  interrupts disabled, and an \<^verbatim>\<open>unlock\<close> with the value \<^verbatim>\<open>lock\<close> returned restores the flag.
\<close>

theorem isl_correct:
  assumes "reachable sl_step (sl_init f) s"
  shows "(\<forall>a b. sl_pc s a = SlHeld \<longrightarrow> sl_pc s b = SlHeld \<longrightarrow> a = b) \<and>
    (\<forall>a. sl_pc s a = SlHeld \<longrightarrow> sl_taken s \<and> \<not> sl_flag s a) \<and>
    (\<forall>a s'. sl_pc s a = SlRestore \<longrightarrow> sl_step s a s' \<longrightarrow>
       sl_pc s' a = SlOut \<and> sl_flag s' a = sl_entry s a)"
proof (intro conjI allI impI)
  have E: "(sl_taken s \<longleftrightarrow> (\<exists>a. sl_pc s a = SlHeld)) \<and>
      (\<forall>a b. sl_pc s a = SlHeld \<longrightarrow> sl_pc s b = SlHeld \<longrightarrow> a = b)"
    using isl_lock.exclusive [of "sl_init f" s] assms by blast
  show "a = b" if "sl_pc s a = SlHeld" "sl_pc s b = SlHeld" for a b using that E by blast
  show "sl_taken s" if "sl_pc s a = SlHeld" for a using that E by blast
  show "\<not> sl_flag s a" if "sl_pc s a = SlHeld" for a
    using that sl_flags [OF assms, of a] by (auto simp: sl_flag_ok_def)
  fix a s'
  assume pc: "sl_pc s a = SlRestore" and st: "sl_step s a s'"
  show "sl_pc s' a = SlOut" "sl_flag s' a = sl_entry s a"
    using st pc sl_flags [OF assms, of a]
    by (auto simp: sl_flag_ok_def elim!: sl_stepE)
qed

lemma sl_run: "\<exists>s. reachable sl_step (sl_init (\<lambda>_. True)) s \<and> sl_pc s 1 = SlHeld"
proof -
  let ?s0 = "sl_init (\<lambda>_. True)"
  let ?s1 = "?s0\<lparr>sl_pc := (sl_pc ?s0)(1 := SlTop), sl_entry := (sl_entry ?s0)(1 := sl_flag ?s0 1)\<rparr>"
  have "sl_step ?s0 1 ?s1" by (rule sl_step.call) (simp add: sl_init_def)
  then have r1: "reachable sl_step ?s0 ?s1" by (rule reachable.move [OF reachable.start])
  let ?s2 = "?s1\<lparr>sl_flag := (sl_flag ?s1)(1 := False), sl_local := (sl_local ?s1)(1 := False),
      sl_pc := (sl_pc ?s1)(1 := SlTry)\<rparr>"
  have "sl_step ?s1 1 ?s2"
    by (rule sl_step.disable) (simp_all add: sl_init_def flag_ops)
  then have r2: "reachable sl_step ?s0 ?s2" by (rule reachable.move [OF r1])
  let ?s3 = "?s2\<lparr>sl_taken := True, sl_pc := (sl_pc ?s2)(1 := if sl_taken ?s2 then SlLost else SlHeld)\<rparr>"
  have "sl_step ?s2 1 ?s3" by (rule sl_step.exchange) (simp add: sl_init_def)
  then have "reachable sl_step ?s0 ?s3" by (rule reachable.move [OF r2])
  moreover have "sl_pc ?s3 1 = SlHeld" by (simp add: sl_init_def)
  ultimately show ?thesis by blast
qed

theorem isl_correct_witness:
  "\<exists>s. reachable sl_step (sl_init (\<lambda>_. True)) s \<and> sl_pc s 1 = SlHeld \<and> \<not> sl_flag s 1"
proof -
  obtain s where s: "reachable sl_step (sl_init (\<lambda>_. True)) s" "sl_pc s 1 = SlHeld" using sl_run by blast
  then show ?thesis using isl_correct [OF s(1)] by metis
qed

end
