(* ===== verification/Queue.thy ===== *)
theory Queue
  imports Prelude
begin

text \<open>
  The intrusive queue of \<^verbatim>\<open>kernel/queue.h\<close>: \<^verbatim>\<open>first\<close>, \<^verbatim>\<open>last\<close>, and the \<^verbatim>\<open>next\<close> fields of the
  elements, a map from elements to the element they point to. The null pointer is \<^const>\<open>None\<close>.
  Every operation holds the lock of the queue and is one atomic step.
\<close>

section \<open>Operations\<close>

record 'a queue =
  q_first :: "'a option"
  q_last :: "'a option"
  q_next :: "'a \<Rightarrow> 'a option"

definition queue_new :: "('a \<Rightarrow> 'a option) \<Rightarrow> 'a queue" where
  "queue_new nx = \<lparr>q_first = None, q_last = None, q_next = nx\<rparr>"

text \<open>\<open>None\<close> is the dereference of a null \<^verbatim>\<open>last\<close>.\<close>

definition queue_add :: "'a queue \<Rightarrow> 'a \<Rightarrow> 'a queue option" where
  "queue_add q t =
     (let q1 = q\<lparr>q_next := (q_next q)(t := None)\<rparr> in
      map_option (\<lambda>q2. q2\<lparr>q_last := Some t\<rparr>)
        (if q_first q1 = None then Some (q1\<lparr>q_first := Some t\<rparr>)
         else (case q_last q1 of
                 None \<Rightarrow> None
               | Some l \<Rightarrow> Some (q1\<lparr>q_next := (q_next q1)(l := Some t)\<rparr>))))"

definition queue_remove :: "'a queue \<Rightarrow> 'a queue \<times> 'a option" where
  "queue_remove q =
     (case q_first q of
        None \<Rightarrow> (q, None)
      | Some it \<Rightarrow>
          let q1 = q\<lparr>q_first := q_next q it\<rparr>;
              q2 = (if q_first q1 = None then q1\<lparr>q_last := None\<rparr> else q1)
          in (q2, Some it))"

definition queue_remove_all :: "'a queue \<Rightarrow> 'a queue \<times> 'a option" where
  "queue_remove_all q = (q\<lparr>q_first := None, q_last := None\<rparr>, q_first q)"

section \<open>The list a queue stands for\<close>

fun linked :: "('a \<Rightarrow> 'a option) \<Rightarrow> 'a option \<Rightarrow> 'a list \<Rightarrow> bool" where
  "linked nx p [] \<longleftrightarrow> p = None"
| "linked nx p (x # xs) \<longleftrightarrow> p = Some x \<and> linked nx (nx x) xs"

definition queue_rep :: "'a queue \<Rightarrow> 'a list \<Rightarrow> bool" where
  "queue_rep q xs \<longleftrightarrow>
     linked (q_next q) (q_first q) xs \<and> distinct xs \<and>
     q_last q = (if xs = [] then None else Some (last xs))"

lemma linked_cong: "(\<And>x. x \<in> set xs \<Longrightarrow> nx x = ny x) \<Longrightarrow> linked nx p xs = linked ny p xs"
  by (induction xs arbitrary: p) auto

lemma linked_append:
  "linked nx p (xs @ [t]) \<Longrightarrow> distinct (xs @ [t]) \<Longrightarrow> u \<notin> set (xs @ [t]) \<Longrightarrow>
   linked (nx(u := None, t := Some u)) p (xs @ [t, u])"
proof (induction xs arbitrary: p)
  case (Cons x xs)
  then show ?case by auto
qed auto

lemma queue_add_rep:
  assumes rep: "queue_rep q xs" and t: "t \<notin> set xs"
  obtains q' where "queue_add q t = Some q'" and "queue_rep q' (xs @ [t])"
    and "\<And>u. u \<notin> set (xs @ [t]) \<Longrightarrow> q_next q' u = q_next q u"
proof (cases xs rule: rev_cases)
  case Nil
  let ?q = "q\<lparr>q_next := (q_next q)(t := None), q_first := Some t, q_last := Some t\<rparr>"
  have "queue_add q t = Some ?q" using rep Nil by (simp add: queue_add_def queue_rep_def Let_def)
  moreover have "queue_rep ?q (xs @ [t])" using Nil by (simp add: queue_rep_def)
  ultimately show ?thesis using that by simp
next
  case (snoc ys l)
  let ?nx = "(q_next q)(t := None, l := Some t)"
  let ?q = "q\<lparr>q_next := ?nx, q_last := Some t\<rparr>"
  have first: "q_first q \<noteq> None" using rep snoc by (cases ys) (auto simp: queue_rep_def)
  have "queue_add q t = Some ?q"
    using rep snoc first by (auto simp: queue_add_def queue_rep_def Let_def)
  moreover have "linked ?nx (q_first q) (ys @ [l, t])"
    using linked_append [of "q_next q" "q_first q" ys l t] rep snoc t by (auto simp: queue_rep_def)
  then have "queue_rep ?q (xs @ [t])" using rep snoc t by (auto simp: queue_rep_def)
  ultimately show ?thesis using that snoc by simp
qed

lemma queue_remove_rep:
  assumes "queue_rep q xs"
  shows "queue_rep (fst (queue_remove q)) (tl xs)"
    and "snd (queue_remove q) = (case xs of [] \<Rightarrow> None | x # _ \<Rightarrow> Some x)"
    and "q_next (fst (queue_remove q)) = q_next q"
  using assms
  by (cases xs; cases "tl xs"; auto simp: queue_remove_def queue_rep_def Let_def)+

section \<open>The interface of a FIFO queue\<close>

datatype 'a queue_op = Add 'a | Remove

fun run_queue :: "('s \<Rightarrow> 'a \<Rightarrow> 's option) \<Rightarrow> ('s \<Rightarrow> 's \<times> 'a option) \<Rightarrow> 's \<Rightarrow> 'a queue_op list \<Rightarrow>
    ('s \<times> 'a list) option" where
  "run_queue add remove s [] = Some (s, [])"
| "run_queue add remove s (Add t # ops) =
     (case add s t of None \<Rightarrow> None | Some s' \<Rightarrow> run_queue add remove s' ops)"
| "run_queue add remove s (Remove # ops) =
     (case remove s of (s', r) \<Rightarrow>
        map_option (\<lambda>(s2, out). (s2, (case r of None \<Rightarrow> out | Some x \<Rightarrow> x # out)))
          (run_queue add remove s' ops))"

fun added :: "'a queue_op list \<Rightarrow> 'a list" where
  "added [] = []"
| "added (Add t # ops) = t # added ops"
| "added (Remove # ops) = added ops"

locale fifo =
  fixes rep :: "'s \<Rightarrow> 'a list \<Rightarrow> bool"
    and add :: "'s \<Rightarrow> 'a \<Rightarrow> 's option"
    and remove :: "'s \<Rightarrow> 's \<times> 'a option"
  assumes add_law: "rep s xs \<Longrightarrow> t \<notin> set xs \<Longrightarrow> \<exists>s'. add s t = Some s' \<and> rep s' (xs @ [t])"
    and remove_law: "rep s xs \<Longrightarrow> \<exists>s'. remove s = (s', case xs of [] \<Rightarrow> None | x # _ \<Rightarrow> Some x) \<and> rep s' (tl xs)"
begin

lemma run_queue_fifo:
  "rep s xs \<Longrightarrow> distinct (xs @ added ops) \<Longrightarrow>
   \<exists>s' out ys. run_queue add remove s ops = Some (s', out) \<and> rep s' ys \<and> xs @ added ops = out @ ys"
proof (induction ops arbitrary: s xs)
  case Nil
  then show ?case by auto
next
  case (Cons op ops)
  show ?case
  proof (cases op)
    case (Add t)
    then have "t \<notin> set xs" using Cons.prems(2) by auto
    then obtain s' where s': "add s t = Some s'" "rep s' (xs @ [t])" using add_law Cons.prems(1) by blast
    then show ?thesis using Cons.IH [OF s'(2)] Cons.prems(2) Add by auto
  next
    case Remove
    obtain s' where s': "remove s = (s', case xs of [] \<Rightarrow> None | x # _ \<Rightarrow> Some x)" "rep s' (tl xs)"
      using remove_law [OF Cons.prems(1)] by blast
    have "distinct (tl xs @ added ops)" using Cons.prems(2) Remove by (cases xs) auto
    then obtain s2 out ys where "run_queue add remove s' ops = Some (s2, out)" "rep s2 ys" "tl xs @ added ops = out @ ys"
      using Cons.IH [OF s'(2)] by blast
    then show ?thesis using s'(1) Remove by (cases xs) auto
  qed
qed

end

interpretation intrusive: fifo queue_rep queue_add queue_remove
proof unfold_locales
  fix s :: "'a queue" and xs t
  assume "queue_rep s xs" "t \<notin> set xs"
  then show "\<exists>s'. queue_add s t = Some s' \<and> queue_rep s' (xs @ [t])"
    by (metis queue_add_rep)
next
  fix s :: "'a queue" and xs
  assume "queue_rep s xs"
  then show "\<exists>s'. queue_remove s = (s', case xs of [] \<Rightarrow> None | x # _ \<Rightarrow> Some x) \<and> queue_rep s' (tl xs)"
    using queue_remove_rep [of s xs] by (cases "queue_remove s") auto
qed

section \<open>Property\<close>



end
