(* ===== verification/Semaphore.thy ===== *)
theory Semaphore
  imports Queue
begin

text \<open>
  The counting semaphore of \<^verbatim>\<open>kernel/semaphore.h\<close> over the intrusive queue: a 64-bit count and the
  queue of the blocked threads. \<^verbatim>\<open>down\<close> and \<^verbatim>\<open>up\<close> run under an \<^verbatim>\<open>ISL\<close>, so each is one atomic step; a
  blocked \<^verbatim>\<open>down\<close> gives up the processor and returns when an \<^verbatim>\<open>up\<close> has removed its thread from the
  queue and scheduled it. The abstract semaphore (a number and the list of the waiting
  threads) is what the components built on semaphores rely on.
\<close>

section \<open>The semaphore\<close>

record 'a semaphore =
  sem_count :: u64
  sem_waiting :: "'a queue"

definition sem_new :: "u32 \<Rightarrow> ('a \<Rightarrow> 'a option) \<Rightarrow> 'a semaphore" where
  "sem_new count nx = \<lparr>sem_count = ucast count, sem_waiting = queue_new nx\<rparr>"

text \<open>\<^verbatim>\<open>down\<close> by the thread \<open>me\<close>: the flag says that it returned without blocking.\<close>

definition sem_down :: "'a semaphore \<Rightarrow> 'a \<Rightarrow> ('a semaphore \<times> bool) option" where
  "sem_down s me =
     (if sem_count s > 0 then Some (s\<lparr>sem_count := sem_count s - 1\<rparr>, True)
      else map_option (\<lambda>q. (s\<lparr>sem_waiting := q\<rparr>, False)) (queue_add (sem_waiting s) me))"

text \<open>\<^verbatim>\<open>up\<close>, with the thread it schedules.\<close>

definition sem_up :: "'a semaphore \<Rightarrow> 'a semaphore \<times> 'a option" where
  "sem_up s =
     (case queue_remove (sem_waiting s) of
        (q, None) \<Rightarrow> (s\<lparr>sem_waiting := q, sem_count := sem_count s + 1\<rparr>, None)
      | (q, Some next) \<Rightarrow> (s\<lparr>sem_waiting := q\<rparr>, Some next))"

text \<open>\<^verbatim>\<open>BlockingLock\<close>: a semaphore that starts at 1.\<close>

definition blocking_lock_new :: "('a \<Rightarrow> 'a option) \<Rightarrow> 'a semaphore" where
  "blocking_lock_new nx = sem_new 1 nx"

definition blocking_lock :: "'a semaphore \<Rightarrow> 'a \<Rightarrow> ('a semaphore \<times> bool) option" where
  "blocking_lock s me = sem_down s me"

definition blocking_unlock :: "'a semaphore \<Rightarrow> 'a semaphore \<times> 'a option" where
  "blocking_unlock s = sem_up s"

section \<open>The abstract semaphore\<close>

record 'a asem =
  as_count :: nat
  as_wait :: "'a list"

definition as_new :: "nat \<Rightarrow> 'a asem" where
  "as_new n = \<lparr>as_count = n, as_wait = []\<rparr>"

definition as_down :: "'a asem \<Rightarrow> 'a \<Rightarrow> 'a asem \<times> bool" where
  "as_down s me =
     (if 0 < as_count s then (s\<lparr>as_count := as_count s - 1\<rparr>, True)
      else (s\<lparr>as_wait := as_wait s @ [me]\<rparr>, False))"

definition as_up :: "'a asem \<Rightarrow> 'a asem \<times> 'a option" where
  "as_up s =
     (case as_wait s of
        [] \<Rightarrow> (s\<lparr>as_count := as_count s + 1\<rparr>, None)
      | next # rest \<Rightarrow> (s\<lparr>as_wait := rest\<rparr>, Some next))"

definition as_ok :: "'a asem \<Rightarrow> bool" where
  "as_ok s \<longleftrightarrow> distinct (as_wait s) \<and> (as_wait s = [] \<or> as_count s = 0)"

lemma as_ops_ok:
  "as_ok s \<Longrightarrow> t \<notin> set (as_wait s) \<Longrightarrow> as_ok (fst (as_down s t))"
  "as_ok s \<Longrightarrow> as_ok (fst (as_up s))"
  "as_ok (as_new n)"
  by (auto simp: as_ok_def as_down_def as_up_def as_new_def split: list.splits)

text \<open>The waiting threads of a semaphore are those with a property.\<close>

definition as_waits :: "'a asem \<Rightarrow> ('a \<Rightarrow> bool) \<Rightarrow> bool" where
  "as_waits a W \<longleftrightarrow> as_ok a \<and> (\<forall>t. t \<in> set (as_wait a) \<longleftrightarrow> W t)"

lemma as_waits_down:
  assumes "as_waits a W" and "as_down a t = (b, now)" and "\<not> W t"
  shows "as_waits b (W(t := \<not> now))"
proof (cases "0 < as_count a")
  case True
  then have "W(t := \<not> now) = W" "as_wait b = as_wait a" "as_wait a = []"
    using assms by (auto simp: as_waits_def as_down_def as_ok_def fun_eq_iff)
  then show ?thesis using assms(1) by (simp add: as_waits_def as_ok_def)
next
  case False
  then have "as_wait b = as_wait a @ [t]" "as_count b = 0" "now = False"
    using assms(2) by (auto simp: as_down_def)
  then show ?thesis using assms(1,3) by (auto simp: as_waits_def as_ok_def)
qed

lemma as_waits_up:
  assumes "as_waits a W" and "as_up a = (b, r)"
  shows "as_waits b (case r of None \<Rightarrow> W | Some u \<Rightarrow> W(u := False))"
    and "r = Some u \<Longrightarrow> W u"
proof -
  have ok: "as_ok a" and W: "\<And>t. W t \<longleftrightarrow> t \<in> set (as_wait a)" using assms(1) by (simp_all add: as_waits_def)
  have "as_waits b (case r of None \<Rightarrow> W | Some u \<Rightarrow> W(u := False)) \<and> (r = Some u \<longrightarrow> W u)"
  proof (cases "as_wait a")
    case Nil
    then have "r = None" "as_wait b = []" using assms(2) by (auto simp: as_up_def)
    then show ?thesis using W Nil by (simp add: as_waits_def as_ok_def)
  next
    case (Cons v vs)
    then have "r = Some v" "as_wait b = vs" "as_count b = as_count a" using assms(2) by (auto simp: as_up_def)
    then show ?thesis using W Cons ok by (auto simp: as_waits_def as_ok_def)
  qed
  then show "as_waits b (case r of None \<Rightarrow> W | Some u \<Rightarrow> W(u := False))" "r = Some u \<Longrightarrow> W u" by auto
qed

lemma as_downE:
  assumes "as_down a t = (b, now)"
  obtains "now" "0 < as_count a" "as_count b = as_count a - 1"
    | "\<not> now" "as_count a = 0" "as_count b = 0"
  using assms by (auto simp: as_down_def split: if_splits)

lemma as_upE:
  assumes "as_up a = (b, r)"
  obtains "r = None" "as_count b = as_count a + 1" | u where "r = Some u" "as_count b = as_count a"
  using assms by (auto simp: as_up_def split: list.splits)

definition sem_rep :: "'a semaphore \<Rightarrow> 'a asem \<Rightarrow> bool" where
  "sem_rep s a \<longleftrightarrow>
     queue_rep (sem_waiting s) (as_wait a) \<and> unat (sem_count s) = as_count a \<and>
     (as_wait a = [] \<or> as_count a = 0)"

lemma unat_ucast_64: "unat (ucast (n :: u32) :: u64) = unat n"
proof -
  have "unat n < 2 ^ 64" using unat_bound [of n] by simp
  then show ?thesis by (simp add: unsigned_ucast_eq take_bit_nat_eq_self)
qed

lemma sem_rep_new: "sem_rep (sem_new n nx) (as_new (unat n))"
  by (simp add: sem_rep_def sem_new_def as_new_def queue_rep_def queue_new_def unat_ucast_64)

lemma sem_down_rep:
  assumes rep: "sem_rep s a" and me: "me \<notin> set (as_wait a)"
  obtains s' where "sem_down s me = Some (s', snd (as_down a me))" and "sem_rep s' (fst (as_down a me))"
proof (cases "sem_count s > 0")
  case True
  then have pos: "0 < as_count a" using rep by (simp add: sem_rep_def word_less_nat_alt)
  have "unat (sem_count s - 1) = unat (sem_count s) - 1"
    using True by (simp add: unat_minus_one)
  then have "sem_rep (s\<lparr>sem_count := sem_count s - 1\<rparr>) (fst (as_down a me))"
    using rep pos by (auto simp: sem_rep_def as_down_def)
  then show ?thesis using that True pos by (simp add: sem_down_def as_down_def)
next
  case False
  then have z: "as_count a = 0" using rep by (simp add: sem_rep_def word_less_nat_alt)
  obtain q where q: "queue_add (sem_waiting s) me = Some q" "queue_rep q (as_wait a @ [me])"
    using queue_add_rep [of "sem_waiting s" "as_wait a" me] rep me by (auto simp: sem_rep_def)
  then have "sem_rep (s\<lparr>sem_waiting := q\<rparr>) (fst (as_down a me))"
    using rep z by (simp add: sem_rep_def as_down_def)
  then show ?thesis using that False z q(1) by (simp add: sem_down_def as_down_def)
qed

lemma sem_up_rep:
  assumes rep: "sem_rep s a" and "as_count a < 2 ^ 64 - 1"
  obtains s' where "sem_up s = (s', snd (as_up a))" and "sem_rep s' (fst (as_up a))"
proof -
  have qr: "queue_rep (sem_waiting s) (as_wait a)" using rep by (simp add: sem_rep_def)
  note R = queue_remove_rep [OF qr]
  obtain q r where q: "queue_remove (sem_waiting s) = (q, r)" by fastforce
  show ?thesis
  proof (cases "as_wait a")
    case Nil
    have "unat (sem_count s + 1) = unat (sem_count s) + 1"
      using assms by (simp add: sem_rep_def unat_word_ariths)
    then have "sem_rep (s\<lparr>sem_waiting := q, sem_count := sem_count s + 1\<rparr>) (fst (as_up a))"
      using rep R q Nil by (simp add: sem_rep_def as_up_def)
    then show ?thesis using that R q Nil by (simp add: sem_up_def as_up_def)
  next
    case (Cons t ts)
    then have "sem_rep (s\<lparr>sem_waiting := q\<rparr>) (fst (as_up a))"
      using rep R q by (simp add: sem_rep_def as_up_def)
    then show ?thesis using that R q Cons by (simp add: sem_up_def as_up_def)
  qed
qed

section \<open>Scripts\<close>

text \<open>
  A script of calls by different threads; the result lists the threads whose \<^verbatim>\<open>down\<close> has returned,
  in the order of their return.
\<close>

datatype 'a sem_op = Down 'a | Up

fun run_sem :: "'a semaphore \<Rightarrow> 'a sem_op list \<Rightarrow> ('a semaphore \<times> 'a list) option" where
  "run_sem s [] = Some (s, [])"
| "run_sem s (Down t # ops) =
     (case sem_down s t of
        None \<Rightarrow> None
      | Some (s', now) \<Rightarrow>
          map_option (\<lambda>(s2, out). (s2, if now then t # out else out)) (run_sem s' ops))"
| "run_sem s (Up # ops) =
     (case sem_up s of (s', r) \<Rightarrow>
        map_option (\<lambda>(s2, out). (s2, (case r of None \<Rightarrow> out | Some t \<Rightarrow> t # out))) (run_sem s' ops))"

fun downs :: "'a sem_op list \<Rightarrow> 'a list" where
  "downs [] = []"
| "downs (Down t # ops) = t # downs ops"
| "downs (Up # ops) = downs ops"

fun ups :: "'a sem_op list \<Rightarrow> nat" where
  "ups [] = 0"
| "ups (Down t # ops) = ups ops"
| "ups (Up # ops) = Suc (ups ops)"

lemma run_sem_sound:
  "sem_rep s a \<Longrightarrow> distinct (as_wait a @ downs ops) \<Longrightarrow> as_count a + ups ops < 2 ^ 64 \<Longrightarrow>
   \<exists>s' a' out. run_sem s ops = Some (s', out) \<and> sem_rep s' a' \<and>
     as_wait a @ downs ops = out @ as_wait a' \<and> as_count a + ups ops = as_count a' + length out"
proof (induction ops arbitrary: s a)
  case Nil
  then show ?case by auto
next
  case (Cons op ops)
  show ?case
  proof (cases op)
    case (Down t)
    then have "t \<notin> set (as_wait a)" using Cons.prems(2) by auto
    then obtain s' where s': "sem_down s t = Some (s', snd (as_down a t))" "sem_rep s' (fst (as_down a t))"
      using sem_down_rep Cons.prems(1) by metis
    have pre: "distinct (as_wait (fst (as_down a t)) @ downs ops)"
        "as_count (fst (as_down a t)) + ups ops < 2 ^ 64"
      using Cons.prems Down by (auto simp: as_down_def)
    obtain s2 a2 out where IH: "run_sem s' ops = Some (s2, out)" "sem_rep s2 a2"
        "as_wait (fst (as_down a t)) @ downs ops = out @ as_wait a2"
        "as_count (fst (as_down a t)) + ups ops = as_count a2 + length out"
      using Cons.IH [OF s'(2) pre] by blast
    have w: "as_wait a = []" if "0 < as_count a" using that Cons.prems(1) by (simp add: sem_rep_def)
    show ?thesis
    proof (cases "0 < as_count a")
      case True
      then show ?thesis using IH s'(1) Down w by (auto simp: as_down_def)
    next
      case False
      then show ?thesis using IH s'(1) Down by (auto simp: as_down_def)
    qed
  next
    case Up
    then have lt: "as_count a < 2 ^ 64 - 1" using Cons.prems(3) by simp
    obtain s' where s': "sem_up s = (s', snd (as_up a))" "sem_rep s' (fst (as_up a))"
      using sem_up_rep [OF Cons.prems(1) lt] by blast
    have pre: "distinct (as_wait (fst (as_up a)) @ downs ops)" "as_count (fst (as_up a)) + ups ops < 2 ^ 64"
      using Cons.prems Up by (auto simp: as_up_def split: list.splits)
    obtain s2 a2 out where "run_sem s' ops = Some (s2, out)" "sem_rep s2 a2"
        "as_wait (fst (as_up a)) @ downs ops = out @ as_wait a2"
        "as_count (fst (as_up a)) + ups ops = as_count a2 + length out"
      using Cons.IH [OF s'(2) pre] by blast
    then show ?thesis using s'(1) Up by (cases "as_wait a") (auto simp: as_up_def)
  qed
qed

section \<open>Property\<close>

text \<open>
  C16. A semaphore that starts at \<open>n\<close>, over any script of \<^verbatim>\<open>down\<close>s by different threads and \<^verbatim>\<open>up\<close>s:
  the threads return from \<^verbatim>\<open>down\<close> in the order of their calls, the first \<open>n\<close> plus the number of
  \<^verbatim>\<open>up\<close>s of them; the others are the ones still in the queue, and a thread waits only when the
  count is 0.
\<close>

theorem semaphore_correct:
  assumes "distinct (downs ops)" and "unat n + ups ops < 2 ^ 64"
  shows "\<exists>s' a' out. run_sem (sem_new n nx) ops = Some (s', out) \<and> sem_rep s' a' \<and>
    downs ops = out @ as_wait a' \<and> out = take (unat n + ups ops) (downs ops)"
proof -
  obtain s' a' out where r: "run_sem (sem_new n nx) ops = Some (s', out)" "sem_rep s' a'"
      "downs ops = out @ as_wait a'" "unat n + ups ops = as_count a' + length out"
    using run_sem_sound [OF sem_rep_new, of n ops nx] assms by (auto simp: as_new_def)
  moreover have "as_wait a' = [] \<or> as_count a' = 0" using r(2) by (simp add: sem_rep_def)
  ultimately have "out = take (unat n + ups ops) (downs ops)" by auto
  then show ?thesis using r by blast
qed

theorem semaphore_correct_witness:
  "\<exists>s'. run_sem (sem_new 1 (\<lambda>_. None)) [Down (1 :: nat), Down 2, Down 3, Up] = Some (s', [1, 2])"
  using semaphore_correct [of "[Down (1 :: nat), Down 2, Down 3, Up]" 1 "\<lambda>_. None"] by auto

end
