(* ===== verification/BoundedBuffer.thy ===== *)
theory BoundedBuffer
  imports Semaphore
begin

text \<open>
  The bounded buffer of \<^verbatim>\<open>kernel/bb.h\<close>, for any number of producer and consumer threads: every
  semaphore operation and every statement between the two lock operations is one step, and
  the steps of the threads interleave in any order. The semaphores are the abstract ones that
  the semaphore of the code refines. \<open>head\<close> and \<open>n\<close> are \<^verbatim>\<open>uint32_t\<close>, with their wrap-around written
  out.
\<close>

section \<open>Steps\<close>

text \<open>Where a thread is in \<^verbatim>\<open>put(t)\<close> or \<^verbatim>\<open>get()\<close>; \<open>W\<close> marks a thread blocked in a semaphore.\<close>

datatype 'a bb_pc =
    Idle
  | PEmpty 'a | PEmptyW 'a | PLock 'a | PLockW 'a | PWrite 'a | PInc 'a | PUnlock | PFull
  | GFull | GFullW | GLock | GLockW | GRead | GHead 'a | GDec 'a | GUnlock 'a | GEmpty 'a

text \<open>A woken thread has completed its \<^verbatim>\<open>down\<close>.\<close>

fun woken :: "'a bb_pc \<Rightarrow> 'a bb_pc" where
  "woken (PEmptyW v) = PLock v"
| "woken (PLockW v) = PWrite v"
| "woken GFullW = GLock"
| "woken GLockW = GRead"
| "woken p = p"

text \<open>\<open>bb_put\<close> and \<open>bb_got\<close> are not part of the code: the values stored and fetched so far.\<close>

record 'a bb =
  bb_head :: nat
  bb_n :: nat
  bb_nEmpty :: "nat asem"
  bb_nFull :: "nat asem"
  bb_lock :: "nat asem"
  bb_data :: "'a list"
  bb_pc :: "nat \<Rightarrow> 'a bb_pc"
  bb_put :: "'a list"
  bb_got :: "'a list"

definition bb_new :: "nat \<Rightarrow> 'a list \<Rightarrow> 'a bb" where
  "bb_new N d = \<lparr>bb_head = 0, bb_n = 0, bb_nEmpty = as_new N, bb_nFull = as_new 0, bb_lock = as_new 1,
     bb_data = d, bb_pc = (\<lambda>_. Idle), bb_put = [], bb_got = []\<rparr>"

abbreviation go :: "'a bb \<Rightarrow> nat \<Rightarrow> 'a bb_pc \<Rightarrow> 'a bb" where
  "go s t p \<equiv> s\<lparr>bb_pc := (bb_pc s)(t := p)\<rparr>"

definition wake :: "nat option \<Rightarrow> (nat \<Rightarrow> 'a bb_pc) \<Rightarrow> nat \<Rightarrow> 'a bb_pc" where
  "wake r pc = (case r of None \<Rightarrow> pc | Some u \<Rightarrow> pc(u := woken (pc u)))"

inductive bb_step :: "nat \<Rightarrow> nat list \<Rightarrow> 'a bb \<Rightarrow> nat \<Rightarrow> 'a bb \<Rightarrow> bool" for N ts where
  put_call: "t \<in> set ts \<Longrightarrow> bb_pc s t = Idle \<Longrightarrow> bb_step N ts s t (go s t (PEmpty v))"
| put_empty: "t \<in> set ts \<Longrightarrow> bb_pc s t = PEmpty v \<Longrightarrow> as_down (bb_nEmpty s) t = (e, now) \<Longrightarrow>
    bb_step N ts s t (s\<lparr>bb_nEmpty := e, bb_pc := (bb_pc s)(t := if now then PLock v else PEmptyW v)\<rparr>)"
| put_lock: "t \<in> set ts \<Longrightarrow> bb_pc s t = PLock v \<Longrightarrow> as_down (bb_lock s) t = (l, now) \<Longrightarrow>
    bb_step N ts s t (s\<lparr>bb_lock := l, bb_pc := (bb_pc s)(t := if now then PWrite v else PLockW v)\<rparr>)"
| put_write: "t \<in> set ts \<Longrightarrow> bb_pc s t = PWrite v \<Longrightarrow>
    bb_step N ts s t (s\<lparr>bb_data := (bb_data s)[(bb_head s + bb_n s) mod 2 ^ 32 mod N := v],
      bb_pc := (bb_pc s)(t := PInc v)\<rparr>)"
| put_inc: "t \<in> set ts \<Longrightarrow> bb_pc s t = PInc v \<Longrightarrow>
    bb_step N ts s t (s\<lparr>bb_n := (bb_n s + 1) mod 2 ^ 32, bb_put := bb_put s @ [v],
      bb_pc := (bb_pc s)(t := PUnlock)\<rparr>)"
| put_unlock: "t \<in> set ts \<Longrightarrow> bb_pc s t = PUnlock \<Longrightarrow> as_up (bb_lock s) = (l, r) \<Longrightarrow>
    bb_step N ts s t (s\<lparr>bb_lock := l, bb_pc := wake r ((bb_pc s)(t := PFull))\<rparr>)"
| put_full: "t \<in> set ts \<Longrightarrow> bb_pc s t = PFull \<Longrightarrow> as_up (bb_nFull s) = (f, r) \<Longrightarrow>
    bb_step N ts s t (s\<lparr>bb_nFull := f, bb_pc := wake r ((bb_pc s)(t := Idle))\<rparr>)"
| get_call: "t \<in> set ts \<Longrightarrow> bb_pc s t = Idle \<Longrightarrow> bb_step N ts s t (go s t GFull)"
| get_full: "t \<in> set ts \<Longrightarrow> bb_pc s t = GFull \<Longrightarrow> as_down (bb_nFull s) t = (f, now) \<Longrightarrow>
    bb_step N ts s t (s\<lparr>bb_nFull := f, bb_pc := (bb_pc s)(t := if now then GLock else GFullW)\<rparr>)"
| get_lock: "t \<in> set ts \<Longrightarrow> bb_pc s t = GLock \<Longrightarrow> as_down (bb_lock s) t = (l, now) \<Longrightarrow>
    bb_step N ts s t (s\<lparr>bb_lock := l, bb_pc := (bb_pc s)(t := if now then GRead else GLockW)\<rparr>)"
| get_read: "t \<in> set ts \<Longrightarrow> bb_pc s t = GRead \<Longrightarrow>
    bb_step N ts s t (go s t (GHead (bb_data s ! bb_head s)))"
| get_head: "t \<in> set ts \<Longrightarrow> bb_pc s t = GHead v \<Longrightarrow>
    bb_step N ts s t (s\<lparr>bb_head := (bb_head s + 1) mod 2 ^ 32 mod N, bb_pc := (bb_pc s)(t := GDec v)\<rparr>)"
| get_dec: "t \<in> set ts \<Longrightarrow> bb_pc s t = GDec v \<Longrightarrow>
    bb_step N ts s t (s\<lparr>bb_n := (bb_n s + 2 ^ 32 - 1) mod 2 ^ 32, bb_got := bb_got s @ [v],
      bb_pc := (bb_pc s)(t := GUnlock v)\<rparr>)"
| get_unlock: "t \<in> set ts \<Longrightarrow> bb_pc s t = GUnlock v \<Longrightarrow> as_up (bb_lock s) = (l, r) \<Longrightarrow>
    bb_step N ts s t (s\<lparr>bb_lock := l, bb_pc := wake r ((bb_pc s)(t := GEmpty v))\<rparr>)"
| get_empty: "t \<in> set ts \<Longrightarrow> bb_pc s t = GEmpty v \<Longrightarrow> as_up (bb_nEmpty s) = (e, r) \<Longrightarrow>
    bb_step N ts s t (s\<lparr>bb_nEmpty := e, bb_pc := wake r ((bb_pc s)(t := Idle))\<rparr>)"

section \<open>Tokens\<close>

text \<open>
  The threads inside the lock, the threads that hold a token of \<open>nFull\<close> and the threads that hold
  one of \<open>nEmpty\<close>.
\<close>

fun inside :: "'a bb_pc \<Rightarrow> bool" where
  "inside (PWrite v) = True" | "inside (PInc v) = True" | "inside PUnlock = True"
| "inside GRead = True" | "inside (GHead v) = True" | "inside (GDec v) = True" | "inside (GUnlock v) = True"
| "inside p = False"

fun has_full :: "'a bb_pc \<Rightarrow> bool" where
  "has_full GLock = True" | "has_full GLockW = True" | "has_full GRead = True"
| "has_full (GHead v) = True" | "has_full (GDec v) = True"
| "has_full PUnlock = True" | "has_full PFull = True"
| "has_full p = False"

fun has_empty :: "'a bb_pc \<Rightarrow> bool" where
  "has_empty (PLock v) = True" | "has_empty (PLockW v) = True" | "has_empty (PWrite v) = True"
| "has_empty (PInc v) = True" | "has_empty (GUnlock v) = True" | "has_empty (GEmpty v) = True"
| "has_empty p = False"

fun waits_empty :: "'a bb_pc \<Rightarrow> bool" where
  "waits_empty (PEmptyW v) = True" | "waits_empty p = False"

fun waits_lock :: "'a bb_pc \<Rightarrow> bool" where
  "waits_lock (PLockW v) = True" | "waits_lock GLockW = True" | "waits_lock p = False"

fun waits_full :: "'a bb_pc \<Rightarrow> bool" where
  "waits_full GFullW = True" | "waits_full p = False"

definition waits_ok :: "nat list \<Rightarrow> 'a bb \<Rightarrow> bool" where
  "waits_ok ts s \<longleftrightarrow>
     as_waits (bb_nEmpty s) (waits_empty \<circ> bb_pc s) \<and>
     as_waits (bb_nFull s) (waits_full \<circ> bb_pc s) \<and>
     as_waits (bb_lock s) (waits_lock \<circ> bb_pc s) \<and>
     (\<forall>t. t \<notin> set ts \<longrightarrow> bb_pc s t = Idle)"

definition tokens_ok :: "nat \<Rightarrow> nat list \<Rightarrow> 'a bb \<Rightarrow> bool" where
  "tokens_ok N ts s \<longleftrightarrow>
     int (as_count (bb_lock s)) + tally ts inside (bb_pc s) = 1 \<and>
     int (as_count (bb_nFull s)) + tally ts has_full (bb_pc s) = int (bb_n s) \<and>
     int (as_count (bb_nEmpty s)) + tally ts has_empty (bb_pc s) + int (bb_n s) = int N"

definition content :: "nat \<Rightarrow> 'a list \<Rightarrow> nat \<Rightarrow> nat \<Rightarrow> 'a list" where
  "content N d h n = map (\<lambda>i. d ! ((h + i) mod N)) [0..<n]"

definition data_ok :: "nat \<Rightarrow> 'a bb \<Rightarrow> bool" where
  "data_ok N s \<longleftrightarrow>
     length (bb_data s) = N \<and> bb_head s < N \<and>
     (\<forall>t. case bb_pc s t of
        PInc v \<Rightarrow> bb_data s ! ((bb_head s + bb_n s) mod N) = v
      | GHead v \<Rightarrow> v = bb_data s ! bb_head s
      | GDec v \<Rightarrow> bb_put s = bb_got s @ v # content N (bb_data s) (bb_head s) (bb_n s - 1)
      | _ \<Rightarrow> True) \<and>
     ((\<forall>t v. bb_pc s t \<noteq> GDec v) \<longrightarrow>
        bb_put s = bb_got s @ content N (bb_data s) (bb_head s) (bb_n s))"

inductive_cases bb_stepE: "bb_step N ts s t s'"

text \<open>The effect of a step on the waiting threads, for a test \<open>f\<close> of the program counters.\<close>

lemma waits_same: "as_waits a (f \<circ> pc) \<Longrightarrow> f (pc t) = f x \<Longrightarrow> as_waits a (f \<circ> pc(t := x))"
proof -
  assume "as_waits a (f \<circ> pc)" "f (pc t) = f x"
  moreover from this(2) have "f \<circ> pc(t := x) = f \<circ> pc" by (auto simp: fun_eq_iff)
  ultimately show ?thesis by simp
qed

lemma waits_down:
  assumes "as_waits a (f \<circ> pc)" and "as_down a t = (b, now)" and "\<not> f (pc t)" and "f x = (\<not> now)"
  shows "as_waits b (f \<circ> pc(t := x))"
proof -
  have "f \<circ> pc(t := x) = (f \<circ> pc)(t := \<not> now)" using assms(4) by (auto simp: fun_eq_iff)
  then show ?thesis using as_waits_down [OF assms(1,2)] assms(3) by simp
qed

lemma waits_up:
  assumes "as_waits a (f \<circ> pc)" and "as_up a = (b, r)" and "\<not> f (pc t)" and "\<not> f x"
    and "\<And>p. \<not> f (woken p)"
  shows "as_waits b (f \<circ> wake r (pc(t := x)))"
proof -
  have "f \<circ> wake r (pc(t := x)) = (case r of None \<Rightarrow> f \<circ> pc | Some u \<Rightarrow> (f \<circ> pc)(u := False))"
    using assms(3-5) by (auto simp: wake_def fun_eq_iff split: option.splits)
  then show ?thesis using as_waits_up(1) [OF assms(1,2)] by simp
qed

lemma waits_up_same:
  assumes "as_waits a (f \<circ> pc)" and "\<not> f (pc t)" and "\<not> f x"
    and "\<And>u. r = Some u \<Longrightarrow> \<not> f (pc u)" and "\<And>p. \<not> f (woken p)"
  shows "as_waits a (f \<circ> wake r (pc(t := x)))"
proof -
  have "f \<circ> wake r (pc(t := x)) = f \<circ> pc"
    using assms(2-5) by (auto simp: wake_def fun_eq_iff split: option.splits)
  then show ?thesis using assms(1) by simp
qed

lemma no_wait_woken [simp]: "\<not> waits_empty (woken p)" "\<not> waits_lock (woken p)" "\<not> waits_full (woken p)"
  by (cases p; simp)+

lemma wait_excl:
  "waits_empty p \<Longrightarrow> \<not> waits_lock p \<and> \<not> waits_full p" "waits_lock p \<Longrightarrow> \<not> waits_empty p \<and> \<not> waits_full p"
  "waits_full p \<Longrightarrow> \<not> waits_empty p \<and> \<not> waits_lock p"
  by (cases p; simp)+

lemma wake_idle:
  "\<forall>t. t \<notin> set ts \<longrightarrow> pc t = Idle \<Longrightarrow> t \<in> set ts \<Longrightarrow> \<forall>u. u \<notin> set ts \<longrightarrow> wake r (pc(t := x)) u = Idle"
  by (auto simp: wake_def split: option.splits)

lemma waits_step:
  assumes st: "bb_step N ts s t s'" and ok: "waits_ok ts s"
  shows "waits_ok ts s'"
proof -
  have A: "as_waits (bb_nEmpty s) (waits_empty \<circ> bb_pc s)" "as_waits (bb_nFull s) (waits_full \<circ> bb_pc s)"
    "as_waits (bb_lock s) (waits_lock \<circ> bb_pc s)" and idle: "\<forall>t. t \<notin> set ts \<longrightarrow> bb_pc s t = Idle"
    using ok by (simp_all add: waits_ok_def)
  note same = waits_same [OF A(1)] waits_same [OF A(2)] waits_same [OF A(3)]
  show ?thesis
    using st
  proof cases
    case (put_empty v e now)
    then show ?thesis
      using idle waits_down [OF A(1) put_empty(4)] same by (simp add: waits_ok_def)
  next
    case (put_lock v l now)
    then show ?thesis
      using idle waits_down [OF A(3) put_lock(4)] same by (simp add: waits_ok_def)
  next
    case (get_full f now)
    then show ?thesis
      using idle waits_down [OF A(2) get_full(4)] same by (simp add: waits_ok_def)
  next
    case (get_lock l now)
    then show ?thesis
      using idle waits_down [OF A(3) get_lock(4)] same by (simp add: waits_ok_def)
  next
    case (put_unlock l r)
    have u: "\<not> waits_empty (bb_pc s u) \<and> \<not> waits_full (bb_pc s u)" if "r = Some u" for u
      using as_waits_up(2) [OF A(3) put_unlock(4) that] wait_excl(2) [of "bb_pc s u"] by simp
    show ?thesis
      using put_unlock(2,3) wake_idle [OF idle] waits_up [OF A(3) put_unlock(4)] waits_up_same [OF A(1)] waits_up_same [OF A(2)] u
      by (simp add: waits_ok_def put_unlock(1))
  next
    case (put_full f r)
    have u: "\<not> waits_empty (bb_pc s u) \<and> \<not> waits_lock (bb_pc s u)" if "r = Some u" for u
      using as_waits_up(2) [OF A(2) put_full(4) that] wait_excl(3) [of "bb_pc s u"] by simp
    show ?thesis
      using put_full(2,3) wake_idle [OF idle] waits_up [OF A(2) put_full(4)] waits_up_same [OF A(1)] waits_up_same [OF A(3)] u
      by (simp add: waits_ok_def put_full(1))
  next
    case (get_unlock v l r)
    have u: "\<not> waits_empty (bb_pc s u) \<and> \<not> waits_full (bb_pc s u)" if "r = Some u" for u
      using as_waits_up(2) [OF A(3) get_unlock(4) that] wait_excl(2) [of "bb_pc s u"] by simp
    show ?thesis
      using get_unlock(2,3) wake_idle [OF idle] waits_up [OF A(3) get_unlock(4)] waits_up_same [OF A(1)] waits_up_same [OF A(2)] u
      by (simp add: waits_ok_def get_unlock(1))
  next
    case (get_empty v e r)
    have u: "\<not> waits_full (bb_pc s u) \<and> \<not> waits_lock (bb_pc s u)" if "r = Some u" for u
      using as_waits_up(2) [OF A(1) get_empty(4) that] wait_excl(1) [of "bb_pc s u"] by simp
    show ?thesis
      using get_empty(2,3) wake_idle [OF idle] waits_up [OF A(1) get_empty(4)] waits_up_same [OF A(2)] waits_up_same [OF A(3)] u
      by (simp add: waits_ok_def get_empty(1))
  qed (use idle same in \<open>simp add: waits_ok_def\<close>)+
qed

section \<open>Tokens are conserved\<close>

lemma woken_tokens:
  "waits_lock p \<Longrightarrow> inside (woken p) \<and> \<not> inside p \<and> has_full (woken p) = has_full p \<and> has_empty (woken p) = has_empty p"
  "waits_full p \<Longrightarrow> has_full (woken p) \<and> \<not> has_full p \<and> inside (woken p) = inside p \<and> has_empty (woken p) = has_empty p"
  "waits_empty p \<Longrightarrow> has_empty (woken p) \<and> \<not> has_empty p \<and> inside (woken p) = inside p \<and> has_full (woken p) = has_full p"
  by (cases p; simp)+

lemma waiting_facts:
  assumes "waits_ok ts s"
  shows "as_up (bb_lock s) = (b, r) \<Longrightarrow> r = Some u \<Longrightarrow> waits_lock (bb_pc s u) \<and> u \<in> set ts"
    and "as_up (bb_nFull s) = (b, r) \<Longrightarrow> r = Some u \<Longrightarrow> waits_full (bb_pc s u) \<and> u \<in> set ts"
    and "as_up (bb_nEmpty s) = (b, r) \<Longrightarrow> r = Some u \<Longrightarrow> waits_empty (bb_pc s u) \<and> u \<in> set ts"
proof -
  have A: "as_waits (bb_nEmpty s) (waits_empty \<circ> bb_pc s)" "as_waits (bb_nFull s) (waits_full \<circ> bb_pc s)"
    "as_waits (bb_lock s) (waits_lock \<circ> bb_pc s)" and idle: "\<forall>t. t \<notin> set ts \<longrightarrow> bb_pc s t = Idle"
    using assms by (simp_all add: waits_ok_def)
  have mem: "u \<in> set ts" if "waits_lock (bb_pc s u) \<or> waits_full (bb_pc s u) \<or> waits_empty (bb_pc s u)" for u
    using that idle by (cases "u \<in> set ts") auto
  show "as_up (bb_lock s) = (b, r) \<Longrightarrow> r = Some u \<Longrightarrow> waits_lock (bb_pc s u) \<and> u \<in> set ts"
    "as_up (bb_nFull s) = (b, r) \<Longrightarrow> r = Some u \<Longrightarrow> waits_full (bb_pc s u) \<and> u \<in> set ts"
    "as_up (bb_nEmpty s) = (b, r) \<Longrightarrow> r = Some u \<Longrightarrow> waits_empty (bb_pc s u) \<and> u \<in> set ts"
    using as_waits_up(2) [OF A(1)] as_waits_up(2) [OF A(2)] as_waits_up(2) [OF A(3)] mem by fastforce+
qed

lemma up_count: "as_up a = (b, r) \<Longrightarrow> int (as_count b) = int (as_count a) + (case r of None \<Rightarrow> 1 | Some _ \<Rightarrow> 0)"
  by (auto simp: as_up_def split: list.splits)

lemma down_count: "as_down a t = (b, now) \<Longrightarrow> int (as_count b) = int (as_count a) - of_bool now"
  by (auto simp: as_down_def split: if_splits)

lemma n_bounds:
  assumes "tokens_ok N ts s" and "t \<in> set ts"
  shows "bb_n s \<le> N" and "has_empty (bb_pc s t) \<Longrightarrow> bb_n s < N" and "has_full (bb_pc s t) \<Longrightarrow> 0 < bb_n s"
  using assms tally_nonneg [of ts has_full "bb_pc s"] tally_nonneg [of ts has_empty "bb_pc s"]
    tally_pos [of t ts has_full "bb_pc s"] tally_pos [of t ts has_empty "bb_pc s"]
  by (auto simp: tokens_ok_def)

lemma tokens_step:
  assumes st: "bb_step N ts s t s'" and w: "waits_ok ts s" and ok: "tokens_ok N ts s"
    and d: "distinct ts" and N: "N \<le> 2 ^ 31"
  shows "tokens_ok N ts s'"
  using st
proof cases
  case (put_empty v e now)
  then show ?thesis
    using ok down_count [OF put_empty(4)] by (cases "now") (simp_all add: tokens_ok_def tally_update [OF d])
next
  case (put_lock v l now)
  then show ?thesis
    using ok down_count [OF put_lock(4)] by (cases "now") (simp_all add: tokens_ok_def tally_update [OF d])
next
  case (put_inc v)
  then have "bb_n s + 1 < 2 ^ 32" using n_bounds(1) [OF ok put_inc(2)] N by simp
  then show ?thesis using put_inc ok by (simp add: tokens_ok_def tally_update [OF d])
next
  case (put_unlock l r)
  have u: "waits_lock (bb_pc s u) \<and> u \<in> set ts \<and> u \<noteq> t" if "r = Some u" for u
    using waiting_facts(1) [OF w put_unlock(4) that] put_unlock(3) by auto
  show ?thesis
    using ok put_unlock(2,3) up_count [OF put_unlock(4)] u woken_tokens(1) [of "bb_pc s (the r)"]
    by (cases r) (simp_all add: tokens_ok_def put_unlock(1) wake_def tally_update [OF d])
next
  case (put_full f r)
  have u: "waits_full (bb_pc s u) \<and> u \<in> set ts \<and> u \<noteq> t" if "r = Some u" for u
    using waiting_facts(2) [OF w put_full(4) that] put_full(3) by auto
  show ?thesis
    using ok put_full(2,3) up_count [OF put_full(4)] u woken_tokens(2) [of "bb_pc s (the r)"]
    by (cases r) (simp_all add: tokens_ok_def put_full(1) wake_def tally_update [OF d])
next
  case (get_full f now)
  then show ?thesis
    using ok down_count [OF get_full(4)] by (cases "now") (simp_all add: tokens_ok_def tally_update [OF d])
next
  case (get_lock l now)
  then show ?thesis
    using ok down_count [OF get_lock(4)] by (cases "now") (simp_all add: tokens_ok_def tally_update [OF d])
next
  case (get_dec v)
  then have "0 < bb_n s" "bb_n s \<le> 2 ^ 31" using n_bounds(1,3) [OF ok get_dec(2)] N by auto
  then have "(bb_n s + 2 ^ 32 - 1) mod 2 ^ 32 = bb_n s - 1"
    by (cases "bb_n s") auto
  moreover have "int (bb_n s - 1) = int (bb_n s) - 1" using \<open>0 < bb_n s\<close> by simp
  ultimately show ?thesis using get_dec ok by (simp add: tokens_ok_def tally_update [OF d])
next
  case (get_unlock v l r)
  have u: "waits_lock (bb_pc s u) \<and> u \<in> set ts \<and> u \<noteq> t" if "r = Some u" for u
    using waiting_facts(1) [OF w get_unlock(4) that] get_unlock(3) by auto
  show ?thesis
    using ok get_unlock(2,3) up_count [OF get_unlock(4)] u woken_tokens(1) [of "bb_pc s (the r)"]
    by (cases r) (simp_all add: tokens_ok_def get_unlock(1) wake_def tally_update [OF d])
next
  case (get_empty v e r)
  have u: "waits_empty (bb_pc s u) \<and> u \<in> set ts \<and> u \<noteq> t" if "r = Some u" for u
    using waiting_facts(3) [OF w get_empty(4) that] get_empty(3) by auto
  show ?thesis
    using ok get_empty(2,3) up_count [OF get_empty(4)] u woken_tokens(3) [of "bb_pc s (the r)"]
    by (cases r) (simp_all add: tokens_ok_def get_empty(1) wake_def tally_update [OF d])
qed (use ok in \<open>simp add: tokens_ok_def tally_update [OF d]\<close>)+

section \<open>The contents\<close>

lemma content_snoc: "content N d h (Suc n) = content N d h n @ [d ! ((h + n) mod N)]"
  by (simp add: content_def)

lemma content_Cons:
  assumes "h < N"
  shows "content N d h (Suc n) = d ! h # content N d ((h + 1) mod N) n"
proof -
  have "[0..<Suc n] = 0 # map Suc [0..<n]" by (simp add: map_Suc_upt upt_conv_Cons del: upt_Suc)
  then show ?thesis using assms by (simp add: content_def o_def mod_add_left_eq del: upt_Suc)
qed

lemma content_update:
  assumes "n < N" and "h < N" and "length d = N"
  shows "content N (d[(h + n) mod N := v]) h n = content N d h n"
proof -
  have "(h + n) mod N \<noteq> (h + i) mod N" if "i < n" for i
  proof
    assume "(h + n) mod N = (h + i) mod N"
    moreover have "h + i \<le> h + n" using that by simp
    ultimately have "N dvd (h + n) - (h + i)" using mod_eq_dvd_iff_nat by blast
    then have "N dvd n - i" by simp
    then have "N \<le> n - i" using that by (simp add: dvd_imp_le)
    then show False using that assms(1) by simp
  qed
  then show ?thesis using assms(1,3) by (simp add: content_def nth_list_update)
qed

text \<open>The program counters that carry a fact about the data.\<close>

fun bearing :: "'a bb_pc \<Rightarrow> bool" where
  "bearing (PInc v) = True" | "bearing (GHead v) = True" | "bearing (GDec v) = True" | "bearing p = False"

definition pc_data :: "nat \<Rightarrow> 'a bb \<Rightarrow> 'a bb_pc \<Rightarrow> bool" where
  "pc_data N s p \<longleftrightarrow>
     (case p of
        PInc v \<Rightarrow> bb_data s ! ((bb_head s + bb_n s) mod N) = v
      | GHead v \<Rightarrow> v = bb_data s ! bb_head s
      | GDec v \<Rightarrow> bb_put s = bb_got s @ v # content N (bb_data s) (bb_head s) (bb_n s - 1)
      | _ \<Rightarrow> True)"

lemma pc_data_trivial: "\<not> bearing p \<Longrightarrow> pc_data N s p"
  by (cases p) (simp_all add: pc_data_def)

lemma data_ok_alt:
  "data_ok N s \<longleftrightarrow> length (bb_data s) = N \<and> bb_head s < N \<and> (\<forall>t. pc_data N s (bb_pc s t)) \<and>
     ((\<forall>t v. bb_pc s t \<noteq> GDec v) \<longrightarrow> bb_put s = bb_got s @ content N (bb_data s) (bb_head s) (bb_n s))"
  by (simp add: data_ok_def pc_data_def)

lemma data_same:
  assumes ok: "data_ok N s"
    and eq: "bb_head s' = bb_head s" "bb_n s' = bb_n s" "bb_data s' = bb_data s" "bb_put s' = bb_put s"
      "bb_got s' = bb_got s"
    and pc: "\<And>u. bearing (bb_pc s' u) \<or> bearing (bb_pc s u) \<Longrightarrow> bb_pc s' u = bb_pc s u"
  shows "data_ok N s'"
proof -
  have "pc_data N s' (bb_pc s' u)" for u
  proof (cases "bearing (bb_pc s' u)")
    case True
    then have "bb_pc s' u = bb_pc s u" using pc by blast
    moreover have "pc_data N s (bb_pc s u)" using ok by (simp add: data_ok_alt)
    ultimately show ?thesis using eq \<open>bb_pc s' u = bb_pc s u\<close>
      by (cases "bb_pc s u") (simp_all add: pc_data_def)
  qed (rule pc_data_trivial)
  moreover have "bb_pc s u \<noteq> GDec v" if "\<And>u v. bb_pc s' u \<noteq> GDec v" for u v
    using pc [of u] that [of u v] by auto
  ultimately show ?thesis using ok eq unfolding data_ok_alt by simp
qed

lemma data_own:
  assumes only: "\<And>u. u \<noteq> t \<Longrightarrow> \<not> bearing (bb_pc s u)" and pc: "bb_pc s' = (bb_pc s)(t := p)"
    and "length (bb_data s') = N" and "bb_head s' < N" and "pc_data N s' p"
    and "(\<forall>v. p \<noteq> GDec v) \<Longrightarrow> bb_put s' = bb_got s' @ content N (bb_data s') (bb_head s') (bb_n s')"
  shows "data_ok N s'"
proof -
  have "pc_data N s' (bb_pc s' u)" for u
    using only [of u] pc assms(5) pc_data_trivial by (cases "u = t") auto
  moreover have "\<forall>v. p \<noteq> GDec v" if "\<forall>u v. bb_pc s' u \<noteq> GDec v"
    using that pc by (metis fun_upd_same)
  ultimately show ?thesis using assms(3,4,6) unfolding data_ok_alt by blast
qed

lemma inside_bearing: "bearing p \<Longrightarrow> inside p"
  by (cases p) simp_all

lemma wake_bearing:
  assumes "\<not> bearing ((pc :: nat \<Rightarrow> 'a bb_pc) t)" and "\<not> bearing x" and "\<And>u. r = Some u \<Longrightarrow> \<not> bearing (pc u) \<and> \<not> bearing (woken (pc u))"
    and "\<not> bearing (woken x)"
  shows "bearing (wake r (pc(t := x)) u) \<or> bearing (pc u) \<Longrightarrow> wake r (pc(t := x)) u = pc u"
  using assms by (auto simp: wake_def split: option.splits if_splits)

lemma waiting_bearing:
  "waits_lock p \<or> waits_full p \<or> waits_empty p \<Longrightarrow> \<not> bearing p \<and> \<not> bearing (woken p)"
  by (cases p) simp_all

lemma data_wake:
  assumes ok: "data_ok N s"
    and eq: "bb_head s' = bb_head s" "bb_n s' = bb_n s" "bb_data s' = bb_data s" "bb_put s' = bb_put s"
      "bb_got s' = bb_got s" "bb_pc s' = wake r ((bb_pc s)(t := x))"
    and x: "\<not> bearing (bb_pc s t)" "\<not> bearing x" "\<not> bearing (woken x)"
    and r: "\<And>u. r = Some u \<Longrightarrow> waits_lock (bb_pc s u) \<or> waits_full (bb_pc s u) \<or> waits_empty (bb_pc s u)"
  shows "data_ok N s'"
proof (rule data_same [OF ok eq(1-5)])
  fix u assume b: "bearing (bb_pc s' u) \<or> bearing (bb_pc s u)"
  have "\<not> bearing (bb_pc s u) \<and> \<not> bearing (woken (bb_pc s u))" if "r = Some u" for u
    using r [OF that] waiting_bearing by blast
  from wake_bearing [where pc = "bb_pc s" and t = t, OF x(1,2) this x(3)] b show "bb_pc s' u = bb_pc s u" unfolding eq(6) by blast
qed

lemma data_step:
  assumes st: "bb_step N ts s t s'" and w: "waits_ok ts s" and tok: "tokens_ok N ts s" and ok: "data_ok N s"
    and d: "distinct ts" and N: "N \<le> 2 ^ 31"
  shows "data_ok N s'"
proof -
  have len: "length (bb_data s) = N" and h: "bb_head s < N" and pcd: "\<And>u. pc_data N s (bb_pc s u)"
    using ok by (simp_all add: data_ok_alt)
  have idle: "bb_pc s u = Idle" if "u \<notin> set ts" for u using w that by (simp add: waits_ok_def)
  have one: "tally ts inside (bb_pc s) \<le> 1" using tok by (simp add: tokens_ok_def)
  have only: "\<not> bearing (bb_pc s u)" if "t \<in> set ts" "inside (bb_pc s t)" "u \<noteq> t" for u
    using tally_unique [OF one that(1) _ that(2) _ d, of u] idle [of u] that(3) inside_bearing
    by (cases "u \<in> set ts") auto
  have clean: "bb_put s = bb_got s @ content N (bb_data s) (bb_head s) (bb_n s)"
    if "t \<in> set ts" "inside (bb_pc s t)" "\<forall>v. bb_pc s t \<noteq> GDec v"
  proof -
    have "bb_pc s u \<noteq> GDec v" for u v using only [OF that(1,2), of u] that(3) by (cases "u = t") auto
    then show ?thesis using ok by (simp add: data_ok_alt)
  qed
  have nN: "bb_n s \<le> N" if "t \<in> set ts" using n_bounds(1) [OF tok that] .
  show ?thesis
    using st
  proof cases
    case (put_write v)
    have n: "bb_n s < N" using n_bounds(2) [OF tok put_write(2)] put_write(3) by simp
    have i: "(bb_head s + bb_n s) mod 2 ^ 32 mod N = (bb_head s + bb_n s) mod N"
      using h n N by simp
    have "(bb_head s + bb_n s) mod N < N" using n by simp
    then have pcd': "pc_data N s' (PInc v)" using len i by (simp add: pc_data_def put_write(1))
    have cl: "bb_put s = bb_got s @ content N (bb_data s) (bb_head s) (bb_n s)"
      using clean put_write(2,3) by simp
    show ?thesis
      by (rule data_own [where t = t and p = "PInc v" and s = s])
        (use only put_write(2,3) len h pcd' cl content_update [OF n h len] i in
          \<open>simp_all add: put_write(1)\<close>)
  next
    case (put_inc v)
    have n: "bb_n s < N" using n_bounds(2) [OF tok put_inc(2)] put_inc(3) by simp
    have i: "Suc (bb_n s) mod 4294967296 = Suc (bb_n s)" using n N by simp
    have v: "bb_data s ! ((bb_head s + bb_n s) mod N) = v"
      using pcd [of t] put_inc(3) by (simp add: pc_data_def)
    show ?thesis
      by (rule data_own [where t = t and p = PUnlock and s = s])
        (use only put_inc(2,3) len h clean v in \<open>simp_all add: put_inc(1) i content_snoc pc_data_def\<close>)
  next
    case get_read
    show ?thesis
      by (rule data_own [where t = t and p = "GHead (bb_data s ! bb_head s)" and s = s])
        (use only get_read(2,3) len h clean in \<open>simp_all add: get_read(1) pc_data_def\<close>)
  next
    case (get_head v)
    have n: "0 < bb_n s" using n_bounds(3) [OF tok get_head(2)] get_head(3) by simp
    have v: "v = bb_data s ! bb_head s" using pcd [of t] get_head(3) by (simp add: pc_data_def)
    have i: "Suc (bb_head s) mod 4294967296 mod N = Suc (bb_head s) mod N" using h N by simp
    have "bb_put s = bb_got s @ v # content N (bb_data s) ((bb_head s + 1) mod N) (bb_n s - 1)"
      using clean get_head(2,3) content_Cons [OF h, of "bb_data s" "bb_n s - 1"] n v by simp
    then show ?thesis
      using h by (intro data_own [where t = t and p = "GDec v" and s = s])
        (use only get_head(2,3) len in \<open>simp_all add: get_head(1) i pc_data_def\<close>)
  next
    case (get_dec v)
    have n: "0 < bb_n s" "bb_n s \<le> 2 ^ 31" using n_bounds(3) [OF tok get_dec(2)] get_dec(3) nN [OF get_dec(2)] N by auto
    then have i: "(4294967295 + bb_n s) mod 4294967296 = bb_n s - 1" by (cases "bb_n s") auto
    have "bb_put s = bb_got s @ v # content N (bb_data s) (bb_head s) (bb_n s - 1)"
      using pcd [of t] get_dec(3) by (simp add: pc_data_def)
    then show ?thesis
      by (intro data_own [where t = t and p = "GUnlock v" and s = s])
        (use only get_dec(2,3) len h in \<open>simp_all add: get_dec(1) i pc_data_def\<close>)
  next
    case (put_unlock l r)
    show ?thesis
      by (rule data_wake [where t = t and r = r and x = "PFull", OF ok])
        (use put_unlock(3) waiting_facts(1) [OF w put_unlock(4)] in \<open>simp_all add: put_unlock(1)\<close>)
  next
    case (put_full f r)
    show ?thesis
      by (rule data_wake [where t = t and r = r and x = "Idle", OF ok])
        (use put_full(3) waiting_facts(2) [OF w put_full(4)] in \<open>simp_all add: put_full(1)\<close>)
  next
    case (get_unlock v l r)
    show ?thesis
      by (rule data_wake [where t = t and r = r and x = "GEmpty v", OF ok])
        (use get_unlock(3) waiting_facts(1) [OF w get_unlock(4)] in \<open>simp_all add: get_unlock(1)\<close>)
  next
    case (get_empty v e r)
    show ?thesis
      by (rule data_wake [where t = t and r = r and x = "Idle", OF ok])
        (use get_empty(3) waiting_facts(3) [OF w get_empty(4)] in \<open>simp_all add: get_empty(1)\<close>)
  qed (rule data_same [OF ok]; auto split: if_splits)+
qed

section \<open>Every interleaving\<close>

definition bb_ok :: "nat \<Rightarrow> nat list \<Rightarrow> 'a bb \<Rightarrow> bool" where
  "bb_ok N ts s \<longleftrightarrow> waits_ok ts s \<and> tokens_ok N ts s \<and> data_ok N s"

lemma bb_new_ok: "0 < N \<Longrightarrow> length d = N \<Longrightarrow> bb_ok N ts (bb_new N d)"
proof -
  assume "0 < N" "length d = N"
  then show ?thesis
    by (simp add: bb_ok_def bb_new_def waits_ok_def tokens_ok_def data_ok_alt pc_data_trivial content_def
        tally_zero o_def as_waits_def as_new_def as_ok_def)
qed

lemma bb_reachable_ok:
  assumes "reachable (bb_step N ts) (bb_new N d) s" and "0 < N" and "N \<le> 2 ^ 31" and "length d = N"
    and "distinct ts"
  shows "bb_ok N ts s"
  using assms(1)
proof (rule reachable_invariant)
  show "bb_ok N ts (bb_new N d)" using bb_new_ok assms by blast
  fix u t u' assume "bb_ok N ts u" "bb_step N ts u t u'"
  then show "bb_ok N ts u'"
    using waits_step tokens_step data_step assms(3,5) unfolding bb_ok_def by blast
qed

text \<open>No thread can take a step of a call it has begun.\<close>

definition bb_quiet :: "'a bb \<Rightarrow> bool" where
  "bb_quiet s \<longleftrightarrow> (\<forall>t. bb_pc s t = Idle \<or> waits_empty (bb_pc s t) \<or> waits_full (bb_pc s t) \<or> waits_lock (bb_pc s t))"

lemma bb_quiet_waits:
  assumes ok: "bb_ok N ts s" and q: "bb_quiet s"
  shows "\<not> waits_lock (bb_pc s t)" and "waits_empty (bb_pc s t) \<Longrightarrow> bb_n s = N"
    and "waits_full (bb_pc s t) \<Longrightarrow> bb_n s = 0"
proof -
  have w: "waits_ok ts s" and tok: "tokens_ok N ts s" using ok by (simp_all add: bb_ok_def)
  have in0: "\<not> inside (bb_pc s u)" for u
    using q by (cases "bb_pc s u") (auto simp: bb_quiet_def dest: spec [of _ u])
  have "as_count (bb_lock s) = 1" using tok in0 by (simp add: tokens_ok_def tally_zero)
  then have nl: "\<not> waits_lock (bb_pc s u)" for u
    using w by (auto simp: waits_ok_def as_waits_def as_ok_def)
  have "\<not> has_full (bb_pc s u)" "\<not> has_empty (bb_pc s u)" for u
    using q nl [of u] by (cases "bb_pc s u"; auto simp: bb_quiet_def dest: spec [of _ u])+
  then have "as_count (bb_nFull s) = bb_n s" "as_count (bb_nEmpty s) + bb_n s = N"
    using tok by (simp_all add: tokens_ok_def tally_zero flip: of_nat_add)
  moreover have "as_count (bb_nEmpty s) = 0" if "waits_empty (bb_pc s t)"
    using w that by (auto simp: waits_ok_def as_waits_def as_ok_def)
  moreover have "as_count (bb_nFull s) = 0" if "waits_full (bb_pc s t)"
    using w that by (auto simp: waits_ok_def as_waits_def as_ok_def)
  ultimately show "\<not> waits_lock (bb_pc s t)" "waits_empty (bb_pc s t) \<Longrightarrow> bb_n s = N"
    "waits_full (bb_pc s t) \<Longrightarrow> bb_n s = 0" using nl by auto
qed

lemma bb_queue:
  assumes "bb_ok N ts s"
  shows "\<exists>q. bb_put s = bb_got s @ q \<and> length q = bb_n s"
proof (cases "\<exists>t v. bb_pc s t = GDec v")
  case True
  then obtain t v where t: "bb_pc s t = GDec v" by blast
  have w: "waits_ok ts s" and tok: "tokens_ok N ts s" and dat: "data_ok N s" using assms by (simp_all add: bb_ok_def)
  have "t \<in> set ts" using w t by (auto simp: waits_ok_def)
  then have "0 < bb_n s" using n_bounds(3) [OF tok, of t] t by simp
  moreover have "pc_data N s (GDec v)" using dat t by (metis data_ok_alt)
  ultimately show ?thesis by (simp add: pc_data_def content_def)
next
  case False
  then show ?thesis using assms by (auto simp: bb_ok_def data_ok_alt content_def)
qed

text \<open>
  C17. The bounded buffer (\<^verbatim>\<open>kernel/bb.h\<close>), for any number of threads that call \<open>put\<close> and \<open>get\<close> in any
  interleaving and any capacity up to \<open>2 ^ 31\<close>: at most one thread is between the two lock
  operations, \<open>n\<close> never exceeds the capacity, the values fetched are, in order, the first values
  stored and \<open>n\<close> of them are still held; and when no thread can go on with its call, nobody
  waits for the lock, a blocked producer means that the buffer is full and a blocked consumer
  that it is empty.
\<close>

theorem bounded_buffer_correct:
  assumes "0 < N" and "N \<le> 2 ^ 31" and "length d = N" and "distinct ts"
    and "reachable (bb_step N ts) (bb_new N d) s"
  shows "tally ts inside (bb_pc s) \<le> 1 \<and> bb_n s \<le> N
    \<and> (\<exists>q. bb_put s = bb_got s @ q \<and> length q = bb_n s)
    \<and> (bb_quiet s \<longrightarrow> (\<forall>t. \<not> waits_lock (bb_pc s t) \<and> (waits_empty (bb_pc s t) \<longrightarrow> bb_n s = N)
         \<and> (waits_full (bb_pc s t) \<longrightarrow> bb_n s = 0)))"
proof -
  have ok: "bb_ok N ts s" using bb_reachable_ok [OF assms(5,1,2,3,4)] .
  then have tok: "tokens_ok N ts s" by (simp add: bb_ok_def)
  then have "int (bb_n s) \<le> int N" using tally_nonneg [of ts has_empty "bb_pc s"] by (simp add: tokens_ok_def)
  moreover have "tally ts inside (bb_pc s) \<le> 1" using tok by (simp add: tokens_ok_def)
  ultimately show ?thesis using bb_queue [OF ok] bb_quiet_waits [OF ok] by simp
qed

theorem bounded_buffer_correct_witness:
  "\<exists>s :: nat bb. bb_pc s 7 = PWrite 5 \<and> tally [7, 8] inside (bb_pc s) \<le> 1 \<and> bb_n s \<le> 2"
proof -
  let ?s0 = "bb_new 2 [0, 0] :: nat bb"
  let ?s1 = "go ?s0 7 (PEmpty 5)"
  let ?s2 = "?s1\<lparr>bb_nEmpty := fst (as_down (bb_nEmpty ?s1) 7), bb_pc := (bb_pc ?s1)(7 := if True then PLock 5 else PEmptyW 5)\<rparr>"
  let ?s3 = "?s2\<lparr>bb_lock := fst (as_down (bb_lock ?s2) 7), bb_pc := (bb_pc ?s2)(7 := if True then PWrite 5 else PLockW 5)\<rparr>"
  have "bb_step 2 [7, 8] ?s0 7 ?s1" by (rule put_call) (simp_all add: bb_new_def)
  moreover have "bb_step 2 [7, 8] ?s1 7 ?s2" by (rule put_empty) (simp_all add: bb_new_def as_new_def as_down_def)
  moreover have "bb_step 2 [7, 8] ?s2 7 ?s3" by (rule put_lock) (simp_all add: bb_new_def as_new_def as_down_def)
  ultimately have "reachable (bb_step 2 [7, 8]) ?s0 ?s3" by (meson reachable.intros)
  from bounded_buffer_correct [OF _ _ _ _ this] have "tally [7, 8] inside (bb_pc ?s3) \<le> 1 \<and> bb_n ?s3 \<le> 2" by simp
  moreover have "bb_pc ?s3 7 = PWrite 5" by simp
  ultimately show ?thesis by blast
qed

end
