(* ===== verification/Snprintf.thy ===== *)
theory Snprintf
  imports Prelude
begin

text \<open>
  Formatted output, \<^verbatim>\<open>kernel/snprintf.cc\<close>: the state machine \<^verbatim>\<open>dopr\<close> over the format and the argument
  list, and the conversions \<^verbatim>\<open>fmtstr\<close>, \<^verbatim>\<open>fmtint\<close> and \<^verbatim>\<open>fmtfp\<close>. The \<^verbatim>\<open>OutputStream\<close> is a state of any type with its
  operation \<open>put\<close>. Memory is read through the arguments \<open>fmt\<close> (the bytes from the format pointer
  on, the terminator and what follows it included), \<open>cstr\<close> (the string at an address) and \<open>args\<close>
  (the words of the argument list); the places \<open>%n\<close> writes to are collected and are taken to be
  distinct from what is read. The operations of the floating point unit are parameters.
  Signed 32-bit variables are integers, with \<open>s32\<close> around every operation that can overflow.
\<close>

section \<open>Signed 32-bit integers\<close>

definition s32 :: "int \<Rightarrow> int" where
  "s32 x = (x + 2 ^ 31) mod 2 ^ 32 - 2 ^ 31"

lemma s32_id: "- (2 ^ 31) \<le> x \<Longrightarrow> x < 2 ^ 31 \<Longrightarrow> s32 x = x"
  by (simp add: s32_def)

lemma s32_range: "- (2 ^ 31) \<le> s32 x" "s32 x < 2 ^ 31"
  using pos_mod_bound [of "2 ^ 32" "x + 2 ^ 31"] by (simp_all add: s32_def)

section \<open>Flags\<close>

abbreviation NUL :: char where "NUL \<equiv> CHR 0x00"

type_synonym flags = u32

definition DP_F_MINUS :: flags where "DP_F_MINUS = 1"
definition DP_F_PLUS :: flags where "DP_F_PLUS = 2"
definition DP_F_SPACE :: flags where "DP_F_SPACE = 4"
definition DP_F_NUM :: flags where "DP_F_NUM = 8"
definition DP_F_ZERO :: flags where "DP_F_ZERO = 16"
definition DP_F_UP :: flags where "DP_F_UP = 32"
definition DP_F_UNSIGNED :: flags where "DP_F_UNSIGNED = 64"

definition has :: "flags \<Rightarrow> flags \<Rightarrow> bool" where
  "has fl b \<longleftrightarrow> fl AND b \<noteq> 0"

lemmas flag_defs = DP_F_MINUS_def DP_F_PLUS_def DP_F_SPACE_def DP_F_NUM_def DP_F_ZERO_def DP_F_UP_def
  DP_F_UNSIGNED_def

lemma has_or: "has (a OR b) c \<longleftrightarrow> has a c \<or> has b c"
  by (simp add: has_def bit.conj_disj_distrib2 or_eq_0_iff)

lemma has_0 [simp]: "\<not> has 0 c"
  by (simp add: has_def)

section \<open>Output\<close>

record 'o sink =
  currlen :: int
  out :: 'o

definition dopr_outch :: "(char \<Rightarrow> 'o \<Rightarrow> 'o) \<Rightarrow> char \<Rightarrow> 'o sink \<Rightarrow> 'o sink" where
  "dopr_outch put c s = \<lparr>currlen = s32 (currlen s + 1), out = put c (out s)\<rparr>"

text \<open>A loop that puts the same character \<open>n\<close> times.\<close>

fun out_repeat :: "(char \<Rightarrow> 'o \<Rightarrow> 'o) \<Rightarrow> nat \<Rightarrow> char \<Rightarrow> 'o sink \<Rightarrow> 'o sink" where
  "out_repeat put 0 c s = s"
| "out_repeat put (Suc n) c s = out_repeat put n c (dopr_outch put c s)"

text \<open>The loop that puts a buffer of digits from its last one on.\<close>

fun out_digits :: "(char \<Rightarrow> 'o \<Rightarrow> 'o) \<Rightarrow> string \<Rightarrow> nat \<Rightarrow> 'o sink \<Rightarrow> 'o sink" where
  "out_digits put convert 0 s = s"
| "out_digits put convert (Suc place) s = out_digits put convert place (dopr_outch put (convert ! place) s)"

section \<open>Strings\<close>

text \<open>The two padding loops and the copying loop of \<^verbatim>\<open>fmtstr\<close>, with the counter \<open>cnt\<close>.\<close>

fun str_pad :: "(char \<Rightarrow> 'o \<Rightarrow> 'o) \<Rightarrow> nat \<Rightarrow> int \<Rightarrow> int \<Rightarrow> 'o sink \<Rightarrow> int \<times> 'o sink" where
  "str_pad put 0 cnt mx s = (cnt, s)"
| "str_pad put (Suc n) cnt mx s =
     (if cnt < mx then str_pad put n (s32 (cnt + 1)) mx (dopr_outch put CHR '' '' s) else (cnt, s))"

fun str_copy :: "(char \<Rightarrow> 'o \<Rightarrow> 'o) \<Rightarrow> string \<Rightarrow> int \<Rightarrow> int \<Rightarrow> 'o sink \<Rightarrow> int \<times> 'o sink" where
  "str_copy put [] cnt mx s = (cnt, s)"
| "str_copy put (c # cs) cnt mx s =
     (if cnt < mx then str_copy put cs (s32 (cnt + 1)) mx (dopr_outch put c s) else (cnt, s))"

definition fmtstr :: "(char \<Rightarrow> 'o \<Rightarrow> 'o) \<Rightarrow> string option \<Rightarrow> flags \<Rightarrow> int \<Rightarrow> int \<Rightarrow> 'o sink \<Rightarrow> 'o sink" where
  "fmtstr put value flags mn mx s =
     (let value = (case value of None \<Rightarrow> ''<NULL>'' | Some v \<Rightarrow> v);
          strln = int (length value);
          padlen = s32 (mn - strln);
          padlen = (if padlen < 0 then 0 else padlen);
          padlen = (if has flags DP_F_MINUS then - padlen else padlen);
          (cnt, s) = str_pad put (nat padlen) 0 mx s;
          (cnt, s) = str_copy put value cnt mx s;
          (cnt, s) = str_pad put (nat (- padlen)) cnt mx s
      in s)"

section \<open>Integers\<close>

definition digit_table :: "bool \<Rightarrow> string" where
  "digit_table caps = (if caps then ''0123456789ABCDEF'' else ''0123456789abcdef'')"

text \<open>The conversion loop, with \<open>room\<close> places of the buffer left.\<close>

fun convert_loop :: "string \<Rightarrow> nat \<Rightarrow> nat \<Rightarrow> nat \<Rightarrow> string" where
  "convert_loop tab base uvalue 0 = []"
| "convert_loop tab base uvalue (Suc room) =
     tab ! (uvalue mod base) #
     (if uvalue div base \<noteq> 0 \<and> room \<noteq> 0 then convert_loop tab base (uvalue div base) room else [])"

definition fmtint ::
  "(char \<Rightarrow> 'o \<Rightarrow> 'o) \<Rightarrow> int \<Rightarrow> nat \<Rightarrow> int \<Rightarrow> int \<Rightarrow> flags \<Rightarrow> 'o sink \<Rightarrow> 'o sink" where
  "fmtint put value base mn mx flags s =
     (let mx = (if mx < 0 then 0 else mx);
          unsigned = has flags DP_F_UNSIGNED;
          signvalue =
            (if unsigned then None
             else if value < 0 then Some CHR ''-''
             else if has flags DP_F_PLUS then Some CHR ''+''
             else if has flags DP_F_SPACE then Some CHR '' '' else None);
          uvalue = nat ((if \<not> unsigned \<and> value < 0 then - value else value) mod 2 ^ 32);
          caps = has flags DP_F_UP;
          convert = convert_loop (digit_table caps) base uvalue 20;
          place = (if length convert = 20 then 19 else length convert);
          zpadlen = mx - int place;
          spadlen = s32 (s32 (mn - max mx (int place)) - (if signvalue = None then 0 else 1));
          zpadlen = (if zpadlen < 0 then 0 else zpadlen);
          spadlen = (if spadlen < 0 then 0 else spadlen);
          (zpadlen, spadlen) = (if has flags DP_F_ZERO then (max zpadlen spadlen, 0) else (zpadlen, spadlen));
          spadlen = (if has flags DP_F_MINUS then - spadlen else spadlen);
          s = out_repeat put (nat spadlen) CHR '' '' s;
          s = (case signvalue of None \<Rightarrow> s | Some c \<Rightarrow> dopr_outch put c s);
          s = out_repeat put (nat zpadlen) CHR ''0'' s;
          s = out_digits put convert place s;
          s = out_repeat put (nat (- spadlen)) CHR '' '' s
      in s)"

section \<open>Floating point\<close>

text \<open>
  The operations of the floating point unit on \<^verbatim>\<open>long double\<close>: conversions from and to \<^verbatim>\<open>long\<close>, the
  two formats in which an argument can come, arithmetic and comparison.
\<close>

record 'f fpu =
  fp_of_long :: "int \<Rightarrow> 'f"
  fp_to_long :: "'f \<Rightarrow> int"
  fp_of_double :: "u32 \<Rightarrow> u32 \<Rightarrow> 'f"
  fp_of_ldouble :: "u32 \<Rightarrow> u32 \<Rightarrow> u32 \<Rightarrow> 'f"
  fp_neg :: "'f \<Rightarrow> 'f"
  fp_sub :: "'f \<Rightarrow> 'f \<Rightarrow> 'f"
  fp_mul :: "'f \<Rightarrow> 'f \<Rightarrow> 'f"
  fp_less :: "'f \<Rightarrow> 'f \<Rightarrow> bool"
  fp_le :: "'f \<Rightarrow> 'f \<Rightarrow> bool"
  fp_half :: 'f

definition abs_val :: "'f fpu \<Rightarrow> 'f \<Rightarrow> 'f" where
  "abs_val U value = (if fp_less U value (fp_of_long U 0) then fp_neg U value else value)"

fun pow10_loop :: "'f fpu \<Rightarrow> nat \<Rightarrow> 'f \<Rightarrow> 'f" where
  "pow10_loop U 0 result = result"
| "pow10_loop U (Suc e) result = pow10_loop U e (fp_mul U result (fp_of_long U 10))"

definition pow10 :: "'f fpu \<Rightarrow> nat \<Rightarrow> 'f" where
  "pow10 U e = pow10_loop U e (fp_of_long U 1)"

definition xround :: "'f fpu \<Rightarrow> 'f \<Rightarrow> int" where
  "xround U value =
     (let intpart = fp_to_long U value;
          value = fp_sub U value (fp_of_long U intpart)
      in if fp_le U (fp_half U) value then s32 (intpart + 1) else intpart)"

text \<open>
  \<^verbatim>\<open>intpart % 10\<close> indexes the table, so a negative part reads outside it: \<open>None\<close>. The table is
  that of the lower case digits, \<^verbatim>\<open>caps\<close> is never set.
\<close>

definition convert_part :: "int \<Rightarrow> string option" where
  "convert_part n =
     (if n < 0 then None
      else let convert = convert_loop (digit_table False) 10 (nat n) 20
           in Some (if length convert = 20 then take 19 convert else convert))"

definition fmtfp ::
  "'f fpu \<Rightarrow> (char \<Rightarrow> 'o \<Rightarrow> 'o) \<Rightarrow> 'f \<Rightarrow> int \<Rightarrow> int \<Rightarrow> flags \<Rightarrow> 'o sink \<Rightarrow> 'o sink option" where
  "fmtfp U put fvalue mn mx flags s =
     (let mx = (if mx < 0 then 6 else mx);
          ufvalue = abs_val U fvalue;
          signvalue =
            (if fp_less U fvalue (fp_of_long U 0) then Some CHR ''-''
             else if has flags DP_F_PLUS then Some CHR ''+''
             else if has flags DP_F_SPACE then Some CHR '' '' else None);
          intpart = fp_to_long U ufvalue;
          mx = (if mx > 9 then 9 else mx);
          fracpart = xround U (fp_mul U (pow10 U (nat mx)) (fp_sub U ufvalue (fp_of_long U intpart)));
          (intpart, fracpart) =
            (if fp_le U (pow10 U (nat mx)) (fp_of_long U fracpart)
             then (s32 (intpart + 1), fp_to_long U (fp_sub U (fp_of_long U fracpart) (pow10 U (nat mx))))
             else (intpart, fracpart))
      in case (convert_part intpart, convert_part fracpart) of
           (Some iconvert, Some fconvert) \<Rightarrow>
             (let padlen = s32 (mn - int (length iconvert) - mx - 1 - (if signvalue = None then 0 else 1));
                  zpadlen = mx - int (length fconvert);
                  zpadlen = (if zpadlen < 0 then 0 else zpadlen);
                  padlen = (if padlen < 0 then 0 else padlen);
                  padlen = (if has flags DP_F_MINUS then - padlen else padlen);
                  (s, padlen, signvalue) =
                    (if has flags DP_F_ZERO \<and> padlen > 0 then
                       (let (s, padlen) = (case signvalue of None \<Rightarrow> (s, padlen)
                                           | Some c \<Rightarrow> (dopr_outch put c s, padlen - 1))
                        in (out_repeat put (nat padlen) CHR ''0'' s, min padlen 0, None))
                     else (s, padlen, signvalue));
                  s = out_repeat put (nat padlen) CHR '' '' s;
                  s = (case signvalue of None \<Rightarrow> s | Some c \<Rightarrow> dopr_outch put c s);
                  s = out_digits put iconvert (length iconvert) s;
                  s = (if mx > 0 then out_digits put fconvert (length fconvert) (dopr_outch put CHR ''.'' s) else s);
                  s = out_repeat put (nat zpadlen) CHR ''0'' s
              in Some (out_repeat put (nat (- padlen)) CHR '' '' s))
         | _ \<Rightarrow> None)"

section \<open>The state machine\<close>

datatype dp_state = DP_S_DEFAULT | DP_S_FLAGS | DP_S_MIN | DP_S_DOT | DP_S_MAX | DP_S_MOD | DP_S_CONV | DP_S_DONE

datatype dp_cflags = DP_C_NONE | DP_C_SHORT | DP_C_LONG | DP_C_LDOUBLE

text \<open>
  \<open>d_pos\<close> is the offset of the format pointer, \<open>d_arg\<close> the words of the argument list already used
  and \<open>d_stores\<close> what \<open>%n\<close> has stored: address, bytes and value.
\<close>

record 'o dopr =
  d_state :: dp_state
  d_ch :: char
  d_pos :: nat
  d_min :: int
  d_max :: int
  d_flags :: flags
  d_cflags :: dp_cflags
  d_arg :: nat
  d_sink :: "'o sink"
  d_stores :: "(u32 \<times> nat \<times> int) list"

record 'f dp_env =
  e_fmt :: "nat \<Rightarrow> char"
  e_args :: "nat \<Rightarrow> u32"
  e_cstr :: "u32 \<Rightarrow> string"
  e_fpu :: "'f fpu"
  e_maxlen :: int

definition isdigit :: "char \<Rightarrow> bool" where
  "isdigit c \<longleftrightarrow> of_char CHR ''0'' \<le> (of_char c :: nat) \<and> (of_char c :: nat) \<le> of_char CHR ''9''"

definition char_to_int :: "char \<Rightarrow> int" where
  "char_to_int c = of_char c - of_char CHR ''0''"

text \<open>\<^verbatim>\<open>ch = *format++\<close>, and the next word of the argument list.\<close>

definition next_ch :: "'f dp_env \<Rightarrow> 'o dopr \<Rightarrow> 'o dopr" where
  "next_ch E d = d\<lparr>d_ch := e_fmt E (d_pos d), d_pos := d_pos d + 1\<rparr>"

definition va_word :: "'f dp_env \<Rightarrow> 'o dopr \<Rightarrow> nat \<Rightarrow> u32" where
  "va_word E d i = e_args E (d_arg d + i)"

definition dopr_flags :: "'f dp_env \<Rightarrow> 'o dopr \<Rightarrow> 'o dopr" where
  "dopr_flags E d =
     (if d_ch d = CHR ''-'' then next_ch E (d\<lparr>d_flags := d_flags d OR DP_F_MINUS\<rparr>)
      else if d_ch d = CHR ''+'' then next_ch E (d\<lparr>d_flags := d_flags d OR DP_F_PLUS\<rparr>)
      else if d_ch d = CHR '' '' then next_ch E (d\<lparr>d_flags := d_flags d OR DP_F_SPACE\<rparr>)
      else if d_ch d = CHR ''#'' then next_ch E (d\<lparr>d_flags := d_flags d OR DP_F_NUM\<rparr>)
      else if d_ch d = CHR ''0'' then next_ch E (d\<lparr>d_flags := d_flags d OR DP_F_ZERO\<rparr>)
      else d\<lparr>d_state := DP_S_MIN\<rparr>)"

definition dopr_min :: "'f dp_env \<Rightarrow> 'o dopr \<Rightarrow> 'o dopr" where
  "dopr_min E d =
     (if isdigit (d_ch d) then next_ch E (d\<lparr>d_min := s32 (s32 (10 * d_min d) + char_to_int (d_ch d))\<rparr>)
      else if d_ch d = CHR ''*'' then
        next_ch E (d\<lparr>d_min := sint (va_word E d 0), d_arg := d_arg d + 1, d_state := DP_S_DOT\<rparr>)
      else d\<lparr>d_state := DP_S_DOT\<rparr>)"

definition dopr_dot :: "'f dp_env \<Rightarrow> 'o dopr \<Rightarrow> 'o dopr" where
  "dopr_dot E d =
     (if d_ch d = CHR ''.'' then next_ch E (d\<lparr>d_state := DP_S_MAX\<rparr>) else d\<lparr>d_state := DP_S_MOD\<rparr>)"

definition dopr_max :: "'f dp_env \<Rightarrow> 'o dopr \<Rightarrow> 'o dopr" where
  "dopr_max E d =
     (if isdigit (d_ch d) then
        (let mx = (if d_max d < 0 then 0 else d_max d)
         in next_ch E (d\<lparr>d_max := s32 (s32 (10 * mx) + char_to_int (d_ch d))\<rparr>))
      else if d_ch d = CHR ''*'' then
        next_ch E (d\<lparr>d_max := sint (va_word E d 0), d_arg := d_arg d + 1, d_state := DP_S_MOD\<rparr>)
      else d\<lparr>d_state := DP_S_MOD\<rparr>)"

definition dopr_mod :: "'f dp_env \<Rightarrow> 'o dopr \<Rightarrow> 'o dopr" where
  "dopr_mod E d =
     (if d_ch d = CHR ''h'' then next_ch E (d\<lparr>d_cflags := DP_C_SHORT\<rparr>)
      else if d_ch d = CHR ''l'' then next_ch E (d\<lparr>d_cflags := DP_C_LONG\<rparr>)
      else if d_ch d = CHR ''L'' then next_ch E (d\<lparr>d_cflags := DP_C_LDOUBLE\<rparr>)
      else d)\<lparr>d_state := DP_S_CONV\<rparr>"

text \<open>
  The conversions. The three branches of an integer conversion read the same 32-bit word;
  a \<^verbatim>\<open>double\<close> takes two words and a \<^verbatim>\<open>long double\<close> three. \<open>None\<close>: the read outside the digit table.
\<close>

definition conv_int :: "(char \<Rightarrow> 'o \<Rightarrow> 'o) \<Rightarrow> 'f dp_env \<Rightarrow> nat \<Rightarrow> flags \<Rightarrow> 'o dopr \<Rightarrow> 'o dopr" where
  "conv_int put E base fl d =
     (let d = d\<lparr>d_flags := d_flags d OR fl\<rparr>; value = sint (va_word E d 0)
      in d\<lparr>d_sink := fmtint put value base (d_min d) (d_max d) (d_flags d) (d_sink d), d_arg := d_arg d + 1\<rparr>)"

definition va_float :: "'f dp_env \<Rightarrow> 'o dopr \<Rightarrow> 'f \<times> 'o dopr" where
  "va_float E d =
     (if d_cflags d = DP_C_LDOUBLE
      then (fp_of_ldouble (e_fpu E) (va_word E d 0) (va_word E d 1) (va_word E d 2), d\<lparr>d_arg := d_arg d + 3\<rparr>)
      else (fp_of_double (e_fpu E) (va_word E d 0) (va_word E d 1), d\<lparr>d_arg := d_arg d + 2\<rparr>))"

definition conv_float :: "(char \<Rightarrow> 'o \<Rightarrow> 'o) \<Rightarrow> 'f dp_env \<Rightarrow> 'o dopr \<Rightarrow> 'o dopr option" where
  "conv_float put E d =
     (let (fvalue, d) = va_float E d
      in map_option (\<lambda>s. d\<lparr>d_sink := s\<rparr>) (fmtfp (e_fpu E) put fvalue (d_min d) (d_max d) (d_flags d) (d_sink d)))"

definition conv_str :: "(char \<Rightarrow> 'o \<Rightarrow> 'o) \<Rightarrow> 'f dp_env \<Rightarrow> 'o dopr \<Rightarrow> 'o dopr" where
  "conv_str put E d =
     (let p = va_word E d 0; strvalue = (if p = 0 then None else Some (e_cstr E p));
          mx = (if d_max d < 0 then e_maxlen E else d_max d)
      in d\<lparr>d_max := mx, d_sink := fmtstr put strvalue (d_flags d) (d_min d) mx (d_sink d), d_arg := d_arg d + 1\<rparr>)"

definition conv_count :: "'f dp_env \<Rightarrow> 'o dopr \<Rightarrow> 'o dopr" where
  "conv_count E d =
     (let num = va_word E d 0; n = currlen (d_sink d)
      in d\<lparr>d_stores := d_stores d @ [(num, if d_cflags d = DP_C_SHORT then 2 else 4, n)], d_arg := d_arg d + 1\<rparr>)"

definition dopr_conv :: "(char \<Rightarrow> 'o \<Rightarrow> 'o) \<Rightarrow> 'f dp_env \<Rightarrow> 'o dopr \<Rightarrow> 'o dopr option" where
  "dopr_conv put E d =
     (if d_ch d \<in> {CHR ''d'', CHR ''i''} then Some (conv_int put E 10 0 d)
      else if d_ch d = CHR ''o'' then Some (conv_int put E 8 DP_F_UNSIGNED d)
      else if d_ch d = CHR ''u'' then Some (conv_int put E 10 DP_F_UNSIGNED d)
      else if d_ch d = CHR ''X'' then Some (conv_int put E 16 (DP_F_UP OR DP_F_UNSIGNED) d)
      else if d_ch d = CHR ''x'' then Some (conv_int put E 16 DP_F_UNSIGNED d)
      else if d_ch d = CHR ''f'' then conv_float put E d
      else if d_ch d \<in> {CHR ''E'', CHR ''e'', CHR ''G'', CHR ''g''} then Some (snd (va_float E d))
      else if d_ch d = CHR ''c'' then
        Some (d\<lparr>d_sink := dopr_outch put (char_of (unat (va_word E d 0))) (d_sink d), d_arg := d_arg d + 1\<rparr>)
      else if d_ch d = CHR ''s'' then Some (conv_str put E d)
      else if d_ch d = CHR ''p'' then Some (conv_int put E 16 0 d)
      else if d_ch d = CHR ''n'' then Some (conv_count E d)
      else if d_ch d = CHR ''%'' then Some (d\<lparr>d_sink := dopr_outch put (d_ch d) (d_sink d)\<rparr>)
      else if d_ch d = CHR ''w'' then Some (next_ch E d)
      else Some d)"

text \<open>The end of the conversion case.\<close>

definition dopr_reset :: "'f dp_env \<Rightarrow> 'o dopr \<Rightarrow> 'o dopr" where
  "dopr_reset E d =
     (next_ch E d)\<lparr>d_state := DP_S_DEFAULT, d_flags := 0, d_cflags := DP_C_NONE, d_min := 0, d_max := -1\<rparr>"

text \<open>One iteration of the loop.\<close>

definition dopr_iter :: "(char \<Rightarrow> 'o \<Rightarrow> 'o) \<Rightarrow> 'f dp_env \<Rightarrow> 'o dopr \<Rightarrow> 'o dopr option" where
  "dopr_iter put E d =
     (let d = (if d_ch d = NUL \<or> currlen (d_sink d) \<ge> e_maxlen E then d\<lparr>d_state := DP_S_DONE\<rparr> else d)
      in case d_state d of
           DP_S_DEFAULT \<Rightarrow>
             Some (next_ch E (if d_ch d = CHR ''%'' then d\<lparr>d_state := DP_S_FLAGS\<rparr>
                              else d\<lparr>d_sink := dopr_outch put (d_ch d) (d_sink d)\<rparr>))
         | DP_S_FLAGS \<Rightarrow> Some (dopr_flags E d)
         | DP_S_MIN \<Rightarrow> Some (dopr_min E d)
         | DP_S_DOT \<Rightarrow> Some (dopr_dot E d)
         | DP_S_MAX \<Rightarrow> Some (dopr_max E d)
         | DP_S_MOD \<Rightarrow> Some (dopr_mod E d)
         | DP_S_CONV \<Rightarrow> map_option (dopr_reset E) (dopr_conv put E d)
         | DP_S_DONE \<Rightarrow> Some d)"

text \<open>The loop, with fuel: the outer \<open>None\<close> is out of fuel.\<close>

fun dopr_loop :: "nat \<Rightarrow> (char \<Rightarrow> 'o \<Rightarrow> 'o) \<Rightarrow> 'f dp_env \<Rightarrow> 'o dopr \<Rightarrow> 'o dopr option option" where
  "dopr_loop 0 put E d = None"
| "dopr_loop (Suc k) put E d =
     (if d_state d = DP_S_DONE then Some (Some d)
      else case dopr_iter put E d of None \<Rightarrow> Some None | Some d' \<Rightarrow> dopr_loop k put E d')"

definition dopr_start :: "'f dp_env \<Rightarrow> 'o \<Rightarrow> 'o dopr" where
  "dopr_start E o0 =
     \<lparr>d_state = DP_S_DEFAULT, d_ch = e_fmt E 0, d_pos = 1, d_min = 0, d_max = -1, d_flags = 0,
      d_cflags = DP_C_NONE, d_arg = 0, d_sink = \<lparr>currlen = 0, out = o0\<rparr>, d_stores = []\<rparr>"

definition dopr :: "nat \<Rightarrow> (char \<Rightarrow> 'o \<Rightarrow> 'o) \<Rightarrow> 'f dp_env \<Rightarrow> 'o \<Rightarrow> 'o dopr option option" where
  "dopr fuel put E o0 = dopr_loop fuel put E (dopr_start E o0)"

text \<open>\<^verbatim>\<open>K::vsnprintf\<close> and \<^verbatim>\<open>K::snprintf\<close>: what has been put when they return.\<close>

definition vsnprintf :: "nat \<Rightarrow> (char \<Rightarrow> 'o \<Rightarrow> 'o) \<Rightarrow> 'f dp_env \<Rightarrow> 'o \<Rightarrow> 'o option option" where
  "vsnprintf fuel put E o0 = map_option (map_option (out \<circ> d_sink)) (dopr fuel put E o0)"

definition snprintf :: "nat \<Rightarrow> (char \<Rightarrow> 'o \<Rightarrow> 'o) \<Rightarrow> 'f dp_env \<Rightarrow> 'o \<Rightarrow> 'o option option" where
  "snprintf fuel put E o0 = vsnprintf fuel put E o0"

end
