(* ===== verification/Snprintf_Convert.thy ===== *)
theory Snprintf_Convert
  imports Snprintf
begin

text \<open>
  What the conversions of \<^verbatim>\<open>snprintf.cc\<close> put: the text of each, as a function of its arguments only.
\<close>

section \<open>Emitted text\<close>

definition emits :: "(char \<Rightarrow> 'o \<Rightarrow> 'o) \<Rightarrow> string \<Rightarrow> 'o sink \<Rightarrow> 'o sink" where
  "emits put cs s = fold (dopr_outch put) cs s"

lemma emits_Nil [simp]: "emits put [] s = s"
  by (simp add: emits_def)

lemma emits_Cons: "emits put (c # cs) s = emits put cs (dopr_outch put c s)"
  by (simp add: emits_def)

lemma emits_append [simp]: "emits put ys (emits put xs s) = emits put (xs @ ys) s"
  by (simp add: emits_def)

lemma dopr_outch_emits: "dopr_outch put c s = emits put [c] s"
  by (simp add: emits_def)

lemma emits_out: "out (emits put cs s) = fold put cs (out s)"
  by (induction cs arbitrary: s) (auto simp: emits_def dopr_outch_def)

lemma emits_currlen:
  "- (2 ^ 31) \<le> currlen s \<Longrightarrow> currlen s + int (length cs) < 2 ^ 31 \<Longrightarrow>
   currlen (emits put cs s) = currlen s + int (length cs)"
proof (induction cs arbitrary: s)
  case (Cons c cs)
  have "currlen (dopr_outch put c s) = currlen s + 1"
    using Cons.prems by (simp add: dopr_outch_def s32_id)
  then show ?case using Cons by (simp add: emits_Cons)
qed simp

lemma out_repeat_emits [simp]: "out_repeat put n c s = emits put (replicate n c) s"
  by (induction n arbitrary: s) (simp_all add: emits_Cons)

lemma out_digits_emits: "n \<le> length cv \<Longrightarrow> out_digits put cv n s = emits put (rev (take n cv)) s"
  by (induction n arbitrary: s) (simp_all add: take_Suc_conv_app_nth emits_Cons)

section \<open>Strings\<close>

definition str_text :: "string option \<Rightarrow> flags \<Rightarrow> int \<Rightarrow> int \<Rightarrow> string" where
  "str_text value flags mn mx =
     (let v = (case value of None \<Rightarrow> ''<NULL>'' | Some v \<Rightarrow> v);
          pad = replicate (nat (mn - int (length v))) CHR '' ''
      in take (nat mx) (if has flags DP_F_MINUS then v @ pad else pad @ v))"

lemma str_pad_emits:
  assumes "0 \<le> cnt" and "mx < 2 ^ 31"
  shows "str_pad put n cnt mx s =
    (cnt + int (min n (nat (mx - cnt))), emits put (take (nat (mx - cnt)) (replicate n CHR '' '')) s)"
  using assms
proof (induction n arbitrary: cnt s)
  case (Suc n)
  show ?case
  proof (cases "cnt < mx")
    case True
    then have "nat (mx - cnt) = Suc (nat (mx - (cnt + 1)))" "s32 (cnt + 1) = cnt + 1" "0 \<le> cnt + 1"
      using Suc.prems by (simp_all add: s32_id)
    then show ?thesis using Suc.IH [of "cnt + 1"] Suc.prems True by (simp add: emits_Cons)
  qed simp
qed simp

lemma str_copy_emits:
  assumes "0 \<le> cnt" and "mx < 2 ^ 31"
  shows "str_copy put cs cnt mx s =
    (cnt + int (min (length cs) (nat (mx - cnt))), emits put (take (nat (mx - cnt)) cs) s)"
  using assms
proof (induction cs arbitrary: cnt s)
  case (Cons c cs)
  show ?case
  proof (cases "cnt < mx")
    case True
    then have "nat (mx - cnt) = Suc (nat (mx - (cnt + 1)))" "s32 (cnt + 1) = cnt + 1" "0 \<le> cnt + 1"
      using Cons.prems by (simp_all add: s32_id)
    then show ?thesis using Cons.IH [of "cnt + 1"] Cons.prems True by (simp add: emits_Cons)
  qed simp
qed simp

lemma fmtstr_emits:
  assumes len: "int (length (case value of None \<Rightarrow> ''<NULL>'' | Some v \<Rightarrow> v)) < 2 ^ 30"
    and mn: "- (2 ^ 30) \<le> mn" "mn < 2 ^ 31" and mx: "mx < 2 ^ 31"
  shows "fmtstr put value flags mn mx s = emits put (str_text value flags mn mx) s"
proof -
  define v where "v = (case value of None \<Rightarrow> ''<NULL>'' | Some v \<Rightarrow> v)"
  define p where "p = nat (mn - int (length v))"
  have p: "s32 (mn - int (length v)) = mn - int (length v)"
    using len mn by (intro s32_id) (simp_all add: v_def)
  have tx: "str_text value flags mn mx =
      take (nat mx) (if has flags DP_F_MINUS then v @ replicate p CHR '' '' else replicate p CHR '' '' @ v)"
    by (simp add: str_text_def Let_def v_def p_def)
  have cnt: "nat (mx - int (min a (nat mx))) = nat mx - a" for a by simp
  have pad: "(if mn - int (length v) < 0 then 0 else mn - int (length v)) = int p" by (simp add: p_def)
  have p_nat: "nat (int p) = p" "nat (- int p) = 0" "nat (- (- int p)) = p" by simp_all
  have zero: "str_pad put 0 c mx s' = (c, s')" for c s' by simp
  note emit = str_pad_emits [OF _ mx] str_copy_emits [OF _ mx]
  show ?thesis
  proof (cases "has flags DP_F_MINUS")
    case True
    then show ?thesis
      unfolding tx unfolding fmtstr_def Let_def v_def [symmetric] p pad if_P [OF True] p_nat zero split_conv
      by (simp add: emit cnt)
  next
    case False
    then show ?thesis
      unfolding tx unfolding fmtstr_def Let_def v_def [symmetric] p pad if_not_P [OF False] p_nat zero split_conv
      by (simp add: emit cnt)
  qed
qed

section \<open>Integers\<close>

text \<open>The number a text of digits stands for, and the digits of a number.\<close>

definition hexval :: "char \<Rightarrow> nat" where
  "hexval c = (if c \<in> set ''abcdef'' then of_char c - 87 else if c \<in> set ''ABCDEF'' then of_char c - 55 else of_char c - 48)"

definition read_digits :: "nat \<Rightarrow> string \<Rightarrow> nat" where
  "read_digits base ds = foldl (\<lambda>n c. n * base + hexval c) 0 ds"

lemma read_digits_snoc: "read_digits base (ds @ [c]) = read_digits base ds * base + hexval c"
  by (simp add: read_digits_def)

lemma digit_table_length [simp]: "length (digit_table caps) = 16"
  by (simp add: digit_table_def)

lemma hexval_digit: "i < 16 \<Longrightarrow> hexval (digit_table caps ! i) = i"
proof -
  have "\<forall>i \<in> set [0..<16]. hexval (digit_table True ! i) = i"
    "\<forall>i \<in> set [0..<16]. hexval (digit_table False ! i) = i"
    by code_simp+
  then show "i < 16 \<Longrightarrow> hexval (digit_table caps ! i) = i" by (cases caps) simp_all
qed

lemma convert_read:
  assumes base: "2 \<le> base" "base \<le> 16" and room: "u < base ^ room" "0 < room"
  shows "read_digits base (rev (convert_loop (digit_table caps) base u room)) = u"
  using room
proof (induction room arbitrary: u)
  case (Suc room)
  have m: "u mod base < 16" using mod_less_divisor [of base u] base by linarith
  have q: "u div base < base ^ room" using Suc.prems(1) base by (simp add: less_mult_imp_div_less mult.commute)
  show ?case
  proof (cases "u div base = 0")
    case True
    then show ?thesis using hexval_digit [OF m] base by (simp add: read_digits_def div_eq_0_iff)
  next
    case False
    then have "0 < room" using q by (cases room) auto
    then show ?thesis
      using Suc.IH [OF q] False hexval_digit [OF m] by (simp add: read_digits_snoc)
  qed
qed simp

lemma convert_length_pos: "0 < room \<Longrightarrow> 0 < length (convert_loop tab base u room)"
  by (cases room) simp_all

lemma convert_length: "2 \<le> base \<Longrightarrow> u < base ^ k \<Longrightarrow> 0 < k \<Longrightarrow> length (convert_loop tab base u room) \<le> k"
proof (induction room arbitrary: u k)
  case (Suc room)
  show ?case
  proof (cases "u div base = 0")
    case False
    have q: "u div base < base ^ (k - 1)"
      using Suc.prems by (cases k) (simp_all add: less_mult_imp_div_less mult.commute)
    then have "0 < k - 1" using False by (cases "k - 1") auto
    then have "Suc (length (convert_loop tab base (u div base) room)) \<le> k"
      using Suc.IH [OF Suc.prems(1) q] by simp
    then show ?thesis using False \<open>0 < k - 1\<close> by simp
  qed (use Suc.prems in simp)
qed simp

text \<open>No leading zero, unless the number is 0.\<close>

lemma convert_lead:
  assumes "2 \<le> base" and "base \<le> 16" and "0 < u" and "u < base ^ room"
  shows "last (convert_loop (digit_table caps) base u room) \<noteq> CHR ''0''"
  using assms(3,4)
proof (induction room arbitrary: u)
  case (Suc room)
  have q: "u div base < base ^ room" using Suc.prems(2) assms(1) by (simp add: less_mult_imp_div_less mult.commute)
  show ?case
  proof (cases "u div base = 0")
    case True
    then have "u < base" using assms(1) by (simp add: div_eq_0_iff)
    then have "hexval (digit_table caps ! (u mod base)) = u" using hexval_digit assms(2) by simp
    then show ?thesis using True Suc.prems(1) by (auto simp: hexval_def)
  next
    case False
    then have "room \<noteq> 0" using q by (cases room) auto
    then have "convert_loop (digit_table caps) base (u div base) room \<noteq> []"
      using convert_length_pos [of room] by (metis length_greater_0_conv neq0_conv)
    then show ?thesis using Suc.IH [OF _ q] False \<open>room \<noteq> 0\<close> by simp
  qed
qed simp

text \<open>The text of an integer conversion: sign, zeros, digits, and spaces on one side.\<close>

definition int_sign :: "flags \<Rightarrow> int \<Rightarrow> string" where
  "int_sign flags value =
     (if has flags DP_F_UNSIGNED then []
      else if value < 0 then ''-''
      else if has flags DP_F_PLUS then ''+''
      else if has flags DP_F_SPACE then '' '' else [])"

definition int_mag :: "flags \<Rightarrow> int \<Rightarrow> nat" where
  "int_mag flags value = nat (if has flags DP_F_UNSIGNED then value mod 2 ^ 32 else \<bar>value\<bar>)"

definition int_digits :: "flags \<Rightarrow> nat \<Rightarrow> int \<Rightarrow> string" where
  "int_digits flags base value =
     rev (convert_loop (digit_table (has flags DP_F_UP)) base (int_mag flags value) 20)"

definition int_text :: "int \<Rightarrow> nat \<Rightarrow> int \<Rightarrow> int \<Rightarrow> flags \<Rightarrow> string" where
  "int_text value base mn mx flags =
     (let sg = int_sign flags value; ds = int_digits flags base value;
          zeros = nat (mx - int (length ds));
          spaces = nat (mn - max mx (int (length ds)) - int (length sg));
          (zeros, spaces) = (if has flags DP_F_ZERO then (max zeros spaces, 0) else (zeros, spaces));
          body = sg @ replicate zeros CHR ''0'' @ ds
      in if has flags DP_F_MINUS then body @ replicate spaces CHR '' '' else replicate spaces CHR '' '' @ body)"

lemma int_mag_bound: "- (2 ^ 31) \<le> value \<Longrightarrow> value < 2 ^ 31 \<Longrightarrow> int_mag flags value < 2 ^ 32"
  using pos_mod_bound [of "2 ^ 32" "value"] by (auto simp: int_mag_def nat_less_iff)

lemma int_digits_length:
  assumes "8 \<le> base" and "- (2 ^ 31) \<le> value" and "value < 2 ^ 31"
  shows "0 < length (int_digits flags base value)" and "length (int_digits flags base value) \<le> 11"
proof -
  have "(8 :: nat) ^ 11 \<le> base ^ 11" using assms(1) by (rule power_mono) simp
  then have "int_mag flags value < base ^ 11"
    using int_mag_bound [OF assms(2,3), of flags] by simp
  then show "length (int_digits flags base value) \<le> 11"
    unfolding int_digits_def using convert_length [of base _ 11] assms(1) by simp
  show "0 < length (int_digits flags base value)"
    unfolding int_digits_def using convert_length_pos [of 20] by simp
qed

lemma fmtint_emits:
  assumes base: "8 \<le> base" and v: "- (2 ^ 31) \<le> value" "value < 2 ^ 31"
    and mn: "- (2 ^ 30) \<le> mn" "mn < 2 ^ 31" and mx: "mx < 2 ^ 30"
  shows "fmtint put value base mn mx flags s = emits put (int_text value base mn (max mx 0) flags) s"
proof -
  define M where "M = max mx 0"
  define cv where "cv = convert_loop (digit_table (has flags DP_F_UP)) base (int_mag flags value) 20"
  have ds: "int_digits flags base value = rev cv" by (simp add: int_digits_def cv_def)
  have len: "0 < length cv" "length cv \<le> 11" using int_digits_length [OF base v, of flags] by (simp_all add: ds)
  have M: "0 \<le> M" "M < 2 ^ 30" "(if mx < 0 then 0 else mx) = M" using mx by (simp_all add: M_def)
  have mag: "nat ((if \<not> has flags DP_F_UNSIGNED \<and> value < 0 then - value else value) mod 2 ^ 32) = int_mag flags value"
    using v by (simp add: int_mag_def)
  have place: "(if length cv = 20 then 19 else length cv) = length cv" using len by simp
  define sv where "sv = (if has flags DP_F_UNSIGNED then None else if value < 0 then Some CHR ''-''
      else if has flags DP_F_PLUS then Some CHR ''+'' else if has flags DP_F_SPACE then Some CHR '' '' else None)"
  define sg where "sg = int_sign flags value"
  have sg: "(case sv of None \<Rightarrow> s | Some c \<Rightarrow> dopr_outch put c s) = emits put sg s" for s :: "'a sink"
    by (simp add: sv_def sg_def int_sign_def dopr_outch_emits)
  have sl: "(if sv = None then 0 else 1) = int (length sg)" by (simp add: sv_def sg_def int_sign_def)
  have "int (length sg) \<le> 1" by (simp add: sg_def int_sign_def)
  then have sp: "s32 (s32 (mn - max M (int (length cv))) - int (length sg))
      = mn - max M (int (length cv)) - int (length sg)"
    using mn M len by (simp add: s32_id)
  have digits: "out_digits put cv (length cv) s = emits put (rev cv) s" for s by (simp add: out_digits_emits)
  define q where "q = mn - max M (int (length cv)) - int (length sg)"
  define z where "z = M - int (length cv)"
  have pad: "(if x < 0 then 0 else x) = max x 0" for x :: int by (simp add: max_def)
  have pads: "nat (- max x 0) = 0" "nat (max x 0) = nat x" "nat (max (max x 0) (max y 0)) = max (nat x) (nat y)"
    for x y :: int by (auto simp: max_def)
  show ?thesis
    unfolding fmtint_def int_text_def Let_def mag cv_def [symmetric] place M(3) M_def [symmetric] ds
      sv_def [symmetric] sg_def [symmetric] sg sl sp out_repeat_emits digits length_rev
      q_def [symmetric] z_def [symmetric] pad
    by (cases "has flags DP_F_ZERO"; cases "has flags DP_F_MINUS") (simp_all add: pads)
qed

end
