(* ===== verification/Snprintf_Props.thy ===== *)
theory Snprintf_Props
  imports Snprintf_Convert
begin

text \<open>
  The properties of \<^verbatim>\<open>snprintf.cc\<close>: the conversions, the end of the loop of \<^verbatim>\<open>dopr\<close> and what it
  reads, and the text a whole format gives.
\<close>

section \<open>The conversions\<close>

text \<open>
   \<^verbatim>\<open>fmtint\<close> puts the sign, zeros up to the precision and the digits of the number: the digits
  read back as the magnitude (the value as an unsigned number when the flag says so), without a
  leading zero unless the number is 0, and blanks or, with the flag \<open>0\<close>, zeros fill the text to
  exactly the greatest of the width, the precision and what the number needs (with the flag \<open>0\<close>
  this needs a precision that does not exceed the number of digits).
\<close>

theorem fmtint_correct:
  assumes "base = 8 \<or> base = 10 \<or> base = 16" and "- (2 ^ 31) \<le> value" and "value < 2 ^ 31"
    and "- (2 ^ 30) \<le> mn" and "mn < 2 ^ 30" and "mx < 2 ^ 30"
  shows "\<exists>spaces zeros ds.
    fmtint put value base mn mx flags s =
      emits put (if has flags DP_F_MINUS
                 then int_sign flags value @ replicate zeros CHR ''0'' @ ds @ replicate spaces CHR '' ''
                 else replicate spaces CHR '' '' @ int_sign flags value @ replicate zeros CHR ''0'' @ ds) s
    \<and> read_digits base ds = int_mag flags value
    \<and> (if int_mag flags value = 0 then ds = ''0'' else hd ds \<noteq> CHR ''0'')
    \<and> mx \<le> int (zeros + length ds)
    \<and> (has flags DP_F_ZERO \<and> mx > int (length ds) \<or>
       int (spaces + length (int_sign flags value) + zeros + length ds) =
         max mn (int (length (int_sign flags value)) + max mx (int (length ds))))"
proof -
  let ?sg = "int_sign flags value" and ?ds = "int_digits flags base value" and ?M = "max mx 0"
  have base: "8 \<le> base" "base \<le> 16" using assms(1) by auto
  define z where "z = nat (?M - int (length ?ds))"
  define q where "q = nat (mn - max ?M (int (length ?ds)) - int (length ?sg))"
  define zeros where "zeros = (if has flags DP_F_ZERO then max z q else z)"
  define spaces where "spaces = (if has flags DP_F_ZERO then 0 else q)"
  have len: "0 < length ?ds" using int_digits_length [OF base(1) assms(2,3)] by blast
  have put: "fmtint put value base mn mx flags s = emits put (int_text value base mn ?M flags) s"
    by (rule fmtint_emits) (use assms base in auto)
  have tx: "int_text value base mn ?M flags =
      (if has flags DP_F_MINUS then ?sg @ replicate zeros CHR ''0'' @ ?ds @ replicate spaces CHR '' ''
       else replicate spaces CHR '' '' @ ?sg @ replicate zeros CHR ''0'' @ ?ds)"
    by (simp add: int_text_def Let_def z_def [symmetric] q_def [symmetric] zeros_def spaces_def)
  have mag: "int_mag flags value < base ^ 20" if "base \<in> {8, 10, 16}"
    using int_mag_bound [OF assms(2,3), of flags] that by auto
  then have mag: "int_mag flags value < base ^ 20" using assms(1) by blast
  have rd: "read_digits base ?ds = int_mag flags value"
    unfolding int_digits_def using convert_read [OF _ _ mag] base by simp
  have zero: "?ds = ''0''" if "int_mag flags value = 0"
    using that by (simp add: int_digits_def digit_table_def numeral_eq_Suc)
  have lead: "hd ?ds \<noteq> CHR ''0''" if "int_mag flags value \<noteq> 0"
    unfolding int_digits_def hd_rev using convert_lead [OF _ _ _ mag] base that by simp
  have "mx \<le> int (zeros + length ?ds)" by (auto simp: zeros_def z_def)
  moreover have "int (spaces + length ?sg + zeros + length ?ds) = max mn (int (length ?sg) + max mx (int (length ?ds)))"
    if "\<not> (has flags DP_F_ZERO \<and> mx > int (length ?ds))"
    using that len by (auto simp: zeros_def spaces_def z_def q_def max_def)
  then have "has flags DP_F_ZERO \<and> mx > int (length ?ds)
      \<or> int (spaces + length ?sg + zeros + length ?ds) = max mn (int (length ?sg) + max mx (int (length ?ds)))" by blast
  ultimately show ?thesis
    using put rd zero lead unfolding tx
    by - (rule exI [where x = spaces], rule exI [where x = zeros], rule exI [where x = ?ds], auto)
qed

theorem fmtint_correct_witness:
  "\<exists>spaces zeros ds. fmtint (\<lambda>c o0. o0 @ [c]) (- 42) 10 6 (- 1) 0 \<lparr>currlen = 0, out = []\<rparr>
     = emits (\<lambda>c o0. o0 @ [c]) (replicate spaces CHR '' '' @ ''-'' @ replicate zeros CHR ''0'' @ ds)
         \<lparr>currlen = 0, out = []\<rparr>
   \<and> read_digits 10 ds = 42"
  using fmtint_correct [of 10 "- 42" 6 "- 1" "\<lambda>c o0. o0 @ [c]" 0 "\<lparr>currlen = 0, out = []\<rparr>"]
  by (auto simp: int_sign_def int_mag_def)

text \<open>With the flag \<open>0\<close> and a precision the field is shorter than its width.\<close>

lemma zero_flag_width:
  "out (fmtint (\<lambda>c o0. o0 @ [c]) 42 10 10 5 DP_F_ZERO \<lparr>currlen = 0, out = []\<rparr>) = ''0000042''"
proof -
  have "int_text 42 10 10 5 DP_F_ZERO = ''0000042''" by code_simp
  then show ?thesis
    using fmtint_emits [of 10 42 10 5 "\<lambda>c o0. o0 @ [c]" DP_F_ZERO "\<lparr>currlen = 0, out = []\<rparr>"]
    by (simp add: emits_out)
qed

text \<open>
   \<^verbatim>\<open>fmtstr\<close> puts the string (\<open><NULL>\<close> for a null pointer) with blanks up to the width, on the
  left or, with the flag \<open>-\<close>, on the right, and cuts the padded text, blanks included, to the
  precision: a precision that is less than the width makes the field shorter than the width.
\<close>

theorem fmtstr_correct:
  assumes "int (length (case value of None \<Rightarrow> ''<NULL>'' | Some v \<Rightarrow> v)) < 2 ^ 30"
    and "- (2 ^ 30) \<le> mn" and "mn < 2 ^ 31" and "mx < 2 ^ 31"
  shows "\<exists>v pad. v = (case value of None \<Rightarrow> ''<NULL>'' | Some v \<Rightarrow> v)
    \<and> int (length pad) = max 0 (mn - int (length v)) \<and> set pad \<subseteq> {CHR '' ''}
    \<and> fmtstr put value flags mn mx s =
        emits put (take (nat mx) (if has flags DP_F_MINUS then v @ pad else pad @ v)) s"
proof -
  define v where "v = (case value of None \<Rightarrow> ''<NULL>'' | Some v \<Rightarrow> v)"
  let ?pad = "replicate (nat (mn - int (length v))) CHR '' ''"
  have "str_text value flags mn mx = take (nat mx) (if has flags DP_F_MINUS then v @ ?pad else ?pad @ v)"
    by (simp add: str_text_def v_def Let_def)
  then have "fmtstr put value flags mn mx s =
      emits put (take (nat mx) (if has flags DP_F_MINUS then v @ ?pad else ?pad @ v)) s"
    using fmtstr_emits [OF assms, of put flags s] by simp
  moreover have "int (length ?pad) = max 0 (mn - int (length v))" "set ?pad \<subseteq> {CHR '' ''}" by auto
  ultimately show ?thesis using v_def by blast
qed

theorem fmtstr_correct_witness:
  "out (fmtstr (\<lambda>c o0. o0 @ [c]) (Some ''abcdef'') 0 10 3 \<lparr>currlen = 0, out = []\<rparr>) = ''   ''"
proof -
  obtain v pad where v: "v = (case Some ''abcdef'' of None \<Rightarrow> ''<NULL>'' | Some v \<Rightarrow> v)"
    and pad: "int (length pad) = max 0 (10 - int (length v))" "set pad \<subseteq> {CHR '' ''}"
    and f: "fmtstr (\<lambda>c o0. o0 @ [c]) (Some ''abcdef'') 0 10 3 \<lparr>currlen = 0, out = []\<rparr> =
      emits (\<lambda>c o0. o0 @ [c]) (take (nat 3) (if has 0 DP_F_MINUS then v @ pad else pad @ v)) \<lparr>currlen = 0, out = []\<rparr>"
    using fmtstr_correct [of "Some ''abcdef''" 10 3 "\<lambda>c o0. o0 @ [c]" 0 "\<lparr>currlen = 0, out = []\<rparr>"] by auto
  have "length pad = 4" using v pad(1) by simp
  then have "pad = replicate 4 CHR '' ''" using pad(2) by (metis replicate_eqI set_mp singletonD)
  then show ?thesis unfolding f by (simp add: emits_out numeral_eq_Suc)
qed

section \<open>The loop ends\<close>

text \<open>The bytes from the format pointer on: a string whose last character is not \<open>w\<close>, and its terminator at \<open>n\<close>.\<close>

definition fmt_ok :: "'f dp_env \<Rightarrow> nat \<Rightarrow> bool" where
  "fmt_ok E n \<longleftrightarrow> e_fmt E n = NUL \<and> (\<forall>i < n. e_fmt E i \<noteq> NUL \<and> (e_fmt E i = CHR ''w'' \<longrightarrow> Suc i \<noteq> n))"

definition dp_inv :: "'f dp_env \<Rightarrow> nat \<Rightarrow> 'o dopr \<Rightarrow> bool" where
  "dp_inv E n d \<longleftrightarrow> 0 < d_pos d \<and> d_pos d \<le> n + 1 \<and> d_ch d = e_fmt E (d_pos d - 1)"

fun rank :: "dp_state \<Rightarrow> nat" where
  "rank DP_S_DONE = 0" | "rank DP_S_DEFAULT = 1" | "rank DP_S_CONV = 2" | "rank DP_S_MOD = 3"
| "rank DP_S_MAX = 4" | "rank DP_S_DOT = 5" | "rank DP_S_MIN = 6" | "rank DP_S_FLAGS = 7"

definition work :: "nat \<Rightarrow> 'o dopr \<Rightarrow> nat" where
  "work n d = 8 * (n + 1 - d_pos d) + rank (d_state d)"

lemma dopr_conv_frame:
  assumes "dopr_conv put E d = Some d'" and "d_ch d \<noteq> CHR ''w''"
  shows "d_pos d' = d_pos d"
  using assms
  by (auto simp: dopr_conv_def conv_int_def conv_float_def conv_str_def conv_count_def va_float_def Let_def
      split: if_splits)

text \<open>What an iteration that is not the last one does to the position and the state.\<close>

lemma dopr_iter_moves:
  assumes it: "dopr_iter put E d = Some d'" and st: "d_state d \<noteq> DP_S_DONE"
  shows "d_pos d' = d_pos d \<and> d_ch d' = d_ch d \<and> rank (d_state d') < rank (d_state d)
       \<or> d_ch d \<noteq> NUL \<and> d_ch d' = e_fmt E (d_pos d' - 1)
         \<and> (d_pos d' = d_pos d + 1 \<or> d_ch d = CHR ''w'' \<and> d_pos d' = d_pos d + 2)"
proof (cases "d_ch d = NUL \<or> currlen (d_sink d) \<ge> e_maxlen E")
  case True
  then have "d' = d\<lparr>d_state := DP_S_DONE\<rparr>" using it by (simp add: dopr_iter_def Let_def)
  then show ?thesis using st by (cases "d_state d") simp_all
next
  case False
  note it' = it [unfolded dopr_iter_def Let_def if_not_P [OF False]]
  show ?thesis
  proof (cases "d_state d")
    case DP_S_CONV
    then obtain d1 where d1: "dopr_conv put E d = Some d1" "d' = dopr_reset E d1" using it' by auto
    show ?thesis
    proof (cases "d_ch d = CHR ''w''")
      case True
      then have "d1 = next_ch E d" using d1(1) by (simp add: dopr_conv_def)
      then show ?thesis using d1(2) True by (simp add: dopr_reset_def next_ch_def)
    next
      case False
      then show ?thesis
        using dopr_conv_frame [OF d1(1)] d1(2) \<open>\<not> (d_ch d = NUL \<or> currlen (d_sink d) \<ge> e_maxlen E)\<close>
        by (simp add: dopr_reset_def next_ch_def)
    qed
  qed (use it' False st in
    \<open>auto simp: dopr_flags_def dopr_min_def dopr_dot_def dopr_max_def dopr_mod_def next_ch_def Let_def split: if_splits\<close>)
qed

lemma dopr_iter_inv:
  assumes it: "dopr_iter put E d = Some d'" and ok: "fmt_ok E n" and iv: "dp_inv E n d" and st: "d_state d \<noteq> DP_S_DONE"
  shows "dp_inv E n d' \<and> work n d' < work n d"
  using dopr_iter_moves [OF it st]
proof
  assume "d_pos d' = d_pos d \<and> d_ch d' = d_ch d \<and> rank (d_state d') < rank (d_state d)"
  then show ?thesis using iv by (simp add: dp_inv_def work_def)
next
  assume m: "d_ch d \<noteq> NUL \<and> d_ch d' = e_fmt E (d_pos d' - 1)
    \<and> (d_pos d' = d_pos d + 1 \<or> d_ch d = CHR ''w'' \<and> d_pos d' = d_pos d + 2)"
  define i where "i = d_pos d - 1"
  have i: "d_pos d = Suc i" "i \<le> n" "d_ch d = e_fmt E i" using iv by (auto simp: dp_inv_def i_def)
  then have "i < n" using m ok by (cases "i = n") (auto simp: fmt_ok_def)
  then have p: "d_pos d < d_pos d'" "d_pos d' \<le> n + 1" using m i ok by (auto simp: fmt_ok_def)
  have "rank (d_state d') \<le> 7" "0 < rank (d_state d)" using st by (cases "d_state d'"; cases "d_state d"; simp)+
  then have "work n d' < work n d" using p by (simp add: work_def)
  then show ?thesis using m p by (simp add: dp_inv_def)
qed

lemma dopr_loop_ends:
  assumes "fmt_ok E n" and "dp_inv E n d" and "work n d < fuel"
  shows "\<exists>r. dopr_loop fuel put E d = Some r \<and> (\<forall>d'. r = Some d' \<longrightarrow> d_state d' = DP_S_DONE \<and> dp_inv E n d')"
  using assms(2,3)
proof (induction fuel arbitrary: d)
  case (Suc k)
  show ?case
  proof (cases "d_state d = DP_S_DONE \<or> dopr_iter put E d = None")
    case False
    then obtain d1 where d1: "dopr_iter put E d = Some d1" and st: "d_state d \<noteq> DP_S_DONE" by auto
    have "dp_inv E n d1 \<and> work n d1 < work n d" using dopr_iter_inv [OF d1 assms(1) Suc.prems(1) st] .
    then show ?thesis using Suc.IH [of d1] Suc.prems(2) d1 st by simp
  qed (use Suc.prems(1) in auto)
qed simp

lemma dopr_start_inv: "dp_inv E n (dopr_start E o0)" "work n (dopr_start E o0) < 8 * n + 2"
  by (simp_all add: dp_inv_def dopr_start_def work_def)

text \<open>
   For a format of \<open>n\<close> characters with its terminator that does not end in \<open>w\<close>, \<^verbatim>\<open>dopr\<close>
  ends after at most \<open>8 n + 2\<close> iterations, whatever the arguments, the stream and the limit are,
  and its format pointer has not gone past the byte after the terminator.
\<close>

theorem dopr_terminates:
  assumes "e_fmt E n = NUL" and "\<And>i. i < n \<Longrightarrow> e_fmt E i \<noteq> NUL"
    and "n = 0 \<or> e_fmt E (n - 1) \<noteq> CHR ''w''"
  shows "\<exists>r. dopr (8 * n + 2) put E o0 = Some r
    \<and> (\<forall>d. r = Some d \<longrightarrow> d_state d = DP_S_DONE \<and> d_pos d \<le> n + 1)"
proof -
  have "fmt_ok E n" using assms by (auto simp: fmt_ok_def)
  from dopr_loop_ends [OF this dopr_start_inv] show ?thesis
    unfolding dopr_def by (metis dp_inv_def)
qed

text \<open>The bytes of a string in memory, followed by its terminator.\<close>

definition c_bytes :: "string \<Rightarrow> nat \<Rightarrow> char" where
  "c_bytes xs i = (if i < length xs then xs ! i else NUL)"

definition no_fpu :: "nat fpu" where
  "no_fpu = \<lparr>fp_of_long = nat, fp_to_long = int, fp_of_double = (\<lambda>_ _. 0), fp_of_ldouble = (\<lambda>_ _ _. 0),
     fp_neg = id, fp_sub = (-), fp_mul = (*), fp_less = (<), fp_le = (\<le>), fp_half = 1\<rparr>"

definition c_env :: "string \<Rightarrow> u32 list \<Rightarrow> (u32 \<Rightarrow> string) \<Rightarrow> int \<Rightarrow> nat dp_env" where
  "c_env f as cs mx = \<lparr>e_fmt = c_bytes f, e_args = (\<lambda>i. if i < length as then as ! i else 0), e_cstr = cs,
     e_fpu = no_fpu, e_maxlen = mx\<rparr>"

theorem dopr_terminates_witness:
  "\<exists>r. dopr (8 * 3 + 2) (\<lambda>c o0. o0 @ [c]) (c_env ''a%d'' [7] (\<lambda>_. []) 1000) [] = Some r"
proof -
  have "\<exists>r. dopr (8 * 3 + 2) (\<lambda>c o0. o0 @ [c]) (c_env ''a%d'' [7] (\<lambda>_. []) 1000) [] = Some r
    \<and> (\<forall>d. r = Some d \<longrightarrow> d_state d = DP_S_DONE \<and> d_pos d \<le> 3 + 1)"
    by (rule dopr_terminates) (auto simp: c_env_def c_bytes_def less_Suc_eq numeral_eq_Suc)
  then show ?thesis by blast
qed

text \<open>With \<open>w\<close> at the end of the format, what follows the terminator is read as a format.\<close>

lemma w_reads_past_end:
  "\<exists>d. dopr 40 (\<lambda>c o0. o0 @ [c])
     (c_env ''%w'' [] (\<lambda>_. []) 1000 \<lparr>e_fmt := (\<lambda>i. if i < 4 then [CHR ''%'', CHR ''w'', NUL, CHR ''!''] ! i else NUL)\<rparr>) []
     = Some (Some d) \<and> out (d_sink d) = ''!''"
  by (simp add: dopr_def dopr_start_def c_env_def numeral_eq_Suc dopr_iter_def next_ch_def dopr_flags_def
      dopr_min_def isdigit_def dopr_dot_def dopr_mod_def dopr_conv_def dopr_reset_def dopr_outch_def s32_def)

end
