(* ===== verification/Snprintf_Format.thy ===== *)
theory Snprintf_Format
  imports Snprintf_Props
begin

text \<open>
  The language of formats: a format is a list of directives, and what \<^verbatim>\<open>vsnprintf\<close> puts for the
  format is the texts of its directives, one after the other. The formats without \<open>f\<close>, \<open>e\<close>, \<open>g\<close>,
  \<open>n\<close>, length modifiers and widths from the arguments.
\<close>

section \<open>Directives and their text\<close>

datatype directive =
    Lit char
  | Conv string string string char   \<comment> \<open>flags, digits of the width, digits of the precision, conversion\<close>

fun render :: "directive \<Rightarrow> string" where
  "render (Lit c) = [c]"
| "render (Conv fs ws ps k) = CHR ''%'' # fs @ ws @ (if ps = [] then [] else CHR ''.'' # ps) @ [k]"

definition number :: "string \<Rightarrow> int" where
  "number ds = foldl (\<lambda>n c. 10 * n + char_to_int c) 0 ds"

fun flag_bit :: "char \<Rightarrow> flags" where
  "flag_bit c = (if c = CHR ''-'' then DP_F_MINUS else if c = CHR ''+'' then DP_F_PLUS
     else if c = CHR '' '' then DP_F_SPACE else if c = CHR ''#'' then DP_F_NUM else DP_F_ZERO)"

definition flag_set :: "string \<Rightarrow> flags" where
  "flag_set fs = foldl (\<lambda>f c. f OR flag_bit c) 0 fs"

fun well_formed :: "directive \<Rightarrow> bool" where
  "well_formed (Lit c) \<longleftrightarrow> c \<noteq> NUL \<and> c \<noteq> CHR ''%''"
| "well_formed (Conv fs ws ps k) \<longleftrightarrow>
     set fs \<subseteq> set ''-+ #0'' \<and> list_all isdigit ws \<and> (ws = [] \<or> hd ws \<noteq> CHR ''0'') \<and> list_all isdigit ps
     \<and> number ws < 2 ^ 30 \<and> number ps < 2 ^ 30 \<and> k \<in> set ''diouxXpsc%''"

definition precision :: "string \<Rightarrow> int" where
  "precision ps = (if ps = [] then -1 else number ps)"

definition int_conv :: "'f dp_env \<Rightarrow> nat \<Rightarrow> string \<Rightarrow> string \<Rightarrow> string \<Rightarrow> nat \<Rightarrow> flags \<Rightarrow> string" where
  "int_conv E i fs ws ps base fl =
     int_text (sint (e_args E i)) base (number ws) (max (precision ps) 0) (flag_set fs OR fl)"

text \<open>The text of a directive whose arguments start at word \<open>i\<close>, and how many words it takes.\<close>

fun text_of :: "'f dp_env \<Rightarrow> nat \<Rightarrow> directive \<Rightarrow> string" where
  "text_of E i (Lit c) = [c]"
| "text_of E i (Conv fs ws ps k) =
     (if k = CHR ''%'' then ''%''
      else if k = CHR ''c'' then [char_of (unat (e_args E i))]
      else if k = CHR ''s'' then
        str_text (if e_args E i = 0 then None else Some (e_cstr E (e_args E i))) (flag_set fs) (number ws)
          (if precision ps < 0 then e_maxlen E else precision ps)
      else if k = CHR ''o'' then int_conv E i fs ws ps 8 DP_F_UNSIGNED
      else if k = CHR ''u'' then int_conv E i fs ws ps 10 DP_F_UNSIGNED
      else if k = CHR ''x'' then int_conv E i fs ws ps 16 DP_F_UNSIGNED
      else if k = CHR ''X'' then int_conv E i fs ws ps 16 (DP_F_UP OR DP_F_UNSIGNED)
      else if k = CHR ''p'' then int_conv E i fs ws ps 16 0
      else int_conv E i fs ws ps 10 0)"

fun words_of :: "directive \<Rightarrow> nat" where
  "words_of (Lit c) = 0"
| "words_of (Conv fs ws ps k) = (if k = CHR ''%'' then 0 else 1)"

fun texts_of :: "'f dp_env \<Rightarrow> nat \<Rightarrow> directive list \<Rightarrow> string" where
  "texts_of E i [] = []"
| "texts_of E i (x # xs) = text_of E i x @ texts_of E (i + words_of x) xs"

section \<open>Runs of the loop\<close>

text \<open>The loop gets from one state to another in at most \<open>m\<close> iterations.\<close>

definition goes :: "(char \<Rightarrow> 'o \<Rightarrow> 'o) \<Rightarrow> 'f dp_env \<Rightarrow> nat \<Rightarrow> 'o dopr \<Rightarrow> 'o dopr \<Rightarrow> bool" where
  "goes put E m d d' \<longleftrightarrow> (\<exists>k \<le> m. \<forall>j. dopr_loop (k + j) put E d = dopr_loop j put E d')"

lemma goes_refl: "goes put E m d d"
  unfolding goes_def by (rule exI [of _ 0]) simp

lemma goes_trans:
  assumes "goes put E m d d'" and "goes put E m' d' d''"
  shows "goes put E (m + m') d d''"
proof -
  obtain k k' where "k \<le> m" "\<forall>j. dopr_loop (k + j) put E d = dopr_loop j put E d'"
    "k' \<le> m'" "\<forall>j. dopr_loop (k' + j) put E d' = dopr_loop j put E d''"
    using assms unfolding goes_def by blast
  then have "k + k' \<le> m + m'" "\<forall>j. dopr_loop (k + k' + j) put E d = dopr_loop j put E d''"
    by (simp_all add: add.assoc)
  then show ?thesis unfolding goes_def by blast
qed

lemma goes_more: "goes put E m d d' \<Longrightarrow> m \<le> m' \<Longrightarrow> goes put E m' d d'"
  unfolding goes_def using order_trans by blast

lemma goes_step: "dopr_iter put E d = Some d' \<Longrightarrow> d_state d \<noteq> DP_S_DONE \<Longrightarrow> 0 < m \<Longrightarrow> goes put E m d d'"
  unfolding goes_def by (rule exI [of _ 1]) simp

lemma goes_first:
  "dopr_iter put E d = Some d1 \<Longrightarrow> d_state d \<noteq> DP_S_DONE \<Longrightarrow> goes put E m d1 d' \<Longrightarrow> goes put E (Suc m) d d'"
  using goes_trans [OF goes_step [of put E d d1 1]] by simp

lemma dopr_loop_more: "dopr_loop k put E d = Some r \<Longrightarrow> dopr_loop (k + j) put E d = Some r"
  by (induction k arbitrary: d) (auto split: option.splits)

text \<open>The bytes from \<open>p\<close> on, and the state that looks at byte \<open>p\<close>.\<close>

definition bytes :: "'f dp_env \<Rightarrow> nat \<Rightarrow> string \<Rightarrow> bool" where
  "bytes E p xs \<longleftrightarrow> (\<forall>i < length xs. e_fmt E (p + i) = xs ! i)"

lemma bytes_Nil [simp]: "bytes E p []"
  by (simp add: bytes_def)

lemma bytes_Cons [simp]: "bytes E p (x # xs) \<longleftrightarrow> e_fmt E p = x \<and> bytes E (p + 1) xs"
  unfolding bytes_def using less_Suc_eq_0_disj by auto

lemma bytes_append [simp]: "bytes E p (xs @ ys) \<longleftrightarrow> bytes E p xs \<and> bytes E (p + length xs) ys"
  by (induction xs arbitrary: p) auto

definition look ::
  "'f dp_env \<Rightarrow> nat \<Rightarrow> dp_state \<Rightarrow> int \<Rightarrow> int \<Rightarrow> flags \<Rightarrow> nat \<Rightarrow> 'o sink \<Rightarrow> (u32 \<times> nat \<times> int) list \<Rightarrow> 'o dopr" where
  "look E p st mn mx fl a s so =
     \<lparr>d_state = st, d_ch = e_fmt E p, d_pos = p + 1, d_min = mn, d_max = mx, d_flags = fl,
      d_cflags = DP_C_NONE, d_arg = a, d_sink = s, d_stores = so\<rparr>"

lemma next_look: "next_ch E (look E p st mn mx fl a s so) = look E (p + 1) st mn mx fl a s so"
  by (simp add: look_def next_ch_def)

lemma look_sel [simp]:
  "d_state (look E p st mn mx fl a s so) = st" "d_ch (look E p st mn mx fl a s so) = e_fmt E p"
  "d_min (look E p st mn mx fl a s so) = mn" "d_max (look E p st mn mx fl a s so) = mx"
  "d_flags (look E p st mn mx fl a s so) = fl" "d_cflags (look E p st mn mx fl a s so) = DP_C_NONE"
  "d_arg (look E p st mn mx fl a s so) = a" "d_sink (look E p st mn mx fl a s so) = s"
  "d_stores (look E p st mn mx fl a s so) = so"
  by (simp_all add: look_def)

lemma look_upd [simp]:
  "look E p st mn mx fl a s so\<lparr>d_state := st'\<rparr> = look E p st' mn mx fl a s so"
  "look E p st mn mx fl a s so\<lparr>d_min := mn'\<rparr> = look E p st mn' mx fl a s so"
  "look E p st mn mx fl a s so\<lparr>d_max := mx'\<rparr> = look E p st mn mx' fl a s so"
  "look E p st mn mx fl a s so\<lparr>d_flags := fl'\<rparr> = look E p st mn mx fl' a s so"
  "look E p st mn mx fl a s so\<lparr>d_cflags := DP_C_NONE\<rparr> = look E p st mn mx fl a s so"
  "look E p st mn mx fl a s so\<lparr>d_arg := a'\<rparr> = look E p st mn mx fl a' s so"
  "look E p st mn mx fl a s so\<lparr>d_sink := s'\<rparr> = look E p st mn mx fl a s' so"
  by (simp_all add: look_def)

lemmas look_simps = next_look dopr_iter_def Let_def

text \<open>The flags, the width and the precision.\<close>

lemma goes_flags:
  assumes "bytes E p (fs @ [x])" and "set fs \<subseteq> set ''-+ #0''" and "x \<notin> set ''-+ #0''" and "x \<noteq> NUL"
    and "currlen s < e_maxlen E"
  shows "goes put E (length fs + 1) (look E p DP_S_FLAGS mn mx fl a s so)
    (look E (p + length fs) DP_S_MIN mn mx (foldl (\<lambda>f c. f OR flag_bit c) fl fs) a s so)"
  using assms(1,2)
proof (induction fs arbitrary: p fl)
  case Nil
  then show ?case using assms(3-5) by (intro goes_step) (simp_all add: look_simps dopr_flags_def)
next
  case (Cons c fs)
  have it: "dopr_iter put E (look E p DP_S_FLAGS mn mx fl a s so)
      = Some (look E (p + 1) DP_S_FLAGS mn mx (fl OR flag_bit c) a s so)"
    using Cons.prems assms(5) by (auto simp: look_simps dopr_flags_def)
  show ?case
    using goes_first [OF it _ Cons.IH [of "p + 1" "fl OR flag_bit c"]] Cons.prems by simp
qed

lemma char_to_int_digit: "isdigit c \<Longrightarrow> 0 \<le> char_to_int c \<and> char_to_int c \<le> 9"
proof -
  assume "isdigit c"
  then have "48 \<le> (of_char c :: nat)" "(of_char c :: nat) \<le> 57" by (simp_all add: isdigit_def)
  moreover have "int (of_char c) = of_char c" by (rule of_nat_of_char)
  ultimately show ?thesis unfolding char_to_int_def by simp
qed

lemma number_from:
  "list_all isdigit ds \<Longrightarrow> 0 \<le> n \<Longrightarrow> n \<le> foldl (\<lambda>n c. 10 * n + char_to_int c) n ds"
proof (induction ds arbitrary: n)
  case (Cons c ds)
  have "0 \<le> 10 * n + char_to_int c" "n \<le> 10 * n + char_to_int c"
    using Cons.prems char_to_int_digit [of c] by auto
  then show ?case using Cons.IH [of "10 * n + char_to_int c"] Cons.prems by simp
qed simp

lemma goes_min:
  assumes "bytes E p (ws @ [x])" and "list_all isdigit ws" and "\<not> isdigit x" and "x \<noteq> CHR ''*''" and "x \<noteq> NUL"
    and "currlen s < e_maxlen E" and "0 \<le> n" and "foldl (\<lambda>n c. 10 * n + char_to_int c) n ws < 2 ^ 30"
  shows "goes put E (length ws + 1) (look E p DP_S_MIN n mx fl a s so)
    (look E (p + length ws) DP_S_DOT (foldl (\<lambda>n c. 10 * n + char_to_int c) n ws) mx fl a s so)"
  using assms(1,2,7,8)
proof (induction ws arbitrary: p n)
  case Nil
  then show ?case using assms(3-6) by (intro goes_step) (simp_all add: look_simps dopr_min_def)
next
  case (Cons c ws)
  define m where "m = 10 * n + char_to_int c"
  have c: "0 \<le> char_to_int c" "char_to_int c \<le> 9" "isdigit c" "c \<noteq> NUL"
    using Cons.prems char_to_int_digit [of c] by (auto simp: isdigit_def)
  have m: "0 \<le> m" "m < 2 ^ 30"
    using c Cons.prems number_from [of ws m] by (simp_all add: m_def)
  then have ov: "s32 (s32 (10 * n) + char_to_int c) = m"
    using c Cons.prems(3) by (simp add: m_def s32_id)
  have it: "dopr_iter put E (look E p DP_S_MIN n mx fl a s so) = Some (look E (p + 1) DP_S_MIN m mx fl a s so)"
    using Cons.prems assms(6) c ov by (simp add: look_simps dopr_min_def)
  show ?case
    using goes_first [OF it _ Cons.IH [of "p + 1" m]] Cons.prems m by (simp add: m_def)
qed

lemma goes_max:
  assumes "bytes E p (ps @ [x])" and "list_all isdigit ps" and "\<not> isdigit x" and "x \<noteq> CHR ''*''" and "x \<noteq> NUL"
    and "currlen s < e_maxlen E" and "0 \<le> n" and "foldl (\<lambda>n c. 10 * n + char_to_int c) n ps < 2 ^ 30"
  shows "goes put E (length ps + 1) (look E p DP_S_MAX mn n fl a s so)
    (look E (p + length ps) DP_S_MOD mn (foldl (\<lambda>n c. 10 * n + char_to_int c) n ps) fl a s so)"
  using assms(1,2,7,8)
proof (induction ps arbitrary: p n)
  case Nil
  then show ?case using assms(3-6) by (intro goes_step) (simp_all add: look_simps dopr_max_def)
next
  case (Cons c ps)
  define m where "m = 10 * n + char_to_int c"
  have c: "0 \<le> char_to_int c" "char_to_int c \<le> 9" "isdigit c" "c \<noteq> NUL"
    using Cons.prems char_to_int_digit [of c] by (auto simp: isdigit_def)
  have m: "0 \<le> m" "m < 2 ^ 30"
    using c Cons.prems number_from [of ps m] by (simp_all add: m_def)
  then have ov: "s32 (s32 (10 * n) + char_to_int c) = m"
    using c Cons.prems(3) by (simp add: m_def s32_id)
  have it: "dopr_iter put E (look E p DP_S_MAX mn n fl a s so) = Some (look E (p + 1) DP_S_MAX mn m fl a s so)"
    using Cons.prems assms(6) c ov by (simp add: look_simps dopr_max_def)
  show ?case
    using goes_first [OF it _ Cons.IH [of "p + 1" m]] Cons.prems m by (simp add: m_def)
qed

lemma goes_precision:
  assumes "bytes E p ((if ps = [] then [] else CHR ''.'' # ps) @ [k])" and "list_all isdigit ps" and "number ps < 2 ^ 30"
    and "\<not> isdigit k" and "k \<notin> set ''*.hlL''" and "k \<noteq> NUL" and room: "currlen s < e_maxlen E"
  shows "goes put E (length ps + 3) (look E p DP_S_DOT mn (-1) fl a s so)
    (look E (p + length (if ps = [] then [] else CHR ''.'' # ps)) DP_S_CONV mn (precision ps) fl a s so)"
proof -
  let ?q = "p + length (if ps = [] then [] else CHR ''.'' # ps)"
  have k: "e_fmt E ?q = k" using assms(1) by simp
  have md: "goes put E 1 (look E ?q DP_S_MOD mn mx fl a s so) (look E ?q DP_S_CONV mn mx fl a s so)" for mx
    using k assms(5-7) by (intro goes_step) (simp_all add: look_simps dopr_mod_def)
  show ?thesis
  proof (cases ps)
    case Nil
    have it: "dopr_iter put E (look E p DP_S_DOT mn (-1) fl a s so) = Some (look E p DP_S_MOD mn (-1) fl a s so)"
      using k Nil assms(5-7) by (simp add: look_simps dopr_dot_def)
    have "goes put E 2 (look E p DP_S_DOT mn (-1) fl a s so) (look E ?q DP_S_CONV mn (-1) fl a s so)"
      unfolding numeral_2_eq_2 by (rule goes_first [OF it]) (use md [of "-1"] Nil in simp_all)
    then show ?thesis using Nil goes_more by (force simp: precision_def)
  next
    case (Cons c cs)
    have c: "isdigit c" "0 \<le> char_to_int c" "char_to_int c \<le> 9" "c \<noteq> NUL"
      using assms(2) char_to_int_digit [of c] Cons by (auto simp: isdigit_def)
    have it: "dopr_iter put E (look E p DP_S_DOT mn (-1) fl a s so) = Some (look E (p + 1) DP_S_MAX mn (-1) fl a s so)"
      using assms(1,7) Cons by (simp add: look_simps dopr_dot_def)
    have it2: "dopr_iter put E (look E (p + 1) DP_S_MAX mn (-1) fl a s so)
        = Some (look E (p + 1 + 1) DP_S_MAX mn (char_to_int c) fl a s so)"
      using assms(1,7) Cons c by (simp add: look_simps dopr_max_def s32_id)
    have num: "foldl (\<lambda>n c. 10 * n + char_to_int c) (char_to_int c) cs = precision ps"
      by (simp add: precision_def number_def Cons)
    have pr: "precision ps = number ps" by (simp add: precision_def Cons)
    have "goes put E (length cs + 1) (look E (p + 1 + 1) DP_S_MAX mn (char_to_int c) fl a s so)
        (look E (p + 1 + 1 + length cs) DP_S_MOD mn (precision ps) fl a s so)"
      unfolding num [symmetric]
      by (rule goes_max [where x = k]) (use assms c Cons num pr in auto)
    then have "goes put E (length cs + 2) (look E (p + 1 + 1) DP_S_MAX mn (char_to_int c) fl a s so)
        (look E ?q DP_S_CONV mn (precision ps) fl a s so)"
      using goes_trans [OF _ md [of "precision ps"]] by (fastforce simp: Cons)
    from goes_more [OF goes_first [OF it _ goes_first [OF it2 _ this]], of "length ps + 3"] show ?thesis by (simp add: Cons)
  qed
qed

section \<open>Conversions in the loop\<close>

text \<open>The strings among the arguments are of a possible length.\<close>

definition strings_ok :: "'f dp_env \<Rightarrow> bool" where
  "strings_ok E \<longleftrightarrow> (\<forall>p. int (length (e_cstr E p)) < 2 ^ 30) \<and> e_maxlen E < 2 ^ 31"

lemma conv_int_look:
  assumes "8 \<le> base" and "- (2 ^ 30) \<le> mn" and "mn < 2 ^ 30" and "mx < 2 ^ 30"
  shows "dopr_reset E (conv_int put E base fl' (look E p DP_S_CONV mn mx fl a s so)) =
    look E (p + 1) DP_S_DEFAULT 0 (-1) 0 (a + 1)
      (emits put (int_text (sint (e_args E a)) base mn (max mx 0) (fl OR fl')) s) so"
proof -
  have v: "- (2 ^ 31) \<le> sint (e_args E a)" "sint (e_args E a) < 2 ^ 31"
    using sint_greater_eq [of "e_args E a"] sint_less [of "e_args E a"] by simp_all
  have "fmtint put (sint (e_args E a)) base mn mx (fl OR fl') s =
      emits put (int_text (sint (e_args E a)) base mn (max mx 0) (fl OR fl')) s"
    by (rule fmtint_emits) (use v assms in auto)
  then show ?thesis
    by (simp add: conv_int_def Let_def va_word_def dopr_reset_def next_look)
qed

lemma goes_conv:
  assumes k: "e_fmt E p = k" "k \<in> set ''diouxXpsc%''" and room: "currlen s < e_maxlen E"
    and ok: "strings_ok E" and mn: "0 \<le> number ws" "number ws < 2 ^ 30" and mx: "precision ps < 2 ^ 30"
  shows "goes put E 1 (look E p DP_S_CONV (number ws) (precision ps) (flag_set fs) a s so)
    (look E (p + 1) DP_S_DEFAULT 0 (-1) 0 (a + words_of (Conv fs ws ps k))
       (emits put (text_of E a (Conv fs ws ps k)) s) so)"
proof (rule goes_step)
  let ?d = "look E p DP_S_CONV (number ws) (precision ps) (flag_set fs) a s so"
  have nn: "k \<noteq> NUL" using k(2) by auto
  have it: "dopr_iter put E ?d = map_option (dopr_reset E) (dopr_conv put E ?d)"
    using k nn room by (simp add: dopr_iter_def Let_def)
  have mn': "- (2 ^ 30) \<le> number ws" using mn(1) by simp
  have int: "dopr_reset E (conv_int put E base fl' ?d) = look E (p + 1) DP_S_DEFAULT 0 (-1) 0 (a + 1)
      (emits put (int_conv E a fs ws ps base fl') s) so" if "8 \<le> base" for base fl'
    unfolding int_conv_def by (rule conv_int_look [OF that mn' mn(2) mx])
  have str: "dopr_reset E (conv_str put E ?d) = look E (p + 1) DP_S_DEFAULT 0 (-1) 0 (a + 1)
      (emits put (str_text (if e_args E a = 0 then None else Some (e_cstr E (e_args E a))) (flag_set fs) (number ws)
         (if precision ps < 0 then e_maxlen E else precision ps)) s) so"
    using fmtstr_emits [of "if e_args E a = 0 then None else Some (e_cstr E (e_args E a))" "number ws"
        "if precision ps < 0 then e_maxlen E else precision ps" put "flag_set fs" s] ok mn mx
    by (auto simp: strings_ok_def conv_str_def Let_def va_word_def dopr_reset_def next_look)
  have rs: "dopr_reset E (look E p DP_S_CONV mn mx fl i t so) = look E (p + 1) DP_S_DEFAULT 0 (-1) 0 i t so"
    for mn mx fl i t by (simp add: dopr_reset_def next_look)
  show "dopr_iter put E ?d = Some (look E (p + 1) DP_S_DEFAULT 0 (-1) 0 (a + words_of (Conv fs ws ps k))
       (emits put (text_of E a (Conv fs ws ps k)) s) so)"
    unfolding it using k(2)
    by (simp only: list.set insert_iff empty_iff, elim disjE;
        simp add: dopr_conv_def k(1) int str rs va_word_def dopr_outch_emits)
qed simp_all

section \<open>Whole formats\<close>

lemma number_bound: "list_all isdigit ds \<Longrightarrow> 0 \<le> number ds"
  unfolding number_def using number_from [of ds 0] by simp

lemma goes_directive:
  assumes b: "bytes E p (render x)" and wf: "well_formed x" and ok: "strings_ok E" and room: "currlen s < e_maxlen E"
  shows "goes put E (8 * length (render x)) (look E p DP_S_DEFAULT 0 (-1) 0 a s so)
    (look E (p + length (render x)) DP_S_DEFAULT 0 (-1) 0 (a + words_of x) (emits put (text_of E a x) s) so)"
proof (cases x)
  case (Lit c)
  then show ?thesis using b wf room
    by (intro goes_step) (simp_all add: look_simps dopr_outch_emits)
next
  case (Conv fs ws ps k)
  define tail where "tail = (if ps = [] then [] else CHR ''.'' # ps)"
  have wf': "set fs \<subseteq> set ''-+ #0''" "list_all isdigit ws" "ws = [] \<or> hd ws \<noteq> CHR ''0''" "list_all isdigit ps"
    "number ws < 2 ^ 30" "number ps < 2 ^ 30" "k \<in> set ''diouxXpsc%''" using wf Conv by simp_all
  have k: "\<not> isdigit k" "k \<notin> set ''*.hlL''" "k \<noteq> NUL" "k \<notin> set ''-+ #0''" using wf'(7) by (auto simp: isdigit_def)
  define x1 where "x1 = hd (tail @ [k])"
  have x1: "\<not> isdigit x1" "x1 \<noteq> CHR ''*''" "x1 \<noteq> NUL" "x1 \<notin> set ''-+ #0''"
    using k by (auto simp: x1_def tail_def isdigit_def)
  define x2 where "x2 = hd (ws @ [x1])"
  have x2: "x2 \<noteq> NUL" "x2 \<notin> set ''-+ #0''"
    using x1 wf'(2,3) by (cases ws; auto simp: x2_def isdigit_def)+
  have bb: "e_fmt E p = CHR ''%''" "bytes E (p + 1) fs" "bytes E (p + 1 + length fs) ws"
    "bytes E (p + 1 + length fs + length ws) (tail @ [k])"
    using b Conv by (simp_all add: tail_def add.assoc)
  have b1: "bytes E (p + 1 + length fs) (ws @ [x1])"
    using bb(3,4) by (cases "tail @ [k]") (simp_all add: x1_def)
  then have b2: "bytes E (p + 1) (fs @ [x2])"
    using bb(2) by (cases ws) (simp_all add: x2_def)
  have it: "dopr_iter put E (look E p DP_S_DEFAULT 0 (-1) 0 a s so) = Some (look E (p + 1) DP_S_FLAGS 0 (-1) 0 a s so)"
    using bb(1) room by (simp add: look_simps)
  note fl = goes_flags [OF b2 wf'(1) x2(2) x2(1) room, of put 0 "-1" 0 a so, folded flag_set_def]
  have mn: "goes put E (length ws + 1) (look E (p + 1 + length fs) DP_S_MIN 0 (-1) (flag_set fs) a s so)
      (look E (p + 1 + length fs + length ws) DP_S_DOT (number ws) (-1) (flag_set fs) a s so)"
    unfolding number_def by (rule goes_min [OF b1 wf'(2) x1(1-3) room]) (use wf'(5) in \<open>simp_all add: number_def\<close>)
  have pr: "goes put E (length ps + 3) (look E (p + 1 + length fs + length ws) DP_S_DOT (number ws) (-1) (flag_set fs) a s so)
      (look E (p + 1 + length fs + length ws + length tail) DP_S_CONV (number ws) (precision ps) (flag_set fs) a s so)"
    unfolding tail_def by (rule goes_precision) (use bb(4) wf' k room in \<open>simp_all add: tail_def\<close>)
  have ek: "e_fmt E (p + 1 + length fs + length ws + length tail) = k" using bb(4) by simp
  have pb: "precision ps < 2 ^ 30" using wf'(6) by (simp add: precision_def)
  note cv = goes_conv [OF ek wf'(7) room ok number_bound [OF wf'(2)] wf'(5) pb, of put fs a so]
  have len: "p + 1 + length fs + length ws + length tail + 1 = p + length (render x)"
    by (simp add: Conv tail_def)
  have "goes put E (Suc (length fs + 1 + (length ws + 1 + (length ps + 3 + 1)))) (look E p DP_S_DEFAULT 0 (-1) 0 a s so)
    (look E (p + length (render x)) DP_S_DEFAULT 0 (-1) 0 (a + words_of x) (emits put (text_of E a x) s) so)"
    using goes_first [OF it _ goes_trans [OF fl goes_trans [OF mn goes_trans [OF pr cv]]]]
    unfolding len Conv [symmetric] by simp
  then show ?thesis by (rule goes_more) (simp add: Conv)
qed

lemma goes_directives:
  assumes ok: "strings_ok E"
  shows "bytes E p (concat (map render xs)) \<Longrightarrow> list_all well_formed xs \<Longrightarrow> 0 \<le> currlen s \<Longrightarrow>
    currlen s + int (length (texts_of E a xs)) < e_maxlen E \<Longrightarrow>
    \<exists>a'. goes put E (8 * length (concat (map render xs))) (look E p DP_S_DEFAULT 0 (-1) 0 a s so)
      (look E (p + length (concat (map render xs))) DP_S_DEFAULT 0 (-1) 0 a' (emits put (texts_of E a xs) s) so)"
proof (induction xs arbitrary: p a s)
  case Nil
  then show ?case by (auto intro!: exI [of _ a] goes_refl)
next
  case (Cons x xs)
  let ?s = "emits put (text_of E a x) s"
  have len: "currlen ?s = currlen s + int (length (text_of E a x))"
    using Cons.prems(3,4) ok by (intro emits_currlen) (simp_all add: strings_ok_def)
  have first: "goes put E (8 * length (render x)) (look E p DP_S_DEFAULT 0 (-1) 0 a s so)
      (look E (p + length (render x)) DP_S_DEFAULT 0 (-1) 0 (a + words_of x) ?s so)"
    by (rule goes_directive) (use Cons.prems ok in simp_all)
  obtain a' where "goes put E (8 * length (concat (map render xs))) (look E (p + length (render x)) DP_S_DEFAULT 0 (-1) 0 (a + words_of x) ?s so)
      (look E (p + length (render x) + length (concat (map render xs))) DP_S_DEFAULT 0 (-1) 0 a'
        (emits put (texts_of E (a + words_of x) xs) ?s) so)"
    using Cons.IH [of "p + length (render x)" ?s "a + words_of x"] Cons.prems len by auto
  from goes_trans [OF first this] show ?case by (auto simp: add.assoc distrib_left)
qed

lemma directives_put:
  assumes "list_all well_formed xs" and "bytes E 0 (concat (map render xs) @ [NUL])"
    and "\<forall>p. int (length (e_cstr E p)) < 2 ^ 30" and "e_maxlen E < 2 ^ 31"
    and "int (length (texts_of E 0 xs)) < e_maxlen E"
  shows "vsnprintf (8 * length (concat (map render xs)) + 2) put E o0 = Some (Some (fold put (texts_of E 0 xs) o0))"
proof -
  let ?f = "concat (map render xs)" and ?n = "length (concat (map render xs))"
  have ok: "strings_ok E" using assms(3,4) by (simp add: strings_ok_def)
  have st: "dopr_start E o0 = look E 0 DP_S_DEFAULT 0 (-1) 0 0 \<lparr>currlen = 0, out = o0\<rparr> []"
    by (simp add: dopr_start_def look_def)
  obtain a' where "goes put E (8 * ?n) (dopr_start E o0)
      (look E ?n DP_S_DEFAULT 0 (-1) 0 a' (emits put (texts_of E 0 xs) \<lparr>currlen = 0, out = o0\<rparr>) [])"
    (is "goes _ _ _ _ ?d")
    using goes_directives [OF ok, of 0 xs "\<lparr>currlen = 0, out = o0\<rparr>" 0 put "[]"] assms by (auto simp: st)
  then obtain k where k: "\<And>j. dopr_loop (k + j) put E (dopr_start E o0) = dopr_loop j put E ?d" "k \<le> 8 * ?n"
    unfolding goes_def by blast
  have nul: "e_fmt E ?n = NUL" using assms(2) by simp
  then have "dopr_iter put E ?d = Some (?d\<lparr>d_state := DP_S_DONE\<rparr>)" by (simp add: dopr_iter_def Let_def)
  then have run: "dopr_loop (k + 2) put E (dopr_start E o0) = Some (Some (?d\<lparr>d_state := DP_S_DONE\<rparr>))"
    unfolding k(1) by (simp add: numeral_2_eq_2)
  have "k + 2 + (8 * ?n - k) = 8 * ?n + 2" using k(2) by simp
  then have "dopr_loop (8 * ?n + 2) put E (dopr_start E o0) = Some (Some (?d\<lparr>d_state := DP_S_DONE\<rparr>))"
    using dopr_loop_more [OF run, of "8 * ?n - k"] by metis
  then show ?thesis by (simp add: vsnprintf_def dopr_def emits_out)
qed

text \<open>
  C21. \<^verbatim>\<open>vsnprintf\<close> understands its formats: for every list of directives (literal characters, and
  conversions \<open>d i o u x X p s c %\<close> with flags, a width and a precision), written out as a format,
  it ends within \<open>8 n + 2\<close> iterations and has put exactly the texts of the directives in order, each
  made from its own argument, when the whole text is shorter than the limit.
\<close>

theorem vsnprintf_correct:
  assumes "list_all well_formed xs" and "bytes E 0 (concat (map render xs) @ [NUL])"
    and "\<forall>p. int (length (e_cstr E p)) < 2 ^ 30" and "e_maxlen E < 2 ^ 31"
    and "int (length (texts_of E 0 xs)) < e_maxlen E"
  shows "vsnprintf (8 * length (concat (map render xs)) + 2) put E o0 = Some (Some (fold put (texts_of E 0 xs) o0))"
  using directives_put [OF assms] .

theorem vsnprintf_correct_witness:
  "vsnprintf 42 (\<lambda>c o0. o0 @ [c]) (c_env ''[%5d]'' [- 42] (\<lambda>_. []) 1000) [] = Some (Some ''[  -42]'')"
proof -
  let ?E = "c_env ''[%5d]'' [- 42] (\<lambda>_. []) 1000"
  let ?xs = "[Lit CHR ''['', Conv [] ''5'' [] CHR ''d'', Lit CHR '']'']"
  have num: "number ''5'' = 5" "number [] = 0" by (simp_all add: number_def char_to_int_def)
  have tx: "int_text (- 42) 10 5 0 0 = ''  -42''" by code_simp
  have t: "texts_of ?E 0 ?xs = ''[  -42]''"
    using tx by (simp add: int_conv_def num precision_def flag_set_def c_env_def)
  have "vsnprintf (8 * length (concat (map render ?xs)) + 2) (\<lambda>c o0. o0 @ [c]) ?E [] =
      Some (Some (fold (\<lambda>c o0. o0 @ [c]) (texts_of ?E 0 ?xs) []))"
    by (rule vsnprintf_correct)
      (simp_all only: t, simp_all add: num isdigit_def bytes_def c_env_def c_bytes_def less_Suc_eq numeral_eq_Suc)
  then show ?thesis unfolding t by simp
qed

end
