(* ===== verification/Printf.thy ===== *)
theory Printf
  imports Snprintf_Format
begin

text \<open>
  The user library: \<^verbatim>\<open>t0.dir/sbin/libc.c\<close> and \<^verbatim>\<open>t0.dir/sbin/printf.c\<close>. The file \<^verbatim>\<open>printf.c\<close> is
  \<^verbatim>\<open>kernel/snprintf.cc\<close> with \<^verbatim>\<open>putchar\<close> in place of the stream, so its functions are those of the kernel
  at that operation. The system calls \<open>write\<close> and \<open>read\<close> are parameters: functions on a state \<open>'w\<close>.
\<close>

section \<open>libc.c\<close>

type_synonym 'w sys_write = "int \<Rightarrow> string \<Rightarrow> 'w \<Rightarrow> int \<times> 'w"
type_synonym 'w sys_read = "int \<Rightarrow> nat \<Rightarrow> 'w \<Rightarrow> int \<times> string \<times> 'w"

definition u_putchar :: "'w sys_write \<Rightarrow> char \<Rightarrow> 'w \<Rightarrow> int \<times> 'w" where
  "u_putchar wr c w = wr 1 [c] w"

fun puts_loop :: "'w sys_write \<Rightarrow> string \<Rightarrow> int \<Rightarrow> 'w \<Rightarrow> (int + int) \<times> 'w" where
  "puts_loop wr [] count w = (Inr count, w)"
| "puts_loop wr (c # cs) count w =
     (let (n, w) = u_putchar wr c w
      in if n < 0 then (Inl n, w) else puts_loop wr cs (s32 (count + 1)) w)"

definition u_puts :: "'w sys_write \<Rightarrow> string \<Rightarrow> 'w \<Rightarrow> int \<times> 'w" where
  "u_puts wr p w =
     (case puts_loop wr p 0 w of
        (Inl n, w) \<Rightarrow> (n, w)
      | (Inr count, w) \<Rightarrow> (s32 (count + 1), snd (u_putchar wr CHR 0x0A w)))"

text \<open>
  The inner loop of \<^verbatim>\<open>cp\<close>: \<open>n\<close> bytes left at \<open>ptr\<close>; a write error ends it with a message. Both loops
  run on fuel, \<open>None\<close>: out of fuel.
\<close>

fun cp_write :: "nat \<Rightarrow> 'w sys_write \<Rightarrow> (int \<Rightarrow> 'w \<Rightarrow> 'w) \<Rightarrow> int \<Rightarrow> string \<Rightarrow> int \<Rightarrow> nat \<Rightarrow> 'w \<Rightarrow> 'w option" where
  "cp_write 0 wr err to_fd buf n ptr w = None"
| "cp_write (Suc k) wr err to_fd buf n ptr w =
     (if n > 0 then
        (let (m, w) = wr to_fd (take (nat n) (drop ptr buf)) w
         in if m < 0 then Some (err to_fd w)
            else cp_write k wr err to_fd buf (n - m) (ptr + nat m) w)
      else Some w)"

fun cp_loop ::
  "nat \<Rightarrow> 'w sys_read \<Rightarrow> 'w sys_write \<Rightarrow> (int \<Rightarrow> 'w \<Rightarrow> 'w) \<Rightarrow> (int \<Rightarrow> 'w \<Rightarrow> 'w) \<Rightarrow> int \<Rightarrow> int \<Rightarrow> 'w \<Rightarrow> 'w option" where
  "cp_loop 0 rd wr rerr werr from_fd to_fd w = None"
| "cp_loop (Suc k) rd wr rerr werr from_fd to_fd w =
     (let (n, buf, w) = rd from_fd 100 w
      in if n = 0 then Some w
         else if n < 0 then Some (rerr from_fd w)
         else case cp_write k wr werr to_fd buf n 0 w of
                None \<Rightarrow> None
              | Some w \<Rightarrow> cp_loop k rd wr rerr werr from_fd to_fd w)"

section \<open>printf.c\<close>

text \<open>The stream: \<^verbatim>\<open>putchar\<close> with its result dropped.\<close>

definition u_put :: "'w sys_write \<Rightarrow> char \<Rightarrow> 'w \<Rightarrow> 'w" where
  "u_put wr c w = snd (u_putchar wr c w)"

definition u_dopr_outch :: "'w sys_write \<Rightarrow> char \<Rightarrow> 'w sink \<Rightarrow> 'w sink" where
  "u_dopr_outch wr = dopr_outch (u_put wr)"

definition u_fmtstr :: "'w sys_write \<Rightarrow> string option \<Rightarrow> flags \<Rightarrow> int \<Rightarrow> int \<Rightarrow> 'w sink \<Rightarrow> 'w sink" where
  "u_fmtstr wr = fmtstr (u_put wr)"

definition u_fmtint :: "'w sys_write \<Rightarrow> int \<Rightarrow> nat \<Rightarrow> int \<Rightarrow> int \<Rightarrow> flags \<Rightarrow> 'w sink \<Rightarrow> 'w sink" where
  "u_fmtint wr = fmtint (u_put wr)"

definition u_abs_val :: "'f fpu \<Rightarrow> 'f \<Rightarrow> 'f" where
  "u_abs_val = abs_val"

definition u_pow10 :: "'f fpu \<Rightarrow> nat \<Rightarrow> 'f" where
  "u_pow10 = pow10"

definition u_xround :: "'f fpu \<Rightarrow> 'f \<Rightarrow> int" where
  "u_xround = xround"

definition u_fmtfp :: "'f fpu \<Rightarrow> 'w sys_write \<Rightarrow> 'f \<Rightarrow> int \<Rightarrow> int \<Rightarrow> flags \<Rightarrow> 'w sink \<Rightarrow> 'w sink option" where
  "u_fmtfp U wr = fmtfp U (u_put wr)"

definition u_dopr_conv :: "'w sys_write \<Rightarrow> 'f dp_env \<Rightarrow> 'w dopr \<Rightarrow> 'w dopr option" where
  "u_dopr_conv wr = dopr_conv (u_put wr)"

definition u_dopr_iter :: "'w sys_write \<Rightarrow> 'f dp_env \<Rightarrow> 'w dopr \<Rightarrow> 'w dopr option" where
  "u_dopr_iter wr = dopr_iter (u_put wr)"

definition u_dopr :: "nat \<Rightarrow> 'w sys_write \<Rightarrow> 'f dp_env \<Rightarrow> 'w \<Rightarrow> 'w dopr option option" where
  "u_dopr fuel wr = dopr fuel (u_put wr)"

text \<open>\<^verbatim>\<open>vprintf\<close> and \<^verbatim>\<open>printf\<close>: the limit is 1000 and the result 1.\<close>

definition u_vprintf :: "nat \<Rightarrow> 'w sys_write \<Rightarrow> 'f dp_env \<Rightarrow> 'w \<Rightarrow> (int \<times> 'w) option option" where
  "u_vprintf fuel wr E w =
     map_option (map_option (\<lambda>d. (1, out (d_sink d)))) (u_dopr fuel wr (E\<lparr>e_maxlen := 1000\<rparr>) w)"

definition u_printf :: "nat \<Rightarrow> 'w sys_write \<Rightarrow> 'f dp_env \<Rightarrow> 'w \<Rightarrow> (int \<times> 'w) option option" where
  "u_printf fuel wr E w = u_vprintf fuel wr E w"

text \<open>What \<^verbatim>\<open>printf\<close> writes for a list of directives.\<close>

lemma u_printf_text:
  assumes "list_all well_formed xs" and "bytes E 0 (concat (map render xs) @ [NUL])"
    and "\<forall>p. int (length (e_cstr E p)) < 2 ^ 30"
    and "int (length (texts_of (E\<lparr>e_maxlen := 1000\<rparr>) 0 xs)) < 1000"
  shows "u_printf (8 * length (concat (map render xs)) + 2) wr E w =
    Some (Some (1, fold (u_put wr) (texts_of (E\<lparr>e_maxlen := 1000\<rparr>) 0 xs) w))"
proof -
  have "bytes (E\<lparr>e_maxlen := 1000\<rparr>) 0 (concat (map render xs) @ [NUL])"
    using assms(2) by (simp add: bytes_def)
  then have "vsnprintf (8 * length (concat (map render xs)) + 2) (u_put wr) (E\<lparr>e_maxlen := 1000\<rparr>) w =
      Some (Some (fold (u_put wr) (texts_of (E\<lparr>e_maxlen := 1000\<rparr>) 0 xs) w))"
    using assms by (intro directives_put) simp_all
  then show ?thesis by (auto simp: u_printf_def u_vprintf_def u_dopr_def vsnprintf_def)
qed

section \<open>A floating point conversion\<close>

text \<open>Exact arithmetic on hundredths, enough for two decimals.\<close>

definition hundredths :: "int fpu" where
  "hundredths = \<lparr>fp_of_long = (\<lambda>n. 100 * n), fp_to_long = (\<lambda>x. x div 100), fp_of_double = (\<lambda>_ _. 0),
     fp_of_ldouble = (\<lambda>_ _ _. 0), fp_neg = uminus, fp_sub = (-), fp_mul = (\<lambda>x y. x * y div 100), fp_less = (<),
     fp_le = (\<le>), fp_half = 50\<rparr>"

text \<open>With two decimals 1.05 comes out as 1.50: the zeros that fill the decimals come after the digits.\<close>

lemma fmtfp_zeros_misplaced:
  "map_option out (fmtfp hundredths (\<lambda>c o0. o0 @ [c]) 105 0 2 0 \<lparr>currlen = 0, out = []\<rparr>) = Some ''1.50''"
  by code_simp

end
