(* ===== verification/Vga.thy ===== *)
theory Vga
  imports Prelude
begin

text \<open>
  The display, \<^verbatim>\<open>kernel/vga.h\<close>, \<^verbatim>\<open>kernel/vga.cc\<close> and \<^verbatim>\<open>kernel/port.cc\<close>: the register programming as the
  sequence of port writes, the palette and the font, and the drawing operations on the frame
  buffer, a function from the offset in the video memory to the byte there. The device behind
  the ports is a parameter: what a read of a port gives after the writes so far.
\<close>

section \<open>Tables\<close>

text \<open>The enumeration of the colour names; the value of a name is its position.\<close>

definition vga_colors :: "string list" where
  "vga_colors = [
    ''BLACK'', ''NAVY_BLUE'', ''GREEN'', ''TEAL'', ''RED'', ''PINKISH_PURPLE'', ''MUSTARD'',
    ''GRAY'', ''DARK_BLUE'', ''BLUE'', ''MINT'', ''SKY_BLUE'', ''RED_WINE'',
    ''BRIGHTER_PURPLE'', ''DIJON_MUSTARD'', ''LAVENDER'', ''DARK_GREEN'', ''DENIM_BLUE'',
    ''NEON_GREEN'', ''BLUEISH_GREEN'', ''BROWN'', ''PASTEL_PURPLE'', ''YELLOW_GREEN'',
    ''WHITEISH_GREEN'', ''GASOLINE_GREEN'', ''ELECTRIC_BLUE'', ''GREEN_TWO'', ''TURQUOISE'',
    ''RED_CLAY'', ''BRIGHT_PURPLE'', ''YELLOW_GREEN_TWO'', ''REALLY_BRIGHT_SKY'', ''MAROON'',
    ''JOKER_PURPLE'', ''SLIGHTLY_DARK_GREEN'', ''DARK_TEAL'', ''BRIGHT_RED'', ''NEON_PINK'',
    ''ORANGE_JUICE'', ''SALMON'', ''GRAPE'', ''PURPLEISH_BLUE'', ''GREEN_THREE'',
    ''SKY_BLUE_TWO'', ''PINKISH_RED'', ''HOT_PINK'', ''LIGHT_MUSTARD'', ''LILAC'',
    ''FOREST_GREEN'', ''PASTEL_INDIGO'', ''SPEARAMINT'', ''MOUTHWASH_GREEN'', ''ORANGE'',
    ''PINK'', ''BRIGHT_YELLOW'', ''WHITE_YELLOW'', ''DARK_GRAY'', ''INDIGO'', ''GREEN_FOUR'',
    ''TURQUOISE_TWO'', ''CORAL'', ''HOT_PINK_TWO'', ''YELLOW'', ''WHITE'']"

definition palette :: "nat list" where
  "palette = [
    0, 0, 0, 0, 0, 85, 0, 0, 170, 0, 0, 255, 0, 85, 0, 0, 85, 85, 0, 85, 170, 0, 85, 255, 0,
    170, 0, 0, 170, 85, 0, 170, 170, 0, 170, 255, 0, 255, 0, 0, 255, 85, 0, 255, 170, 0, 255,
    255, 85, 0, 0, 85, 0, 85, 85, 0, 170, 85, 0, 255, 85, 85, 0, 85, 85, 85, 85, 85, 170, 85,
    85, 255, 85, 170, 0, 85, 170, 85, 85, 170, 170, 85, 170, 255, 85, 255, 0, 85, 255, 85, 85,
    255, 170, 85, 255, 255, 170, 0, 0, 170, 0, 85, 170, 0, 170, 170, 0, 255, 170, 85, 0, 170,
    85, 85, 170, 85, 170, 170, 85, 255, 170, 170, 0, 170, 170, 85, 170, 170, 170, 170, 170,
    255, 170, 255, 0, 170, 255, 85, 170, 255, 170, 170, 255, 255, 255, 0, 0, 255, 0, 85, 255,
    0, 170, 255, 0, 255, 255, 85, 0, 255, 85, 85, 255, 85, 170, 255, 85, 255, 255, 170, 0, 255,
    170, 85, 255, 170, 170, 255, 170, 255, 255, 255, 0, 255, 255, 85, 255, 255, 170, 255, 255,
    255]"

definition vga_font :: "nat list list" where
  "vga_font = [
    [0, 0, 0, 0, 0, 0, 0, 0],
    [0, 0, 0, 0, 0, 0, 0, 0],
    [0, 0, 0, 0, 0, 0, 0, 0],
    [0, 0, 0, 0, 0, 0, 0, 0],
    [0, 0, 0, 0, 0, 0, 0, 0],
    [0, 0, 0, 0, 0, 0, 0, 0],
    [0, 0, 0, 0, 0, 0, 0, 0],
    [0, 0, 0, 0, 0, 0, 0, 0],
    [0, 0, 0, 0, 0, 0, 0, 0],
    [0, 0, 0, 0, 0, 0, 0, 0],
    [0, 0, 0, 0, 0, 0, 0, 0],
    [0, 0, 0, 0, 0, 0, 0, 0],
    [0, 0, 0, 0, 0, 0, 0, 0],
    [0, 0, 0, 0, 0, 0, 0, 0],
    [0, 0, 0, 0, 0, 0, 0, 0],
    [0, 0, 0, 0, 0, 0, 0, 0],
    [0, 0, 0, 0, 0, 0, 0, 0],
    [0, 0, 0, 0, 0, 0, 0, 0],
    [0, 0, 0, 0, 0, 0, 0, 0],
    [0, 0, 0, 0, 0, 0, 0, 0],
    [0, 0, 0, 0, 0, 0, 0, 0],
    [0, 0, 0, 0, 0, 0, 0, 0],
    [0, 0, 0, 0, 0, 0, 0, 0],
    [0, 0, 0, 0, 0, 0, 0, 0],
    [0, 0, 0, 0, 0, 0, 0, 0],
    [0, 0, 0, 0, 0, 0, 0, 0],
    [0, 0, 0, 0, 0, 0, 0, 0],
    [0, 0, 0, 0, 0, 0, 0, 0],
    [0, 0, 0, 0, 0, 0, 0, 0],
    [0, 0, 0, 0, 0, 0, 0, 0],
    [0, 0, 0, 0, 0, 0, 0, 0],
    [0, 0, 0, 0, 0, 0, 0, 0],
    [0, 0, 0, 0, 0, 0, 0, 0],
    [24, 60, 60, 24, 24, 0, 24, 0],
    [54, 54, 0, 0, 0, 0, 0, 0],
    [54, 54, 127, 54, 127, 54, 54, 0],
    [12, 62, 3, 30, 48, 31, 12, 0],
    [0, 99, 51, 24, 12, 102, 99, 0],
    [28, 54, 28, 110, 59, 51, 110, 0],
    [6, 6, 3, 0, 0, 0, 0, 0],
    [24, 12, 6, 6, 6, 12, 24, 0],
    [6, 12, 24, 24, 24, 12, 6, 0],
    [0, 102, 60, 255, 60, 102, 0, 0],
    [0, 12, 12, 63, 12, 12, 0, 0],
    [0, 0, 0, 0, 0, 12, 12, 6],
    [0, 0, 0, 63, 0, 0, 0, 0],
    [0, 0, 0, 0, 0, 12, 12, 0],
    [96, 48, 24, 12, 6, 3, 1, 0],
    [62, 99, 115, 123, 111, 103, 62, 0],
    [12, 14, 12, 12, 12, 12, 63, 0],
    [30, 51, 48, 28, 6, 51, 63, 0],
    [30, 51, 48, 28, 48, 51, 30, 0],
    [56, 60, 54, 51, 127, 48, 120, 0],
    [63, 3, 31, 48, 48, 51, 30, 0],
    [28, 6, 3, 31, 51, 51, 30, 0],
    [63, 51, 48, 24, 12, 12, 12, 0],
    [30, 51, 51, 30, 51, 51, 30, 0],
    [30, 51, 51, 62, 48, 24, 14, 0],
    [0, 12, 12, 0, 0, 12, 12, 0],
    [0, 12, 12, 0, 0, 12, 12, 6],
    [24, 12, 6, 3, 6, 12, 24, 0],
    [0, 0, 63, 0, 0, 63, 0, 0],
    [6, 12, 24, 48, 24, 12, 6, 0],
    [30, 51, 48, 24, 12, 0, 12, 0],
    [62, 99, 123, 123, 123, 3, 30, 0],
    [12, 30, 51, 51, 63, 51, 51, 0],
    [63, 102, 102, 62, 102, 102, 63, 0],
    [60, 102, 3, 3, 3, 102, 60, 0],
    [31, 54, 102, 102, 102, 54, 31, 0],
    [127, 70, 22, 30, 22, 70, 127, 0],
    [127, 70, 22, 30, 22, 6, 15, 0],
    [60, 102, 3, 3, 115, 102, 124, 0],
    [51, 51, 51, 63, 51, 51, 51, 0],
    [30, 12, 12, 12, 12, 12, 30, 0],
    [120, 48, 48, 48, 51, 51, 30, 0],
    [103, 102, 54, 30, 54, 102, 103, 0],
    [15, 6, 6, 6, 70, 102, 127, 0],
    [99, 119, 127, 127, 107, 99, 99, 0],
    [99, 103, 111, 123, 115, 99, 99, 0],
    [28, 54, 99, 99, 99, 54, 28, 0],
    [63, 102, 102, 62, 6, 6, 15, 0],
    [30, 51, 51, 51, 59, 30, 56, 0],
    [63, 102, 102, 62, 54, 102, 103, 0],
    [30, 51, 7, 14, 56, 51, 30, 0],
    [63, 45, 12, 12, 12, 12, 30, 0],
    [51, 51, 51, 51, 51, 51, 63, 0],
    [51, 51, 51, 51, 51, 30, 12, 0],
    [99, 99, 99, 107, 127, 119, 99, 0],
    [99, 99, 54, 28, 28, 54, 99, 0],
    [51, 51, 51, 30, 12, 12, 30, 0],
    [127, 99, 49, 24, 76, 102, 127, 0],
    [30, 6, 6, 6, 6, 6, 30, 0],
    [3, 6, 12, 24, 48, 96, 64, 0],
    [30, 24, 24, 24, 24, 24, 30, 0],
    [8, 28, 54, 99, 0, 0, 0, 0],
    [0, 0, 0, 0, 0, 0, 0, 255],
    [12, 12, 24, 0, 0, 0, 0, 0],
    [0, 0, 30, 48, 62, 51, 110, 0],
    [7, 6, 6, 62, 102, 102, 59, 0],
    [0, 0, 30, 51, 3, 51, 30, 0],
    [56, 48, 48, 62, 51, 51, 110, 0],
    [0, 0, 30, 51, 63, 3, 30, 0],
    [28, 54, 6, 15, 6, 6, 15, 0],
    [0, 0, 110, 51, 51, 62, 48, 31],
    [7, 6, 54, 110, 102, 102, 103, 0],
    [12, 0, 14, 12, 12, 12, 30, 0],
    [48, 0, 48, 48, 48, 51, 51, 30],
    [7, 6, 102, 54, 30, 54, 103, 0],
    [14, 12, 12, 12, 12, 12, 30, 0],
    [0, 0, 51, 127, 127, 107, 99, 0],
    [0, 0, 31, 51, 51, 51, 51, 0],
    [0, 0, 30, 51, 51, 51, 30, 0],
    [0, 0, 59, 102, 102, 62, 6, 15],
    [0, 0, 110, 51, 51, 62, 48, 120],
    [0, 0, 59, 110, 102, 6, 15, 0],
    [0, 0, 62, 3, 30, 48, 31, 0],
    [8, 12, 62, 12, 12, 44, 24, 0],
    [0, 0, 51, 51, 51, 51, 110, 0],
    [0, 0, 51, 51, 51, 30, 12, 0],
    [0, 0, 99, 107, 127, 127, 54, 0],
    [0, 0, 99, 54, 28, 54, 99, 0],
    [0, 0, 51, 51, 51, 62, 48, 31],
    [0, 0, 63, 25, 12, 38, 63, 0],
    [56, 12, 12, 7, 12, 12, 56, 0],
    [24, 24, 24, 0, 24, 24, 24, 0],
    [7, 12, 12, 56, 12, 12, 7, 0],
    [110, 59, 0, 0, 0, 0, 0, 0],
    [0, 0, 0, 0, 0, 0, 0, 0]]"

section \<open>Ports\<close>

type_synonym io_trace = "(u32 \<times> u8) list"

type_synonym device = "io_trace \<Rightarrow> u32 \<Rightarrow> u8"

definition outb :: "u32 \<Rightarrow> u8 \<Rightarrow> io_trace \<Rightarrow> io_trace" where
  "outb p v io = io @ [(p, v)]"

record port =
  index_port :: u32
  read_port :: u32
  write_port :: u32

definition port_new :: port where
  "port_new = \<lparr>index_port = 0, read_port = 0, write_port = 0\<rparr>"

definition writeWithIndex :: "port \<Rightarrow> int \<Rightarrow> int \<Rightarrow> io_trace \<Rightarrow> io_trace" where
  "writeWithIndex p index v io = outb (write_port p) (word_of_int v) (outb (index_port p) (word_of_int index) io)"

definition readWithIndex :: "device \<Rightarrow> port \<Rightarrow> int \<Rightarrow> io_trace \<Rightarrow> int \<times> io_trace" where
  "readWithIndex dev p index io =
     (let io = outb (index_port p) (word_of_int index) io in (uint (dev io (read_port p)), io))"

definition port_write :: "port \<Rightarrow> int \<Rightarrow> io_trace \<Rightarrow> io_trace" where
  "port_write p v io = outb (write_port p) (word_of_int v) io"

definition port_read :: "device \<Rightarrow> port \<Rightarrow> io_trace \<Rightarrow> int" where
  "port_read dev p io = uint (dev io (read_port p))"

record vga =
  attribute_port :: port
  misc_port :: port
  seq_port :: port
  graphics_ctrl :: port
  crt_ctrl_color :: port
  crt_ctrl_mono :: port
  dac_mask_port :: port
  color_pallete_port_write :: port
  color_pallete_port_read :: port
  vga_length :: u32
  vga_width :: u32
  vga_io :: io_trace
  vga_fb :: "nat \<Rightarrow> u8"
  vga_text :: "nat \<Rightarrow> u8"   \<comment> \<open>the text memory at \<^verbatim>\<open>0xB8000\<close>\<close>

abbreviation on_io :: "(io_trace \<Rightarrow> io_trace) \<Rightarrow> vga \<Rightarrow> vga" where
  "on_io f v \<equiv> v\<lparr>vga_io := f (vga_io v)\<rparr>"

definition initializePorts :: "vga \<Rightarrow> vga" where
  "initializePorts v = v\<lparr>
     attribute_port := \<lparr>index_port = 0x3C0, read_port = 0x3C1, write_port = 0x3C0\<rparr>,
     misc_port := (misc_port v)\<lparr>read_port := 0x3CC, write_port := 0x3C2\<rparr>,
     seq_port := \<lparr>index_port = 0x3C4, read_port = 0x3C5, write_port = 0x3C5\<rparr>,
     graphics_ctrl := \<lparr>index_port = 0x3CE, read_port = 0x3CF, write_port = 0x3CF\<rparr>,
     crt_ctrl_color := (crt_ctrl_color v)\<lparr>index_port := 0x3D4, write_port := 0x3D5\<rparr>,
     crt_ctrl_mono := (crt_ctrl_mono v)\<lparr>index_port := 0x3B4, write_port := 0x3B5\<rparr>,
     dac_mask_port := (dac_mask_port v)\<lparr>read_port := 0x3C6, write_port := 0x3C6\<rparr>,
     color_pallete_port_write := (color_pallete_port_write v)\<lparr>index_port := 0x3C8, write_port := 0x3C9\<rparr>,
     color_pallete_port_read := (color_pallete_port_read v)\<lparr>index_port := 0x3C7, write_port := 0x3C9\<rparr>\<rparr>"

text \<open>Which memory the display shows, from the graphics register 6; the last case is the panic.\<close>

definition getFrameBuffer :: "device \<Rightarrow> vga \<Rightarrow> (string + u32) \<times> vga" where
  "getFrameBuffer dev v =
     (let (r, io) = readWithIndex dev (graphics_ctrl v) 6 (vga_io v);
          seg = (word_of_int r :: u8) AND push_bit 2 3; v = v\<lparr>vga_io := io\<rparr>
      in if seg = push_bit 2 0 then (Inr 0, v)
         else if seg = push_bit 2 1 then (Inr 0xA0000, v)
         else if seg = push_bit 2 2 then (Inr 0xB0000, v)
         else if seg = push_bit 2 3 then (Inr 0xB8000, v)
         else (Inl ''*** should never be here'', v))"

fun palette_loop :: "nat list \<Rightarrow> io_trace \<Rightarrow> io_trace" where
  "palette_loop [] io = io"
| "palette_loop (c # cs) io = palette_loop cs (outb 0x3C9 (word_of_nat (c * 4)) io)"

definition initializePalette :: "vga \<Rightarrow> vga" where
  "initializePalette v = on_io (palette_loop (take (64 * 3) palette) \<circ> outb 0x3C8 0 \<circ> port_write (dac_mask_port v) 0xFF) v"

text \<open>Writing registers \<open>i, i + 1, ...\<close> of an indexed port.\<close>

fun write_regs :: "port \<Rightarrow> int \<Rightarrow> u8 list \<Rightarrow> io_trace \<Rightarrow> io_trace" where
  "write_regs p i [] io = io"
| "write_regs p i (x # xs) io = write_regs p (i + 1) xs (writeWithIndex p i (uint x) io)"

definition setPortsText :: "device \<Rightarrow> u8 list \<Rightarrow> vga \<Rightarrow> vga" where
  "setPortsText dev g v =
     (let crt = crt_ctrl_color v;
          io = port_write (misc_port v) (uint (g ! 0)) (vga_io v);
          io = write_regs (seq_port v) 0 (take 5 (drop 1 g)) io;
          io = outb (index_port crt) 0x03 io;
          io = outb (write_port crt) (dev io (write_port crt) OR 0x80) io;
          io = outb (index_port crt) 0x11 io;
          io = outb (write_port crt) (dev io (write_port crt) AND NOT 0x80) io;
          g = g[8 := g ! 8 OR 0x80];
          g = g[22 := g ! 22 AND NOT 0x80];
          io = write_regs crt 0 (take 25 (drop 6 g)) io;
          io = write_regs (graphics_ctrl v) 0 (take 9 (drop 31 g)) io;
          io = write_regs (attribute_port v) 0 (take 21 (drop 40 g)) io;
          val = dev io 0x3DA;
          io = outb (index_port (attribute_port v)) (val OR 0x20) io
      in v\<lparr>vga_io := io\<rparr>)"

definition g_320x200x256 :: "u8 list" where
  "g_320x200x256 = [
    0x63,
    0x03, 0x01, 0x0F, 0x00, 0x0E,
    0x5F, 0x4F, 0x50, 0x82, 0x54, 0x80, 0xBF, 0x1F,
    0x00, 0x41, 0x00, 0x00, 0x00, 0x00, 0x00, 0x00,
    0x9C, 0x0E, 0x8F, 0x28, 0x40, 0x96, 0xB9, 0xA3,
    0xFF,
    0x00, 0x00, 0x00, 0x00, 0x00, 0x40, 0x05, 0x0F,
    0xFF,
    0x00, 0x01, 0x02, 0x03, 0x04, 0x05, 0x06, 0x07,
    0x08, 0x09, 0x0A, 0x0B, 0x0C, 0x0D, 0x0E, 0x0F,
    0x41, 0x00, 0x0F, 0x00, 0x00]"

definition initializeText :: "device \<Rightarrow> vga \<Rightarrow> vga" where
  "initializeText dev v = setPortsText dev g_320x200x256 (v\<lparr>vga_length := 200, vga_width := 320\<rparr>)"

definition initTextMode :: "vga \<Rightarrow> vga" where
  "initTextMode v =
     (let blank = (\<lambda>i. if i < 80 * 25 * 2 then (if even i then 0x20 else 0x07) else vga_text v i);
          c = [104, 0x0F, 101, 0x0F, 108, 0x0F, 108, 0x0F, 111, 0x0F]
      in v\<lparr>vga_io := vga_io v @
              [(0x3D4, 0x00), (0x3D5, 0x67), (0x3D4, 0x01), (0x3D5, 0x00), (0x3D5, 0x01), (0x3D4, 0x03),
               (0x3D5, 0x00), (0x3D4, 0x04), (0x3D5, 0x00), (0x3D5, 0x01), (0x3D5, 0x02), (0x3D4, 0x06),
               (0x3D5, 0x0E), (0x3D4, 0x0E), (0x3D5, 0x05), (0x3D4, 0x0F), (0x3D5, 0x00), (0x3D4, 0x10),
               (0x3D5, 0x05), (0x3D4, 0x11), (0x3D5, 0x00), (0x3D4, 0x14), (0x3D5, 0x00),
               (0x3D4, 0x0F), (0x3D5, 0x00), (0x3D4, 0x0E), (0x3D5, 0x00)],
           vga_text := (\<lambda>i. if i < 10 then c ! i else blank i)\<rparr>)"

section \<open>Colours\<close>

definition COLOR_RANGES :: "int list" where
  "COLOR_RANGES = [0, 85, 170, 255]"

text \<open>One step of the loop for one channel: the index after the range \<open>i\<close>.\<close>

definition range_step :: "int \<Rightarrow> nat \<Rightarrow> nat \<Rightarrow> nat" where
  "range_step x i idx =
     (if x \<ge> COLOR_RANGES ! (i - 1) \<and> x \<le> COLOR_RANGES ! i then
        (let below_dist = x - COLOR_RANGES ! (i - 1); above_dist = COLOR_RANGES ! i - x
         in if below_dist < above_dist then i - 1 else i)
      else idx)"

fun range_loop :: "nat list \<Rightarrow> int \<times> int \<times> int \<Rightarrow> nat \<times> nat \<times> nat \<Rightarrow> nat \<times> nat \<times> nat" where
  "range_loop [] rgb ix = ix"
| "range_loop (i # is') (r, g, b) (r_idx, g_idx, b_idx) =
     range_loop is' (r, g, b) (range_step r i r_idx, range_step g i g_idx, range_step b i b_idx)"

text \<open>The search for the entry of a colour, from entry \<open>i\<close> on.\<close>

fun palette_search :: "nat list \<Rightarrow> nat \<Rightarrow> int \<times> int \<times> int \<Rightarrow> nat option" where
  "palette_search (pr # pg # pb # ps) i (r, g, b) =
     (if r = int pr \<and> g = int pg \<and> b = int pb then Some i else palette_search ps (i + 1) (r, g, b))"
| "palette_search ps i rgb = None"

definition getColor :: "u8 \<Rightarrow> u8 \<Rightarrow> u8 \<Rightarrow> string + nat" where
  "getColor r g b =
     (let (r_idx, g_idx, b_idx) = range_loop [1, 2, 3] (uint r, uint g, uint b) (0, 0, 0)
      in case palette_search palette 0 (COLOR_RANGES ! r_idx, COLOR_RANGES ! g_idx, COLOR_RANGES ! b_idx) of
           Some i \<Rightarrow> Inr i
         | None \<Rightarrow> Inl ''NEVER CATCH ME!'')"

section \<open>Drawing\<close>

type_synonym fb = "nat \<Rightarrow> u8"

fun screen_loop :: "nat \<Rightarrow> u8 \<Rightarrow> fb \<Rightarrow> fb" where
  "screen_loop 0 color m = m"
| "screen_loop (Suc i) color m = (screen_loop i color m)(i := color)"

definition initializeScreen :: "vga \<Rightarrow> u8 \<Rightarrow> fb \<Rightarrow> fb" where
  "initializeScreen v color m = screen_loop (unat (vga_width v * vga_length v)) color m"

definition putPixel :: "u16 \<Rightarrow> u16 \<Rightarrow> u8 \<Rightarrow> fb \<Rightarrow> fb" where
  "putPixel x y color m = m(unat x + unat y * 320 := color)"

text \<open>The loops with a \<^verbatim>\<open>uint16_t\<close> counter and \<open>\<le>\<close>: \<open>None\<close> when the loop does not end.\<close>

partial_function (option) hline :: "u16 \<Rightarrow> u16 \<Rightarrow> u16 \<Rightarrow> u8 \<Rightarrow> fb \<Rightarrow> fb option" where
  "hline i x2 y color m = (if i \<le> x2 then hline (i + 1) x2 y color (putPixel i y color m) else Some m)"

partial_function (option) vline :: "u16 \<Rightarrow> u16 \<Rightarrow> u16 \<Rightarrow> u8 \<Rightarrow> fb \<Rightarrow> fb option" where
  "vline i y2 x color m = (if i \<le> y2 then vline (i + 1) y2 x color (putPixel x i color m) else Some m)"

definition drawLine :: "u16 \<Rightarrow> u16 \<Rightarrow> u16 \<Rightarrow> u16 \<Rightarrow> u8 \<Rightarrow> fb \<Rightarrow> fb option" where
  "drawLine x1 y1 x2 y2 color m =
     (if y1 = y2 then hline x1 x2 y1 color m
      else if x1 = x2 then vline y1 y2 x1 color m
      else Some m)"

partial_function (option) fill_loop :: "u16 \<Rightarrow> u16 \<Rightarrow> u16 \<Rightarrow> u16 \<Rightarrow> u8 \<Rightarrow> fb \<Rightarrow> fb option" where
  "fill_loop y x1 x2 y2 color m =
     (if y < y2 then Option.bind (drawLine x1 y x2 y color m) (fill_loop (y + 1) x1 x2 y2 color) else Some m)"

definition drawRectangle :: "u16 \<Rightarrow> u16 \<Rightarrow> u16 \<Rightarrow> u16 \<Rightarrow> u8 \<Rightarrow> bool \<Rightarrow> fb \<Rightarrow> fb option" where
  "drawRectangle x1 y1 x2 y2 color fill m =
     (if fill then fill_loop y1 x1 x2 y2 color m
      else Option.bind (drawLine x1 y1 x2 y1 color m) (\<lambda>m.
           Option.bind (drawLine x2 y1 x2 y2 color m) (\<lambda>m.
           Option.bind (drawLine x1 y1 x1 y2 color m) (\<lambda>m.
           drawLine x1 y2 x2 y2 color m))))"

text \<open>A pixel at coordinates of type \<^verbatim>\<open>int\<close>, converted to \<^verbatim>\<open>uint16_t\<close>.\<close>

definition put :: "int \<Rightarrow> int \<Rightarrow> u8 \<Rightarrow> fb \<Rightarrow> fb" where
  "put x y color m = putPixel (word_of_int x) (word_of_int y) color m"

function circle_loop :: "int \<Rightarrow> int \<Rightarrow> int \<Rightarrow> int \<Rightarrow> int \<Rightarrow> u8 \<Rightarrow> fb \<Rightarrow> fb" where
  "circle_loop cx cy x y d color m =
     (if x \<le> y then
        (let m = put (cx + x) (cy + y) color m;
             m = put (cx + y) (cy + x) color m;
             m = put (cx - x) (cy + y) color m;
             m = put (cx - y) (cy + x) color m;
             m = put (cx + x) (cy - y) color m;
             m = put (cx + y) (cy - x) color m;
             m = put (cx - x) (cy - y) color m;
             m = put (cx - y) (cy - x) color m;
             (d, y) = (if d < 0 then (d + (8 * x + 12), y) else (d + (8 * (x - y) + 20), y - 1))
         in circle_loop cx cy (x + 1) y d color m)
      else m)"
  by pat_completeness auto
termination
  by (relation "measure (\<lambda>(cx, cy, x, y, d, color, m). nat (y + 1 - x))") (auto split: if_splits)

definition drawCircle :: "int \<Rightarrow> int \<Rightarrow> int \<Rightarrow> u8 \<Rightarrow> fb \<Rightarrow> fb" where
  "drawCircle centerX centerY radius color m = circle_loop centerX centerY 0 radius (5 - 4 * radius) color m"

text \<open>
  \<^verbatim>\<open>char\<close> is signed: a character from 128 on indexes before the font, \<open>None\<close>.
\<close>

fun char_cols :: "nat list \<Rightarrow> nat \<Rightarrow> int \<Rightarrow> int \<Rightarrow> u8 \<Rightarrow> fb \<Rightarrow> fb" where
  "char_cols [] bits x y color m = m"
| "char_cols (col # cols) bits x y color m =
     char_cols cols bits x y color (if bit bits col then put (x + int col) y color m else m)"

fun char_rows :: "nat list \<Rightarrow> int \<Rightarrow> int \<Rightarrow> u8 \<Rightarrow> fb \<Rightarrow> fb" where
  "char_rows [] x y color m = m"
| "char_rows (bits # rows) x y color m = char_rows rows x (y + 1) color (char_cols [0..<8] bits x y color m)"

definition drawChar :: "int \<Rightarrow> int \<Rightarrow> char \<Rightarrow> u8 \<Rightarrow> fb \<Rightarrow> fb option" where
  "drawChar x y c color m =
     (if (of_char c :: nat) < 128 then Some (char_rows (vga_font ! of_char c) x y color m) else None)"

fun drawString :: "int \<Rightarrow> int \<Rightarrow> string \<Rightarrow> u8 \<Rightarrow> fb \<Rightarrow> fb option" where
  "drawString x y [] color m = Some m"
| "drawString x y (c # cs) color m = Option.bind (drawChar x y c color m) (drawString (x + 8) y cs color)"

text \<open>
  \<^verbatim>\<open>spotify()\<close>: the frame and the picture, 70 by 70 pixels read from a file, drawn from the bottom row
  up. \<open>pixels\<close> are the bytes \<^verbatim>\<open>read_bmp\<close> returned.
\<close>

fun picture_loop :: "nat list \<Rightarrow> (nat \<Rightarrow> u8) \<Rightarrow> u32 \<Rightarrow> u32 \<Rightarrow> u32 \<Rightarrow> fb \<Rightarrow> string + fb" where
  "picture_loop [] pixels x0 sx sy m = Inr m"
| "picture_loop (i # is') pixels x0 sx sy m =
     (let (sx, sy) = (if i mod 210 = 0 then (x0, sy - 1) else (sx, sy))
      in rbind (getColor (pixels i) (pixels (i + 1)) (pixels (i + 2)))
           (\<lambda>color. picture_loop is' pixels x0 (sx + 1) sy (putPixel (ucast sx) (ucast sy) (word_of_nat color) m)))"

definition spotify :: "vga \<Rightarrow> (nat \<Rightarrow> u8) \<Rightarrow> fb \<Rightarrow> (string + fb) option" where
  "spotify v pixels m =
     (let w = vga_width v; l = vga_length v
      in map_option (picture_loop (map (\<lambda>k. 3 * k) [0..<4900]) pixels (w div 2 - 35) (w div 2 - 35) (l div 3 + 36))
           (drawRectangle (ucast (w div 2 - 35)) (ucast (l div 3 - 35)) (ucast (w div 2 + 35)) (ucast (l div 3 + 35))
              0 False m))"

definition vga_setup :: "device \<Rightarrow> (nat \<Rightarrow> u8) \<Rightarrow> vga \<Rightarrow> (string + vga) option" where
  "vga_setup dev pixels v =
     (let v = initializeText dev (initializePalette (initializePorts v));
          m = initializeScreen v 42 (vga_fb v)
      in Option.bind (drawString 140 190 ''RODEO'' 63 m) (\<lambda>m.
           map_option (\<lambda>r. rbind r (\<lambda>m. Inr (v\<lparr>vga_fb := m\<rparr>))) (spotify v pixels m)))"

end
