(* ===== verification/Vga_Props.thy ===== *)
theory Vga_Props
  imports Vga
begin

text \<open>The properties of the display: colours, rectangles and the registers of the graphics mode.\<close>

section \<open>Colours\<close>

lemma R_simps: "COLOR_RANGES ! 0 = 0" "COLOR_RANGES ! 1 = 85" "COLOR_RANGES ! 2 = 170" "COLOR_RANGES ! 3 = 255"
  "COLOR_RANGES ! Suc 0 = 85"
  by (simp_all add: COLOR_RANGES_def numeral_eq_Suc)

definition nearest :: "int \<Rightarrow> nat" where
  "nearest x = range_step x 3 (range_step x 2 (range_step x 1 0))"

lemma nearest_correct:
  assumes "0 \<le> x" and "x \<le> 255"
  shows "nearest x < 4" and "c \<in> {0, 85, 170, 255} \<Longrightarrow> \<bar>x - COLOR_RANGES ! nearest x\<bar> \<le> \<bar>x - c\<bar>"
  using assms by (auto simp: nearest_def range_step_def R_simps Let_def split: if_splits)

lemma range_loop_nearest: "range_loop [1, 2, 3] (r, g, b) (0, 0, 0) = (nearest r, nearest g, nearest b)"
  by (simp add: nearest_def)

lemma palette_entries: "list_all (\<lambda>c. c = 0 \<or> c = 85 \<or> c = 170 \<or> c = 255) palette" "length palette = 192"
  by code_simp+

text \<open>The entries are all combinations of the four levels, in order.\<close>

definition entry :: "nat \<Rightarrow> nat list" where
  "entry n = [85 * (n div 16), 85 * (n div 4 mod 4), 85 * (n mod 4)]"

lemma palette_concat: "palette = concat (map entry [0..<64])"
  by code_simp

lemma R_85: "i < 4 \<Longrightarrow> COLOR_RANGES ! i = int (85 * i)"
  by (auto simp: less_Suc_eq numeral_eq_Suc COLOR_RANGES_def)

lemma base4:
  fixes i j k :: nat
  assumes "i < 4" and "j < 4" and "k < 4"
  shows "(16 * i + 4 * j + k) div 16 = i" and "(16 * i + 4 * j + k) div 4 mod 4 = j" and "(16 * i + 4 * j + k) mod 4 = k"
proof -
  have e: "16 * i + 4 * j + k = k + (j + i * 4) * 4" by simp
  have d: "(16 * i + 4 * j + k) div 4 = j + i * 4" unfolding e using assms by simp
  show "(16 * i + 4 * j + k) mod 4 = k" unfolding e mod_mult_self1 using assms by simp
  show "(16 * i + 4 * j + k) div 4 mod 4 = j" unfolding d mod_mult_self1 using assms by simp
  show "(16 * i + 4 * j + k) div 16 = i" using assms by simp
qed

lemma palette_search_upt:
  assumes "i < 4" and "j < 4" and "k < 4" and "a \<le> 16 * i + 4 * j + k" and "n \<le> 64" and "16 * i + 4 * j + k < n"
  shows "palette_search (concat (map entry [a..<n])) a (int (85 * i), int (85 * j), int (85 * k)) = Some (16 * i + 4 * j + k)"
  using assms(4)
proof (induction "16 * i + 4 * j + k - a" arbitrary: a)
  case 0
  then have a: "a = 16 * i + 4 * j + k" by simp
  then have "a div 16 = i" "a div 4 mod 4 = j" "a mod 4 = k" using base4 [OF assms(1-3)] by simp_all
  then show ?case using a assms(6) by (simp add: upt_conv_Cons entry_def)
next
  case (Suc d)
  have "a = a mod 4 + 4 * (a div 4)" "a div 4 = a div 4 mod 4 + 4 * (a div 4 div 4)"
    using mod_mult_div_eq [of a 4] mod_mult_div_eq [of "a div 4" 4] by metis+
  then have "a div 16 = i \<and> a div 4 mod 4 = j \<and> a mod 4 = k \<Longrightarrow> a = 16 * i + 4 * j + k"
    using div_mult2_eq [of a 4 4] by simp
  then have "\<not> (i = a div 16 \<and> j = a div 4 mod 4 \<and> k = a mod 4)" using Suc.hyps(2) by auto
  then have ne: "\<not> (int (85 * i) = int (85 * (a div 16)) \<and> int (85 * j) = int (85 * (a div 4 mod 4))
      \<and> int (85 * k) = int (85 * (a mod 4)))" by simp
  have rest: "palette_search (concat (map entry [a + 1..<n])) (a + 1) (int (85 * i), int (85 * j), int (85 * k))
      = Some (16 * i + 4 * j + k)"
    by (rule Suc.hyps(1)) (use Suc.hyps(2) in simp_all)
  have "[a..<n] = a # [a + 1..<n]" using Suc.hyps(2) assms(6) upt_conv_Cons [of a n] by simp
  then have cc: "concat (map entry [a..<n]) =
      85 * (a div 16) # 85 * (a div 4 mod 4) # 85 * (a mod 4) # concat (map entry [a + 1..<n])" by (simp add: entry_def)
  show ?case unfolding cc palette_search.simps if_not_P [OF ne] by (rule rest)
qed

lemma nth_concat3:
  assumes "\<forall>n \<in> set ns. length (f n) = 3" and "q < length ns" and "c < 3"
  shows "concat (map f ns) ! (3 * q + c) = f (ns ! q) ! c"
  using assms(1,2)
proof (induction ns arbitrary: q)
  case (Cons n ns)
  show ?case
  proof (cases q)
    case 0
    then show ?thesis using Cons.prems assms(3) by (simp add: nth_append)
  next
    case (Suc q')
    then have "concat (map f (n # ns)) ! (3 * q + c) = concat (map f ns) ! (3 * q' + c)"
      using Cons.prems by (simp add: nth_append)
    then show ?thesis using Cons.IH [of q'] Cons.prems Suc by simp
  qed
qed simp

lemma palette_nth:
  assumes "i < 4" and "j < 4" and "k < 4" and "q = 16 * i + 4 * j + k"
  shows "palette ! (3 * q) = 85 * i" and "palette ! (3 * q + 1) = 85 * j" and "palette ! (3 * q + 2) = 85 * k"
proof -
  have q: "q < length [0..<64]" "q div 16 = i" "q div 4 mod 4 = j" "q mod 4 = k" using base4 [OF assms(1-3)] assms by simp_all
  have "palette ! (3 * q + c) = entry q ! c" if "c < 3" for c
    unfolding palette_concat using nth_concat3 [OF _ q(1) that, of entry] q(1) by (simp add: entry_def)
  from this [of 0] this [of 1] this [of 2]
  show "palette ! (3 * q) = 85 * i" and "palette ! (3 * q + 1) = 85 * j" and "palette ! (3 * q + 2) = 85 * k"
    unfolding entry_def q(2-4) by simp_all
qed

lemma palette_search_all:
  assumes "i < 4" and "j < 4" and "k < 4"
  shows "palette_search palette 0 (COLOR_RANGES ! i, COLOR_RANGES ! j, COLOR_RANGES ! k) = Some (16 * i + 4 * j + k)"
  unfolding palette_concat R_85 [OF assms(1)] R_85 [OF assms(2)] R_85 [OF assms(3)]
  by (rule palette_search_upt) (use assms in simp_all)

text \<open>
   \<^verbatim>\<open>getColor\<close> never panics: it returns one of the 64 palette entries, and in each of the three
  channels no palette entry is nearer to the colour asked for.
\<close>

theorem getColor_correct:
  fixes r g b :: u8
  shows "\<exists>i < 64. getColor r g b = Inr i \<and>
    (\<forall>j < 64. \<bar>uint r - int (palette ! (3 * i))\<bar> \<le> \<bar>uint r - int (palette ! (3 * j))\<bar>
            \<and> \<bar>uint g - int (palette ! (3 * i + 1))\<bar> \<le> \<bar>uint g - int (palette ! (3 * j + 1))\<bar>
            \<and> \<bar>uint b - int (palette ! (3 * i + 2))\<bar> \<le> \<bar>uint b - int (palette ! (3 * j + 2))\<bar>)"
proof -
  have u: "0 \<le> uint x \<and> uint x \<le> 255" for x :: u8
    using uint_bounded [of x] by simp
  note n = nearest_correct [OF u [THEN conjunct1] u [THEN conjunct2]]
  define i where "i = 16 * nearest (uint r) + 4 * nearest (uint g) + nearest (uint b)"
  have s: "palette_search palette 0
      (COLOR_RANGES ! nearest (uint r), COLOR_RANGES ! nearest (uint g), COLOR_RANGES ! nearest (uint b)) = Some i"
    unfolding i_def by (rule palette_search_all) (rule n(1))+
  have p: "int (palette ! (3 * i)) = COLOR_RANGES ! nearest (uint r)"
      "int (palette ! (3 * i + 1)) = COLOR_RANGES ! nearest (uint g)"
      "int (palette ! (3 * i + 2)) = COLOR_RANGES ! nearest (uint b)"
    unfolding palette_nth [OF n(1) n(1) n(1) i_def] R_85 [OF n(1)] by (rule refl)+
  have "getColor r g b = Inr i" unfolding getColor_def range_loop_nearest by (simp add: s)
  moreover have "i < 64" using n(1) [of r] n(1) [of g] n(1) [of b] by (simp add: i_def)
  moreover have e: "int (palette ! k) \<in> {0, 85, 170, 255}" if "k < 192" for k
    using palette_entries that by (auto simp: list_all_length)
  have "\<bar>uint r - int (palette ! (3 * i))\<bar> \<le> \<bar>uint r - int (palette ! (3 * j))\<bar>
            \<and> \<bar>uint g - int (palette ! (3 * i + 1))\<bar> \<le> \<bar>uint g - int (palette ! (3 * j + 1))\<bar>
            \<and> \<bar>uint b - int (palette ! (3 * i + 2))\<bar> \<le> \<bar>uint b - int (palette ! (3 * j + 2))\<bar>" if "j < 64" for j
    unfolding p using that by (intro conjI n(2) e) simp_all
  ultimately show ?thesis by blast
qed

theorem getColor_correct_witness:
  "\<exists>i < 64. getColor 100 200 10 = Inr i \<and> \<bar>100 - int (palette ! (3 * i))\<bar> \<le> 15"
proof -
  have j: "palette ! 48 = 85" by code_simp
  obtain i where i: "i < 64" "getColor 100 200 10 = Inr i"
    "\<forall>j < 64. \<bar>uint (100 :: u8) - int (palette ! (3 * i))\<bar> \<le> \<bar>uint (100 :: u8) - int (palette ! (3 * j))\<bar>"
    using getColor_correct [of 100 200 10] by blast
  show ?thesis using i(1,2) i(3) [rule_format, of 16] j by auto
qed

section \<open>Lines and rectangles\<close>

text \<open>The frame buffer with the pixels of a set of points in a colour.\<close>

definition paint :: "(nat \<times> nat) set \<Rightarrow> u8 \<Rightarrow> fb \<Rightarrow> fb" where
  "paint P color m = (\<lambda>a. if \<exists>(x, y) \<in> P. a = x + y * 320 then color else m a)"

lemma paint_empty [simp]: "paint {} color m = m"
  by (simp add: paint_def)

lemma paint_paint: "paint Q color (paint P color m) = paint (P \<union> Q) color m"
  by (auto simp: paint_def fun_eq_iff)

lemma putPixel_paint: "putPixel x y color m = paint {(unat x, unat y)} color m"
  by (auto simp: putPixel_def paint_def fun_eq_iff)

lemma unat_next16: "i < (w :: u16) \<Longrightarrow> unat (i + 1) = Suc (unat i)"
proof -
  assume "i < w"
  then have "unat i < 65535" using unsigned_less [of w, where ?'a = nat] by (simp add: word_less_nat_alt)
  then show ?thesis by (simp add: unat_word_ariths)
qed

lemma unat_next16_le:
  assumes "i \<le> (w :: u16)" and "w < - 1"
  shows "unat (i + 1) = Suc (unat i)"
  using assms le_less_trans unat_next16 by blast

lemma hline_paint:
  assumes "x2 < (- 1 :: u16)"
  shows "hline i x2 y color m = Some (paint ({unat i..unat x2} \<times> {unat y}) color m)"
proof (induction "unat x2 + 1 - unat i" arbitrary: i m)
  case 0
  then have "\<not> i \<le> x2" by (simp add: word_le_nat_alt)
  then show ?case by (simp add: hline.simps [of i] word_le_nat_alt)
next
  case (Suc k)
  then have le: "i \<le> x2" "unat i \<le> unat x2" by (simp_all add: word_le_nat_alt)
  have n: "unat (i + 1) = Suc (unat i)" using unat_next16_le [OF le(1) assms] .
  have "k = unat x2 + 1 - unat (i + 1)" using Suc.hyps(2) n by simp
  from Suc.hyps(1) [OF this]
  have "hline i x2 y color m = Some (paint ({Suc (unat i)..unat x2} \<times> {unat y}) color (putPixel i y color m))"
    by (simp add: hline.simps [of i] le(1) n)
  also have "{unat i..unat x2} = insert (unat i) {Suc (unat i)..unat x2}" using le(2) by auto
  then have "paint ({Suc (unat i)..unat x2} \<times> {unat y}) color (putPixel i y color m)
      = paint ({unat i..unat x2} \<times> {unat y}) color m"
    by (simp add: putPixel_paint paint_paint)
  finally show ?case .
qed

lemma vline_paint:
  assumes "y2 < (- 1 :: u16)"
  shows "vline i y2 x color m = Some (paint ({unat x} \<times> {unat i..unat y2}) color m)"
proof (induction "unat y2 + 1 - unat i" arbitrary: i m)
  case 0
  then have "\<not> i \<le> y2" by (simp add: word_le_nat_alt)
  then show ?case by (simp add: vline.simps [of i] word_le_nat_alt)
next
  case (Suc k)
  then have le: "i \<le> y2" "unat i \<le> unat y2" by (simp_all add: word_le_nat_alt)
  have n: "unat (i + 1) = Suc (unat i)" using unat_next16_le [OF le(1) assms] .
  have "k = unat y2 + 1 - unat (i + 1)" using Suc.hyps(2) n by simp
  from Suc.hyps(1) [OF this]
  have "vline i y2 x color m = Some (paint ({unat x} \<times> {Suc (unat i)..unat y2}) color (putPixel x i color m))"
    by (simp add: vline.simps [of i] le(1) n)
  also have "{unat i..unat y2} = insert (unat i) {Suc (unat i)..unat y2}" using le(2) by auto
  then have "paint ({unat x} \<times> {Suc (unat i)..unat y2}) color (putPixel x i color m)
      = paint ({unat x} \<times> {unat i..unat y2}) color m"
    by (simp add: putPixel_paint paint_paint)
  finally show ?case .
qed

text \<open>With the last coordinate \<open>65535\<close> the loop does not end: its counter wraps around.\<close>

lemma hline_ends: "hline i x2 y color m = Some m' \<Longrightarrow> x2 \<noteq> - 1"
  by (rule hline.raw_induct [where P = "\<lambda>i x2 y color m r. x2 \<noteq> - 1"]) (auto split: if_splits)

lemma hline_diverges: "hline i (- 1) y color m = None"
  using hline_ends [of i "- 1" y color m] by (cases "hline i (- 1) y color m") auto

lemma fill_paint:
  assumes "x2 < (- 1 :: u16)"
  shows "fill_loop i x1 x2 y2 color m = Some (paint ({unat x1..unat x2} \<times> {unat i..<unat y2}) color m)"
proof (induction "unat y2 - unat i" arbitrary: i m)
  case 0
  then have "\<not> i < y2" by (simp add: word_less_nat_alt)
  then show ?case by (simp add: fill_loop.simps [of i] word_less_nat_alt)
next
  case (Suc k)
  then have lt: "i < y2" "unat i < unat y2" by (simp_all add: word_less_nat_alt)
  have n: "unat (i + 1) = Suc (unat i)" using unat_next16 [OF lt(1)] .
  have "k = unat y2 - unat (i + 1)" using Suc.hyps(2) n by simp
  note IH = Suc.hyps(1) [OF this]
  have "drawLine x1 i x2 i color m = Some (paint ({unat x1..unat x2} \<times> {unat i}) color m)"
    by (simp add: drawLine_def hline_paint [OF assms])
  then have "fill_loop i x1 x2 y2 color m =
      Some (paint ({unat x1..unat x2} \<times> {Suc (unat i)..<unat y2}) color (paint ({unat x1..unat x2} \<times> {unat i}) color m))"
    by (simp add: fill_loop.simps [of i] lt(1) IH n)
  also have "{unat i..<unat y2} = insert (unat i) {Suc (unat i)..<unat y2}" using lt(2) by auto
  then have "paint ({unat x1..unat x2} \<times> {Suc (unat i)..<unat y2}) color (paint ({unat x1..unat x2} \<times> {unat i}) color m)
      = paint ({unat x1..unat x2} \<times> {unat i..<unat y2}) color m"
    by (simp add: paint_paint Sigma_Un_distrib2 [symmetric])
  finally show ?case .
qed

text \<open>
  C22. \<^verbatim>\<open>drawRectangle\<close> with coordinates below 65535 ends; filled, it paints exactly the pixels from
  \<open>x1\<close> to \<open>x2\<close>, both included, in the rows from \<open>y1\<close> to before \<open>y2\<close>; not filled, it paints exactly the
  four sides; and no other byte of the frame buffer changes.
\<close>

theorem drawRectangle_correct:
  assumes "x2 < (- 1 :: u16)" and "y2 < (- 1 :: u16)" and "y1 \<noteq> y2"
  shows "drawRectangle x1 y1 x2 y2 color fill m = Some (paint
    (if fill then {unat x1..unat x2} \<times> {unat y1..<unat y2}
     else {unat x1..unat x2} \<times> {unat y1, unat y2} \<union> {unat x1, unat x2} \<times> {unat y1..unat y2}) color m)"
proof (cases fill)
  case True
  then show ?thesis by (simp add: drawRectangle_def fill_paint [OF assms(1)])
next
  case False
  have h: "drawLine x1 y x2 y color m = Some (paint ({unat x1..unat x2} \<times> {unat y}) color m)" for y m
    by (simp add: drawLine_def hline_paint [OF assms(1)])
  have v: "drawLine x y1 x y2 color m = Some (paint ({unat x} \<times> {unat y1..unat y2}) color m)" for x m
    using assms(3) by (simp add: drawLine_def vline_paint [OF assms(2)])
  have "{unat x1..unat x2} \<times> {unat y1} \<union> {unat x2} \<times> {unat y1..unat y2} \<union> {unat x1} \<times> {unat y1..unat y2}
        \<union> {unat x1..unat x2} \<times> {unat y2} =
      {unat x1..unat x2} \<times> {unat y1, unat y2} \<union> {unat x1, unat x2} \<times> {unat y1..unat y2}" by auto
  note sides = this [unfolded Un_assoc]
  show ?thesis using False unfolding sides [symmetric] by (simp only: drawRectangle_def if_False h v bind.bind_lunit paint_paint Un_assoc)
qed

theorem drawRectangle_correct_witness:
  "drawRectangle 3 5 4 6 63 True (\<lambda>_. 0) = Some (paint ({3..4} \<times> {5..<6}) 63 (\<lambda>_. 0))"
  using drawRectangle_correct [of 4 6 5 3 63 True "\<lambda>_. 0"] by simp

section \<open>The registers of the graphics mode\<close>

text \<open>The writes that give registers \<open>0, 1, ...\<close> behind an index port and a data port their values.\<close>

definition programs :: "u32 \<Rightarrow> u32 \<Rightarrow> u8 list \<Rightarrow> io_trace" where
  "programs ip dp xs = concat (map (\<lambda>(i, x). [(ip, word_of_nat i), (dp, x)]) (enumerate 0 xs))"

lemma write_regs_enumerate:
  "write_regs p (int i) xs io =
    io @ concat (map (\<lambda>(i, x). [(index_port p, word_of_nat i), (write_port p, x)]) (enumerate i xs))"
  by (induction xs arbitrary: i io)
    (simp_all add: writeWithIndex_def outb_def add.commute flip: of_nat_Suc)

lemma write_regs_programs: "write_regs p 0 xs io = io @ programs (index_port p) (write_port p) xs"
  using write_regs_enumerate [of p 0] by (simp add: programs_def)

text \<open>
   \<^verbatim>\<open>initializeText\<close> writes, after the ports have their numbers, exactly the register table of the
  320 by 200 mode, group by group and each register in order, with one deviation: in the group of the
  display controller the registers 2 and 16 get \<open>0xD0\<close> and \<open>0x1C\<close> and not the \<open>0x50\<close> and \<open>0x9C\<close> of the
  table, because the protection bits are changed one place before the registers 3 and 17 they
  are in.
\<close>

theorem initializeText_registers:
  "\<exists>a b c. vga_io (initializeText dev (initializePorts v)) =
     vga_io v @ [(0x3C2, 0x63)] @ programs 0x3C4 0x3C5 (take 5 (drop 1 g_320x200x256))
     @ [(0x3D4, 0x03), (0x3D5, a OR 0x80), (0x3D4, 0x11), (0x3D5, b AND NOT 0x80)]
     @ programs 0x3D4 0x3D5 ((take 25 (drop 6 g_320x200x256))[2 := 0xD0, 16 := 0x1C])
     @ programs 0x3CE 0x3CF (take 9 (drop 31 g_320x200x256))
     @ programs 0x3C0 0x3C0 (take 21 (drop 40 g_320x200x256))
     @ [(0x3C0, c OR 0x20)]"
proof -
  define g where "g = (g_320x200x256[8 := g_320x200x256 ! 8 OR 0x80])
    [22 := g_320x200x256[8 := g_320x200x256 ! 8 OR 0x80] ! 22 AND NOT 0x80]"
  have g: "take 25 (drop 6 g) = (take 25 (drop 6 g_320x200x256))[2 := 0xD0, 16 := 0x1C]"
    "take 9 (drop 31 g) = take 9 (drop 31 g_320x200x256)" "take 21 (drop 40 g) = take 21 (drop 40 g_320x200x256)"
    unfolding g_def by code_simp+
  have g0: "g_320x200x256 ! 0 = 0x63" by (simp add: g_320x200x256_def)
  show ?thesis
    unfolding initializeText_def setPortsText_def Let_def g_def [symmetric] g write_regs_programs
    by (simp add: initializePorts_def port_write_def outb_def g0) blast
qed

end
