(* ===== verification/Snake.thy ===== *)
theory Snake
  imports Vga
begin

text \<open>
  The game of \<^verbatim>\<open>kernel/snake.h\<close> and \<^verbatim>\<open>kernel/snake.cc\<close>. The constructor sets only the border of the
  board; the rest of the board and the flag \<open>done\<close> are what the memory held, parameters here, and
  \<^verbatim>\<open>food\<close> is never given a place. \<^verbatim>\<open>updateBoard\<close> does nothing, so \<^verbatim>\<open>run\<close> ends only when \<open>done\<close> was
  set before. \<^verbatim>\<open>moveSnake\<close> and \<^verbatim>\<open>changeDirection\<close> have no body.
\<close>

definition MAGIC_NUM :: u32 where
  "MAGIC_NUM = 21"

record snake =
  sn_GREEN :: nat
  sn_BLACK :: nat
  sn_RED :: nat
  sn_dir :: "int \<times> int"
  sn_board :: "nat \<Rightarrow> nat \<Rightarrow> u8"
  sn_head :: "u32 \<times> u32"
  sn_score :: int
  sn_body :: "(u32 \<times> u32) list"
  sn_done :: bool

definition snake_border :: "(nat \<Rightarrow> nat \<Rightarrow> u8) \<Rightarrow> nat \<Rightarrow> nat \<Rightarrow> u8" where
  "snake_border b = (\<lambda>i j. if i < 20 \<and> (j = 0 \<or> j = 9) \<or> j < 10 \<and> (i = 0 \<or> i = 19) then 1 else b i j)"

definition snake_new :: "(nat \<Rightarrow> nat \<Rightarrow> u8) \<Rightarrow> bool \<Rightarrow> string + snake" where
  "snake_new b dn =
     rbind (getColor 0x00 0xFF 0x55) (\<lambda>green.
     rbind (getColor 0xFF 0x00 0x00) (\<lambda>red.
       Inr \<lparr>sn_GREEN = green, sn_BLACK = 0, sn_RED = red, sn_dir = (1, 0), sn_board = snake_border b,
         sn_head = (10, 5), sn_score = 0, sn_body = [], sn_done = dn\<rparr>))"

definition homeScreen :: "vga \<Rightarrow> snake \<Rightarrow> fb \<Rightarrow> fb option" where
  "homeScreen v s m =
     drawString 80 100 ''Press <Space Bar> to play'' (word_of_nat (sn_GREEN s))
       (initializeScreen v (word_of_nat (sn_BLACK s)) m)"

text \<open>
  The message is the pointer to the text plus the score: the text without its first characters
  (\<open>None\<close>: the pointer is past the text).
\<close>

definition endScreen :: "vga \<Rightarrow> snake \<Rightarrow> fb \<Rightarrow> fb option" where
  "endScreen v s m =
     (let message = ''Game Over. Score: ''; k = ((sn_score s + 128) mod 256 - 128)
      in if 0 \<le> k \<and> k \<le> int (length message) then
           drawString 80 100 (drop (nat k) message) (word_of_nat (sn_GREEN s))
             (initializeScreen v (word_of_nat (sn_BLACK s)) m)
         else None)"

definition startGameScreen :: "vga \<Rightarrow> snake \<Rightarrow> fb \<Rightarrow> (snake \<times> fb) option" where
  "startGameScreen v s m =
     (let m = initializeScreen v (word_of_nat (sn_BLACK s)) m; (x, y) = sn_head s
      in Option.bind (drawRectangle 0 0 320 20 63 True m) (\<lambda>m.
         Option.bind (drawRectangle 0 0 20 200 63 True m) (\<lambda>m.
         Option.bind (drawRectangle 300 0 320 200 63 True m) (\<lambda>m.
         Option.bind (drawRectangle 0 180 320 200 63 True m) (\<lambda>m.
         Option.bind (drawRectangle (ucast (x + 1)) (ucast (y + 1)) (ucast (x + 20 - 1)) (ucast (y + 20 - 1))
                        (word_of_nat (sn_GREEN s)) True m) (\<lambda>m.
         Some (s\<lparr>sn_body := sn_body s @ [sn_head s]\<rparr>, m)))))))"

definition snake_rand :: "u32 \<Rightarrow> u32 \<Rightarrow> u32" where
  "snake_rand x y =
     (let seed = x * y + MAGIC_NUM;
          seed = push_bit 13 seed XOR seed
      in (seed * (seed * seed * 15731 + 789221) + 1376312589) AND 0x7FFFFFFF)"

text \<open>
  The loop of \<^verbatim>\<open>generateFood\<close>: the same position is computed in every iteration. The drawing follows;
  the stores through \<^verbatim>\<open>food\<close> have no place to go and are left out.
\<close>

partial_function (option) food_loop :: "snake \<Rightarrow> nat \<Rightarrow> nat \<Rightarrow> (nat \<times> nat) option" where
  "food_loop s row col =
     (if sn_board s row col \<noteq> 0 then
        (let x = unat (snake_rand (fst (sn_head s)) (snd (sn_head s)))
         in food_loop s (x mod 18) (x mod 8))
      else Some (row, col))"

definition generateFood :: "snake \<Rightarrow> fb \<Rightarrow> fb option" where
  "generateFood s m =
     Option.bind (food_loop s (unat (fst (sn_head s))) (unat (snd (sn_head s)))) (\<lambda>(row, col).
       drawRectangle (word_of_nat (row * 20 + 1)) (word_of_nat (col * 20 + 1)) (word_of_nat (row * 20 + 19))
         (word_of_nat (col * 20 + 19)) (word_of_nat (sn_RED s)) True m)"

definition updateBoard :: "snake \<Rightarrow> snake" where
  "updateBoard s = s"

partial_function (option) run_loop :: "snake \<Rightarrow> snake option" where
  "run_loop s = (if \<not> sn_done s then run_loop (updateBoard s) else Some s)"

definition snake_run :: "vga \<Rightarrow> snake \<Rightarrow> fb \<Rightarrow> fb option" where
  "snake_run v s m =
     Option.bind (homeScreen v s m) (\<lambda>m.
     Option.bind (startGameScreen v s m) (\<lambda>(s, m).
     Option.bind (run_loop s) (\<lambda>s. endScreen v s m)))"

end
