(* ===== verification/BlockIo.thy ===== *)
theory BlockIo
  imports Prelude
begin

text \<open>
  \<^verbatim>\<open>kernel/block_io.h\<close> and \<^verbatim>\<open>kernel/block_io.cc\<close>: reading any range of bytes of something that is
  read in blocks. What a class supplies, \<^verbatim>\<open>read_block\<close> and \<^verbatim>\<open>size_in_bytes\<close>, are arguments. Operations
  that read a device change its state, so they are functions on a state that return an error or
  a result and the new state; the bytes written to the buffer are part of the result.
\<close>

section \<open>Operations on a state that can fail\<close>

text \<open>A failed \<^verbatim>\<open>ASSERT\<close>, a panic, a polling loop that did not end, a read outside an array.\<close>

datatype fs_err = Assert | Panic | Diverges | Undefined

type_synonym ('s, 'a) st = "'s \<Rightarrow> fs_err + ('a \<times> 's)"

definition ret :: "'a \<Rightarrow> ('s, 'a) st" where
  "ret x = (\<lambda>s. Inr (x, s))"

definition fail :: "fs_err \<Rightarrow> ('s, 'a) st" where
  "fail e = (\<lambda>s. Inl e)"

definition sbind :: "('s, 'a) st \<Rightarrow> ('a \<Rightarrow> ('s, 'b) st) \<Rightarrow> ('s, 'b) st" where
  "sbind m f = (\<lambda>s. case m s of Inl e \<Rightarrow> Inl e | Inr (x, s') \<Rightarrow> f x s')"

definition assert :: "bool \<Rightarrow> ('s, unit) st" where
  "assert b = (if b then ret () else fail Assert)"

text \<open>In every state with \<open>I\<close> the operation returns \<open>x\<close> and keeps \<open>I\<close>.\<close>

definition gives :: "('s \<Rightarrow> bool) \<Rightarrow> ('s, 'a) st \<Rightarrow> 'a \<Rightarrow> bool" where
  "gives I m x \<longleftrightarrow> (\<forall>s. I s \<longrightarrow> (\<exists>s'. m s = Inr (x, s') \<and> I s'))"

lemma gives_ret [intro]: "gives I (ret x) x"
  by (simp add: gives_def ret_def)

lemma gives_bind [intro]: "gives I m x \<Longrightarrow> gives I (f x) y \<Longrightarrow> gives I (sbind m f) y"
  unfolding gives_def sbind_def by fastforce

lemma gives_assert [intro]: "b \<Longrightarrow> gives I (assert b) ()"
  by (simp add: assert_def gives_ret)

text \<open>In every state with \<open>I\<close> the operation returns \<open>x\<close> and ends with \<open>J\<close>.\<close>

definition yields :: "('s \<Rightarrow> bool) \<Rightarrow> ('s, 'a) st \<Rightarrow> 'a \<Rightarrow> ('s \<Rightarrow> bool) \<Rightarrow> bool" where
  "yields I m x J \<longleftrightarrow> (\<forall>s. I s \<longrightarrow> (\<exists>s'. m s = Inr (x, s') \<and> J s'))"

lemma yields_gives: "yields I m x I \<Longrightarrow> gives I m x"
  by (simp add: yields_def gives_def)

lemma yields_ret: "yields I (ret x) x I"
  by (simp add: yields_def ret_def)

lemma yields_bind: "yields I m x J \<Longrightarrow> yields J (f x) y K \<Longrightarrow> yields I (sbind m f) y K"
  unfolding yields_def sbind_def by fastforce

text \<open>Every result of the operation has a property.\<close>

definition results :: "('s, 'a) st \<Rightarrow> ('a \<Rightarrow> bool) \<Rightarrow> bool" where
  "results m P \<longleftrightarrow> (\<forall>s x s'. m s = Inr (x, s') \<longrightarrow> P x)"

lemma results_ret [intro]: "P x \<Longrightarrow> results (ret x) P"
  by (simp add: results_def ret_def)

lemma results_fail [intro]: "results (fail e) P"
  by (simp add: results_def fail_def)

lemma results_bind: "results m Q \<Longrightarrow> (\<And>x. Q x \<Longrightarrow> results (f x) P) \<Longrightarrow> results (sbind m f) P"
  unfolding results_def sbind_def by (fastforce split: sum.splits)

lemma results_assert: "(b \<Longrightarrow> results m P) \<Longrightarrow> results (sbind (assert b) (\<lambda>_. m)) P"
  by (cases b) (auto simp: assert_def results_def sbind_def ret_def fail_def)

lemma results_any: "results m (\<lambda>_. True)"
  by (simp add: results_def)

section \<open>BlockIO\<close>

definition size_in_blocks :: "u32 \<Rightarrow> u32 \<Rightarrow> u32" where
  "size_in_blocks sz bs = (sz + bs - 1) div bs"

text \<open>\<^verbatim>\<open>read\<close>: the count it returns and the bytes it has put in the buffer.\<close>

definition bio_read ::
  "(u32 \<Rightarrow> ('s, u8 list) st) \<Rightarrow> u32 \<Rightarrow> u32 \<Rightarrow> u32 \<Rightarrow> u32 \<Rightarrow> ('s, int \<times> u8 list) st" where
  "bio_read rb sz bs offset desired_n =
     (if offset > sz then ret (-1, [])
      else if offset = sz then ret (0, [])
      else if bs = 0 then fail Undefined
      else
        let n = min desired_n (sz - offset);
            block_number = offset div bs;
            offset_in_block = offset mod bs;
            actual_n = min (bs - offset_in_block) n
        in sbind (assert (actual_n \<le> n)) (\<lambda>_.
           sbind (assert (offset + actual_n \<le> sz)) (\<lambda>_.
           if actual_n = bs then
             sbind (assert (offset_in_block = 0)) (\<lambda>_.
             sbind (rb block_number) (\<lambda>buffer. ret (uint actual_n, buffer)))
           else
             sbind (assert (offset_in_block + actual_n \<le> bs)) (\<lambda>_.
             sbind (rb block_number) (\<lambda>temp.
             ret (uint actual_n, take (unat actual_n) (drop (unat offset_in_block) temp)))))))"

text \<open>
  \<^verbatim>\<open>read_all\<close>, with fuel for its loop: the count goes to the caller, an error code at once.
\<close>

fun bio_read_loop ::
  "nat \<Rightarrow> (u32 \<Rightarrow> ('s, u8 list) st) \<Rightarrow> u32 \<Rightarrow> u32 \<Rightarrow> u32 \<Rightarrow> u32 \<Rightarrow> int \<Rightarrow> u8 list \<Rightarrow> ('s, int \<times> u8 list) st" where
  "bio_read_loop 0 rb sz bs offset n total_count buffer = fail Diverges"
| "bio_read_loop (Suc k) rb sz bs offset n total_count buffer =
     (if n > 0 then
        sbind (bio_read rb sz bs offset n) (\<lambda>(cnt, xs).
          if cnt < 0 then ret (cnt, buffer)
          else if cnt = 0 then ret (total_count, buffer)
          else bio_read_loop k rb sz bs (offset + word_of_int cnt) (n - word_of_int cnt) (total_count + cnt) (buffer @ xs))
      else ret (total_count, buffer))"

definition bio_read_all ::
  "(u32 \<Rightarrow> ('s, u8 list) st) \<Rightarrow> u32 \<Rightarrow> u32 \<Rightarrow> u32 \<Rightarrow> u32 \<Rightarrow> ('s, int \<times> u8 list) st" where
  "bio_read_all rb sz bs offset n = bio_read_loop (unat n + 1) rb sz bs offset n 0 []"

text \<open>The template \<^verbatim>\<open>read(offset, thing)\<close> for a thing of \<open>sizeof\<close> bytes.\<close>

definition bio_read_thing ::
  "(u32 \<Rightarrow> u32 \<Rightarrow> ('s, int \<times> u8 list) st) \<Rightarrow> u32 \<Rightarrow> u32 \<Rightarrow> ('s, u8 list) st" where
  "bio_read_thing rd sizeof offset =
     sbind (rd offset sizeof) (\<lambda>(cnt, xs). sbind (assert (cnt = uint sizeof)) (\<lambda>_. ret xs))"

section \<open>The interface\<close>

text \<open>The bytes \<open>i, ..., i + n - 1\<close> of a content.\<close>

definition chunk :: "(nat \<Rightarrow> u8) \<Rightarrow> nat \<Rightarrow> nat \<Rightarrow> u8 list" where
  "chunk c i n = map c [i..<i + n]"

lemma chunk_length [simp]: "length (chunk c i n) = n"
  by (simp add: chunk_def)

lemma chunk_append: "chunk c i n @ chunk c (i + n) m = chunk c i (n + m)"
  using upt_add_eq_append [of i "i + n" m] by (simp add: chunk_def add.assoc)

lemma chunk_sub: "a + n \<le> m \<Longrightarrow> take n (drop a (chunk c i m)) = chunk c (i + a) n"
  by (simp add: chunk_def take_map drop_map flip: add.assoc)

text \<open>The count that is returned is the number of bytes put in the buffer.\<close>

definition counted :: "int \<times> u8 list \<Rightarrow> bool" where
  "counted r \<longleftrightarrow> (0 \<le> fst r \<longrightarrow> int (length (snd r)) = fst r)"

text \<open>Something read in blocks.\<close>

locale block_reader =
  fixes rb :: "u32 \<Rightarrow> ('s, u8 list) st" and bs :: u32
begin


text \<open>The blocks of the first \<open>sz\<close> bytes hold a content, in the states with \<open>I\<close>.\<close>

definition holds :: "('s \<Rightarrow> bool) \<Rightarrow> u32 \<Rightarrow> (nat \<Rightarrow> u8) \<Rightarrow> bool" where
  "holds I sz c \<longleftrightarrow> 0 < bs \<and>
     (\<forall>b. unat b * unat bs < unat sz \<longrightarrow> gives I (rb b) (chunk c (unat b * unat bs) (unat bs)))"

lemma read_gives:
  assumes h: "holds I sz c" and off: "offset < sz" and n: "0 < n"
  shows "\<exists>k. 0 < k \<and> k \<le> unat n \<and> unat offset + k \<le> unat sz \<and>
    gives I (bio_read rb sz bs offset n) (int k, chunk c (unat offset) k)"
proof -
  define q where "q = unat offset div unat bs"
  define r where "r = unat offset mod unat bs"
  define a where "a = min (unat bs - r) (min (unat n) (unat sz - unat offset))"
  have bs: "0 < bs" "0 < unat bs" using h by (simp_all add: holds_def unat_gt_0 word_gt_0)
  have o1: "unat offset < unat sz" using off by (simp add: word_less_nat_alt)
  have qr: "unat offset = q * unat bs + r" "r < unat bs" using bs by (simp_all add: q_def r_def)
  have uq: "unat (offset div bs) = q" "unat (offset mod bs) = r" by (simp_all add: q_def r_def unat_div unat_mod)
  have so: "unat (sz - offset) = unat sz - unat offset" using off by (simp add: unat_sub less_imp_le)
  have bo: "unat (bs - offset mod bs) = unat bs - r"
    using qr(2) uq by (simp add: unat_sub word_le_nat_alt)
  have mins: "unat (min x y) = min (unat x) (unat y)" for x y :: u32
    by (simp add: min_def word_le_nat_alt)
  define w where "w = min (bs - offset mod bs) (min n (sz - offset))"
  have w: "unat w = a" by (simp add: w_def mins bo so a_def)
  have "0 < unat n" using n by (simp add: unat_gt_0 word_gt_0)
  then have a: "0 < a" "a \<le> unat n" "unat offset + a \<le> unat sz" "r + a \<le> unat bs"
    using qr(2) o1 by (auto simp: a_def)
  have a1: "w \<le> min n (sz - offset)" unfolding w_def by (rule min.cobounded2)
  have "unat (offset + w) = unat offset + a"
    using a(3) w unat_bound [of sz] by (intro trans [OF unat_add_lem [THEN iffD1]]) simp_all
  then have a2: "offset + w \<le> sz" using a(3) by (simp add: word_le_nat_alt)
  have "unat (offset mod bs + w) = r + a"
    using a(4) w uq unat_bound [of bs] by (intro trans [OF unat_add_lem [THEN iffD1]]) simp_all
  then have a3: "offset mod bs + w \<le> bs" using a(4) by (simp add: word_le_nat_alt)
  have blk: "gives I (rb (offset div bs)) (chunk c (q * unat bs) (unat bs))"
  proof -
    have "unat (offset div bs) * unat bs < unat sz" using uq qr(1) o1 by simp
    then have "gives I (rb (offset div bs)) (chunk c (unat (offset div bs) * unat bs) (unat bs))"
      using h unfolding holds_def by blast
    then show ?thesis by (simp only: uq)
  qed
  have ui: "uint w = int a" by (simp add: w flip: w)
  have "gives I (bio_read rb sz bs offset n) (int a, chunk c (unat offset) a)"
  proof (cases "w = bs")
    case True
    then have "a = unat bs" "r = 0" using w a(4) by auto
    then have "offset mod bs = 0" "chunk c (q * unat bs) (unat bs) = chunk c (unat offset) a"
      using uq(2) qr(1) by (simp_all add: unat_eq_zero)
    then show ?thesis
      using off bs(1) a1 a2 blk True ui
      by (auto simp: bio_read_def Let_def w_def [symmetric] intro!: gives_bind gives_assert gives_ret)
  next
    case False
    have "take (unat w) (drop (unat (offset mod bs)) (chunk c (q * unat bs) (unat bs))) = chunk c (unat offset) a"
      using chunk_sub [OF a(4)] qr(1) by (simp add: w uq)
    then show ?thesis
      using off bs(1) a1 a2 a3 blk False ui
      by (auto simp: bio_read_def Let_def w_def [symmetric] intro!: gives_bind [OF blk] gives_bind gives_assert gives_ret)
  qed
  then show ?thesis using a by blast
qed

lemma read_loop_gives:
  assumes h: "holds I sz c" and "unat n < fuel" and "unat offset \<le> unat sz"
    and "m = min (unat n) (unat sz - unat offset)"
  shows "gives I (bio_read_loop fuel rb sz bs offset n tot xs) (tot + int m, xs @ chunk c (unat offset) m)"
  using assms(2-4)
proof (induction fuel arbitrary: offset n tot xs m)
  case (Suc f)
  consider "n = 0" | "0 < n" "offset = sz" | "0 < n" "offset < sz"
    using Suc.prems(2) by (metis word_gt_0 word_le_nat_alt order_le_less)
  then show ?case
  proof cases
    case 1
    then show ?thesis using Suc.prems by (auto simp: chunk_def intro!: gives_ret)
  next
    case 2
    then have "m = 0" using Suc.prems by simp
    with 2 show ?thesis
      by (auto simp: bio_read_def chunk_def gives_def sbind_def ret_def)
  next
    case 3
    from read_gives [OF h 3(2,1)] obtain k where k: "0 < k" "k \<le> unat n" "unat offset + k \<le> unat sz"
      and g: "gives I (bio_read rb sz bs offset n) (int k, chunk c (unat offset) k)" by blast
    define w :: u32 where "w = word_of_int (int k)"
    have w: "unat w = k" using k(2) unat_bound [of n] by (simp add: w_def unat_of_nat)
    have uo: "unat (offset + w) = unat offset + k"
      using k(3) w unat_bound [of sz] by (intro trans [OF unat_add_lem [THEN iffD1]]) simp_all
    have un: "unat (n - w) = unat n - k" using k(2) w by (simp add: unat_sub word_le_nat_alt)
    have lt: "unat (n - w) < f" "unat (offset + w) \<le> unat sz" using Suc.prems(1) k uo un by linarith+
    have m: "m - k = min (unat (n - w)) (unat sz - unat (offset + w))" "k \<le> m"
      using Suc.prems(3) k uo un by auto
    have "gives I (bio_read_loop f rb sz bs (offset + w) (n - w) (tot + int k) (xs @ chunk c (unat offset) k))
        (tot + int k + int (m - k), (xs @ chunk c (unat offset) k) @ chunk c (unat (offset + w)) (m - k))"
      by (rule Suc.IH [OF lt m(1)])
    then have rest: "gives I (bio_read_loop f rb sz bs (offset + w) (n - w) (tot + int k) (xs @ chunk c (unat offset) k))
        (tot + int m, xs @ chunk c (unat offset) m)"
      using m(2) by (simp add: uo chunk_append)
    show ?thesis
      unfolding bio_read_loop.simps if_P [OF 3(1)]
      by (rule gives_bind [OF g]) (use rest k(1) in \<open>simp add: w_def\<close>)
  qed
qed simp

text \<open>\<^verbatim>\<open>read_all\<close> of a range returns its bytes; a range that goes past the end is cut there.\<close>

lemma read_all_cut:
  assumes "holds I sz c" and "unat offset \<le> unat sz" and "m = min (unat n) (unat sz - unat offset)"
  shows "gives I (bio_read_all rb sz bs offset n) (int m, chunk c (unat offset) m)"
  unfolding bio_read_all_def using read_loop_gives [OF assms(1) _ assms(2,3), of "unat n + 1" 0 "[]"] by simp

lemma read_all_gives:
  assumes "holds I sz c" and "unat offset + unat n \<le> unat sz"
  shows "gives I (bio_read_all rb sz bs offset n) (int (unat n), chunk c (unat offset) (unat n))"
  by (rule read_all_cut [OF assms(1)]) (use assms(2) in auto)

text \<open>A range that begins past the end is an error.\<close>

lemma read_all_past: "sz < offset \<Longrightarrow> 0 < n \<Longrightarrow> bio_read_all rb sz bs offset n = ret (-1, [])"
  by (simp add: bio_read_all_def bio_read_def sbind_def ret_def)

lemma read_thing_gives:
  assumes "holds I sz c" and "unat offset + unat n \<le> unat sz"
  shows "gives I (bio_read_thing (bio_read_all rb sz bs) n offset) (chunk c (unat offset) (unat n))"
  unfolding bio_read_thing_def
  by (rule gives_bind [OF read_all_gives [OF assms]]) (auto intro!: gives_bind gives_assert gives_ret)

end

text \<open>
  A class that implements \<^verbatim>\<open>BlockIO\<close>: its blocks have the block size.
\<close>

locale block_io = block_reader rb bs for rb :: "u32 \<Rightarrow> ('s, u8 list) st" and bs :: u32 +
  assumes block_length: "results (rb b) (\<lambda>blk. length blk = unat bs)"
begin

lemma read_counted: "results (bio_read rb sz bs offset n) counted"
proof (cases "bs = 0")
  case True
  then show ?thesis by (auto simp: bio_read_def counted_def intro!: results_ret results_fail)
next
  case False
  define w where "w = min (bs - offset mod bs) (min n (sz - offset))"
  have len: "min (unat bs - unat (offset mod bs)) (unat w) = unat w"
  proof -
    have "w \<le> bs - offset mod bs" unfolding w_def by (rule min.cobounded1)
    moreover have "offset mod bs \<le> bs" using False by (simp add: word_mod_less_divisor word_gt_0 less_imp_le)
    ultimately show ?thesis using unat_sub [of "offset mod bs" bs] by (simp add: word_le_nat_alt min_def)
  qed
  show ?thesis
    unfolding bio_read_def Let_def w_def [symmetric]
    by (auto simp: counted_def len intro!: results_ret results_fail results_assert results_bind [OF block_length])
qed

lemma read_loop_counted:
  "int (length xs) = tot \<Longrightarrow> results (bio_read_loop fuel rb sz bs offset n tot xs) counted"
proof (induction fuel arbitrary: offset n tot xs)
  case (Suc f)
  show ?case
  proof (cases "0 < n")
    case True
    have "results (if cnt < 0 then ret (cnt, xs) else if cnt = 0 then ret (tot, xs)
        else bio_read_loop f rb sz bs (offset + word_of_int cnt) (n - word_of_int cnt) (tot + cnt) (xs @ ys)) counted"
      if "counted (cnt, ys)" for cnt ys
    proof -
      have "results (bio_read_loop f rb sz bs (offset + word_of_int cnt) (n - word_of_int cnt) (tot + cnt) (xs @ ys)) counted"
        if "0 < cnt" by (rule Suc.IH) (use Suc.prems that \<open>counted (cnt, ys)\<close> in \<open>simp add: counted_def\<close>)
      then show ?thesis using Suc.prems by (auto simp: counted_def intro!: results_ret)
    qed
    then show ?thesis using True by (auto intro!: results_bind [OF read_counted])
  next
    case False
    then show ?thesis using Suc.prems by (auto simp: counted_def intro!: results_ret)
  qed
qed (auto intro: results_fail)

lemma read_all_counted: "results (bio_read_all rb sz bs offset n) counted"
  unfolding bio_read_all_def by (rule read_loop_counted) simp

end

end
