(* ===== verification/Ide.thy ===== *)
theory Ide
  imports BlockIo
begin

text \<open>
  The disk driver, \<^verbatim>\<open>kernel/ide.h\<close> and \<^verbatim>\<open>kernel/ide.cc\<close>. The controller behind the ports is a
  parameter: what the port instructions do to a device of any type. The polling loops have a
  bound, after which the result is \<open>Diverges\<close>. The lock makes \<^verbatim>\<open>read_block\<close> atomic.
\<close>

section \<open>The driver\<close>

record 'd pio =
  p_inb :: "u32 \<Rightarrow> 'd \<Rightarrow> u8 \<times> 'd"
  p_inl :: "u32 \<Rightarrow> 'd \<Rightarrow> u32 \<times> 'd"
  p_outb :: "u32 \<Rightarrow> u8 \<Rightarrow> 'd \<Rightarrow> 'd"

record 'd ide_st =
  nRead :: u32
  dev :: 'd

definition inb :: "'d pio \<Rightarrow> u32 \<Rightarrow> ('d ide_st, u8) st" where
  "inb P p s = (let (v, d) = p_inb P p (dev s) in Inr (v, s\<lparr>dev := d\<rparr>))"

definition inl :: "'d pio \<Rightarrow> u32 \<Rightarrow> ('d ide_st, u32) st" where
  "inl P p s = (let (v, d) = p_inl P p (dev s) in Inr (v, s\<lparr>dev := d\<rparr>))"

definition outb :: "'d pio \<Rightarrow> u32 \<Rightarrow> u32 \<Rightarrow> ('d ide_st, unit) st" where
  "outb P p v s = Inr ((), s\<lparr>dev := p_outb P p (ucast v) (dev s)\<rparr>)"

definition ide_controller :: "u32 \<Rightarrow> u32" where
  "ide_controller drive = drop_bit 1 drive AND 1"

definition ide_channel :: "u32 \<Rightarrow> u32" where
  "ide_channel drive = drive AND 1"

definition ide_ports :: "u32 list" where
  "ide_ports = [0x1f0, 0x170]"

definition ide_port :: "u32 \<Rightarrow> u32" where
  "ide_port drive = ide_ports ! unat (ide_controller drive)"

definition getStatus :: "'d pio \<Rightarrow> u32 \<Rightarrow> ('d ide_st, u8) st" where
  "getStatus P drive = inb P (ide_port drive + 7)"

definition ERR :: u8 where "ERR = 0x01"
definition DRQ :: u8 where "DRQ = 0x08"
definition DF :: u8 where "DF = 0x20"
definition DRDY :: u8 where "DRDY = 0x40"
definition BSY :: u8 where "BSY = 0x80"

text \<open>Reading the status until \<open>stop\<close> holds of it.\<close>

fun poll :: "nat \<Rightarrow> 'd pio \<Rightarrow> u32 \<Rightarrow> (u8 \<Rightarrow> bool) \<Rightarrow> ('d ide_st, unit) st" where
  "poll 0 P drive stop = fail Diverges"
| "poll (Suc k) P drive stop =
     sbind (getStatus P drive) (\<lambda>status. if stop status then ret () else poll k P drive stop)"

definition waitForDrive :: "nat \<Rightarrow> 'd pio \<Rightarrow> u32 \<Rightarrow> ('d ide_st, unit) st" where
  "waitForDrive polls P drive =
     sbind (getStatus P drive) (\<lambda>status.
       if status AND (ERR OR DF) \<noteq> 0 then fail Panic
       else if status AND DRDY = 0 then fail Panic
       else poll polls P drive (\<lambda>status. status AND BSY = 0))"

text \<open>The command: one sector, its number and the drive.\<close>

definition ide_command :: "'d pio \<Rightarrow> u32 \<Rightarrow> u32 \<Rightarrow> ('d ide_st, unit) st" where
  "ide_command P drive sector =
     (let base = ide_port drive; ch = ide_channel drive
      in sbind (outb P (base + 2) 1) (\<lambda>_.
         sbind (outb P (base + 3) sector) (\<lambda>_.
         sbind (outb P (base + 4) (drop_bit 8 sector)) (\<lambda>_.
         sbind (outb P (base + 5) (drop_bit 16 sector)) (\<lambda>_.
         sbind (outb P (base + 6) (0xE0 OR push_bit 4 ch OR (drop_bit 24 sector AND 0xf))) (\<lambda>_.
         outb P (base + 7) 0x20))))))"

text \<open>The words of the buffer in memory order.\<close>

definition word_bytes :: "u32 \<Rightarrow> u8 list" where
  "word_bytes w = [ucast w, ucast (drop_bit 8 w), ucast (drop_bit 16 w), ucast (drop_bit 24 w)]"

fun read_words :: "nat \<Rightarrow> 'd pio \<Rightarrow> u32 \<Rightarrow> u8 list \<Rightarrow> ('d ide_st, u8 list) st" where
  "read_words 0 P base ptr = ret ptr"
| "read_words (Suc n) P base ptr = sbind (inl P base) (\<lambda>w. read_words n P base (ptr @ word_bytes w))"

definition ide_read_block :: "nat \<Rightarrow> 'd pio \<Rightarrow> u32 \<Rightarrow> u32 \<Rightarrow> ('d ide_st, u8 list) st" where
  "ide_read_block polls P drive sector =
     sbind (\<lambda>s. Inr ((), s\<lparr>nRead := nRead s + 1\<rparr>)) (\<lambda>_.
     sbind (waitForDrive polls P drive) (\<lambda>_.
     sbind (ide_command P drive sector) (\<lambda>_.
     sbind (waitForDrive polls P drive) (\<lambda>_.
     sbind (poll polls P drive (\<lambda>status. status AND DRQ \<noteq> 0)) (\<lambda>_.
     read_words (512 div 4) P (ide_port drive) [])))))"

definition ide_size_in_bytes :: u32 where
  "ide_size_in_bytes = NOT 0"

section \<open>BlockIO\<close>

lemma word_bytes_length [simp]: "length (word_bytes w) = 4"
  by (simp add: word_bytes_def)

lemma read_words_length: "results (read_words n P base ptr) (\<lambda>xs. length xs = length ptr + 4 * n)"
proof (induction n arbitrary: ptr)
  case (Suc n)
  show ?case
    unfolding read_words.simps
    by (rule results_bind [OF results_any]) (use Suc [of "ptr @ word_bytes _"] in \<open>simp add: algebra_simps\<close>)
qed (auto intro: results_ret)

lemma ide_block_length: "results (ide_read_block polls P drive b) (\<lambda>blk. length blk = 512)"
  unfolding ide_read_block_def
  by (intro results_bind [OF results_any]) (use read_words_length [of "512 div 4" P _ "[]"] in simp)

interpretation ide: block_io "ide_read_block polls P drive" 512 for polls P drive
  by unfold_locales (use ide_block_length in simp)

definition ide_read_all :: "nat \<Rightarrow> 'd pio \<Rightarrow> u32 \<Rightarrow> u32 \<Rightarrow> u32 \<Rightarrow> ('d ide_st, int \<times> u8 list) st" where
  "ide_read_all polls P drive = bio_read_all (ide_read_block polls P drive) ide_size_in_bytes 512"

section \<open>A drive that follows the protocol\<close>

text \<open>
  What the driver relies on: a drive that is idle reports that it is ready; the command for a
  sector starts a transfer, in which the status asks for data; every read of the data port gives
  the next word of the sector, and after 128 of them the drive is idle.
\<close>

definition status_ready :: "u8 \<Rightarrow> bool" where
  "status_ready st \<longleftrightarrow> st AND (ERR OR DF) = 0 \<and> st AND DRDY \<noteq> 0 \<and> st AND BSY = 0"

definition le32_at :: "(nat \<Rightarrow> u8) \<Rightarrow> nat \<Rightarrow> u32" where
  "le32_at D i = ucast (D i) OR push_bit 8 (ucast (D (i + 1))) OR push_bit 16 (ucast (D (i + 2)))
     OR push_bit 24 (ucast (D (i + 3)))"

definition ata_drive :: "'d pio \<Rightarrow> u32 \<Rightarrow> (nat \<Rightarrow> u8) \<Rightarrow> ('d \<Rightarrow> bool) \<Rightarrow> (nat \<Rightarrow> nat \<Rightarrow> 'd \<Rightarrow> bool) \<Rightarrow> bool" where
  "ata_drive P drive D idle transfer \<longleftrightarrow>
     (\<forall>d. idle d \<longrightarrow> status_ready (fst (p_inb P (ide_port drive + 7) d)) \<and> idle (snd (p_inb P (ide_port drive + 7) d))) \<and>
     (\<forall>s sector. idle (dev s) \<and> sector < 2 ^ 28 \<longrightarrow>
        (\<exists>s'. ide_command P drive sector s = Inr ((), s') \<and> transfer (unat sector) 0 (dev s'))) \<and>
     (\<forall>n k d. transfer n k d \<and> k < 128 \<longrightarrow>
        status_ready (fst (p_inb P (ide_port drive + 7) d)) \<and> fst (p_inb P (ide_port drive + 7) d) AND DRQ \<noteq> 0 \<and>
        transfer n k (snd (p_inb P (ide_port drive + 7) d))) \<and>
     (\<forall>n k d. transfer n k d \<and> k < 128 \<longrightarrow>
        fst (p_inl P (ide_port drive) d) = le32_at D (512 * n + 4 * k) \<and> transfer n (k + 1) (snd (p_inl P (ide_port drive) d))) \<and>
     (\<forall>n d. transfer n 128 d \<longrightarrow> idle d)"

lemma word_bytes_le32: "word_bytes (le32_at D i) = chunk D i 4"
proof -
  have "ucast (le32_at D i) = D i" "ucast (drop_bit 8 (le32_at D i)) = D (i + 1)"
    "ucast (drop_bit 16 (le32_at D i)) = D (i + 2)" "ucast (drop_bit 24 (le32_at D i)) = D (i + 3)"
    unfolding le32_at_def by (rule bit_word_eqI; auto simp: bit_simps dest: bit_imp_le_length)+
  then show ?thesis by (simp add: word_bytes_def chunk_def upt_conv_Cons numeral_eq_Suc)
qed

lemma drive_status:
  assumes drv: "ata_drive P drive D idle transfer"
  shows "idle d \<Longrightarrow> status_ready (fst (p_inb P (ide_port drive + 7) d)) \<and> idle (snd (p_inb P (ide_port drive + 7) d))"
    and "transfer n 0 d \<Longrightarrow> status_ready (fst (p_inb P (ide_port drive + 7) d))
      \<and> fst (p_inb P (ide_port drive + 7) d) AND DRQ \<noteq> 0 \<and> transfer n 0 (snd (p_inb P (ide_port drive + 7) d))"
proof -
  show "idle d \<Longrightarrow> status_ready (fst (p_inb P (ide_port drive + 7) d)) \<and> idle (snd (p_inb P (ide_port drive + 7) d))"
    using drv unfolding ata_drive_def by blast
  have "\<forall>n k d. transfer n k d \<and> k < 128 \<longrightarrow> status_ready (fst (p_inb P (ide_port drive + 7) d))
      \<and> fst (p_inb P (ide_port drive + 7) d) AND DRQ \<noteq> 0 \<and> transfer n k (snd (p_inb P (ide_port drive + 7) d))"
    using drv unfolding ata_drive_def by (elim conjE) assumption
  from this [rule_format, of n 0 d]
  show "transfer n 0 d \<Longrightarrow> status_ready (fst (p_inb P (ide_port drive + 7) d))
      \<and> fst (p_inb P (ide_port drive + 7) d) AND DRQ \<noteq> 0 \<and> transfer n 0 (snd (p_inb P (ide_port drive + 7) d))"
    by simp
qed

lemma getStatus_run:
  "getStatus P drive s = Inr (fst (p_inb P (ide_port drive + 7) (dev s)), s\<lparr>dev := snd (p_inb P (ide_port drive + 7) (dev s))\<rparr>)"
  by (simp add: getStatus_def inb_def Let_def split_def)

lemma ready_idle:
  assumes drv: "ata_drive P drive D idle transfer" and polls: "0 < polls"
  shows "yields (\<lambda>s. idle (dev s)) (waitForDrive polls P drive) () (\<lambda>s. idle (dev s))"
proof -
  obtain k where k: "polls = Suc k" using polls by (cases polls) auto
  show ?thesis
    unfolding yields_def waitForDrive_def k
    using drive_status(1) [OF drv] by (simp add: sbind_def getStatus_run ret_def status_ready_def)
qed

lemma ready_transfer:
  assumes drv: "ata_drive P drive D idle transfer" and polls: "0 < polls"
  shows "yields (\<lambda>s. transfer n 0 (dev s)) (waitForDrive polls P drive) () (\<lambda>s. transfer n 0 (dev s))"
proof -
  obtain k where k: "polls = Suc k" using polls by (cases polls) auto
  show ?thesis
    unfolding yields_def waitForDrive_def k
    using drive_status(2) [OF drv, of n] by (simp add: sbind_def getStatus_run ret_def status_ready_def)
qed

lemma drq_transfer:
  assumes drv: "ata_drive P drive D idle transfer" and polls: "0 < polls"
  shows "yields (\<lambda>s. transfer n 0 (dev s)) (poll polls P drive (\<lambda>st. st AND DRQ \<noteq> 0)) () (\<lambda>s. transfer n 0 (dev s))"
proof -
  obtain k where k: "polls = Suc k" using polls by (cases polls) auto
  show ?thesis
    unfolding yields_def k
    using drive_status(2) [OF drv, of n] by (simp add: sbind_def getStatus_run ret_def)
qed

lemma command_transfer:
  assumes drv: "ata_drive P drive D idle transfer" and "sector < 2 ^ 28"
  shows "yields (\<lambda>s. idle (dev s)) (ide_command P drive sector) () (\<lambda>s. transfer (unat sector) 0 (dev s))"
  using assms by (auto simp: ata_drive_def yields_def)

lemma words_transfer:
  assumes drv: "ata_drive P drive D idle transfer"
  shows "k + m \<le> 128 \<Longrightarrow> yields (\<lambda>s. transfer n k (dev s)) (read_words m P (ide_port drive) ptr)
     (ptr @ chunk D (512 * n + 4 * k) (4 * m)) (\<lambda>s. transfer n (k + m) (dev s))"
proof (induction m arbitrary: k ptr)
  case 0
  then show ?case by (simp add: chunk_def yields_ret)
next
  case (Suc m)
  have "yields (\<lambda>s. transfer n k (dev s)) (inl P (ide_port drive)) (le32_at D (512 * n + 4 * k))
      (\<lambda>s. transfer n (k + 1) (dev s))"
    using drv Suc.prems by (auto simp: ata_drive_def yields_def inl_def Let_def split_def)
  moreover have "yields (\<lambda>s. transfer n (k + 1) (dev s))
      (read_words m P (ide_port drive) (ptr @ word_bytes (le32_at D (512 * n + 4 * k))))
      ((ptr @ word_bytes (le32_at D (512 * n + 4 * k))) @ chunk D (512 * n + 4 * (k + 1)) (4 * m))
      (\<lambda>s. transfer n (k + 1 + m) (dev s))"
    by (rule Suc.IH) (use Suc.prems in simp)
  moreover have "chunk D (512 * n + 4 * k) 4 @ chunk D (512 * n + 4 * (k + 1)) (4 * m) = chunk D (512 * n + 4 * k) (4 * Suc m)"
    using chunk_append [of D "512 * n + 4 * k" 4 "4 * m"] by (simp add: algebra_simps)
  ultimately show ?case by (auto simp: word_bytes_le32 intro!: yields_bind)
qed

lemma read_block_sector:
  assumes drv: "ata_drive P drive D idle transfer" and polls: "0 < polls" and sec: "sector < 2 ^ 28"
  shows "gives (\<lambda>s. idle (dev s)) (ide_read_block polls P drive sector) (chunk D (512 * unat sector) 512)"
proof -
  have w: "yields (\<lambda>s. transfer (unat sector) 0 (dev s)) (read_words (512 div 4) P (ide_port drive) [])
      (chunk D (512 * unat sector) 512) (\<lambda>s. transfer (unat sector) 128 (dev s))"
    using words_transfer [OF drv, of 0 128 "unat sector" "[]"] by simp
  have "yields (\<lambda>s. transfer (unat sector) 0 (dev s)) (read_words (512 div 4) P (ide_port drive) [])
      (chunk D (512 * unat sector) 512) (\<lambda>s. idle (dev s))"
    using w drv by (fastforce simp: yields_def ata_drive_def)
  moreover have "yields (\<lambda>s. idle (dev s)) (\<lambda>s. Inr ((), s\<lparr>nRead := nRead s + 1\<rparr>)) () (\<lambda>s. idle (dev s))"
    by (simp add: yields_def)
  ultimately show ?thesis
    unfolding ide_read_block_def
    using ready_idle [OF drv polls] ready_transfer [OF drv polls] drq_transfer [OF drv polls]
      command_transfer [OF drv sec]
    by (blast intro!: yields_gives yields_bind)
qed

lemma drive_holds:
  assumes drv: "ata_drive P drive D idle transfer" and polls: "0 < polls"
  shows "ide.holds polls P drive (\<lambda>s. idle (dev s)) ide_size_in_bytes D"
proof -
  have "gives (\<lambda>s. idle (dev s)) (ide_read_block polls P drive b) (chunk D (unat b * 512) 512)"
    if "unat b * 512 < unat ide_size_in_bytes" for b
  proof -
    have "unat b * 512 < 2 ^ 32" using that unat_bound [of ide_size_in_bytes] by simp
    then have "b < 2 ^ 28" by (simp add: word_less_nat_alt)
    then show ?thesis using read_block_sector [OF drv polls, of b] by (simp add: mult.commute)
  qed
  then show ?thesis by (simp add: ide.holds_def)
qed


text \<open>A drive: the registers written, the sector under way and the words already read.\<close>

record sim =
  sim_r3 :: u8
  sim_r4 :: u8
  sim_r5 :: u8
  sim_r6 :: u8
  sim_pos :: "(nat \<times> nat) option"

definition sim_lba :: "sim \<Rightarrow> u32" where
  "sim_lba d = ucast (sim_r3 d) OR push_bit 8 (ucast (sim_r4 d)) OR push_bit 16 (ucast (sim_r5 d))
     OR push_bit 24 (ucast (sim_r6 d) AND mask 4)"

definition sim_pio :: "(nat \<Rightarrow> u8) \<Rightarrow> sim pio" where
  "sim_pio D = \<lparr>
     p_inb = (\<lambda>p d. (if sim_pos d = None then 0x40 else 0x48, d)),
     p_inl = (\<lambda>p d. case sim_pos d of None \<Rightarrow> (0, d)
                | Some (n, k) \<Rightarrow> (le32_at D (512 * n + 4 * k), d\<lparr>sim_pos := if k = 127 then None else Some (n, k + 1)\<rparr>)),
     p_outb = (\<lambda>p v d.
       if p = 0x1f3 then d\<lparr>sim_r3 := v\<rparr>
       else if p = 0x1f4 then d\<lparr>sim_r4 := v\<rparr>
       else if p = 0x1f5 then d\<lparr>sim_r5 := v\<rparr>
       else if p = 0x1f6 then d\<lparr>sim_r6 := v\<rparr>
       else if p = 0x1f7 then d\<lparr>sim_pos := Some (unat (sim_lba d), 0)\<rparr>
       else d)\<rparr>"

lemma sim_sector:
  assumes "sector < (2 ^ 28 :: u32)"
  shows "ucast (ucast sector :: u8) OR push_bit 8 (ucast (ucast (drop_bit 8 sector) :: u8))
    OR push_bit 16 (ucast (ucast (drop_bit 16 sector) :: u8))
    OR push_bit 24 (ucast (ucast (0xE0 OR (drop_bit 24 sector AND 0xf) :: u32) :: u8) AND mask 4) = sector"
proof (rule bit_word_eqI)
  fix n assume n: "n < LENGTH(32)"
  have hi: "\<not> bit sector m" if "28 \<le> m" for m
  proof -
    have "sector AND mask 28 = sector" using assms by (rule less_mask_eq)
    then have "bit sector m = (bit sector m \<and> m < 28)" by (metis bit_and_iff bit_mask_iff)
    then show ?thesis using that by simp
  qed
  have e: "\<not> bit (0xE0 :: u32) m" if "m < 4" for m
    using that by (auto simp: less_Suc_eq numeral_eq_Suc bit_Suc)
  have f: "bit (0xf :: u32) m = (m < 4)" for m
  proof -
    have "mask 4 = (0xf :: u32)" by (simp add: mask_eq_exp_minus_1)
    then have "bit (0xf :: u32) m = bit (mask 4 :: u32) m" by (simp only:)
    also have "\<dots> = (m < 4)" by (simp only: bit_mask_iff) auto
    finally show ?thesis .
  qed
  have r3: "bit (ucast (ucast sector :: u8) :: u32) n = (n < 8 \<and> bit sector n)"
    using n by (auto simp: bit_simps)
  have r4: "bit (push_bit 8 (ucast (ucast (drop_bit 8 sector) :: u8)) :: u32) n = (8 \<le> n \<and> n < 16 \<and> bit sector n)"
    using n by (auto simp: bit_simps)
  have r5: "bit (push_bit 16 (ucast (ucast (drop_bit 16 sector) :: u8)) :: u32) n = (16 \<le> n \<and> n < 24 \<and> bit sector n)"
    using n by (auto simp: bit_simps)
  have r6: "bit (push_bit 24 (ucast (ucast (0xE0 OR (drop_bit 24 sector AND 0xf) :: u32) :: u8) AND mask 4) :: u32) n
      = (24 \<le> n \<and> n < 28 \<and> bit sector n)"
  proof (cases "24 \<le> n")
    case True
    have "bit (0xE0 OR (drop_bit 24 sector AND 0xf) :: u32) (n - 24) = bit sector n" if "n < 28"
    proof -
      have "\<not> bit (0xE0 :: u32) (n - 24)" using e [of "n - 24"] that by simp
      moreover have "bit (0xf :: u32) (n - 24)" using f [of "n - 24"] that by simp
      moreover have "bit (drop_bit 24 sector) (n - 24) = bit sector n" using True by (simp add: bit_drop_bit_eq)
      ultimately show ?thesis by (simp only: bit_or_iff bit_and_iff) blast
    qed
    then show ?thesis
      using n True by (auto simp only: bit_push_bit_iff bit_and_iff bit_mask_iff bit_ucast_iff) auto
  qed (simp add: bit_push_bit_iff bit_and_iff)
  show "bit (ucast (ucast sector :: u8) OR push_bit 8 (ucast (ucast (drop_bit 8 sector) :: u8))
    OR push_bit 16 (ucast (ucast (drop_bit 16 sector) :: u8))
    OR push_bit 24 (ucast (ucast (0xE0 OR (drop_bit 24 sector AND 0xf) :: u32) :: u8) AND mask 4) :: u32) n = bit sector n"
    unfolding bit_or_iff r3 r4 r5 r6 using hi [of n] n by auto
qed

lemma sim_drive:
  "ata_drive (sim_pio D) 0 D (\<lambda>d. sim_pos d = None)
     (\<lambda>n k d. if k = 128 then sim_pos d = None else sim_pos d = Some (n, k))"
proof -
  have st: "status_ready 0x40" "status_ready 0x48" "(0x48 :: u8) AND DRQ \<noteq> 0"
    by (simp_all add: status_ready_def ERR_def DF_def DRDY_def BSY_def DRQ_def)
  have port: "ide_port 0 = 0x1f0" "ide_channel 0 = 0"
    by (simp_all add: ide_port_def ide_controller_def ide_ports_def ide_channel_def)
  have cmd: "\<exists>s'. ide_command (sim_pio D) 0 sector s = Inr ((), s') \<and> sim_pos (dev s') = Some (unat sector, 0)"
    if "sector < 2 ^ 28" for s :: "sim ide_st" and sector
    using sim_sector [OF that]
    by (simp add: ide_command_def port Let_def sbind_def outb_def sim_pio_def sim_lba_def)
  show ?thesis
    unfolding ata_drive_def port using st cmd by (auto simp: sim_pio_def)
qed


end
