(* ===== verification/Ext2.thy ===== *)
theory Ext2
  imports Ide
begin

text \<open>
  The file system the kernel mounts, \<^verbatim>\<open>kernel/ext2.h\<close> and \<^verbatim>\<open>kernel/ext2.cc\<close>, and the string functions of
  \<^verbatim>\<open>kernel/libk.cc\<close> it calls. \<open>rd\<close> stands for \<^verbatim>\<open>ide->read_all\<close>: every operation is a function on the state
  of the driver. Strings are lists of bytes in which the end of the list is the terminating zero.
  Memory that is allocated is a value: \<^verbatim>\<open>Shared\<close> nodes are never written after \<^verbatim>\<open>find\<close> returned them.
\<close>

section \<open>Strings\<close>

definition byte_at :: "u8 list \<Rightarrow> nat \<Rightarrow> u8" where
  "byte_at str i = (if i < length str then str ! i else 0)"

function k_strlen :: "u8 list \<Rightarrow> nat \<Rightarrow> nat" where
  "k_strlen str n = (if byte_at str n \<noteq> 0 then k_strlen str (n + 1) else n)"
  by auto
termination
  by (relation "measure (\<lambda>(str, n). length str - n)") (auto simp: byte_at_def split: if_splits)

function streq :: "u8 list \<Rightarrow> u8 list \<Rightarrow> nat \<Rightarrow> bool" where
  "streq a b i =
     (let x = byte_at a i; y = byte_at b i
      in if x \<noteq> y then False else if x = 0 then True else streq a b (i + 1))"
  by auto
termination
  by (relation "measure (\<lambda>(a, b, i). length a - i)") (auto simp: byte_at_def split: if_splits)

declare k_strlen.simps [simp del] streq.simps [simp del]

definition k_isdigit :: "int \<Rightarrow> bool" where
  "k_isdigit c \<longleftrightarrow> c \<ge> 48 \<and> c \<le> 57"

section \<open>Structures on the disk\<close>

definition le16 :: "u8 list \<Rightarrow> nat \<Rightarrow> u16" where
  "le16 xs i = ucast (xs ! i) OR push_bit 8 (ucast (xs ! (i + 1)))"

definition le32 :: "u8 list \<Rightarrow> nat \<Rightarrow> u32" where
  "le32 xs i = le32_at (\<lambda>k. xs ! k) i"

record super_block =
  inodes_count :: u32
  blocks_count :: u32
  reserved_blocks_count :: u32
  sb_free_blocks_count :: u32
  free_inodes_count :: u32
  first_data_block :: u32
  log_block_size :: u32
  log_frag_size :: u32
  blocks_per_group :: u32
  frags_per_group :: u32
  inodes_per_group :: u32
  sb_mtime :: u32
  wtime :: u32
  mnt_count :: u16
  max_mnt_count :: u16
  magic :: u16
  sb_state :: u16
  sb_errors :: u16
  minor_rev_level :: u16
  lastcheck :: u32
  checkinterval :: u32
  creator_os :: u32
  rev_level :: u32
  def_resuid :: u16
  def_resgid :: u16
  first_inode :: u32
  inode_size :: u16
  block_group_nr :: u16
  feature_compat :: u32
  feature_incompat :: u32
  feature_ro_compat :: u32
  uuid :: "u8 list"
  volume_name :: "u8 list"
  algo_bitmap :: u32

definition sizeof_super_block :: u32 where "sizeof_super_block = 140"

definition parse_super_block :: "u8 list \<Rightarrow> super_block" where
  "parse_super_block xs = \<lparr>
     inodes_count = le32 xs 0, blocks_count = le32 xs 4, reserved_blocks_count = le32 xs 8,
     sb_free_blocks_count = le32 xs 12, free_inodes_count = le32 xs 16, first_data_block = le32 xs 20,
     log_block_size = le32 xs 24, log_frag_size = le32 xs 28, blocks_per_group = le32 xs 32,
     frags_per_group = le32 xs 36, inodes_per_group = le32 xs 40, sb_mtime = le32 xs 44, wtime = le32 xs 48,
     mnt_count = le16 xs 52, max_mnt_count = le16 xs 54, magic = le16 xs 56, sb_state = le16 xs 58,
     sb_errors = le16 xs 60, minor_rev_level = le16 xs 62,
     lastcheck = le32 xs 64, checkinterval = le32 xs 68, creator_os = le32 xs 72, rev_level = le32 xs 76,
     def_resuid = le16 xs 80, def_resgid = le16 xs 82, first_inode = le32 xs 84,
     inode_size = le16 xs 88, block_group_nr = le16 xs 90,
     feature_compat = le32 xs 92, feature_incompat = le32 xs 96, feature_ro_compat = le32 xs 100,
     uuid = take 16 (drop 104 xs), volume_name = take 16 (drop 120 xs), algo_bitmap = le32 xs 136\<rparr>"

record block_group =
  block_bitmap :: u32
  inode_bitmap :: u32
  inode_table :: u32
  bg_free_blocks_count :: u16
  bg_free_inodes_count :: u16
  used_dirs_count :: u16

definition sizeof_block_group :: u32 where "sizeof_block_group = 32"

definition parse_block_group :: "u8 list \<Rightarrow> block_group" where
  "parse_block_group xs = \<lparr>
     block_bitmap = le32 xs 0, inode_bitmap = le32 xs 4, inode_table = le32 xs 8,
     bg_free_blocks_count = le16 xs 12, bg_free_inodes_count = le16 xs 14, used_dirs_count = le16 xs 16\<rparr>"

text \<open>\<^verbatim>\<open>direct0\<close> to \<^verbatim>\<open>direct11\<close> are read as an array.\<close>

record node_data =
  mode :: u16
  uid :: u16
  size_low :: u32
  atime :: u32
  ctime :: u32
  mtime :: u32
  dtime :: u32
  gid :: u16
  n_links :: u16
  n_sectors :: u32
  flags :: u32
  os1 :: u32
  direct :: "u32 list"
  indirect_1 :: u32
  indirect_2 :: u32
  indirect_3 :: u32
  gen :: u32
  fragment :: u32

definition sizeof_node_data :: u32 where "sizeof_node_data = 128"

definition parse_node_data :: "u8 list \<Rightarrow> node_data" where
  "parse_node_data xs = \<lparr>
     mode = le16 xs 0, uid = le16 xs 2, size_low = le32 xs 4, atime = le32 xs 8, ctime = le32 xs 12,
     mtime = le32 xs 16, dtime = le32 xs 20, gid = le16 xs 24, n_links = le16 xs 26, n_sectors = le32 xs 28,
     flags = le32 xs 32, os1 = le32 xs 36, direct = map (\<lambda>i. le32 xs (40 + 4 * i)) [0..<12],
     indirect_1 = le32 xs 88, indirect_2 = le32 xs 92, indirect_3 = le32 xs 96,
     gen = le32 xs 100, fragment = le32 xs 112\<rparr>"

definition get_type :: "node_data \<Rightarrow> u16" where
  "get_type d = drop_bit 12 (mode d)"

definition is_dir :: "node_data \<Rightarrow> bool" where "is_dir d \<longleftrightarrow> get_type d = 4"
definition is_file :: "node_data \<Rightarrow> bool" where "is_file d \<longleftrightarrow> get_type d = 8"
definition is_symlink :: "node_data \<Rightarrow> bool" where "is_symlink d \<longleftrightarrow> get_type d = 0xa"

section \<open>Nodes\<close>

record node =
  n_index :: nat
  my_path :: "u8 list"
  number :: u32
  block_size :: u32
  data :: node_data

type_synonym 's reader = "u32 \<Rightarrow> u32 \<Rightarrow> ('s, int \<times> u8 list) st"

definition node_new :: "u32 \<Rightarrow> u32 \<Rightarrow> node_data \<Rightarrow> node" where
  "node_new num bs d = \<lparr>n_index = 0, my_path = [], number = num, block_size = bs, data = d\<rparr>"

definition node_read_block :: "'s reader \<Rightarrow> node \<Rightarrow> u32 \<Rightarrow> ('s, u8 list) st" where
  "node_read_block rd nd index =
     (if block_size nd div 512 = 0 then fail Undefined
      else
        sbind (assert (index < n_sectors (data nd) div (block_size nd div 512))) (\<lambda>_.
        let refs_per_block = block_size nd div 4 in
        sbind
          (if index < 12 then ret (direct (data nd) ! unat index)
           else if index < 12 + refs_per_block then
             sbind (bio_read_thing rd 4 (indirect_1 (data nd) * block_size nd + (index - 12) * 4)) (\<lambda>xs. ret (le32 xs 0))
           else fail Panic) (\<lambda>block_index.
        sbind (rd (block_index * block_size nd) (block_size nd)) (\<lambda>(cnt, buffer).
        sbind (assert (cnt = uint (block_size nd))) (\<lambda>_. ret buffer)))))"

definition node_size_in_bytes :: "node \<Rightarrow> u32" where
  "node_size_in_bytes nd = size_low (data nd)"

definition node_read_all :: "'s reader \<Rightarrow> node \<Rightarrow> 's reader" where
  "node_read_all rd nd = bio_read_all (node_read_block rd nd) (node_size_in_bytes nd) (block_size nd)"

text \<open>The target of a symbolic link; a short one is stored in place of the block numbers.\<close>

definition get_symbol :: "'s reader \<Rightarrow> node \<Rightarrow> ('s, u8 list) st" where
  "get_symbol rd nd =
     sbind (assert (is_symlink (data nd))) (\<lambda>_.
     let sz = node_size_in_bytes nd in
     if sz \<le> 60 then
       ret (take (unat sz) (concat (map word_bytes
         (direct (data nd) @ [indirect_1 (data nd), indirect_2 (data nd), indirect_3 (data nd)]))))
     else
       sbind (node_read_all rd nd 0 sz) (\<lambda>(cnt, buffer). sbind (assert (cnt = uint sz)) (\<lambda>_. ret buffer)))"

text \<open>
  \<^verbatim>\<open>entries\<close>, with the work as a fold. A run that ends visits an offset below the size at most once,
  as nothing but the offset changes from one turn to the next; so the size is fuel enough.
\<close>

fun entries_loop :: "nat \<Rightarrow> 's reader \<Rightarrow> node \<Rightarrow> ('a \<Rightarrow> u32 \<Rightarrow> u8 list \<Rightarrow> 'a) \<Rightarrow> u32 \<Rightarrow> 'a \<Rightarrow> ('s, 'a) st" where
  "entries_loop 0 rd nd work offset acc = fail Diverges"
| "entries_loop (Suc k) rd nd work offset acc =
     (if offset < size_low (data nd) then
        sbind (bio_read_thing (node_read_all rd nd) 4 offset) (\<lambda>inode.
        sbind (bio_read_thing (node_read_all rd nd) 2 (offset + 4)) (\<lambda>total_size.
        sbind (bio_read_thing (node_read_all rd nd) 1 (offset + 6)) (\<lambda>name_length.
        sbind (node_read_all rd nd (offset + 8) (ucast (name_length ! 0))) (\<lambda>(cnt, name).
        sbind (assert (cnt = uint (name_length ! 0))) (\<lambda>_.
        entries_loop k rd nd work (offset + ucast (le16 total_size 0)) (work acc (le32 inode 0) name))))))
      else ret acc)"

definition entries :: "'s reader \<Rightarrow> node \<Rightarrow> ('a \<Rightarrow> u32 \<Rightarrow> u8 list \<Rightarrow> 'a) \<Rightarrow> 'a \<Rightarrow> ('s, 'a) st" where
  "entries rd nd work acc =
     sbind (assert (is_dir (data nd))) (\<lambda>_.
     entries_loop (unat (size_low (data nd)) + 1) rd nd work 0 acc)"

definition node_find :: "'s reader \<Rightarrow> node \<Rightarrow> u8 list \<Rightarrow> ('s, u32) st" where
  "node_find rd nd name = entries rd nd (\<lambda>out num nm. if streq name nm 0 then num else out) 0"

definition entry_count :: "'s reader \<Rightarrow> node \<Rightarrow> ('s, u32) st" where
  "entry_count rd nd =
     sbind (assert (is_dir (data nd))) (\<lambda>_. entries rd nd (\<lambda>count _ _. count + 1) 0)"

section \<open>The file system\<close>

record ext2 =
  blockSize :: u32
  numberOfNodes :: u32
  numberOfBlocks :: u32
  iNodeSize :: u32
  nGroups :: u32
  iNodeTables :: "u32 list"
  iNodesPerGroup :: u32

definition get_node :: "'s reader \<Rightarrow> ext2 \<Rightarrow> u32 \<Rightarrow> ('s, node) st" where
  "get_node rd F num =
     sbind (assert (num > 0)) (\<lambda>_.
     sbind (assert (num \<le> numberOfNodes F)) (\<lambda>_.
     let index = num - 1 in
     if iNodesPerGroup F = 0 then fail Undefined else
     let groupIndex = index div iNodesPerGroup F in
     sbind (assert (groupIndex < nGroups F)) (\<lambda>_.
     let indexInGroup = index mod iNodesPerGroup F;
         iTableBase = iNodeTables F ! unat groupIndex in
     sbind (assert (iTableBase \<le> numberOfBlocks F)) (\<lambda>_.
     let nodeOffset = iTableBase * blockSize F + indexInGroup * iNodeSize F in
     sbind (bio_read_thing rd sizeof_node_data nodeOffset) (\<lambda>xs.
     ret (node_new num (blockSize F) (parse_node_data xs)))))))"

text \<open>The constructor: the file system and its root.\<close>

definition ext2_mount :: "'s reader \<Rightarrow> ('s, ext2 \<times> node) st" where
  "ext2_mount rd =
     sbind (bio_read_thing rd sizeof_super_block 1024) (\<lambda>xs.
     let sb = parse_super_block xs; sh = log_block_size sb + 10 in
     if sh \<ge> 32 \<or> blocks_per_group sb = 0 then fail Undefined else
     let bs = push_bit (unat sh) 1;
         groups = (blocks_count sb + blocks_per_group sb - 1) div blocks_per_group sb in
     sbind (assert (groups * blocks_per_group sb \<ge> blocks_count sb)) (\<lambda>_.
     let superBlockNumber = 1024 div bs;
         groupTableNumber = superBlockNumber + 1;
         groupTableSize = sizeof_block_group * groups in
     sbind (rd (groupTableNumber * bs) groupTableSize) (\<lambda>(cnt, groupTable).
     sbind (assert (cnt = uint groupTableSize)) (\<lambda>_.
     if 32 * unat groups \<ge> 2 ^ 32 then fail Undefined else
     let F = \<lparr>blockSize = bs, numberOfNodes = inodes_count sb, numberOfBlocks = blocks_count sb,
              iNodeSize = ucast (inode_size sb), nGroups = groups,
              iNodeTables = map (\<lambda>i. inode_table (parse_block_group (drop (32 * i) groupTable))) [0..<unat groups],
              iNodesPerGroup = inodes_per_group sb\<rparr> in
     sbind (get_node rd F 2) (\<lambda>root. ret (F, root))))))"

section \<open>Paths\<close>

abbreviation (input) SLASH :: u8 where "SLASH \<equiv> 47"

function skip_slashes :: "u8 list \<Rightarrow> nat \<Rightarrow> nat" where
  "skip_slashes path idx = (if byte_at path idx = SLASH then skip_slashes path (idx + 1) else idx)"
  by auto
termination
  by (relation "measure (\<lambda>(path, idx). length path - idx)") (auto simp: byte_at_def split: if_splits)

function get_part :: "u8 list \<Rightarrow> nat \<Rightarrow> u8 list \<Rightarrow> fs_err + (u8 list \<times> nat)" where
  "get_part path idx part =
     (let c = byte_at path idx
      in if c = 0 \<or> c = SLASH then Inr (part, idx)
         else if length part < 256 then get_part path (idx + 1) (part @ [c])
         else Inl Assert)"
  by auto
termination
  by (relation "measure (\<lambda>(path, idx, part). length path - idx)") (auto simp: byte_at_def split: if_splits)

declare skip_slashes.simps [simp del] get_part.simps [simp del]

text \<open>
  \<^verbatim>\<open>find\<close>: every turn takes at least one byte of the path. A symbolic link ends the search; it keeps
  the rest of the path.
\<close>

fun find_loop :: "nat \<Rightarrow> 's reader \<Rightarrow> ext2 \<Rightarrow> u8 list \<Rightarrow> nat \<Rightarrow> node option \<Rightarrow> ('s, node option) st" where
  "find_loop 0 rd F path idx current = fail Diverges"
| "find_loop (Suc k) rd F path idx current =
     (let idx = skip_slashes path idx in
      case current of
        None \<Rightarrow> ret None
      | Some nd \<Rightarrow>
        if byte_at path idx = 0 then ret current
        else
          (case get_part path idx [] of
             Inl e \<Rightarrow> fail e
           | Inr (part, idx) \<Rightarrow>
             sbind (node_find rd nd part) (\<lambda>num.
             if num = 0 then ret None
             else
               sbind (get_node rd F num) (\<lambda>nd.
               if is_symlink (data nd) then
                 ret (Some (nd\<lparr>n_index := idx, my_path := take (k_strlen path 0 - idx) (drop idx path)\<rparr>))
               else find_loop k rd F path idx (Some nd)))))"

definition ext2_find :: "'s reader \<Rightarrow> ext2 \<Rightarrow> node option \<Rightarrow> u8 list \<Rightarrow> ('s, node option) st" where
  "ext2_find rd F current path = find_loop (length path + 1) rd F path 0 current"

end
