(* ===== verification/Ext2_Props.thy ===== *)
theory Ext2_Props
  imports Ext2
begin

text \<open>
  What the file system reads from a disk of known bytes: the blocks of a file, the entries of a
  directory, the node a path leads to. The disk is an interface; the IDE driver provides it.
\<close>

lemma unat_up: "unat (ucast (x :: u8) :: u32) = unat x" "unat (ucast (y :: u16) :: u32) = unat y"
proof -
  have "unat x < 2 ^ 8" "unat y < 2 ^ 16" using unsigned_less [of x, where 'a = nat] unsigned_less [of y, where 'a = nat] by simp_all
  then show "unat (ucast x :: u32) = unat x" "unat (ucast y :: u32) = unat y"
    by (simp_all add: unsigned_ucast_eq take_bit_nat_eq_self)
qed

section \<open>The disk\<close>

lemma length_uint: "int (length xs) = uint (w :: u32) \<Longrightarrow> length xs = unat w"
  by (metis nat_int unat_eq_nat_uint)

text \<open>\<open>rd\<close> reads any range of the first \<open>sz\<close> bytes of \<open>D\<close>, in the states with \<open>I\<close>.\<close>

locale disk =
  fixes rd :: "'s reader" and I :: "'s \<Rightarrow> bool" and D :: "nat \<Rightarrow> u8" and sz :: u32
  assumes rd_counted: "results (rd offset n) counted"
    and rd_gives: "unat offset + unat n \<le> unat sz \<Longrightarrow>
      gives I (rd offset n) (int (unat n), chunk D (unat offset) (unat n))"
begin

lemma thing_gives:
  assumes "unat offset + unat n \<le> unat sz"
  shows "gives I (bio_read_thing rd n offset) (chunk D (unat offset) (unat n))"
  unfolding bio_read_thing_def
  by (rule gives_bind [OF rd_gives [OF assms]]) (auto intro!: gives_bind gives_assert gives_ret)

lemma node_block_length: "results (node_read_block rd nd b) (\<lambda>blk. length blk = unat (block_size nd))"
proof -
  have r: "results (rd off (block_size nd)) (\<lambda>r. counted r)" for off
    using rd_counted by (simp add: results_def)
  have "results (sbind (rd off (block_size nd)) (\<lambda>(cnt, buffer). sbind (assert (cnt = uint (block_size nd))) (\<lambda>_. ret buffer)))
      (\<lambda>blk. length blk = unat (block_size nd))" for off
    by (rule results_bind [OF r]) (clarsimp intro!: results_assert results_ret; simp add: counted_def length_uint)
  then have "results (sbind m (\<lambda>p. sbind (rd (p * block_size nd) (block_size nd)) (\<lambda>(cnt, buffer).
      sbind (assert (cnt = uint (block_size nd))) (\<lambda>_. ret buffer)))) (\<lambda>blk. length blk = unat (block_size nd))" for m
    by (rule results_bind [OF results_any])
  then show ?thesis
    unfolding node_read_block_def Let_def by (cases "block_size nd div 512 = 0") (auto intro!: results_fail results_assert)
qed

end

sublocale disk < node: block_io "node_read_block rd nd" "block_size nd" for nd
  by unfold_locales (rule node_block_length)

interpretation ide_disk: disk "ide_read_all polls P drive"
  "\<lambda>s. ata_drive P drive D idle transfer \<and> 0 < polls \<and> idle (dev s)" D ide_size_in_bytes
  for polls P drive D idle transfer
proof unfold_locales
  show "results (ide_read_all polls P drive offset n) counted" for offset n
    unfolding ide_read_all_def by (rule ide.read_all_counted)
  show "gives (\<lambda>s. ata_drive P drive D idle transfer \<and> 0 < polls \<and> idle (dev s))
      (ide_read_all polls P drive offset n) (int (unat n), chunk D (unat offset) (unat n))"
    if "unat offset + unat n \<le> unat ide_size_in_bytes" for offset n
    using ide.read_all_gives [OF drive_holds that] by (fastforce simp: gives_def ide_read_all_def)
qed

section \<open>The content of a node\<close>

text \<open>Number and bytes of the blocks of a node, on a disk with the bytes \<open>D\<close>.\<close>

definition node_block :: "(nat \<Rightarrow> u8) \<Rightarrow> node \<Rightarrow> u32 \<Rightarrow> u32" where
  "node_block D nd b =
     (if b < 12 then direct (data nd) ! unat b
      else le32_at D (unat (indirect_1 (data nd)) * unat (block_size nd) + (unat b - 12) * 4))"

definition node_byte :: "(nat \<Rightarrow> u8) \<Rightarrow> node \<Rightarrow> nat \<Rightarrow> u8" where
  "node_byte D nd i =
     D (unat (node_block D nd (of_nat (i div unat (block_size nd)))) * unat (block_size nd) + i mod unat (block_size nd))"

text \<open>
  A node the driver can read: the blocks of its size are counted in \<open>n_sectors\<close>, reached directly or
  through the first indirect block, and lie on the disk.
\<close>

definition node_ok :: "(nat \<Rightarrow> u8) \<Rightarrow> u32 \<Rightarrow> node \<Rightarrow> bool" where
  "node_ok D sz nd \<longleftrightarrow> 512 \<le> block_size nd \<and>
     (\<forall>b. unat b * unat (block_size nd) < unat (size_low (data nd)) \<longrightarrow>
        b < n_sectors (data nd) div (block_size nd div 512) \<and>
        b < 12 + block_size nd div 4 \<and>
        (12 \<le> b \<longrightarrow> (unat (indirect_1 (data nd)) + 1) * unat (block_size nd) \<le> unat sz) \<and>
        (unat (node_block D nd b) + 1) * unat (block_size nd) \<le> unat sz)"

lemma chunk_cong: "(\<And>j. j < n \<Longrightarrow> c (i + j) = d (k + j)) \<Longrightarrow> chunk c i n = chunk d k n"
  by (rule nth_equalityI) (auto simp: chunk_def)

lemma node_byte_block:
  assumes "0 < block_size nd"
  shows "chunk (node_byte D nd) (unat b * unat (block_size nd)) (unat (block_size nd)) =
    chunk D (unat (node_block D nd b) * unat (block_size nd)) (unat (block_size nd))"
  using assms by (intro chunk_cong) (simp add: node_byte_def word_gt_0 unat_gt_0)

lemma le32_chunk: "i + 4 \<le> n \<Longrightarrow> le32 (chunk c k n) i = le32_at c (k + i)"
  by (simp add: le32_def le32_at_def chunk_def add.assoc)

definition le16_at :: "(nat \<Rightarrow> u8) \<Rightarrow> nat \<Rightarrow> u16" where
  "le16_at c i = ucast (c i) OR push_bit 8 (ucast (c (i + 1)))"

lemma le16_chunk: "i + 2 \<le> n \<Longrightarrow> le16 (chunk c k n) i = le16_at c (k + i)"
  by (simp add: le16_def le16_at_def chunk_def add.assoc)

lemma unat_mult_le: "unat (x :: u32) * unat y \<le> unat (z :: u32) \<Longrightarrow> unat (x * y) = unat x * unat y"
  by (rule unat_mult_lem [THEN iffD1]) (use unat_bound [of z] in simp)

lemma unat_add_le: "unat (x :: u32) + unat y \<le> unat (z :: u32) \<Longrightarrow> unat (x + y) = unat x + unat y"
  by (rule unat_add_lem [THEN iffD1]) (use unat_bound [of z] in simp)

context disk
begin

lemma read_block_gives:
  assumes ok: "node_ok D sz nd" and b: "unat b * unat (block_size nd) < unat (size_low (data nd))"
  shows "gives I (node_read_block rd nd b) (chunk (node_byte D nd) (unat b * unat (block_size nd)) (unat (block_size nd)))"
proof -
  let ?bs = "block_size nd" and ?p = "node_block D nd b"
  from ok b have bs: "512 \<le> ?bs" and sec: "b < n_sectors (data nd) div (?bs div 512)" and ind: "b < 12 + ?bs div 4"
    and i1: "12 \<le> b \<Longrightarrow> (unat (indirect_1 (data nd)) + 1) * unat ?bs \<le> unat sz"
    and pt: "(unat ?p + 1) * unat ?bs \<le> unat sz"
    unfolding node_ok_def by blast+
  have b0: "?bs div 512 \<noteq> 0"
  proof -
    have "512 \<le> unat ?bs" using bs by (simp add: word_le_nat_alt)
    then have "unat (?bs div 512) \<noteq> 0" by (simp add: unat_div div_eq_0_iff)
    then show ?thesis by auto
  qed
  have bp: "0 < ?bs" using bs by (simp add: word_le_nat_alt word_less_nat_alt)
  have idx: "gives I (if b < 12 then ret (direct (data nd) ! unat b)
      else if b < 12 + ?bs div 4 then
        sbind (bio_read_thing rd 4 (indirect_1 (data nd) * ?bs + (b - 12) * 4)) (\<lambda>xs. ret (le32 xs 0))
      else fail Panic) ?p"
  proof (cases "b < 12")
    case True
    then show ?thesis by (simp add: node_block_def gives_ret)
  next
    case False
    then have ge: "12 \<le> b" "12 \<le> unat b" by (simp_all add: word_le_nat_alt word_less_nat_alt)
    have ub: "unat (b - 12) = unat b - 12" using ge unat_sub [of 12 b] by simp
    have q4: "unat (?bs div 4) = unat ?bs div 4" by (simp add: unat_div)
    have "unat (12 + ?bs div 4) = 12 + unat ?bs div 4"
      using unat_bound [of ?bs] unat_add_lem [of 12 "?bs div 4", THEN iffD1] by (simp add: q4)
    then have lt: "unat b - 12 < unat ?bs div 4" using ind ge by (simp add: word_less_nat_alt)
    then have le: "(unat b - 12) * 4 + 4 \<le> unat ?bs" by presburger
    have u4: "unat ((b - 12) * 4) = (unat b - 12) * 4"
      using unat_mult_le [of "b - 12" 4 ?bs] le ub by simp
    have um: "unat (indirect_1 (data nd) * ?bs) = unat (indirect_1 (data nd)) * unat ?bs"
      using i1 [OF ge(1)] by (intro unat_mult_le [where z = sz]) (simp add: algebra_simps)
    have ua: "unat (indirect_1 (data nd) * ?bs + (b - 12) * 4) = unat (indirect_1 (data nd)) * unat ?bs + (unat b - 12) * 4"
      using i1 [OF ge(1)] le um u4 by (subst unat_add_le [where z = sz]) (simp_all add: algebra_simps)
    have "unat (indirect_1 (data nd)) * unat ?bs + (unat b - 12) * 4 + 4 \<le> unat sz"
      using i1 [OF ge(1)] le by (simp add: algebra_simps)
    then have "gives I (bio_read_thing rd 4 (indirect_1 (data nd) * ?bs + (b - 12) * 4))
        (chunk D (unat (indirect_1 (data nd)) * unat ?bs + (unat b - 12) * 4) 4)"
      using thing_gives [of "indirect_1 (data nd) * ?bs + (b - 12) * 4" 4] unfolding ua by simp
    from gives_bind [OF this, of "\<lambda>xs. ret (le32 xs 0)", OF gives_ret] show ?thesis
      using False ind by (simp add: node_block_def le32_chunk del: distrib_right_numeral left_diff_distrib_numeral)
  qed
  have pm: "unat (?p * ?bs) = unat ?p * unat ?bs"
    using pt by (intro unat_mult_le [where z = sz]) (simp add: algebra_simps)
  have blk: "gives I (rd (?p * ?bs) ?bs) (int (unat ?bs), chunk D (unat ?p * unat ?bs) (unat ?bs))"
    using rd_gives [of "?p * ?bs" ?bs] pt unfolding pm by (simp add: add_mult_distrib add.commute)
  show ?thesis
    unfolding node_read_block_def Let_def node_byte_block [OF bp] if_not_P [OF b0]
    by (rule gives_bind [OF gives_assert [OF sec]], rule gives_bind [OF idx], rule gives_bind [OF blk])
      (auto intro!: gives_bind gives_assert gives_ret)
qed

lemma node_holds: "node_ok D sz nd \<Longrightarrow> node.holds nd I (size_low (data nd)) (node_byte D nd)"
  unfolding node.holds_def using read_block_gives [of nd]
  by (auto simp: node_ok_def word_le_nat_alt word_less_nat_alt)

lemma node_read_all_gives:
  assumes "node_ok D sz nd" and "unat offset + unat n \<le> unat (size_low (data nd))"
  shows "gives I (node_read_all rd nd offset n) (int (unat n), chunk (node_byte D nd) (unat offset) (unat n))"
  unfolding node_read_all_def node_size_in_bytes_def by (rule node.read_all_gives [OF node_holds]) (use assms in auto)

lemma node_read_all_cut:
  assumes "node_ok D sz nd" and "unat offset \<le> unat (size_low (data nd))"
    and "m = min (unat n) (unat (size_low (data nd)) - unat offset)"
  shows "gives I (node_read_all rd nd offset n) (int m, chunk (node_byte D nd) (unat offset) m)"
  unfolding node_read_all_def node_size_in_bytes_def by (rule node.read_all_cut [OF node_holds]) (rule assms)+

lemma node_thing_gives:
  assumes "node_ok D sz nd" and "unat offset + unat n \<le> unat (size_low (data nd))"
  shows "gives I (bio_read_thing (node_read_all rd nd) n offset) (chunk (node_byte D nd) (unat offset) (unat n))"
  unfolding node_read_all_def node_size_in_bytes_def by (rule node.read_thing_gives [OF node_holds]) (use assms in auto)

end

section \<open>Strings\<close>

definition cstr :: "u8 list \<Rightarrow> u8 list" where
  "cstr xs = takeWhile (\<lambda>c. c \<noteq> 0) xs"

lemma cstr_drop: "cstr (drop i xs) = (if byte_at xs i = 0 then [] else byte_at xs i # cstr (drop (i + 1) xs))"
proof (cases "i < length xs")
  case True
  then show ?thesis using Cons_nth_drop_Suc [OF True, symmetric] by (simp add: cstr_def byte_at_def)
qed (simp add: cstr_def byte_at_def)

lemma streq_cstr: "streq a b i \<longleftrightarrow> cstr (drop i a) = cstr (drop i b)"
proof (induction a b i rule: streq.induct)
  case (1 a b i)
  then show ?case
    by (subst streq.simps) (auto simp: Let_def cstr_drop [of i a] cstr_drop [of i b])
qed

lemma k_strlen_cstr: "k_strlen xs n = n + length (cstr (drop n xs))"
proof (induction xs n rule: k_strlen.induct)
  case (1 xs n)
  then show ?case by (subst k_strlen.simps) (simp add: cstr_drop [of n])
qed

section \<open>Directories\<close>

text \<open>
  The bytes \<open>c\<close> from \<open>off\<close> to \<open>len\<close> are the entries \<open>es\<close>: the length of the entry, the number of its node, its name.
\<close>

type_synonym dirent = "nat \<times> u32 \<times> u8 list"

fun dir_at :: "(nat \<Rightarrow> u8) \<Rightarrow> nat \<Rightarrow> nat \<Rightarrow> dirent list \<Rightarrow> bool" where
  "dir_at c len off [] \<longleftrightarrow> off = len"
| "dir_at c len off ((tot, ino, name) # es) \<longleftrightarrow>
     ino = le32_at c off \<and> tot = unat (le16_at c (off + 4)) \<and> name = chunk c (off + 8) (unat (c (off + 6))) \<and>
     8 + length name \<le> tot \<and> off + tot \<le> len \<and> dir_at c len (off + tot) es"

definition dir_of :: "(nat \<Rightarrow> u8) \<Rightarrow> u32 \<Rightarrow> node \<Rightarrow> dirent list \<Rightarrow> bool" where
  "dir_of D sz nd es \<longleftrightarrow> node_ok D sz nd \<and> is_dir (data nd) \<and> dir_at (node_byte D nd) (unat (size_low (data nd))) 0 es"

text \<open>The node of the last entry with a name, 0 if there is none.\<close>

definition dir_lookup :: "dirent list \<Rightarrow> u8 list \<Rightarrow> u32" where
  "dir_lookup es name = (case List.find (\<lambda>(_, _, nm). cstr nm = cstr name) (rev es) of None \<Rightarrow> 0 | Some (_, ino, _) \<Rightarrow> ino)"

lemma dir_lookup_snoc:
  "dir_lookup (es @ [(t, ino, nm)]) name = (if cstr nm = cstr name then ino else dir_lookup es name)"
  by (simp add: dir_lookup_def)

lemma dir_lookup_fold:
  "fold (\<lambda>(_, ino, nm) out. if streq name nm 0 then ino else out) es 0 = dir_lookup es name"
proof (induction es rule: rev_induct)
  case Nil
  then show ?case by (simp add: dir_lookup_def)
next
  case (snoc e es)
  then show ?case by (cases e) (auto simp: dir_lookup_snoc streq_cstr)
qed

lemma fold_count: "fold (\<lambda>_ count. count + 1) es (k :: u32) = k + of_nat (length es)"
  by (induction es arbitrary: k) auto

context disk
begin

lemma entries_loop_gives:
  assumes ok: "node_ok D sz nd"
  shows "dir_at (node_byte D nd) (unat (size_low (data nd))) (unat offset) es \<Longrightarrow>
    unat (size_low (data nd)) < fuel + unat offset \<Longrightarrow>
    gives I (entries_loop fuel rd nd work offset acc) (fold (\<lambda>(_, ino, name) acc. work acc ino name) es acc)"
proof (induction es arbitrary: fuel offset acc)
  case Nil
  then obtain f where "fuel = Suc f" by (cases fuel) auto
  then show ?case using Nil by (auto simp: word_less_nat_alt intro: gives_ret)
next
  case (Cons e es)
  obtain tot ino name where e: "e = (tot, ino, name)" by (cases e)
  let ?c = "node_byte D nd" and ?size = "size_low (data nd)"
  from Cons.prems(1) [unfolded e dir_at.simps] have d: "ino = le32_at ?c (unat offset)" "tot = unat (le16_at ?c (unat offset + 4))"
    "name = chunk ?c (unat offset + 8) (unat (?c (unat offset + 6)))" "8 + length name \<le> tot"
    "unat offset + tot \<le> unat ?size" "dir_at ?c (unat ?size) (unat offset + tot) es"
    by blast+
  let ?nl = "?c (unat offset + 6)"
  have nl: "length name = unat ?nl" using d(3) by simp
  have fits: "unat offset + 8 + unat ?nl \<le> unat ?size" using d(4,5) nl by linarith
  have u: "unat (offset + k) = unat offset + unat k" if "unat k \<le> 8" for k :: u32
    using fits that by (intro unat_add_le [where z = ?size]) linarith
  have u4: "unat (offset + 4) = unat offset + 4" and u6: "unat (offset + 6) = unat offset + 6"
    and u8: "unat (offset + 8) = unat offset + 8" using u [of 4] u [of 6] u [of 8] by simp_all
  obtain f where f: "fuel = Suc f" using Cons.prems(2) d(4,5) by (cases fuel) auto
  have lt: "offset < ?size" using fits by (simp add: word_less_nat_alt)
  have r1: "gives I (bio_read_thing (node_read_all rd nd) 4 offset) (chunk ?c (unat offset) 4)"
    using node_thing_gives [OF ok, of offset 4] fits by simp
  have r2: "gives I (bio_read_thing (node_read_all rd nd) 2 (offset + 4)) (chunk ?c (unat offset + 4) 2)"
    using node_thing_gives [OF ok, of "offset + 4" 2] fits by (simp add: u4)
  have r3: "gives I (bio_read_thing (node_read_all rd nd) 1 (offset + 6)) (chunk ?c (unat offset + 6) 1)"
    using node_thing_gives [OF ok, of "offset + 6" 1] fits by (simp add: u6)
  have r4: "gives I (node_read_all rd nd (offset + 8) (ucast ?nl)) (uint ?nl, name)"
    using node_read_all_gives [OF ok, of "offset + 8" "ucast ?nl"] fits by (simp add: u8 d(3) unat_up)
  have len: "chunk ?c (unat offset + 6) 1 ! 0 = ?nl" by (simp add: chunk_def)
  have tu: "unat (ucast (le16_at ?c (unat offset + 4)) :: u32) = tot"
    using d(2) by (simp add: unat_up)
  have nx: "unat (offset + ucast (le16_at ?c (unat offset + 4))) = unat offset + tot"
    using d(5) tu by (subst unat_add_le [where z = ?size]) simp_all
  have rest: "gives I (entries_loop f rd nd work (offset + ucast (le16_at ?c (unat offset + 4))) (work acc ino name))
      (fold (\<lambda>(_, ino, name) acc. work acc ino name) es (work acc ino name))"
    by (rule Cons.IH) (use d(4,6) Cons.prems(2) f nx in auto)
  show ?case
    unfolding f entries_loop.simps if_P [OF lt]
    by (rule gives_bind [OF r1], rule gives_bind [OF r2], rule gives_bind [OF r3], unfold len, rule gives_bind [OF r4],
        unfold prod.case, rule gives_bind [OF gives_assert], simp)
      (use rest d(1) in \<open>simp add: e le16_chunk le32_chunk\<close>)
qed

lemma entries_gives:
  assumes "dir_of D sz nd es"
  shows "gives I (entries rd nd work acc) (fold (\<lambda>(_, ino, name) acc. work acc ino name) es acc)"
  unfolding entries_def
  by (rule gives_bind [OF gives_assert]) (use assms entries_loop_gives [of nd 0 es "unat (size_low (data nd)) + 1" work acc] in \<open>auto simp: dir_of_def simp del: entries_loop.simps\<close>)

lemma node_find_gives:
  assumes "dir_of D sz nd es"
  shows "gives I (node_find rd nd name) (dir_lookup es name)"
  unfolding node_find_def dir_lookup_fold [symmetric]
  using entries_gives [OF assms, of "\<lambda>out num nm. if streq name nm 0 then num else out" 0] .

lemma entry_count_gives:
  assumes "dir_of D sz nd es"
  shows "gives I (entry_count rd nd) (of_nat (length es))"
proof -
  have "fold (\<lambda>(_, ino, name) acc. acc + 1) es (0 :: u32) = of_nat (length es)"
    using fold_count [of es 0] by (simp add: split_def)
  moreover have "gives I (entries rd nd (\<lambda>count _ _. count + 1) 0) (fold (\<lambda>(_, ino, name) acc. acc + 1) es (0 :: u32))"
    by (rule entries_gives [OF assms])
  ultimately show ?thesis
    unfolding entry_count_def using assms by (auto simp: dir_of_def intro!: gives_bind gives_assert)
qed

end

section \<open>Files and directories on the drive\<close>

text \<open>
  C24. On a drive that follows the protocol, \<^verbatim>\<open>read_all\<close> of a node whose blocks lie on the disk returns
  exactly the bytes of the range, taken from the direct blocks and the blocks of the first indirect
  block, cut at the size of the file; the count is the number of these bytes, and nothing fails.
\<close>

theorem node_read_all_correct:
  assumes "ata_drive P drive D idle transfer" and "0 < polls" and "idle (dev s)"
    and "node_ok D ide_size_in_bytes nd" and "unat offset \<le> unat (size_low (data nd))"
  shows "\<exists>s' m. m = min (unat n) (unat (size_low (data nd)) - unat offset) \<and>
    node_read_all (ide_read_all polls P drive) nd offset n s =
      Inr ((int m, map (node_byte D nd) [unat offset..<unat offset + m]), s') \<and> idle (dev s')"
  using ide_disk.node_read_all_cut [OF assms(4,5) refl, of P drive idle transfer polls n] assms(1-3)
  by (auto simp: gives_def chunk_def)

text \<open>
  C25. In a directory whose bytes are a list of entries, \<^verbatim>\<open>find\<close> returns the node of the last entry with the
  name, compared as zero-terminated strings, and 0 when there is none; \<^verbatim>\<open>entry_count\<close> returns the number
  of entries. The loop over the entries ends, and no assertion fails.
\<close>

theorem node_find_correct:
  assumes "ata_drive P drive D idle transfer" and "0 < polls" and "idle (dev s)"
    and "dir_of D ide_size_in_bytes nd es"
  shows "(\<exists>s'. node_find (ide_read_all polls P drive) nd name s = Inr (dir_lookup es name, s') \<and> idle (dev s')) \<and>
    (\<exists>s'. entry_count (ide_read_all polls P drive) nd s = Inr (of_nat (length es), s') \<and> idle (dev s'))"
  using ide_disk.node_find_gives [OF assms(4), of P drive idle transfer polls name]
    ide_disk.entry_count_gives [OF assms(4), of P drive idle transfer polls] assms(1-3)
  by (auto simp: gives_def)

text \<open>A disk whose third block holds the directory entries \<open>.\<close> and \<open>a\<close>.\<close>

definition sample_disk :: "nat \<Rightarrow> u8" where
  "sample_disk i =
     (let xs = [2, 0, 0, 0, 12, 0, 1, 2, 46, 0, 0, 0, 5, 0, 0, 0, 12, 0, 1, 1, 97, 0, 0, 0] :: u8 list
      in if 2048 \<le> i \<and> i < 2072 then xs ! (i - 2048) else 0)"

definition sample_dir :: node where
  "sample_dir = node_new 2 1024 \<lparr>mode = 0x41ED, uid = 0, size_low = 24, atime = 0, ctime = 0, mtime = 0, dtime = 0,
     gid = 0, n_links = 2, n_sectors = 2, flags = 0, os1 = 0, direct = 2 # replicate 11 0,
     indirect_1 = 0, indirect_2 = 0, indirect_3 = 0, gen = 0, fragment = 0\<rparr>"

definition sample_state :: "sim ide_st" where
  "sample_state = \<lparr>nRead = 0, dev = \<lparr>sim_r3 = 0, sim_r4 = 0, sim_r5 = 0, sim_r6 = 0, sim_pos = None\<rparr>\<rparr>"

lemma sample_ok: "node_ok sample_disk ide_size_in_bytes sample_dir"
proof -
  have sz: "unat ide_size_in_bytes = 2 ^ 32 - 1"
    by (simp add: ide_size_in_bytes_def unsigned_minus_1_eq_mask mask_eq_exp_minus_1)
  have b: "unat b * unat (block_size sample_dir) < unat (size_low (data sample_dir)) \<longleftrightarrow> b = 0" for b
    using unat_gt_0 [of b] by (cases "b = 0") (auto simp: sample_dir_def node_new_def)
  show ?thesis unfolding node_ok_def b by (simp add: sample_dir_def node_new_def node_block_def sz)
qed

lemma sample_bytes: "i < 24 \<Longrightarrow> node_byte sample_disk sample_dir i = sample_disk (2048 + i)"
  by (simp add: node_byte_def node_block_def sample_dir_def node_new_def)

lemma sample_entries: "dir_of sample_disk ide_size_in_bytes sample_dir [(12, 2, [46]), (12, 5, [97])]"
proof -
  have d: "is_dir (data sample_dir)" by (simp add: is_dir_def get_type_def sample_dir_def node_new_def)
  have s: "unat (size_low (data sample_dir)) = 24" by (simp add: sample_dir_def node_new_def)
  have "dir_at (node_byte sample_disk sample_dir) 24 0 [(12, 2, [46]), (12, 5, [97])]"
    by (simp add: le32_at_def le16_at_def chunk_def sample_bytes sample_disk_def upt_rec)
  then show ?thesis unfolding dir_of_def s using sample_ok d by blast
qed

theorem node_read_all_correct_witness:
  "\<exists>s'. node_read_all (ide_read_all 1 (sim_pio sample_disk) 0) sample_dir 18 100 sample_state =
     Inr ((6, [1, 1, 97, 0, 0, 0]), s')"
proof -
  have s: "unat (size_low (data sample_dir)) = 24" by (simp add: sample_dir_def node_new_def)
  have "map (node_byte sample_disk sample_dir) [18..<24] = [1, 1, 97, 0, 0, 0]"
    by (simp add: upt_rec sample_bytes sample_disk_def)
  then show ?thesis
    using node_read_all_correct [OF sim_drive _ _ sample_ok, of 1 sample_state 18 100]
    by (auto simp: s sample_state_def)
qed

theorem node_find_correct_witness:
  "\<exists>s'. node_find (ide_read_all 1 (sim_pio sample_disk) 0) sample_dir [97, 0, 3] sample_state = Inr (5, s')"
proof -
  have "dir_lookup [(12, 2, [46]), (12, 5, [97])] [97, 0, 3] = 5" by (simp add: dir_lookup_def cstr_def)
  then show ?thesis
    using node_find_correct [OF sim_drive _ _ sample_entries, of 1 sample_state "[97, 0, 3]"]
    by (auto simp: sample_state_def)
qed

end
