(* ===== verification/Ext2_Paths.thy ===== *)
theory Ext2_Paths
  imports Ext2_Props
begin

text \<open>
  \<^verbatim>\<open>Ext2::find\<close>: the node a path leads to. A path is the list of its components; following them from
  directory to directory is the relation \<open>walks\<close>.
\<close>

section \<open>Components of a path\<close>

text \<open>The non-empty parts between slashes.\<close>

function components :: "u8 list \<Rightarrow> u8 list list" where
  "components p =
     (let q = dropWhile (\<lambda>c. c = SLASH) p
      in if q = [] then []
         else takeWhile (\<lambda>c. c \<noteq> SLASH) q # components (dropWhile (\<lambda>c. c \<noteq> SLASH) q))"
  by auto
termination
proof (relation "measure length")
  fix p q :: "u8 list"
  assume q: "q = dropWhile (\<lambda>c. c = SLASH) p" and "q \<noteq> []"
  then have "hd q \<noteq> SLASH" using hd_dropWhile [of "\<lambda>c. c = SLASH" p] by simp
  then obtain c cs where "q = c # cs" "c \<noteq> SLASH" using \<open>q \<noteq> []\<close> by (cases q) auto
  then have "length (dropWhile (\<lambda>c. c \<noteq> SLASH) q) < length q"
    using length_dropWhile_le [of "\<lambda>c. c \<noteq> SLASH" cs] by simp
  then show "(dropWhile (\<lambda>c. c \<noteq> SLASH) q, p) \<in> measure length"
    using length_dropWhile_le [of "\<lambda>c. c = SLASH" p] q by simp
qed simp

declare components.simps [simp del]

lemma components_Nil [simp]: "components [] = []"
  by (simp add: components.simps)

lemma byte_at_drop: "byte_at path i = (case drop i path of [] \<Rightarrow> 0 | c # cs \<Rightarrow> c)"
  by (cases "i < length path") (auto simp: byte_at_def Cons_nth_drop_Suc [symmetric] split: list.split)

lemma drop_Suc_tl: "drop (Suc i) xs = tl (drop i xs)"
  by (simp add: drop_Suc tl_drop)

lemma skip_slashes_drop: "drop (skip_slashes path idx) path = dropWhile (\<lambda>c. c = SLASH) (drop idx path)"
proof (induction path idx rule: skip_slashes.induct)
  case (1 path idx)
  then show ?case
    by (subst skip_slashes.simps) (auto simp: byte_at_drop drop_Suc_tl split: list.split)
qed

lemma get_part_drop:
  assumes "0 \<notin> set (drop idx path)" and "length part + length (takeWhile (\<lambda>c. c \<noteq> SLASH) (drop idx path)) \<le> 256"
  shows "\<exists>idx'. get_part path idx part = Inr (part @ takeWhile (\<lambda>c. c \<noteq> SLASH) (drop idx path), idx') \<and>
    drop idx' path = dropWhile (\<lambda>c. c \<noteq> SLASH) (drop idx path) \<and>
    idx' = idx + length (takeWhile (\<lambda>c. c \<noteq> SLASH) (drop idx path))"
  using assms
proof (induction path idx part rule: get_part.induct)
  case (1 path idx part)
  show ?case
  proof (cases "drop idx path")
    case Nil
    then show ?thesis by (subst get_part.simps) (simp add: byte_at_drop)
  next
    case (Cons c cs)
    then have d: "drop (Suc idx) path = cs" by (simp add: drop_Suc_tl)
    show ?thesis
    proof (cases "c = SLASH")
      case True
      then show ?thesis using Cons by (subst get_part.simps) (simp add: byte_at_drop)
    next
      case False
      then have c: "c \<noteq> 0" "length part < 256" using 1(2,3) Cons by auto
      have "\<exists>idx'. get_part path (idx + 1) (part @ [c]) = Inr ((part @ [c]) @ takeWhile (\<lambda>c. c \<noteq> SLASH) cs, idx') \<and>
          drop idx' path = dropWhile (\<lambda>c. c \<noteq> SLASH) cs \<and> idx' = idx + 1 + length (takeWhile (\<lambda>c. c \<noteq> SLASH) cs)"
        using 1(1) [of c] 1(2,3) Cons False c d by (auto simp: byte_at_drop)
      then show ?thesis using False c Cons by (subst get_part.simps) (simp add: byte_at_drop)
    qed
  qed
qed

lemma components_step:
  assumes "0 \<notin> set (drop idx path)" and "components (drop idx path) = x # xs" and "length x \<le> 256"
  shows "byte_at path (skip_slashes path idx) \<noteq> 0 \<and>
    (\<exists>idx'. get_part path (skip_slashes path idx) [] = Inr (x, idx') \<and> components (drop idx' path) = xs \<and>
      idx < idx' \<and> idx' \<le> length path)"
proof -
  let ?q = "dropWhile (\<lambda>c. c = SLASH) (drop idx path)"
  have q: "drop (skip_slashes path idx) path = ?q" by (rule skip_slashes_drop)
  have ne: "?q \<noteq> []" and x: "x = takeWhile (\<lambda>c. c \<noteq> SLASH) ?q" and xs: "xs = components (dropWhile (\<lambda>c. c \<noteq> SLASH) ?q)"
    using assms(2) by (auto simp: components.simps [of "drop idx path"] Let_def split: if_splits)
  have sub: "set ?q \<subseteq> set (drop idx path)" by (auto dest: set_dropWhileD)
  have hd: "hd ?q \<noteq> SLASH" using hd_dropWhile [OF ne] by simp
  have ge: "idx \<le> skip_slashes path idx" for idx path
  proof (induction path idx rule: skip_slashes.induct)
    case (1 path idx)
    then show ?case by (subst skip_slashes.simps) auto
  qed
  obtain idx' where idx': "get_part path (skip_slashes path idx) [] = Inr (x, idx')"
      "drop idx' path = dropWhile (\<lambda>c. c \<noteq> SLASH) ?q" "idx' = skip_slashes path idx + length x"
    using get_part_drop [of "skip_slashes path idx" path "[]"] assms(1,3) sub unfolding q x by auto
  have len: "skip_slashes path idx < length path" using ne q by (metis drop_eq_Nil not_le)
  have "0 < length x" using hd ne unfolding x by (cases ?q) auto
  moreover have "length x \<le> length ?q" unfolding x by (rule length_takeWhile_le)
  moreover have "length ?q = length path - skip_slashes path idx" using q by (metis length_drop)
  ultimately have "idx < idx'" "idx' \<le> length path"
    unfolding idx'(3) using ge [of idx path] len by linarith+
  moreover have "byte_at path (skip_slashes path idx) \<noteq> 0"
    using ne sub assms(1) q by (cases ?q) (auto simp: byte_at_drop)
  ultimately show ?thesis using idx' xs by auto
qed

section \<open>Nodes by number\<close>

definition inode_offset :: "ext2 \<Rightarrow> u32 \<Rightarrow> nat" where
  "inode_offset F ino =
     unat (iNodeTables F ! (unat (ino - 1) div unat (iNodesPerGroup F))) * unat (blockSize F)
     + unat (ino - 1) mod unat (iNodesPerGroup F) * unat (iNodeSize F)"

text \<open>The number is one of the file system and its inode lies on the disk.\<close>

definition inode_ok :: "u32 \<Rightarrow> ext2 \<Rightarrow> u32 \<Rightarrow> bool" where
  "inode_ok sz F ino \<longleftrightarrow> 0 < ino \<and> ino \<le> numberOfNodes F \<and> iNodesPerGroup F \<noteq> 0 \<and>
     (ino - 1) div iNodesPerGroup F < nGroups F \<and>
     iNodeTables F ! (unat (ino - 1) div unat (iNodesPerGroup F)) \<le> numberOfBlocks F \<and>
     inode_offset F ino + 128 \<le> unat sz"

definition node_at :: "(nat \<Rightarrow> u8) \<Rightarrow> ext2 \<Rightarrow> u32 \<Rightarrow> node" where
  "node_at D F ino = node_new ino (blockSize F) (parse_node_data (chunk D (inode_offset F ino) 128))"

context disk
begin

lemma get_node_gives:
  assumes ok: "inode_ok sz F ino"
  shows "gives I (get_node rd F ino) (node_at D F ino)"
proof -
  let ?base = "iNodeTables F ! (unat (ino - 1) div unat (iNodesPerGroup F))"
  let ?in = "(ino - 1) mod iNodesPerGroup F"
  have bound: "unat ?base * unat (blockSize F) + unat ?in * unat (iNodeSize F) + 128 \<le> unat sz"
    using ok by (simp add: inode_ok_def inode_offset_def unat_mod)
  have m1: "unat (?base * blockSize F) = unat ?base * unat (blockSize F)"
    and m2: "unat (?in * iNodeSize F) = unat ?in * unat (iNodeSize F)"
    using bound by (intro unat_mult_le [where z = sz], linarith)+
  have off: "unat (?base * blockSize F + ?in * iNodeSize F) = inode_offset F ino"
    using bound by (subst unat_add_le [where z = sz]) (simp_all add: m1 m2 inode_offset_def unat_mod)
  have rd: "gives I (bio_read_thing rd sizeof_node_data (?base * blockSize F + ?in * iNodeSize F)) (chunk D (inode_offset F ino) 128)"
    using thing_gives [of "?base * blockSize F + ?in * iNodeSize F" 128] ok unfolding off
    by (simp add: sizeof_node_data_def inode_ok_def)
  show ?thesis
    unfolding get_node_def Let_def node_at_def
    by (rule gives_bind [OF gives_assert], use ok in \<open>simp add: inode_ok_def\<close>)+
      (use ok in \<open>auto simp: inode_ok_def unat_div intro!: gives_bind [OF gives_assert] gives_bind [OF rd] gives_ret\<close>)
qed

end

section \<open>Following a path\<close>

text \<open>
  From a directory along components: nothing left; no entry; a symbolic link, which ends the walk
  with the components that are left; a node from which the walk goes on.
\<close>

inductive walks :: "(nat \<Rightarrow> u8) \<Rightarrow> u32 \<Rightarrow> ext2 \<Rightarrow> node \<Rightarrow> u8 list list \<Rightarrow> (node \<times> u8 list list) option \<Rightarrow> bool"
  for D :: "nat \<Rightarrow> u8" and sz :: u32 and F :: ext2 where
  here: "walks D sz F nd [] (Some (nd, []))"
| missing: "dir_of D sz nd es \<Longrightarrow> dir_lookup es x = 0 \<Longrightarrow> walks D sz F nd (x # xs) None"
| symlink: "dir_of D sz nd es \<Longrightarrow> dir_lookup es x = ino \<Longrightarrow> inode_ok sz F ino \<Longrightarrow>
    is_symlink (data (node_at D F ino)) \<Longrightarrow> walks D sz F nd (x # xs) (Some (node_at D F ino, xs))"
| forth: "dir_of D sz nd es \<Longrightarrow> dir_lookup es x = ino \<Longrightarrow> inode_ok sz F ino \<Longrightarrow>
    \<not> is_symlink (data (node_at D F ino)) \<Longrightarrow> walks D sz F (node_at D F ino) xs r \<Longrightarrow> walks D sz F nd (x # xs) r"

text \<open>What \<^verbatim>\<open>find\<close> returns for the result of a walk: the node, with the rest of the path in a symbolic link.\<close>

definition found :: "node option \<Rightarrow> (node \<times> u8 list list) option \<Rightarrow> bool" where
  "found r w \<longleftrightarrow>
     (case w of None \<Rightarrow> r = None
      | Some (nd, rest) \<Rightarrow> \<exists>i p. r = Some (nd\<lparr>n_index := i, my_path := p\<rparr>) \<and> components p = rest)"

lemma components_empty:
  assumes "components (drop idx path) = []"
  shows "byte_at path (skip_slashes path idx) = 0"
proof -
  have "dropWhile (\<lambda>c. c = SLASH) (drop idx path) = []"
    using assms by (auto simp: components.simps [of "drop idx path"] Let_def split: if_splits)
  then show ?thesis using skip_slashes_drop [of path idx] by (simp only: byte_at_drop list.case)
qed

lemma whole_strlen: "0 \<notin> set path \<Longrightarrow> take (k_strlen path 0 - i) (drop i path) = drop i path"
proof -
  assume "0 \<notin> set path"
  then have "cstr path = path" by (auto simp: cstr_def takeWhile_eq_all_conv)
  then show ?thesis by (simp add: k_strlen_cstr)
qed

lemma found_None [intro]: "found None None"
  by (simp add: found_def)

lemma found_Some: "components p = rest \<Longrightarrow> found (Some (nd\<lparr>n_index := i, my_path := p\<rparr>)) (Some (nd, rest))"
  by (auto simp: found_def)

lemma found_same: "components (my_path nd) = rest \<Longrightarrow> found (Some nd) (Some (nd, rest))"
  using found_Some [where nd = nd and i = "n_index nd" and p = "my_path nd" and rest = rest] by simp

text \<open>One turn of \<^verbatim>\<open>find\<close> for a component.\<close>

lemma find_loop_component:
  assumes "components (drop idx path) = x # xs" and "length x \<le> 256" and "0 \<notin> set path"
  shows "\<exists>idx'. idx < idx' \<and> idx' \<le> length path \<and> components (drop idx' path) = xs \<and>
    (\<forall>k nd. find_loop (Suc k) rd F path idx (Some nd) =
      sbind (node_find rd nd x) (\<lambda>num. if num = 0 then ret None else
        sbind (get_node rd F num) (\<lambda>nd. if is_symlink (data nd) then
          ret (Some (nd\<lparr>n_index := idx', my_path := drop idx' path\<rparr>))
        else find_loop k rd F path idx' (Some nd))))"
proof -
  have "0 \<notin> set (drop idx path)" using assms(3) by (meson in_set_dropD)
  from components_step [OF this assms(1,2)] obtain idx' where
    "byte_at path (skip_slashes path idx) \<noteq> 0" "get_part path (skip_slashes path idx) [] = Inr (x, idx')"
    "components (drop idx' path) = xs" "idx < idx'" "idx' \<le> length path" by blast
  then show ?thesis by (intro exI [of _ idx']) (simp add: Let_def whole_strlen [OF assms(3)] cong: if_cong)
qed

lemma node_at_path: "my_path (node_at D F ino) = []"
  by (simp add: node_at_def node_new_def)

context disk
begin

lemma find_loop_gives:
  assumes "walks D sz F nd xs w"
  shows "components (drop idx path) = xs \<Longrightarrow> \<forall>x \<in> set xs. length x \<le> 256 \<Longrightarrow> 0 \<notin> set path \<Longrightarrow>
    components (my_path nd) = [] \<Longrightarrow> length path < fuel + idx \<Longrightarrow> idx \<le> length path \<Longrightarrow>
    \<exists>r. gives I (find_loop fuel rd F path idx (Some nd)) r \<and> found r w"
  using assms
proof (induction arbitrary: fuel idx rule: walks.induct)
  case (here nd)
  then obtain f where f: "fuel = Suc f" by (cases fuel) auto
  have "find_loop fuel rd F path idx (Some nd) = ret (Some nd)"
    using components_empty [OF here(1)] by (simp add: f Let_def)
  then show ?case using found_same [OF here(4)] by auto
next
  case (missing nd es x xs)
  then obtain f where f: "fuel = Suc f" by (cases fuel) auto
  obtain idx' where step: "\<forall>k nd. find_loop (Suc k) rd F path idx (Some nd) =
      sbind (node_find rd nd x) (\<lambda>num. if num = 0 then ret None else
        sbind (get_node rd F num) (\<lambda>nd. if is_symlink (data nd) then
          ret (Some (nd\<lparr>n_index := idx', my_path := drop idx' path\<rparr>))
        else find_loop k rd F path idx' (Some nd)))"
    using find_loop_component [OF missing(3) _ missing(5), of rd F] missing(4) by auto
  have "gives I (find_loop fuel rd F path idx (Some nd)) None"
    unfolding f step [rule_format] by (rule gives_bind [OF node_find_gives [OF missing(1)]]) (simp add: missing(2) gives_ret)
  then show ?case by auto
next
  case (symlink nd es x ino xs)
  then obtain f where f: "fuel = Suc f" by (cases fuel) auto
  have ino: "ino \<noteq> 0" using symlink(3) by (auto simp: inode_ok_def)
  obtain idx' where idx': "components (drop idx' path) = xs" and step: "\<forall>k nd. find_loop (Suc k) rd F path idx (Some nd) =
      sbind (node_find rd nd x) (\<lambda>num. if num = 0 then ret None else
        sbind (get_node rd F num) (\<lambda>nd. if is_symlink (data nd) then
          ret (Some (nd\<lparr>n_index := idx', my_path := drop idx' path\<rparr>))
        else find_loop k rd F path idx' (Some nd)))"
    using find_loop_component [OF symlink(5) _ symlink(7), of rd F] symlink(6) by auto
  have "gives I (find_loop fuel rd F path idx (Some nd)) (Some (node_at D F ino\<lparr>n_index := idx', my_path := drop idx' path\<rparr>))"
    unfolding f step [rule_format]
    by (rule gives_bind [OF node_find_gives [OF symlink(1)]], unfold symlink(2) if_not_P [OF ino],
        rule gives_bind [OF get_node_gives [OF symlink(3)]]) (simp add: symlink(4) gives_ret)
  then show ?case using found_Some [OF idx', where nd = "node_at D F ino" and i = idx'] by blast
next
  case (forth nd es x ino xs r)
  then obtain f where f: "fuel = Suc f" by (cases fuel) auto
  have ino: "ino \<noteq> 0" using forth(3) by (auto simp: inode_ok_def)
  obtain idx' where idx': "components (drop idx' path) = xs" "idx < idx'" "idx' \<le> length path"
    and step: "\<forall>k nd. find_loop (Suc k) rd F path idx (Some nd) =
      sbind (node_find rd nd x) (\<lambda>num. if num = 0 then ret None else
        sbind (get_node rd F num) (\<lambda>nd. if is_symlink (data nd) then
          ret (Some (nd\<lparr>n_index := idx', my_path := drop idx' path\<rparr>))
        else find_loop k rd F path idx' (Some nd)))"
    using find_loop_component [OF forth(7) _ forth(9), of rd F] forth(8) by auto
  have "\<exists>r'. gives I (find_loop f rd F path idx' (Some (node_at D F ino))) r' \<and> found r' r"
    by (rule forth.IH) (use idx' forth(8,9,11) f in \<open>auto simp: node_at_path\<close>)
  then obtain r' where r': "gives I (find_loop f rd F path idx' (Some (node_at D F ino))) r'" "found r' r" by blast
  have "gives I (find_loop fuel rd F path idx (Some nd)) r'"
    unfolding f step [rule_format]
    by (rule gives_bind [OF node_find_gives [OF forth(1)]], unfold forth(2) if_not_P [OF ino],
        rule gives_bind [OF get_node_gives [OF forth(3)]]) (simp add: forth(4) r'(1))
  then show ?case using r'(2) by blast
qed

lemma find_gives:
  assumes "walks D sz F nd (components path) w" and "\<forall>x \<in> set (components path). length x \<le> 256" and "0 \<notin> set path"
    and "components (my_path nd) = []"
  shows "\<exists>r. gives I (ext2_find rd F (Some nd) path) r \<and> found r w"
  unfolding ext2_find_def using find_loop_gives [OF assms(1), of 0 path "length path + 1"] assms(2-4) by simp

end

text \<open>
  C26. Looking a path up returns what following its components from directory to directory leads to:
  the node, nothing when a component has no entry, and at a symbolic link the node of the link with
  the rest of the path, however many slashes the path has. Nothing fails, and the loops end.
\<close>

theorem ext2_find_correct:
  assumes "ata_drive P drive D idle transfer" and "0 < polls" and "idle (dev s)"
    and "walks D ide_size_in_bytes F nd (components path) w" and "components (my_path nd) = []"
    and "\<forall>x \<in> set (components path). length x \<le> 256" and "0 \<notin> set path"
  shows "\<exists>r s'. ext2_find (ide_read_all polls P drive) F (Some nd) path s = Inr (r, s') \<and> found r w \<and> idle (dev s')"
  using ide_disk.find_gives [OF assms(4,6,7,5), of P drive idle transfer polls] assms(1-3)
  by (fastforce simp: gives_def)

text \<open>The path \<open>//a/\<close> from the sample directory, with the inode table at block 5.\<close>

definition sample_fs :: ext2 where
  "sample_fs = \<lparr>blockSize = 1024, numberOfNodes = 8, numberOfBlocks = 100, iNodeSize = 128, nGroups = 1,
     iNodeTables = [5], iNodesPerGroup = 8\<rparr>"

lemma sample_walk:
  "walks sample_disk ide_size_in_bytes sample_fs sample_dir [[97]] (Some (node_at sample_disk sample_fs 5, []))"
proof (rule walks.forth [OF sample_entries])
  have sz: "unat ide_size_in_bytes = 2 ^ 32 - 1"
    by (simp add: ide_size_in_bytes_def unsigned_minus_1_eq_mask mask_eq_exp_minus_1)
  have off: "inode_offset sample_fs 5 = 5632" by (simp add: inode_offset_def sample_fs_def)
  show "dir_lookup [(12, 2, [46]), (12, 5, [97])] [97] = 5" by (simp add: dir_lookup_def cstr_def)
  show "inode_ok ide_size_in_bytes sample_fs 5" by (simp add: inode_ok_def off sz) (simp add: sample_fs_def)
  have "le16 (chunk sample_disk 5632 128) 0 = 0" by (simp add: le16_chunk le16_at_def sample_disk_def)
  then show "\<not> is_symlink (data (node_at sample_disk sample_fs 5))"
    by (simp add: is_symlink_def get_type_def node_at_def node_new_def parse_node_data_def off)
qed (rule walks.here)

theorem ext2_find_correct_witness:
  "\<exists>nd s'. ext2_find (ide_read_all 1 (sim_pio sample_disk) 0) sample_fs (Some sample_dir) [47, 47, 97, 47] sample_state
     = Inr (Some nd, s') \<and> number nd = 5"
proof -
  have c: "components [47, 47, 97, 47] = [[97]]" by (simp add: components.simps)
  have w: "walks sample_disk ide_size_in_bytes sample_fs sample_dir (components [47, 47, 97, 47])
      (Some (node_at sample_disk sample_fs 5, []))" unfolding c by (rule sample_walk)
  have "components (my_path sample_dir) = []" by (simp add: sample_dir_def node_new_def)
  from ext2_find_correct [OF sim_drive _ _ w this, of 1 sample_state]
  obtain r s' where r: "ext2_find (ide_read_all 1 (sim_pio sample_disk) 0) sample_fs (Some sample_dir) [47, 47, 97, 47] sample_state
      = Inr (r, s')" "found r (Some (node_at sample_disk sample_fs 5, []))"
    by (auto simp: c sample_state_def)
  then show ?thesis by (auto simp: found_def node_at_def node_new_def)
qed

end
