(* ===== verification/Ext22.thy ===== *)
theory Ext22
  imports Ext2
begin

text \<open>
  The second file system, with caches of blocks and of nodes, \<^verbatim>\<open>kernel/Ext22.h\<close> and \<^verbatim>\<open>kernel/Ext22.cc\<close>. \<open>rd\<close> stands
  for \<^verbatim>\<open>ide->read_all\<close>. The counts it returns are ignored by the code, so a buffer keeps what is not
  overwritten; \<open>junk\<close> is what memory holds that \<^verbatim>\<open>new\<close> returns. The locks of the caches make their
  operations atomic.
\<close>

definition fresh :: "(nat \<Rightarrow> u8) \<Rightarrow> nat \<Rightarrow> u8 list" where
  "fresh junk n = map junk [0..<n]"

lemma fresh_length [simp]: "length (fresh junk n) = n"
  by (simp add: fresh_def)

text \<open>\<^verbatim>\<open>read_all\<close> into a buffer.\<close>

definition read_into :: "'s reader \<Rightarrow> u32 \<Rightarrow> u32 \<Rightarrow> u8 list \<Rightarrow> ('s, u8 list) st" where
  "read_into rd offset n buffer =
     sbind (rd offset n) (\<lambda>(cnt, xs). ret (take (length buffer) (xs @ drop (length xs) buffer)))"

section \<open>Structures on the disk\<close>

record inode2 =
  type_permissions :: u16
  user_id :: u16
  lower32_size :: u32
  last_access_time :: u32
  creation_time :: u32
  last_mod_time :: u32
  deletion_time :: u32
  group_id :: u16
  hard_link_count :: u16
  disk_sectors :: u32
  i2_flags :: u32
  operator_specific_value :: u32
  direct_pointers :: "u32 list"
  single_Node2 :: u32
  double_Node2 :: u32
  triple_Node2 :: u32
  generation_number :: u32
  some_val :: u32
  some_val2 :: u32
  block_address_fragment :: u32
  OSSV2 :: "u8 list"

definition parse_inode2 :: "u8 list \<Rightarrow> inode2" where
  "parse_inode2 xs = \<lparr>
     type_permissions = le16 xs 0, user_id = le16 xs 2, lower32_size = le32 xs 4, last_access_time = le32 xs 8,
     creation_time = le32 xs 12, last_mod_time = le32 xs 16, deletion_time = le32 xs 20, group_id = le16 xs 24,
     hard_link_count = le16 xs 26, disk_sectors = le32 xs 28, i2_flags = le32 xs 32,
     operator_specific_value = le32 xs 36, direct_pointers = map (\<lambda>i. le32 xs (40 + 4 * i)) [0..<12],
     single_Node2 = le32 xs 88, double_Node2 = le32 xs 92, triple_Node2 = le32 xs 96,
     generation_number = le32 xs 100, some_val = le32 xs 104, some_val2 = le32 xs 108,
     block_address_fragment = le32 xs 112, OSSV2 = take 12 (drop 116 xs)\<rparr>"

record super_block2 =
  number_of_iNode2s :: u32
  number_of_blocks :: u32
  number_of_blocks_for_superuser :: u32
  number_of_unallocated :: u32
  number_of_unallocated_iNode2s :: u32
  block_of_SuperBlock2 :: u32
  log2_blocksize_minus_10 :: u32
  log2_fragmentsize_minus_10 :: u32
  number_of_blocks_in_groups :: u32
  number_of_fragments_in_groups :: u32
  number_of_iNode2s_in_groups :: u32
  last_mount_time :: u32
  last_written_time :: u32
  number_of_mounts :: u16
  number_of_mounts_allowed :: u16
  Ext22_signature :: u16
  file_system_state :: u16
  what_to_do_with_error :: u16
  minor_portion_of_version :: u16
  posix_time :: u32
  interval_between_checks :: u32
  operating_system_id :: u32
  major_portion_of_version :: u32
  user_id_that_can_use :: u16
  group_id_that_can_use :: u16

definition parse_super_block2 :: "u8 list \<Rightarrow> super_block2" where
  "parse_super_block2 xs = \<lparr>
     number_of_iNode2s = le32 xs 0, number_of_blocks = le32 xs 4, number_of_blocks_for_superuser = le32 xs 8,
     number_of_unallocated = le32 xs 12, number_of_unallocated_iNode2s = le32 xs 16, block_of_SuperBlock2 = le32 xs 20,
     log2_blocksize_minus_10 = le32 xs 24, log2_fragmentsize_minus_10 = le32 xs 28,
     number_of_blocks_in_groups = le32 xs 32, number_of_fragments_in_groups = le32 xs 36,
     number_of_iNode2s_in_groups = le32 xs 40, last_mount_time = le32 xs 44, last_written_time = le32 xs 48,
     number_of_mounts = le16 xs 52, number_of_mounts_allowed = le16 xs 54, Ext22_signature = le16 xs 56,
     file_system_state = le16 xs 58, what_to_do_with_error = le16 xs 60, minor_portion_of_version = le16 xs 62,
     posix_time = le32 xs 64, interval_between_checks = le32 xs 68, operating_system_id = le32 xs 72,
     major_portion_of_version = le32 xs 76, user_id_that_can_use = le16 xs 80, group_id_that_can_use = le16 xs 82\<rparr>"

record group_block =
  block_address_of_block :: u32
  block_address_of_iNode2 :: u32
  starting_block_address_of_table :: u32
  number_of_unallocated_blocks :: u16
  number_unallocated_iNode2s :: u16
  number_of_directories :: u16

definition parse_group_block :: "u8 list \<Rightarrow> group_block" where
  "parse_group_block xs = \<lparr>
     block_address_of_block = le32 xs 0, block_address_of_iNode2 = le32 xs 4, starting_block_address_of_table = le32 xs 8,
     number_of_unallocated_blocks = le16 xs 12, number_unallocated_iNode2s = le16 xs 14, number_of_directories = le16 xs 16\<rparr>"

section \<open>The block cache\<close>

record cache_block =
  cb_number :: u32
  block_num :: u32
  cb_valid :: bool
  cb_lru :: u16
  hddBlock :: "u8 list option"

record block_cache =
  bc_lru :: u16
  bc_s :: u32
  bc_b :: u32
  bc_cache :: "cache_block list list"
  bc_block_size :: u32

text \<open>The cache and what lies behind the driver.\<close>

record 's cached =
  bcache :: block_cache
  drv :: 's

definition on_drv :: "('s, 'a) st \<Rightarrow> ('s cached, 'a) st" where
  "on_drv m = (\<lambda>st. case m (drv st) of Inl e \<Rightarrow> Inl e | Inr (x, d) \<Rightarrow> Inr (x, st\<lparr>drv := d\<rparr>))"

definition bc_new :: "u32 \<Rightarrow> u32 \<Rightarrow> u32 \<Rightarrow> block_cache" where
  "bc_new s b bs = \<lparr>bc_lru = 0, bc_s = s, bc_b = b,
     bc_cache = replicate (2 ^ unat s) (replicate (2 ^ unat b)
       \<lparr>cb_number = 0, block_num = 0, cb_valid = False, cb_lru = 0, hddBlock = None\<rparr>),
     bc_block_size = bs\<rparr>"

text \<open>Entry \<open>i\<close> of an array of block numbers.\<close>

definition word_entry :: "u8 list \<Rightarrow> u32 \<Rightarrow> u32" where
  "word_entry arr i = le32 arr (4 * unat i)"

text \<open>\<^verbatim>\<open>BlockCache::read_block\<close>: past the last branch the buffer is left as it is.\<close>

definition bc_read_block ::
  "'s reader \<Rightarrow> (nat \<Rightarrow> u8) \<Rightarrow> u32 \<Rightarrow> inode2 \<Rightarrow> u32 \<Rightarrow> u8 list \<Rightarrow> ('s, u8 list) st" where
  "bc_read_block rd junk bs caller num buffer =
     (let new_arr = fresh junk (unat (bs div 4) * 4) in
      if num < 12 then read_into rd (direct_pointers caller ! unat num * bs) bs buffer
      else if num < bs div 4 + 12 then
        sbind (read_into rd (single_Node2 caller * bs) bs new_arr) (\<lambda>arr.
        read_into rd (word_entry arr (num - 12) * bs) bs buffer)
      else if num < bs * bs div 16 + (bs div 4 + 12) then
        (let num_indexes = bs div 4; next_index = num - 12 - num_indexes in
        sbind (read_into rd (double_Node2 caller * bs) bs new_arr) (\<lambda>arr.
        sbind (read_into rd (word_entry arr (next_index div num_indexes) * bs) bs new_arr) (\<lambda>next_arr.
        read_into rd (word_entry next_arr (next_index mod num_indexes) * bs) bs buffer)))
      else if num < bs * bs * bs div 64 + 13 then
        (let num_indexes = bs div 4 in
        sbind (read_into rd (triple_Node2 caller) bs new_arr) (\<lambda>first_arr.
        sbind (read_into rd (word_entry first_arr ((num - 14) div num_indexes div num_indexes)) bs new_arr) (\<lambda>second_arr.
        sbind (read_into rd (word_entry second_arr ((num - 14) div num_indexes mod num_indexes)) bs new_arr) (\<lambda>third_arr.
        read_into rd (word_entry third_arr ((num - 14) mod num_indexes)) bs buffer))))
      else ret buffer)"

definition victim :: "cache_block list \<Rightarrow> nat \<Rightarrow> nat" where
  "victim line B =
     (case List.find (\<lambda>i. \<not> cb_valid (line ! i)) [0..<B] of
        Some i \<Rightarrow> i
      | None \<Rightarrow> fold (\<lambda>i min_index. if cb_lru (line ! i) < cb_lru (line ! min_index) then i else min_index) [1..<B] 0)"

definition set_line :: "nat \<Rightarrow> nat \<Rightarrow> cache_block \<Rightarrow> block_cache \<Rightarrow> block_cache" where
  "set_line k i cb bc = bc\<lparr>bc_cache := (bc_cache bc)[k := (bc_cache bc ! k)[i := cb]]\<rparr>"

definition bc_miss ::
  "'s reader \<Rightarrow> (nat \<Rightarrow> u8) \<Rightarrow> nat \<Rightarrow> u32 \<Rightarrow> u32 \<Rightarrow> u8 list \<Rightarrow> inode2 \<Rightarrow> ('s cached, u8 list) st" where
  "bc_miss rd junk k num numbers buffer caller st =
     (let bc = bcache st; B = 2 ^ unat (bc_b bc);
          min_index = victim (bc_cache bc ! k) B;
          curr = \<lparr>cb_number = num, block_num = numbers, cb_valid = True, cb_lru = bc_lru bc, hddBlock = None\<rparr>
      in sbind (on_drv (bc_read_block rd junk (bc_block_size bc) caller numbers buffer)) (\<lambda>buffer st.
           Inr (buffer, st\<lparr>bcache := set_line k min_index
             (curr\<lparr>hddBlock := Some (take (unat (bc_block_size bc)) buffer)\<rparr>) bc\<rparr>)) st)"

definition bc_get ::
  "'s reader \<Rightarrow> (nat \<Rightarrow> u8) \<Rightarrow> u32 \<Rightarrow> u32 \<Rightarrow> u8 list \<Rightarrow> inode2 \<Rightarrow> ('s cached, u8 list) st" where
  "bc_get rd junk numbers num buffer caller st =
     (let bc = (bcache st)\<lparr>bc_lru := bc_lru (bcache st) + 1\<rparr>;
          S = 2 ^ unat (bc_s bc); B = 2 ^ unat (bc_b bc);
          k = unat numbers mod S;
          line = bc_cache bc ! k
      in case List.find (\<lambda>i. cb_valid (line ! i) \<and> cb_number (line ! i) = num \<and> block_num (line ! i) = numbers) [0..<B] of
           Some i \<Rightarrow>
             (case hddBlock (line ! i) of
                None \<Rightarrow> Inl Undefined
              | Some blk \<Rightarrow>
                if length blk < unat (bc_block_size bc) then Inl Undefined
                else Inr (take (unat (bc_block_size bc)) blk,
                          st\<lparr>bcache := set_line k i ((line ! i)\<lparr>cb_lru := bc_lru bc\<rparr>) bc\<rparr>))
         | None \<Rightarrow> bc_miss rd junk k num numbers buffer caller (st\<lparr>bcache := bc\<rparr>))"

section \<open>Nodes\<close>

definition is_dir2 :: "inode2 \<Rightarrow> bool" where
  "is_dir2 i \<longleftrightarrow> type_permissions i AND 0xF000 = 0x4000"

definition is_file2 :: "inode2 \<Rightarrow> bool" where
  "is_file2 i \<longleftrightarrow> type_permissions i AND 0xF000 = 0x8000"

definition is_symlink2 :: "inode2 \<Rightarrow> bool" where
  "is_symlink2 i \<longleftrightarrow> type_permissions i AND 0xF000 = 0xA000"

definition size_in_bytes2 :: "inode2 \<Rightarrow> u32" where
  "size_in_bytes2 i =
     (if is_file2 i then lower32_size i
      else if is_dir2 i then lower32_size i
      else if is_symlink2 i then lower32_size i
      else 17154)"

definition get_type2 :: "inode2 \<Rightarrow> u32" where
  "get_type2 i = (if is_dir2 i then 2 else if is_file2 i then 1 else if is_symlink2 i then 7 else 0)"

text \<open>A node, with the array of the names of a directory and the cached target of a link.\<close>

record node2 =
  n2_number :: u32
  n2_block_size :: u32
  iNode2 :: inode2
  num_directs :: u32
  dir_array :: "(u32 \<times> u8 list) list"
  symbol :: "u8 list option"

definition n_links2 :: "node2 \<Rightarrow> u32" where
  "n_links2 nd = ucast (hard_link_count (iNode2 nd))"

definition node2_read_block :: "'s reader \<Rightarrow> (nat \<Rightarrow> u8) \<Rightarrow> node2 \<Rightarrow> u32 \<Rightarrow> ('s cached, u8 list) st" where
  "node2_read_block rd junk nd numbers =
     bc_get rd junk numbers (n2_number nd) (fresh junk (unat (n2_block_size nd))) (iNode2 nd)"

definition node2_read_all :: "'s reader \<Rightarrow> (nat \<Rightarrow> u8) \<Rightarrow> node2 \<Rightarrow> 's cached reader" where
  "node2_read_all rd junk nd =
     bio_read_all (node2_read_block rd junk nd) (size_in_bytes2 (iNode2 nd)) (n2_block_size nd)"

text \<open>
  Counting the entries of one block of a directory. The fuel is the block size: an entry of length
  zero is read for ever, any other moves the position.
\<close>

fun count_block :: "nat \<Rightarrow> u8 list \<Rightarrow> u32 \<Rightarrow> u32 \<Rightarrow> u32 \<Rightarrow> fs_err + u32" where
  "count_block 0 buffer bs current_start n = Inl Diverges"
| "count_block (Suc k) buffer bs current_start n =
     (if current_start < bs then
        if unat current_start + 6 > length buffer then Inl Undefined
        else count_block k buffer bs (current_start + ucast (le16 buffer (unat current_start + 4)))
               (if le32 buffer (unat current_start) \<noteq> 0 then n + 1 else n)
      else Inr n)"

definition lift_err :: "fs_err + 'a \<Rightarrow> ('s, 'a) st" where
  "lift_err r = (case r of Inl e \<Rightarrow> fail e | Inr x \<Rightarrow> ret x)"

fun count_blocks :: "nat \<Rightarrow> 's reader \<Rightarrow> (nat \<Rightarrow> u8) \<Rightarrow> node2 \<Rightarrow> u32 \<Rightarrow> u32 \<Rightarrow> ('s cached, u32) st" where
  "count_blocks 0 rd junk nd index n = ret n"
| "count_blocks (Suc num_blocks) rd junk nd index n =
     sbind (node2_read_block rd junk nd index) (\<lambda>buffer.
     sbind (lift_err (count_block (unat (n2_block_size nd) + 1) buffer (n2_block_size nd) 0 n)) (\<lambda>n.
     count_blocks num_blocks rd junk nd (index + 1) n))"

text \<open>The number of entries and the node that remembers it.\<close>

definition entry_count2 :: "'s reader \<Rightarrow> (nat \<Rightarrow> u8) \<Rightarrow> node2 \<Rightarrow> ('s cached, u32 \<times> node2) st" where
  "entry_count2 rd junk nd =
     (if \<not> is_dir2 (iNode2 nd) then fail Panic
      else if num_directs nd \<noteq> 0 then ret (num_directs nd, nd)
      else
        sbind (count_blocks (unat (lower32_size (iNode2 nd) div n2_block_size nd)) rd junk nd 0 0) (\<lambda>n.
        ret (n, nd\<lparr>num_directs := n\<rparr>)))"

text \<open>\<^verbatim>\<open>DirectoryArray\<close> with room for \<open>num\<close> entries.\<close>

definition dir_put :: "u32 \<Rightarrow> (u32 \<times> u8 list) list \<Rightarrow> u32 \<times> u8 list \<Rightarrow> fs_err + (u32 \<times> u8 list) list" where
  "dir_put num arr dir = (if length arr < unat num then Inr (arr @ [dir]) else Inl Assert)"

definition find_name :: "u32 \<Rightarrow> (u32 \<times> u8 list) list \<Rightarrow> u8 list \<Rightarrow> fs_err + u32" where
  "find_name num arr name =
     (case List.find (\<lambda>(_, nm). streq nm name 0) (take (unat num) arr) of
        Some (ino, _) \<Rightarrow> Inr ino
      | None \<Rightarrow> if length arr < unat num then Inl Undefined else Inr 0)"

fun put_block :: "nat \<Rightarrow> u8 list \<Rightarrow> u32 \<Rightarrow> u32 \<Rightarrow> u32 \<Rightarrow> (u32 \<times> u8 list) list \<Rightarrow> fs_err + (u32 \<times> u8 list) list" where
  "put_block 0 buffer bs num current_start arr = Inl Diverges"
| "put_block (Suc k) buffer bs num current_start arr =
     (if current_start < bs then
        let cs = unat current_start in
        if cs + 8 > length buffer \<or> cs + 8 + unat (buffer ! (cs + 6)) > length buffer then Inl Undefined
        else
          case dir_put num arr (le32 buffer cs, take (unat (buffer ! (cs + 6))) (drop (cs + 8) buffer)) of
            Inl e \<Rightarrow> Inl e
          | Inr arr \<Rightarrow> put_block k buffer bs num (current_start + ucast (le16 buffer (cs + 4))) arr
      else Inr arr)"

fun put_blocks :: "nat \<Rightarrow> 's reader \<Rightarrow> (nat \<Rightarrow> u8) \<Rightarrow> node2 \<Rightarrow> u32 \<Rightarrow> (u32 \<times> u8 list) list \<Rightarrow> ('s cached, (u32 \<times> u8 list) list) st" where
  "put_blocks 0 rd junk nd index arr = ret arr"
| "put_blocks (Suc num_blocks) rd junk nd index arr =
     sbind (node2_read_block rd junk nd index) (\<lambda>buffer.
     sbind (lift_err (put_block (unat (n2_block_size nd) + 1) buffer (n2_block_size nd) (num_directs nd) 0 arr)) (\<lambda>arr.
     put_blocks num_blocks rd junk nd (index + 1) arr))"

definition set_array :: "'s reader \<Rightarrow> (nat \<Rightarrow> u8) \<Rightarrow> node2 \<Rightarrow> ('s cached, node2) st" where
  "set_array rd junk nd =
     sbind (assert (is_dir2 (iNode2 nd))) (\<lambda>_.
     sbind (put_blocks (unat (lower32_size (iNode2 nd) div n2_block_size nd)) rd junk nd 0 []) (\<lambda>arr.
     ret (nd\<lparr>dir_array := arr\<rparr>)))"

text \<open>The target of a link into a buffer; a long one is read once and kept.\<close>

definition get_symbol2 :: "'s reader \<Rightarrow> node2 \<Rightarrow> u8 list \<Rightarrow> ('s cached, u8 list \<times> node2) st" where
  "get_symbol2 rd nd buffer =
     (let i = iNode2 nd; sz = unat (size_in_bytes2 i) in
      if \<not> is_symlink2 i then fail Panic
      else if size_in_bytes2 i < 60 then
        ret (take sz (concat (map word_bytes (direct_pointers i @ [single_Node2 i, double_Node2 i, triple_Node2 i]))) @ drop sz buffer, nd)
      else
        (case symbol nd of
           Some target \<Rightarrow> ret (take sz target @ drop sz buffer, nd)
         | None \<Rightarrow>
           if length buffer < sz then fail Undefined
           else
             sbind (on_drv (read_into rd (direct_pointers i ! 0 * n2_block_size nd) (size_in_bytes2 i) buffer)) (\<lambda>buffer.
             ret (buffer, nd\<lparr>symbol := Some (take sz buffer)\<rparr>))))"

text \<open>The constructor of a node.\<close>

definition node2_make ::
  "'s reader \<Rightarrow> (nat \<Rightarrow> u8) \<Rightarrow> super_block2 \<Rightarrow> group_block list \<Rightarrow> u32 \<Rightarrow> u32 \<Rightarrow> ('s cached, node2) st" where
  "node2_make rd junk sb groups bs num =
     (if number_of_iNode2s_in_groups sb = 0 \<or> bs = 0 then fail Undefined else
      let grp = (num - 1) div number_of_iNode2s_in_groups sb;
          idx = (num - 1) mod number_of_iNode2s_in_groups sb in
      if unat grp \<ge> length groups then fail Undefined else
      sbind (on_drv (read_into rd (starting_block_address_of_table (groups ! unat grp) * bs + idx * 128) 128 (fresh junk 128))) (\<lambda>xs.
      let nd = \<lparr>n2_number = num, n2_block_size = bs, iNode2 = parse_inode2 xs, num_directs = 0, dir_array = [], symbol = None\<rparr> in
      sbind (if is_dir2 (iNode2 nd) then sbind (entry_count2 rd junk nd) (\<lambda>(n, nd). set_array rd junk nd) else ret nd) (\<lambda>nd.
      if is_symlink2 (iNode2 nd) then
        sbind (get_symbol2 rd nd (fresh junk (unat bs))) (\<lambda>(buf, nd). ret nd)
      else ret nd)))"

section \<open>The node cache\<close>

record cache_node =
  cn_number :: u32
  cn_valid :: bool
  cn_lru :: u8
  cn_me :: "node2 option"

record node_cache =
  nc_lru :: u8
  nc_s :: u32
  nc_b :: u32
  nc_cache :: "cache_node list list"

definition nc_new :: "u32 \<Rightarrow> u32 \<Rightarrow> node_cache" where
  "nc_new s b = \<lparr>nc_lru = 0, nc_s = s, nc_b = b,
     nc_cache = replicate (2 ^ unat s) (replicate (2 ^ unat b) \<lparr>cn_number = 0, cn_valid = False, cn_lru = 0, cn_me = None\<rparr>)\<rparr>"

definition nc_set :: "nat \<Rightarrow> nat \<Rightarrow> cache_node \<Rightarrow> node_cache \<Rightarrow> node_cache" where
  "nc_set k i cn nc = nc\<lparr>nc_cache := (nc_cache nc)[k := (nc_cache nc ! k)[i := cn]]\<rparr>"

definition nc_victim :: "cache_node list \<Rightarrow> nat \<Rightarrow> nat" where
  "nc_victim line B = fold (\<lambda>i min_index. if cn_lru (line ! i) < cn_lru (line ! min_index) then i else min_index) [1..<B] 0"

text \<open>\<open>mk\<close> is the constructor of the node with a number. The lock is released between \<^verbatim>\<open>get\<close> and \<^verbatim>\<open>miss\<close>.\<close>

definition nc_miss :: "(u32 \<Rightarrow> ('s, node2) st) \<Rightarrow> nat \<Rightarrow> u32 \<Rightarrow> node_cache \<Rightarrow> ('s, node2 \<times> node_cache) st" where
  "nc_miss mk k num nc =
     (let min_index = nc_victim (nc_cache nc ! k) (2 ^ unat (nc_b nc)) in
      sbind (mk num) (\<lambda>nd.
      ret (nd, nc_set k min_index \<lparr>cn_number = num, cn_valid = True, cn_lru = nc_lru nc, cn_me = Some nd\<rparr> nc)))"

definition nc_get :: "(u32 \<Rightarrow> ('s, node2) st) \<Rightarrow> u32 \<Rightarrow> node_cache \<Rightarrow> ('s, node2 option \<times> node_cache) st" where
  "nc_get mk num nc0 =
     (let nc = nc0\<lparr>nc_lru := nc_lru nc0 + 1\<rparr>;
          k = unat num mod 2 ^ unat (nc_s nc);
          line = nc_cache nc ! k
      in case List.find (\<lambda>i. cn_valid (line ! i) \<and> cn_number (line ! i) = num) [0..<2 ^ unat (nc_b nc)] of
           Some i \<Rightarrow> ret (cn_me (line ! i), nc_set k i ((line ! i)\<lparr>cn_lru := nc_lru nc\<rparr>) nc)
         | None \<Rightarrow> sbind (nc_miss mk k num nc) (\<lambda>(nd, nc). ret (Some nd, nc)))"

section \<open>The file system\<close>

record ext22 =
  e2_super :: super_block2
  e2_groups :: "group_block list"
  e2_ncache :: node_cache
  e2_block_size :: u32

definition get_block_size2 :: "super_block2 \<Rightarrow> u32 option" where
  "get_block_size2 sb =
     (let pow = log2_blocksize_minus_10 sb + 10 in if pow < 32 then Some (push_bit (unat pow) 1) else None)"

definition get_iNode2_size :: u32 where
  "get_iNode2_size = 128"

text \<open>The constructor: the file system, its root and the empty caches.\<close>

definition ext22_mount :: "'s reader \<Rightarrow> (nat \<Rightarrow> u8) \<Rightarrow> 's \<Rightarrow> fs_err + ((ext22 \<times> node2) \<times> 's cached)" where
  "ext22_mount rd junk d =
     (case read_into rd 1024 84 (fresh junk 84) d of
        Inl e \<Rightarrow> Inl e
      | Inr (xs, d) \<Rightarrow>
        let sb = parse_super_block2 xs in
        if number_of_blocks_in_groups sb = 0 then Inl Undefined else
        let n = number_of_blocks sb div number_of_blocks_in_groups sb;
            num_groups = (if number_of_blocks sb mod number_of_blocks_in_groups sb > 0 then n + 1 else n) in
        case get_block_size2 sb of
          None \<Rightarrow> Inl Undefined
        | Some bs \<Rightarrow>
          if 32 * unat num_groups \<ge> 2 ^ 32 then Inl Undefined else
          let start = (if bs > 2048 then bs else 2048) in
          case read_into rd start (num_groups * 32) (fresh junk (32 * unat num_groups)) d of
            Inl e \<Rightarrow> Inl e
          | Inr (tab, d) \<Rightarrow>
            let groups = map (\<lambda>i. parse_group_block (drop (32 * i) tab)) [0..<unat num_groups] in
            case node2_make rd junk sb groups bs 2 \<lparr>bcache = bc_new 10 5 bs, drv = d\<rparr> of
              Inl e \<Rightarrow> Inl e
            | Inr (root, st) \<Rightarrow>
              Inr ((\<lparr>e2_super = sb, e2_groups = groups, e2_ncache = nc_new 9 2, e2_block_size = bs\<rparr>, root), st))"

text \<open>\<^verbatim>\<open>Ext22::find\<close> for a directory; the result is null when the name is not in it.\<close>

definition ext22_find ::
  "'s reader \<Rightarrow> (nat \<Rightarrow> u8) \<Rightarrow> ext22 \<Rightarrow> node2 \<Rightarrow> u8 list \<Rightarrow> ('s cached, node2 option \<times> ext22) st" where
  "ext22_find rd junk F dir name =
     sbind (if is_dir2 (iNode2 dir) then lift_err (find_name (num_directs dir) (dir_array dir) name) else fail Undefined) (\<lambda>num.
     if num \<noteq> 0 then
       sbind (nc_get (node2_make rd junk (e2_super F) (e2_groups F) (e2_block_size F)) num (e2_ncache F)) (\<lambda>(nd, nc).
       ret (nd, F\<lparr>e2_ncache := nc\<rparr>))
     else ret (None, F))"

end
