(* ===== verification/Ext22_Props.thy ===== *)
theory Ext22_Props
  imports Ext22 Ext2_Props
begin

text \<open>
  The block cache of \<^verbatim>\<open>kernel/Ext22.h\<close> is transparent: what it returns is what reading without it returns,
  in every order of requests. With the map from the blocks of a file to blocks of the disk this gives
  the bytes of a file.
\<close>

section \<open>Caching any source of blocks\<close>

text \<open>A list of requests, each for a block of a node; \<open>ino\<close> is the inode of a node.\<close>

fun bc_gets :: "'s reader \<Rightarrow> (nat \<Rightarrow> u8) \<Rightarrow> u32 \<Rightarrow> (u32 \<Rightarrow> inode2) \<Rightarrow> (u32 \<times> u32) list \<Rightarrow> ('s cached, u8 list list) st" where
  "bc_gets rd junk bs ino [] = ret []"
| "bc_gets rd junk bs ino ((num, b) # reqs) =
     sbind (bc_get rd junk b num (fresh junk (unat bs)) (ino num)) (\<lambda>blk.
     sbind (bc_gets rd junk bs ino reqs) (\<lambda>blks. ret (blk # blks)))"

text \<open>
  Blocks of \<open>bs\<close> bytes with a fixed content, read from a state with \<open>I\<close>; a request names a node and a block.
\<close>

locale cached_source =
  fixes rd :: "'s reader" and junk :: "nat \<Rightarrow> u8" and bs :: u32 and ino :: "u32 \<Rightarrow> inode2"
    and I :: "'s \<Rightarrow> bool" and good :: "u32 \<Rightarrow> u32 \<Rightarrow> bool" and cont :: "u32 \<Rightarrow> u32 \<Rightarrow> u8 list"
  assumes source_gives: "good num b \<Longrightarrow> length buffer = unat bs \<Longrightarrow>
      gives I (bc_read_block rd junk bs (ino num) b buffer) (cont num b)"
    and cont_length: "length (cont num b) = unat bs"
begin

definition line_ok :: "cache_block \<Rightarrow> bool" where
  "line_ok cb \<longleftrightarrow> (cb_valid cb \<longrightarrow> hddBlock cb = Some (cont (cb_number cb) (block_num cb)))"

text \<open>The shape of the cache, and every valid line holds the content it is labelled with.\<close>

definition cache_ok :: "block_cache \<Rightarrow> bool" where
  "cache_ok bc \<longleftrightarrow> bc_block_size bc = bs \<and> length (bc_cache bc) = 2 ^ unat (bc_s bc) \<and>
     (\<forall>line \<in> set (bc_cache bc). length line = 2 ^ unat (bc_b bc) \<and> (\<forall>cb \<in> set line. line_ok cb))"

definition ok :: "'s cached \<Rightarrow> bool" where
  "ok st \<longleftrightarrow> I (drv st) \<and> cache_ok (bcache st)"

lemma cache_new: "cache_ok (bc_new s b bs)"
  by (simp add: cache_ok_def bc_new_def line_ok_def)

text \<open>The line a request finds.\<close>

definition hit :: "u32 \<Rightarrow> u32 \<Rightarrow> block_cache \<Rightarrow> nat option" where
  "hit num numbers bc =
     (let line = bc_cache bc ! (unat numbers mod 2 ^ unat (bc_s bc)) in
      List.find (\<lambda>i. cb_valid (line ! i) \<and> cb_number (line ! i) = num \<and> block_num (line ! i) = numbers) [0..<2 ^ unat (bc_b bc)])"

lemma cache_line:
  assumes "cache_ok bc" and "i < 2 ^ unat (bc_b bc)"
  shows "unat numbers mod 2 ^ unat (bc_s bc) < length (bc_cache bc)"
    and "length (bc_cache bc ! (unat numbers mod 2 ^ unat (bc_s bc))) = 2 ^ unat (bc_b bc)"
    and "line_ok (bc_cache bc ! (unat numbers mod 2 ^ unat (bc_s bc)) ! i)"
proof -
  show k: "unat numbers mod 2 ^ unat (bc_s bc) < length (bc_cache bc)"
    using assms(1) by (simp add: cache_ok_def)
  show l: "length (bc_cache bc ! (unat numbers mod 2 ^ unat (bc_s bc))) = 2 ^ unat (bc_b bc)"
    using assms(1) nth_mem [OF k] by (auto simp: cache_ok_def)
  show "line_ok (bc_cache bc ! (unat numbers mod 2 ^ unat (bc_s bc)) ! i)"
  proof -
    have "bc_cache bc ! (unat numbers mod 2 ^ unat (bc_s bc)) ! i \<in> set (bc_cache bc ! (unat numbers mod 2 ^ unat (bc_s bc)))"
      by (rule nth_mem) (simp only: l assms(2))
    then show ?thesis using assms(1) nth_mem [OF k] unfolding cache_ok_def by blast
  qed
qed

lemma hitI:
  assumes "i < 2 ^ unat (bc_b bc)" and "bc_cache bc ! (unat numbers mod 2 ^ unat (bc_s bc)) ! i = cb"
    and "cb_valid cb" and "cb_number cb = num" and "block_num cb = numbers"
  shows "hit num numbers bc \<noteq> None"
  unfolding hit_def Let_def find_None_iff using assms by (auto intro!: bexI [of _ i])

lemma cache_set_line:
  assumes "cache_ok bc" and "line_ok cb"
  shows "cache_ok (set_line k i cb bc)"
proof (cases "k < length (bc_cache bc)")
  case True
  have "length ((bc_cache bc ! k)[i := cb]) = 2 ^ unat (bc_b bc) \<and> (\<forall>c \<in> set ((bc_cache bc ! k)[i := cb]). line_ok c)"
    using assms nth_mem [OF True] set_update_subset_insert [of "bc_cache bc ! k" i cb] by (auto simp: cache_ok_def)
  then show ?thesis
    using assms(1) set_update_subset_insert [of "bc_cache bc" k "(bc_cache bc ! k)[i := cb]"]
    by (auto simp: cache_ok_def set_line_def)
next
  case False
  then show ?thesis using assms(1) by (simp add: set_line_def list_update_beyond)
qed

lemma victim_bound: "0 < B \<Longrightarrow> victim line B < B"
proof -
  assume "0 < B"
  have "fold (\<lambda>i m. if cb_lru (line ! i) < cb_lru (line ! m) then i else m) xs m < B"
    if "m < B" "\<forall>x \<in> set xs. x < B" for xs m using that by (induction xs arbitrary: m) auto
  then show ?thesis using \<open>0 < B\<close> by (auto simp: victim_def find_Some_iff split: option.splits)
qed

text \<open>A request that finds its line does not use the device.\<close>

lemma get_hit:
  assumes "cache_ok (bcache st)" and "hit num numbers (bcache st) = Some i"
  shows "\<exists>bc. bc_get rd junk numbers num buffer caller st = Inr (cont num numbers, st\<lparr>bcache := bc\<rparr>) \<and> cache_ok bc \<and>
    bc_s bc = bc_s (bcache st) \<and> bc_b bc = bc_b (bcache st) \<and> hit num numbers bc \<noteq> None"
proof -
  define bc where "bc = (bcache st)\<lparr>bc_lru := bc_lru (bcache st) + 1\<rparr>"
  define k where "k = unat numbers mod 2 ^ unat (bc_s bc)"
  let ?cb = "bc_cache bc ! k ! i"
  have bc: "cache_ok bc" "bc_block_size bc = bs" using assms(1) by (simp_all add: bc_def cache_ok_def)
  have find: "List.find (\<lambda>i. cb_valid (bc_cache bc ! k ! i) \<and> cb_number (bc_cache bc ! k ! i) = num \<and> block_num (bc_cache bc ! k ! i) = numbers)
      [0..<2 ^ unat (bc_b bc)] = Some i"
    using assms(2) by (simp add: hit_def bc_def k_def Let_def)
  have i: "i < 2 ^ unat (bc_b bc)" and cb: "cb_valid ?cb" "cb_number ?cb = num" "block_num ?cb = numbers"
    using find by (auto simp: find_Some_iff)
  have line: "line_ok ?cb" using cache_line(3) [OF bc(1) i] by (simp add: k_def)
  then have blk: "hddBlock ?cb = Some (cont num numbers)" using cb by (simp add: line_ok_def)
  let ?bc = "set_line k i (?cb\<lparr>cb_lru := bc_lru bc\<rparr>) bc"
  have "bc_get rd junk numbers num buffer caller st = Inr (cont num numbers, st\<lparr>bcache := ?bc\<rparr>)"
    using find blk bc(2) unfolding bc_get_def Let_def bc_def [symmetric] k_def [symmetric] by (simp add: cont_length)
  moreover have "cache_ok ?bc" using bc(1) line by (intro cache_set_line) (simp_all add: line_ok_def)
  moreover have "hit num numbers ?bc \<noteq> None"
  proof -
    have kl: "k < length (bc_cache bc)" unfolding k_def by (rule cache_line(1) [OF bc(1) i])
    have il: "i < length (bc_cache bc ! k)" unfolding k_def cache_line(2) [OF bc(1) i] by (rule i)
    have "bc_s ?bc = bc_s bc" "bc_b ?bc = bc_b bc" by (simp_all add: set_line_def)
    moreover have "bc_cache ?bc ! k ! i = ?cb\<lparr>cb_lru := bc_lru bc\<rparr>" using kl il by (simp add: set_line_def)
    ultimately show ?thesis using cb i by (intro hitI [where i = i and cb = "?cb\<lparr>cb_lru := bc_lru bc\<rparr>"]) (simp_all add: k_def)
  qed
  moreover have "bc_s ?bc = bc_s (bcache st)" "bc_b ?bc = bc_b (bcache st)" by (simp_all add: set_line_def bc_def)
  ultimately show ?thesis by blast
qed

lemma get_miss:
  assumes "ok st" and "good num numbers" and "length buffer = unat bs" and "hit num numbers (bcache st) = None"
  shows "\<exists>st'. bc_get rd junk numbers num buffer (ino num) st = Inr (cont num numbers, st') \<and> ok st' \<and>
    hit num numbers (bcache st') \<noteq> None"
proof -
  define bc where "bc = (bcache st)\<lparr>bc_lru := bc_lru (bcache st) + 1\<rparr>"
  define k where "k = unat numbers mod 2 ^ unat (bc_s bc)"
  have bc: "cache_ok bc" "bc_block_size bc = bs" using assms(1) by (simp_all add: bc_def cache_ok_def ok_def)
  have find: "List.find (\<lambda>i. cb_valid (bc_cache bc ! k ! i) \<and> cb_number (bc_cache bc ! k ! i) = num \<and> block_num (bc_cache bc ! k ! i) = numbers)
      [0..<2 ^ unat (bc_b bc)] = None"
    using assms(4) by (simp add: hit_def bc_def k_def Let_def)
  have "gives I (bc_read_block rd junk bs (ino num) numbers buffer) (cont num numbers)"
    by (rule source_gives [OF assms(2,3)])
  then obtain d where d: "bc_read_block rd junk bs (ino num) numbers buffer (drv st) = Inr (cont num numbers, d)" "I d"
    using assms(1) by (auto simp: gives_def ok_def)
  define v where "v = victim (bc_cache bc ! k) (2 ^ unat (bc_b bc))"
  define cb where "cb = \<lparr>cb_number = num, block_num = numbers, cb_valid = True, cb_lru = bc_lru bc, hddBlock = Some (cont num numbers)\<rparr>"
  let ?st = "st\<lparr>bcache := set_line k v cb bc, drv := d\<rparr>"
  have "bc_get rd junk numbers num buffer (ino num) st = Inr (cont num numbers, ?st)"
    using find bc(2) d unfolding bc_get_def Let_def bc_def [symmetric] k_def [symmetric]
    by (simp add: bc_miss_def Let_def sbind_def on_drv_def cont_length v_def cb_def)
  moreover have "cache_ok (set_line k v cb bc)" using bc(1) by (intro cache_set_line) (simp_all add: cb_def line_ok_def)
  then have "ok ?st" using d(2) by (simp add: ok_def)
  moreover have "hit num numbers (bcache ?st) \<noteq> None"
  proof -
    have v: "v < 2 ^ unat (bc_b bc)" unfolding v_def by (rule victim_bound) simp
    have kl: "k < length (bc_cache bc)" unfolding k_def by (rule cache_line(1) [OF bc(1) v])
    have il: "v < length (bc_cache bc ! k)" unfolding k_def cache_line(2) [OF bc(1) v] by (rule v)
    have "bc_s (set_line k v cb bc) = bc_s bc" "bc_b (set_line k v cb bc) = bc_b bc" by (simp_all add: set_line_def)
    moreover have "bc_cache (set_line k v cb bc) ! k ! v = cb" using kl il by (simp add: set_line_def)
    ultimately show ?thesis using v by (intro hitI [where i = v and cb = cb]) (simp_all add: k_def cb_def)
  qed
  ultimately show ?thesis by blast
qed

text \<open>Every request returns the content; afterwards it is in the cache.\<close>

lemma get_content:
  assumes "ok st" and "good num numbers" and "length buffer = unat bs"
  shows "\<exists>st'. bc_get rd junk numbers num buffer (ino num) st = Inr (cont num numbers, st') \<and> ok st' \<and>
    hit num numbers (bcache st') \<noteq> None"
proof (cases "hit num numbers (bcache st)")
  case None
  then show ?thesis using get_miss [OF assms] by blast
next
  case (Some i)
  then show ?thesis using get_hit [of st num numbers i buffer "ino num"] assms(1) by (fastforce simp: ok_def)
qed

lemma get_gives: "good num numbers \<Longrightarrow> length buffer = unat bs \<Longrightarrow> gives ok (bc_get rd junk numbers num buffer (ino num)) (cont num numbers)"
  using get_content unfolding gives_def by blast

lemma gets_gives: "\<forall>(num, b) \<in> set reqs. good num b \<Longrightarrow> gives ok (bc_gets rd junk bs ino reqs) (map (\<lambda>(num, b). cont num b) reqs)"
proof (induction reqs)
  case (Cons r reqs)
  then obtain num b where r: "r = (num, b)" "good num b" by (cases r) auto
  have "gives ok (bc_get rd junk b num (fresh junk (unat bs)) (ino num)) (cont num b)" by (rule get_gives) (use r in simp_all)
  moreover have "gives ok (bc_gets rd junk bs ino reqs) (map (\<lambda>(num, b). cont num b) reqs)" using Cons by simp
  ultimately show ?case by (auto simp: r intro!: gives_bind gives_ret)
qed (auto intro: gives_ret)

text \<open>A request that was served is served again without the device.\<close>

lemma get_again:
  assumes "ok st" and "good num numbers" and "length buffer = unat bs"
    and "bc_get rd junk numbers num buffer (ino num) st = Inr (x, st1)"
  shows "\<exists>st2. bc_get rd junk numbers num buffer' caller st1 = Inr (x, st2) \<and> drv st2 = drv st1"
proof -
  from get_content [OF assms(1-3)] assms(4)
  have st1: "x = cont num numbers" "ok st1" "hit num numbers (bcache st1) \<noteq> None" by auto
  then obtain i where "hit num numbers (bcache st1) = Some i" by blast
  from get_hit [OF _ this, of buffer' caller] st1 show ?thesis by (auto simp: ok_def)
qed

end

section \<open>From blocks of a file to blocks of the disk\<close>

text \<open>Entry \<open>i\<close> of the block of numbers \<open>p\<close>, and the block of the disk with block \<open>b\<close> of a file.\<close>

definition ptr_at :: "(nat \<Rightarrow> u8) \<Rightarrow> u32 \<Rightarrow> u32 \<Rightarrow> nat \<Rightarrow> u32" where
  "ptr_at D bs p i = le32_at D (unat p * unat bs + 4 * i)"

definition block2 :: "(nat \<Rightarrow> u8) \<Rightarrow> u32 \<Rightarrow> inode2 \<Rightarrow> nat \<Rightarrow> u32" where
  "block2 D bs i b =
     (let r = unat bs div 4 in
      if b < 12 then direct_pointers i ! b
      else if b < 12 + r then ptr_at D bs (single_Node2 i) (b - 12)
      else ptr_at D bs (ptr_at D bs (double_Node2 i) ((b - 12 - r) div r)) ((b - 12 - r) mod r))"

text \<open>The block \<open>p\<close> lies on the disk.\<close>

definition on_disk :: "u32 \<Rightarrow> u32 \<Rightarrow> u32 \<Rightarrow> bool" where
  "on_disk sz bs p \<longleftrightarrow> (unat p + 1) * unat bs \<le> unat sz"

text \<open>Block \<open>b\<close> is reached through at most two levels, and every block on the way lies on the disk.\<close>

definition block2_ok :: "(nat \<Rightarrow> u8) \<Rightarrow> u32 \<Rightarrow> u32 \<Rightarrow> inode2 \<Rightarrow> nat \<Rightarrow> bool" where
  "block2_ok D sz bs i b \<longleftrightarrow>
     (let r = unat bs div 4 in
      4 dvd unat bs \<and> 0 < bs \<and> unat bs \<le> 32768 \<and> b < 12 + r + r * r \<and> on_disk sz bs (block2 D bs i b) \<and>
      (12 \<le> b \<and> b < 12 + r \<longrightarrow> on_disk sz bs (single_Node2 i)) \<and>
      (12 + r \<le> b \<longrightarrow> on_disk sz bs (double_Node2 i) \<and> on_disk sz bs (ptr_at D bs (double_Node2 i) ((b - 12 - r) div r))))"

context disk
begin

lemma read_into_gives:
  assumes "on_disk sz bs p" and "length buffer = unat bs"
  shows "gives I (read_into rd (p * bs) bs buffer) (chunk D (unat p * unat bs) (unat bs))"
proof -
  have le: "unat p * unat bs + unat bs \<le> unat sz" using assms(1) by (simp add: on_disk_def)
  have u: "unat (p * bs) = unat p * unat bs" by (rule unat_mult_le [where z = sz]) (use le in linarith)
  have "gives I (rd (p * bs) bs) (int (unat bs), chunk D (unat p * unat bs) (unat bs))"
    using rd_gives [of "p * bs" bs] le unfolding u by simp
  then show ?thesis
    unfolding read_into_def by (rule gives_bind) (auto simp: assms(2) intro!: gives_ret)
qed

lemma word_entry_chunk: "4 * unat i + 4 \<le> unat bs \<Longrightarrow> word_entry (chunk D (unat p * unat bs) (unat bs)) i = ptr_at D bs p (unat i)"
  by (simp add: word_entry_def ptr_at_def le32_chunk)

lemma read_block2_gives:
  assumes ok: "block2_ok D sz bs i (unat b)" and buf: "length buffer = unat bs"
  shows "gives I (bc_read_block rd junk bs i b buffer) (chunk D (unat (block2 D bs i (unat b)) * unat bs) (unat bs))"
proof -
  define r where "r = unat bs div 4"
  from ok have bs: "unat bs = 4 * r" "unat bs \<le> 32768" "0 < unat bs" and b: "unat b < 12 + r + r * r"
    and last: "on_disk sz bs (block2 D bs i (unat b))"
    and sing: "12 \<le> unat b \<Longrightarrow> unat b < 12 + r \<Longrightarrow> on_disk sz bs (single_Node2 i)"
    and doub: "12 + r \<le> unat b \<Longrightarrow> on_disk sz bs (double_Node2 i)"
      "12 + r \<le> unat b \<Longrightarrow> on_disk sz bs (ptr_at D bs (double_Node2 i) ((unat b - 12 - r) div r))"
    by (auto simp: block2_ok_def Let_def r_def word_gt_0 unat_gt_0)
  have r: "r \<le> 8192" "0 < r" using bs by linarith+
  have rr: "r * r \<le> 8192 * 8192" using r(1) by (intro mult_le_mono)
  have ur: "unat (bs div 4) = r" by (simp add: unat_div r_def)
  have u1: "unat (bs div 4 + 12) = r + 12"
    using r(1) ur by (intro trans [OF unat_add_lem [THEN iffD1]]) simp_all
  have "unat (bs * bs) = 16 * (r * r)"
    using rr bs(1) by (intro trans [OF unat_mult_lem [THEN iffD1]]) simp_all
  then have "unat (bs * bs div 16) = r * r" by (simp add: unat_div)
  then have u2: "unat (bs * bs div 16 + (bs div 4 + 12)) = r * r + (r + 12)"
    using rr r(1) u1 by (intro trans [OF unat_add_lem [THEN iffD1]]) simp_all
  have new: "length (fresh junk (unat (bs div 4) * 4)) = unat bs" by (simp add: ur bs(1))
  consider (d) "unat b < 12" | (s) "12 \<le> unat b" "unat b < 12 + r" | (t) "12 + r \<le> unat b" by linarith
  then show ?thesis
  proof cases
    case d
    then have "b < 12" by (simp add: word_less_nat_alt)
    moreover have "block2 D bs i (unat b) = direct_pointers i ! unat b" using d by (simp add: block2_def)
    ultimately show ?thesis
      using read_into_gives [OF last buf] by (simp add: bc_read_block_def Let_def)
  next
    case s
    then have c: "\<not> b < 12" "b < bs div 4 + 12" by (simp_all add: word_less_nat_alt u1)
    have ub: "unat (b - 12) = unat b - 12" using s(1) unat_sub [of 12 b] by (simp add: word_le_nat_alt)
    have e: "word_entry (chunk D (unat (single_Node2 i) * unat bs) (unat bs)) (b - 12) = block2 D bs i (unat b)"
    proof (subst word_entry_chunk)
      show "4 * unat (b - 12) + 4 \<le> unat bs" using s bs(1) ub by linarith
    qed (use s in \<open>simp add: ub block2_def Let_def flip: r_def\<close>)
    show ?thesis
      unfolding bc_read_block_def Let_def if_not_P [OF c(1)] if_P [OF c(2)]
      by (rule gives_bind [OF read_into_gives [OF sing [OF s] new]]) (simp only: e read_into_gives [OF last buf])
  next
    case t
    then have c: "\<not> b < 12" "\<not> b < bs div 4 + 12" "b < bs * bs div 16 + (bs div 4 + 12)"
      using b by (simp_all add: word_less_nat_alt u1 u2)
    define j where "j = unat b - 12 - r"
    have ub: "unat (b - 12) = unat b - 12" using t unat_sub [of 12 b] by (simp add: word_le_nat_alt)
    have uj: "unat (b - 12 - bs div 4) = j"
      using t ub unat_sub [of "bs div 4" "b - 12"] by (simp add: word_le_nat_alt ur j_def)
    have j: "j < r * r" using b t by (simp add: j_def)
    have jd: "j div r < r" using j by (simp add: less_mult_imp_div_less)
    have jm: "j mod r < r" using r(2) by simp
    have e1: "word_entry (chunk D (unat (double_Node2 i) * unat bs) (unat bs)) ((b - 12 - bs div 4) div (bs div 4))
        = ptr_at D bs (double_Node2 i) (j div r)"
    proof (subst word_entry_chunk)
      show "4 * unat ((b - 12 - bs div 4) div (bs div 4)) + 4 \<le> unat bs" using jd bs(1) by (simp add: unat_div uj ur)
    qed (simp add: unat_div uj flip: r_def)
    have e2: "word_entry (chunk D (unat (ptr_at D bs (double_Node2 i) (j div r)) * unat bs) (unat bs)) ((b - 12 - bs div 4) mod (bs div 4))
        = block2 D bs i (unat b)"
    proof (subst word_entry_chunk)
      show "4 * unat ((b - 12 - bs div 4) mod (bs div 4)) + 4 \<le> unat bs" using jm bs(1) by (simp add: unat_mod uj ur)
    qed (use t in \<open>simp add: unat_mod uj ur block2_def Let_def j_def flip: r_def\<close>)
    show ?thesis
      unfolding bc_read_block_def Let_def if_not_P [OF c(1)] if_not_P [OF c(2)] if_P [OF c(3)]
      by (rule gives_bind [OF read_into_gives [OF doub(1) [OF t] new]], unfold e1,
          rule gives_bind [OF read_into_gives [OF doub(2) [OF t, folded j_def] new]], unfold e2,
          rule read_into_gives [OF last buf])
  qed
qed

end

text \<open>The drive as a source of the blocks of a table of nodes.\<close>

sublocale disk < cache: cached_source rd junk bs ino I "\<lambda>num b. block2_ok D sz bs (ino num) (unat b)"
    "\<lambda>num b. chunk D (unat (block2 D bs (ino num) (unat b)) * unat bs) (unat bs)" for junk bs ino
  by unfold_locales (simp_all add: read_block2_gives)

interpretation cached_node: block_reader "node2_read_block rd junk nd" "n2_block_size nd" for rd junk nd .

section \<open>Reads through the cache\<close>

text \<open>The states of driver and cache: the drive is idle, and the cache agrees with the disk.\<close>

definition drive_cache_ok ::
  "'d pio \<Rightarrow> u32 \<Rightarrow> (nat \<Rightarrow> u8) \<Rightarrow> ('d \<Rightarrow> bool) \<Rightarrow> (nat \<Rightarrow> nat \<Rightarrow> 'd \<Rightarrow> bool) \<Rightarrow> nat \<Rightarrow> u32 \<Rightarrow> (u32 \<Rightarrow> inode2) \<Rightarrow> 'd ide_st cached \<Rightarrow> bool" where
  "drive_cache_ok P drive D idle transfer polls bs ino = ide_disk.cache.ok bs P drive D idle transfer polls ino"

lemma drive_gets:
  assumes "ata_drive P drive D idle transfer" and "0 < polls" and "idle (dev d)"
    and "\<forall>(num, b) \<in> set reqs. block2_ok D ide_size_in_bytes bs (ino num) (unat b)"
  shows "\<exists>st. bc_gets (ide_read_all polls P drive) junk bs ino reqs \<lparr>bcache = bc_new s sb bs, drv = d\<rparr> =
      Inr (map (\<lambda>(num, b). chunk D (unat (block2 D bs (ino num) (unat b)) * unat bs) (unat bs)) reqs, st) \<and>
    drive_cache_ok P drive D idle transfer polls bs ino st"
proof -
  have "drive_cache_ok P drive D idle transfer polls bs ino \<lparr>bcache = bc_new s sb bs, drv = d\<rparr>"
    unfolding drive_cache_ok_def ide_disk.cache.ok_def using assms(1-3) ide_disk.cache.cache_new by simp
  with ide_disk.cache.gets_gives [OF assms(4)] show ?thesis unfolding gives_def drive_cache_ok_def by blast
qed

text \<open>
  C27. The block cache is transparent. From an empty cache of any shape, a sequence of requests for blocks
  of files returns, request by request, the blocks of the disk that the inodes map them to, through
  the direct, single and double indirect numbers, whatever was cached, evicted or hit before. A
  request right after the same request returns the block without using the device.
\<close>

theorem block_cache_transparent:
  assumes "ata_drive P drive D idle transfer" and "0 < polls" and "idle (dev d)"
    and "\<forall>(num, b) \<in> set reqs. block2_ok D ide_size_in_bytes bs (ino num) (unat b)"
    and "block2_ok D ide_size_in_bytes bs (ino num) (unat b)" and "length buffer = unat bs"
    and "rd = ide_read_all polls P drive" and "blk = (\<lambda>num b. chunk D (unat (block2 D bs (ino num) (unat b)) * unat bs) (unat bs))"
  shows "\<exists>st st1 st2. bc_gets rd junk bs ino reqs \<lparr>bcache = bc_new s sb bs, drv = d\<rparr> = Inr (map (\<lambda>(num, b). blk num b) reqs, st) \<and>
    bc_get rd junk b num buffer (ino num) st = Inr (blk num b, st1) \<and>
    bc_get rd junk b num buffer (ino num) st1 = Inr (blk num b, st2) \<and> drv st2 = drv st1 \<and> idle (dev (drv st1))"
proof -
  obtain st where st: "bc_gets rd junk bs ino reqs \<lparr>bcache = bc_new s sb bs, drv = d\<rparr> = Inr (map (\<lambda>(num, b). blk num b) reqs, st)"
    "drive_cache_ok P drive D idle transfer polls bs ino st"
    unfolding assms(7,8) using drive_gets [OF assms(1-4), of junk s sb] by blast
  obtain st1 where st1: "bc_get rd junk b num buffer (ino num) st = Inr (blk num b, st1)"
    "drive_cache_ok P drive D idle transfer polls bs ino st1"
    using st(2) ide_disk.cache.get_gives [where P = P and drive = drive and D = D and idle = idle and transfer = transfer and polls = polls and junk = junk and 
        ino = ino and num = num and numbers = b and bs = bs and buffer = buffer, OF assms(5,6)]
    unfolding gives_def drive_cache_ok_def assms(7,8) by blast
  moreover obtain st2 where "bc_get rd junk b num buffer (ino num) st1 = Inr (blk num b, st2)" "drv st2 = drv st1"
    using ide_disk.cache.get_again [where ino = ino and num = num and numbers = b,
        OF st(2) [unfolded drive_cache_ok_def] assms(5,6) st1(1) [unfolded assms(7)]]
    unfolding assms(7) by blast
  moreover have "idle (dev (drv st1))" using st1(2) unfolding drive_cache_ok_def ide_disk.cache.ok_def by simp
  ultimately show ?thesis using st(1) by blast
qed

text \<open>The bytes of a node.\<close>

definition node2_byte :: "(nat \<Rightarrow> u8) \<Rightarrow> node2 \<Rightarrow> nat \<Rightarrow> u8" where
  "node2_byte D nd i =
     D (unat (block2 D (n2_block_size nd) (iNode2 nd) (i div unat (n2_block_size nd))) * unat (n2_block_size nd)
        + i mod unat (n2_block_size nd))"

lemma node2_byte_block:
  assumes "0 < n2_block_size nd"
  shows "chunk (node2_byte D nd) (b * unat (n2_block_size nd)) (unat (n2_block_size nd)) =
    chunk D (unat (block2 D (n2_block_size nd) (iNode2 nd) b) * unat (n2_block_size nd)) (unat (n2_block_size nd))"
  using assms by (intro chunk_cong) (simp add: node2_byte_def word_gt_0 unat_gt_0)

text \<open>
  C28. A file read through the cache has the right bytes: in any state that earlier requests have led to,
  \<^verbatim>\<open>read_all\<close> of a node returns the bytes of the range, cut at the size of the file, and their number.
\<close>

theorem node2_read_all_correct:
  assumes "ata_drive P drive D idle transfer" and "0 < polls" and "idle (dev d)"
    and "\<forall>(num, b) \<in> set reqs. block2_ok D ide_size_in_bytes (n2_block_size nd) (ino num) (unat b)"
    and "bc_gets (ide_read_all polls P drive) junk (n2_block_size nd) ino reqs \<lparr>bcache = bc_new s sb (n2_block_size nd), drv = d\<rparr> = Inr (blks, st)"
    and "ino (n2_number nd) = iNode2 nd" and "0 < n2_block_size nd"
    and "\<forall>b. b * unat (n2_block_size nd) < unat (size_in_bytes2 (iNode2 nd)) \<longrightarrow>
      block2_ok D ide_size_in_bytes (n2_block_size nd) (iNode2 nd) b"
    and "unat offset \<le> unat (size_in_bytes2 (iNode2 nd))"
  shows "\<exists>st' m. m = min (unat n) (unat (size_in_bytes2 (iNode2 nd)) - unat offset) \<and>
    node2_read_all (ide_read_all polls P drive) junk nd offset n st =
      Inr ((int m, map (node2_byte D nd) [unat offset..<unat offset + m]), st') \<and> idle (dev (drv st'))"
proof -
  have st: "drive_cache_ok P drive D idle transfer polls (n2_block_size nd) ino st"
    using drive_gets [OF assms(1-4), of junk s sb] assms(5) by auto
  have blk: "gives (drive_cache_ok P drive D idle transfer polls (n2_block_size nd) ino)
      (node2_read_block (ide_read_all polls P drive) junk nd b)
      (chunk (node2_byte D nd) (unat b * unat (n2_block_size nd)) (unat (n2_block_size nd)))"
    if "unat b * unat (n2_block_size nd) < unat (size_in_bytes2 (iNode2 nd))" for b
    using ide_disk.cache.get_gives [where P = P and drive = drive and D = D and idle = idle and transfer = transfer and polls = polls and junk = junk and 
        ino = ino and num = "n2_number nd" and numbers = b and bs = "n2_block_size nd" and buffer = "fresh junk (unat (n2_block_size nd))"] assms(8) [rule_format, OF that]
    unfolding drive_cache_ok_def node2_read_block_def node2_byte_block [OF assms(7)] by (simp add: assms(6))
  then have "cached_node.holds (ide_read_all polls P drive) junk nd (drive_cache_ok P drive D idle transfer polls (n2_block_size nd) ino)
      (size_in_bytes2 (iNode2 nd)) (node2_byte D nd)"
    using assms(7) by (simp add: cached_node.holds_def)
  from cached_node.read_all_cut [OF this assms(9) refl, of n] st
  obtain st' where "node2_read_all (ide_read_all polls P drive) junk nd offset n st =
      Inr ((int (min (unat n) (unat (size_in_bytes2 (iNode2 nd)) - unat offset)),
        chunk (node2_byte D nd) (unat offset) (min (unat n) (unat (size_in_bytes2 (iNode2 nd)) - unat offset))), st')"
    "drive_cache_ok P drive D idle transfer polls (n2_block_size nd) ino st'"
    unfolding gives_def node2_read_all_def by blast
  moreover from this(2) have "idle (dev (drv st'))" unfolding drive_cache_ok_def ide_disk.cache.ok_def by blast
  ultimately show ?thesis unfolding chunk_def by blast
qed

text \<open>A file of 24 bytes whose first block is block 2 of the sample disk, the others block 0.\<close>

definition sample_inode2 :: inode2 where
  "sample_inode2 = \<lparr>type_permissions = 0x8000, user_id = 0, lower32_size = 24, last_access_time = 0, creation_time = 0,
     last_mod_time = 0, deletion_time = 0, group_id = 0, hard_link_count = 1, disk_sectors = 2, i2_flags = 0,
     operator_specific_value = 0, direct_pointers = 2 # replicate 11 0, single_Node2 = 0, double_Node2 = 0,
     triple_Node2 = 0, generation_number = 0, some_val = 0, some_val2 = 0, block_address_fragment = 0, OSSV2 = []\<rparr>"

definition sample_node2 :: node2 where
  "sample_node2 = \<lparr>n2_number = 7, n2_block_size = 1024, iNode2 = sample_inode2, num_directs = 0, dir_array = [], symbol = None\<rparr>"

lemma sample_blocks:
  "block2 sample_disk 1024 sample_inode2 0 = 2" "block2 sample_disk 1024 sample_inode2 12 = 0"
  "block2_ok sample_disk ide_size_in_bytes 1024 sample_inode2 0" "block2_ok sample_disk ide_size_in_bytes 1024 sample_inode2 12"
proof -
  have sz: "unat ide_size_in_bytes = 2 ^ 32 - 1"
    by (simp add: ide_size_in_bytes_def unsigned_minus_1_eq_mask mask_eq_exp_minus_1)
  show b: "block2 sample_disk 1024 sample_inode2 0 = 2" "block2 sample_disk 1024 sample_inode2 12 = 0"
    by (simp_all add: block2_def sample_inode2_def ptr_at_def le32_at_def sample_disk_def)
  show "block2_ok sample_disk ide_size_in_bytes 1024 sample_inode2 0" "block2_ok sample_disk ide_size_in_bytes 1024 sample_inode2 12"
    unfolding block2_ok_def Let_def b on_disk_def sz by (simp_all add: sample_inode2_def)
qed

theorem block_cache_transparent_witness:
  "\<exists>st st1 st2. bc_gets (ide_read_all 1 (sim_pio sample_disk) 0) (\<lambda>_. 0) 1024 (\<lambda>_. sample_inode2) [(7, 0), (7, 12), (7, 0)]
      \<lparr>bcache = bc_new 0 0 1024, drv = sample_state\<rparr> =
      Inr ([chunk sample_disk 2048 1024, chunk sample_disk 0 1024, chunk sample_disk 2048 1024], st) \<and>
    bc_get (ide_read_all 1 (sim_pio sample_disk) 0) (\<lambda>_. 0) 12 7 (replicate 1024 1) sample_inode2 st =
      Inr (chunk sample_disk 0 1024, st1) \<and>
    bc_get (ide_read_all 1 (sim_pio sample_disk) 0) (\<lambda>_. 0) 12 7 (replicate 1024 1) sample_inode2 st1 =
      Inr (chunk sample_disk 0 1024, st2) \<and> drv st2 = drv st1"
proof -
  have "\<forall>(num, b) \<in> set [(7 :: u32, 0), (7, 12), (7, 0)]. block2_ok sample_disk ide_size_in_bytes 1024 sample_inode2 (unat (b :: u32))"
    using sample_blocks by simp
  from block_cache_transparent [OF sim_drive _ _ this _ _ refl refl, of 1 sample_state 12 "replicate 1024 1" "\<lambda>_. 0" 0 0 7]
  show ?thesis using sample_blocks by (auto simp: sample_state_def)
qed

theorem node2_read_all_correct_witness:
  "\<exists>st st'. bc_gets (ide_read_all 1 (sim_pio sample_disk) 0) (\<lambda>_. 0) 1024 (\<lambda>_. sample_inode2) [(7, 12)]
      \<lparr>bcache = bc_new 0 0 1024, drv = sample_state\<rparr> = Inr ([chunk sample_disk 0 1024], st) \<and>
    node2_read_all (ide_read_all 1 (sim_pio sample_disk) 0) (\<lambda>_. 0) sample_node2 18 100 st = Inr ((6, [1, 1, 97, 0, 0, 0]), st')"
proof -
  have one: "\<forall>(num, b) \<in> set [(7 :: u32, 12)]. block2_ok sample_disk ide_size_in_bytes 1024 sample_inode2 (unat (b :: u32))"
    using sample_blocks by simp
  obtain st where st: "bc_gets (ide_read_all 1 (sim_pio sample_disk) 0) (\<lambda>_. 0) 1024 (\<lambda>_. sample_inode2) [(7, 12)]
      \<lparr>bcache = bc_new 0 0 1024, drv = sample_state\<rparr> = Inr ([chunk sample_disk 0 1024], st)"
    using drive_gets [OF sim_drive _ _ one, of 1 sample_state "\<lambda>_. 0" 0 0] sample_blocks by (auto simp: sample_state_def)
  have nd: "n2_block_size sample_node2 = 1024" "iNode2 sample_node2 = sample_inode2" "n2_number sample_node2 = 7"
    by (simp_all add: sample_node2_def)
  have size: "size_in_bytes2 sample_inode2 = 24" by (simp add: size_in_bytes2_def is_file2_def sample_inode2_def)
  have "node2_byte sample_disk sample_node2 i = sample_disk (2048 + i)" if "i < 24" for i
    using that sample_blocks(1) by (simp add: node2_byte_def nd)
  then have bytes: "map (node2_byte sample_disk sample_node2) [18..<24] = [1, 1, 97, 0, 0, 0]"
    by (simp add: upt_rec sample_disk_def)
  have all: "\<forall>b. b * unat (n2_block_size sample_node2) < unat (size_in_bytes2 (iNode2 sample_node2)) \<longrightarrow>
      block2_ok sample_disk ide_size_in_bytes (n2_block_size sample_node2) (iNode2 sample_node2) b"
  proof (intro allI impI)
    fix b assume "b * unat (n2_block_size sample_node2) < unat (size_in_bytes2 (iNode2 sample_node2))"
    then have "b = 0" by (simp add: nd size)
    then show "block2_ok sample_disk ide_size_in_bytes (n2_block_size sample_node2) (iNode2 sample_node2) b"
      using sample_blocks(3) by (simp add: nd)
  qed
  show ?thesis
    using st node2_read_all_correct [where nd = sample_node2 and ino = "\<lambda>_. sample_inode2" and offset = 18 and n = 100,
        OF sim_drive _ _ _ _ _ _ all, of 1 sample_state "[(7, 12)]" "\<lambda>_. 0" 0 0] one bytes
    by (auto simp: nd size sample_state_def)
qed

end
