(* ===== verification/Wave.thy ===== *)
theory Wave
  imports Ext22 VMM
begin

text \<open>
  \<^verbatim>\<open>kernel/list_wave.h\<close>: a wave file and the ring of 16 pages its samples are read into. \<open>fl\<close> stands for
  \<^verbatim>\<open>read_all\<close> of the file. Frames come from the frame allocator; the words of the list of pages lie in
  its memory, the bytes of a page are kept by its address. What is only printed is left out, the
  reads that fetch it are kept.
\<close>

section \<open>State\<close>

record 's au =
  fs :: 's
  pm :: pmem
  page :: "u32 \<Rightarrow> u8 list"

definition on_fs :: "('s, 'a) st \<Rightarrow> ('s au, 'a) st" where
  "on_fs m = (\<lambda>st. case m (fs st) of Inl e \<Rightarrow> Inl e | Inr (x, s) \<Rightarrow> Inr (x, st\<lparr>fs := s\<rparr>))"

text \<open>\<^verbatim>\<open>PhysMem::alloc_frame\<close>: a frame of zeros.\<close>

definition au_alloc :: "('s au, u32) st" where
  "au_alloc st =
     (case alloc_frame (pm st) of
        Inl e \<Rightarrow> Inl Panic
      | Inr (p, a) \<Rightarrow> Inr (a, st\<lparr>pm := p, page := (page st)(a := replicate 4096 0)\<rparr>))"

definition au_load :: "u32 \<Rightarrow> ('s au, u32) st" where
  "au_load a st = Inr (pm_mem (pm st) a, st)"

definition au_store :: "u32 \<Rightarrow> u32 \<Rightarrow> ('s au, unit) st" where
  "au_store a v st = Inr ((), st\<lparr>pm := pm_write (pm st) a v\<rparr>)"

text \<open>\<^verbatim>\<open>read_all\<close> of a page into the frame \<open>a\<close>.\<close>

definition read_page :: "'s reader \<Rightarrow> u32 \<Rightarrow> u32 \<Rightarrow> ('s au, unit) st" where
  "read_page fl offset a st =
     (case read_into fl offset 4096 (page st a) (fs st) of
        Inl e \<Rightarrow> Inl e
      | Inr (xs, s) \<Rightarrow> Inr ((), st\<lparr>fs := s, page := (page st)(a := xs)\<rparr>))"

section \<open>The file\<close>

record wave_header =
  fmt_chunk_marker :: "u8 list"
  length_of_fmt :: u32
  format_type :: u16
  channels :: u16
  sample_rate :: u32
  byte_rate :: u32
  bit_channels :: u16
  bits_per_sample :: u16

definition parse_wave_header :: "u8 list \<Rightarrow> wave_header" where
  "parse_wave_header xs = \<lparr>fmt_chunk_marker = take 4 xs, length_of_fmt = le32 xs 4, format_type = le16 xs 8,
     channels = le16 xs 10, sample_rate = le32 xs 12, byte_rate = le32 xs 16, bit_channels = le16 xs 20,
     bits_per_sample = le16 xs 22\<rparr>"

record wave =
  w_fmt :: wave_header
  b_entries :: u32
  w_offset :: u64
  size_of_the_junk :: u32
  size_of_the_whole_file :: u32
  bit_divsor :: u32
  bit_per_sample :: u32

text \<open>One page of the ring: a frame, its entry in the list of pages, its samples.\<close>

definition wave_page :: "'s reader \<Rightarrow> u32 \<Rightarrow> u32 \<Rightarrow> nat \<Rightarrow> ('s au, unit) st" where
  "wave_page fl b sj i =
     (let current_entry = b + of_nat (i * 16) in
      sbind au_alloc (\<lambda>addr.
      sbind (au_store current_entry addr) (\<lambda>_.
      sbind (au_store (current_entry + 4) 0) (\<lambda>_.
      sbind (au_load current_entry) (\<lambda>current_addy.
      sbind (au_store (current_entry + 8) 4096) (\<lambda>_.
      sbind (au_store (current_entry + 12) 0) (\<lambda>_.
      read_page fl (sj + of_nat (4096 * i)) current_addy)))))))"

fun wave_pages :: "'s reader \<Rightarrow> u32 \<Rightarrow> u32 \<Rightarrow> nat list \<Rightarrow> ('s au, unit) st" where
  "wave_pages fl b sj [] = ret ()"
| "wave_pages fl b sj (i # js) = sbind (wave_page fl b sj i) (\<lambda>_. wave_pages fl b sj js)"

text \<open>The constructor. \<open>junk\<close> is what fresh memory holds.\<close>

definition wave_new :: "'s reader \<Rightarrow> (nat \<Rightarrow> u8) \<Rightarrow> ('s au, wave) st" where
  "wave_new fl junk =
     sbind au_alloc (\<lambda>b.
     sbind (on_fs (read_into fl 0 4 (fresh junk 5))) (\<lambda>riff.
     sbind (on_fs (read_into fl 4 4 (fresh junk 5))) (\<lambda>size_of_file.
     sbind (on_fs (read_into fl 8 4 (fresh junk 5))) (\<lambda>wav.
     sbind (on_fs (read_into fl 12 24 (replicate 24 0))) (\<lambda>fmt_stuff.
     let fmt = parse_wave_header fmt_stuff in
     sbind (on_fs (read_into fl (12 + 24) 4 (fresh junk 5))) (\<lambda>list_tag.
     sbind (on_fs (read_into fl (12 + 24 + 4) 4 (fresh junk 5))) (\<lambda>size_of_junk.
     let sj = 12 + 24 + 4 + le32 size_of_junk 0 + 4 in
     sbind (on_fs (read_into fl sj 4 (fresh junk 5))) (\<lambda>data_tag.
     sbind (on_fs (read_into fl (sj + 4) 4 (fresh junk 5))) (\<lambda>data_size.
     let sj = sj + 8 in
     sbind (wave_pages fl b sj [0..<16]) (\<lambda>_.
     sbind (on_fs (read_into fl sj 8 (fresh junk 10))) (\<lambda>first_few.
     ret \<lparr>w_fmt = fmt, b_entries = b, w_offset = ucast (sj + 4096 * 15 + 4096), size_of_the_junk = sj,
          size_of_the_whole_file = le32 size_of_file 0,
          bit_divsor = (if sample_rate fmt = 16000 then 0x200 else 0x500),
          bit_per_sample = (if bits_per_sample fmt = 16 then 0x10 else 0)\<rparr>)))))))))))"

text \<open>The next page of the file into page \<open>index\<close> of the ring.\<close>

definition rebuildData :: "'s reader \<Rightarrow> (nat \<Rightarrow> u8) \<Rightarrow> wave \<Rightarrow> u32 \<Rightarrow> ('s au, wave) st" where
  "rebuildData fl junk w index =
     sbind (au_load (b_entries w + index * 16)) (\<lambda>current_addy.
     sbind (on_fs (read_into fl (ucast (w_offset w)) 8 (fresh junk 10))) (\<lambda>first_few.
     sbind (read_page fl (ucast (w_offset w)) current_addy) (\<lambda>_.
     ret (w\<lparr>w_offset := w_offset w + 4096\<rparr>))))"

end
