(* ===== verification/Audio.thy ===== *)
theory Audio
  imports Wave
begin

text \<open>
  \<^verbatim>\<open>kernel/audio.h\<close>: the driver of the Intel HD audio controller. The controller and the PCI configuration
  space behind the ports are a parameter; registers are read and written at their width, \<^verbatim>\<open>memcpy\<close> to a
  register byte by byte. Reads whose value is only printed are kept as reads. Polling loops have a bound.
\<close>

section \<open>The device\<close>

record 'd hda =
  h_r8 :: "u32 \<Rightarrow> 'd \<Rightarrow> u8 \<times> 'd"
  h_r16 :: "u32 \<Rightarrow> 'd \<Rightarrow> u16 \<times> 'd"
  h_r32 :: "u32 \<Rightarrow> 'd \<Rightarrow> u32 \<times> 'd"
  h_w8 :: "u32 \<Rightarrow> u8 \<Rightarrow> 'd \<Rightarrow> 'd"
  h_w16 :: "u32 \<Rightarrow> u16 \<Rightarrow> 'd \<Rightarrow> 'd"
  h_w32 :: "u32 \<Rightarrow> u32 \<Rightarrow> 'd \<Rightarrow> 'd"
  h_inl :: "u32 \<Rightarrow> 'd \<Rightarrow> u32 \<times> 'd"
  h_outl :: "u32 \<Rightarrow> u32 \<Rightarrow> 'd \<Rightarrow> 'd"

record ('s, 'd) sound =
  au :: "'s au"
  hw :: 'd
  vendorID :: u16
  headerType :: u8

definition on_au :: "('s au, 'a) st \<Rightarrow> (('s, 'd) sound, 'a) st" where
  "on_au m = (\<lambda>st. case m (au st) of Inl e \<Rightarrow> Inl e | Inr (x, a) \<Rightarrow> Inr (x, st\<lparr>au := a\<rparr>))"

definition hw_get :: "('d \<Rightarrow> 'a \<times> 'd) \<Rightarrow> (('s, 'd) sound, 'a) st" where
  "hw_get f st = (let (v, d) = f (hw st) in Inr (v, st\<lparr>hw := d\<rparr>))"

definition hw_put :: "('d \<Rightarrow> 'd) \<Rightarrow> (('s, 'd) sound, unit) st" where
  "hw_put f st = Inr ((), st\<lparr>hw := f (hw st)\<rparr>)"

section \<open>PCI configuration space\<close>

definition pci_address :: "u8 \<Rightarrow> u8 \<Rightarrow> u8 \<Rightarrow> u8 \<Rightarrow> u32" where
  "pci_address bus slot func offset =
     push_bit 16 (ucast bus) OR push_bit 11 (ucast slot) OR push_bit 8 (ucast func) OR (ucast offset AND 0xFC) OR 0x80000000"

definition readConfigDWord :: "'d hda \<Rightarrow> u8 \<Rightarrow> u8 \<Rightarrow> u8 \<Rightarrow> u8 \<Rightarrow> (('s, 'd) sound, u16) st" where
  "readConfigDWord H bus slot func offset =
     sbind (hw_put (h_outl H 0xCF8 (pci_address bus slot func offset))) (\<lambda>_.
     sbind (hw_get (h_inl H 0xCFC)) (\<lambda>v.
     ret (ucast (drop_bit (unat (offset AND 2) * 8) v AND 0xFFFF))))"

definition readConfigDWord_prive :: "'d hda \<Rightarrow> u8 \<Rightarrow> u8 \<Rightarrow> u8 \<Rightarrow> u8 \<Rightarrow> (('s, 'd) sound, u32) st" where
  "readConfigDWord_prive H bus slot func offset =
     sbind (hw_put (h_outl H 0xCF8 (pci_address bus slot func offset))) (\<lambda>_. hw_get (h_inl H 0xCFC))"

definition getVendorID :: "'d hda \<Rightarrow> u8 \<Rightarrow> u8 \<Rightarrow> u8 \<Rightarrow> (('s, 'd) sound, u16) st" where
  "getVendorID H bus device func = readConfigDWord H bus device func 0x00"

definition getVendorID_priv :: "'d hda \<Rightarrow> u8 \<Rightarrow> u8 \<Rightarrow> u8 \<Rightarrow> (('s, 'd) sound, u16) st" where
  "getVendorID_priv H bus device func = readConfigDWord H bus device func 0x00"

definition getDeviceID :: "'d hda \<Rightarrow> u8 \<Rightarrow> u8 \<Rightarrow> u8 \<Rightarrow> (('s, 'd) sound, u16) st" where
  "getDeviceID H bus device func = readConfigDWord H bus device func 0x02"

text \<open>The 16-bit value is widened to 32 bits before it is shifted.\<close>

definition getClassID :: "'d hda \<Rightarrow> u8 \<Rightarrow> u8 \<Rightarrow> u8 \<Rightarrow> (('s, 'd) sound, u8) st" where
  "getClassID H bus device func =
     sbind (readConfigDWord H bus device func 0x08) (\<lambda>v. ret (ucast (drop_bit 24 (ucast v :: u32) AND 0xFF)))"

definition getCommandRegister :: "'d hda \<Rightarrow> u8 \<Rightarrow> u8 \<Rightarrow> u8 \<Rightarrow> (('s, 'd) sound, u16) st" where
  "getCommandRegister H bus device func = readConfigDWord H bus device func 0x04"

definition getSubclassID :: "'d hda \<Rightarrow> u8 \<Rightarrow> u8 \<Rightarrow> u8 \<Rightarrow> (('s, 'd) sound, u8) st" where
  "getSubclassID H bus device func =
     sbind (readConfigDWord H bus device func 0x08) (\<lambda>v. ret (ucast (drop_bit 16 (ucast v :: u32) AND 0xFF)))"

definition getHeaderType :: "'d hda \<Rightarrow> u8 \<Rightarrow> u8 \<Rightarrow> u8 \<Rightarrow> (('s, 'd) sound, u8) st" where
  "getHeaderType H bus device func =
     sbind (readConfigDWord H bus device func 0x0C) (\<lambda>v. ret (ucast (drop_bit 16 (ucast v :: u32) AND 0xFF)))"

definition getBarZero :: "'d hda \<Rightarrow> u8 \<Rightarrow> u8 \<Rightarrow> u8 \<Rightarrow> (('s, 'd) sound, u32) st" where
  "getBarZero H bus device func = readConfigDWord_prive H bus device func 0x10"

text \<open>\<^verbatim>\<open>checkFunction\<close> reads and prints; the result says whether it reports an Intel device.\<close>

definition checkFunction :: "'d hda \<Rightarrow> u8 \<Rightarrow> u8 \<Rightarrow> u8 \<Rightarrow> (('s, 'd) sound, bool) st" where
  "checkFunction H bus device func =
     sbind (getClassID H bus device func) (\<lambda>classID.
     sbind (getSubclassID H bus device func) (\<lambda>subclassID.
     sbind (getVendorID_priv H bus device func) (\<lambda>vId.
     sbind (getDeviceID H bus device func) (\<lambda>dId.
     sbind (getBarZero H bus device func) (\<lambda>barz.
     (\<lambda>st. Inr (vendorID st = 0x8086 \<and> classID = 0x03 \<and> subclassID = 0x00, st)))))))"

fun check_functions :: "'d hda \<Rightarrow> u8 \<Rightarrow> u8 \<Rightarrow> u8 list \<Rightarrow> (('s, 'd) sound, unit) st" where
  "check_functions H bus device [] = ret ()"
| "check_functions H bus device (f # js) =
     sbind (getVendorID H bus device f) (\<lambda>v.
     sbind (if v \<noteq> 0xFFFF then checkFunction H bus device f else ret False) (\<lambda>_.
     check_functions H bus device js))"

definition checkDevice :: "'d hda \<Rightarrow> u8 \<Rightarrow> u8 \<Rightarrow> (('s, 'd) sound, unit) st" where
  "checkDevice H bus device =
     sbind (getVendorID H bus device 0) (\<lambda>v.
     sbind (\<lambda>st. Inr ((), st\<lparr>vendorID := v\<rparr>)) (\<lambda>_.
     if v = 0xFFFF then ret ()
     else
       sbind (checkFunction H bus device 0) (\<lambda>_.
       sbind (getHeaderType H bus device 0) (\<lambda>t.
       sbind (\<lambda>st. Inr ((), st\<lparr>headerType := t\<rparr>)) (\<lambda>_.
       if t AND 0x80 \<noteq> 0 then check_functions H bus device [1, 2, 3, 4, 5, 6, 7] else ret ())))))"

fun check_devices :: "'d hda \<Rightarrow> (u8 \<times> u8) list \<Rightarrow> (('s, 'd) sound, unit) st" where
  "check_devices H [] = ret ()"
| "check_devices H ((bus, device) # js) = sbind (checkDevice H bus device) (\<lambda>_. check_devices H js)"

definition checkAllBuses :: "'d hda \<Rightarrow> (('s, 'd) sound, unit) st" where
  "checkAllBuses H = check_devices H (List.product (map of_nat [0..<256]) (map of_nat [0..<32]))"

section \<open>Commands to the codec\<close>

fun wait_response :: "nat \<Rightarrow> 'd hda \<Rightarrow> u32 \<Rightarrow> (('s, 'd) sound, unit) st" where
  "wait_response 0 H base = fail Diverges"
| "wait_response (Suc k) H base =
     sbind (hw_get (h_r32 H (base + 0x68))) (\<lambda>v.
     if drop_bit 1 (v AND 0x2) \<noteq> 1 then wait_response k H base else ret ())"

definition get_response :: "nat \<Rightarrow> 'd hda \<Rightarrow> u32 \<Rightarrow> (('s, 'd) sound, u32) st" where
  "get_response polls H base =
     sbind (wait_response polls H base) (\<lambda>_.
     sbind (hw_get (h_r32 H (base + 0x68))) (\<lambda>v.
     sbind (assert (drop_bit 1 (v AND 0x2) = 1)) (\<lambda>_.
     sbind (hw_get (h_r32 H (base + 0x68))) (\<lambda>v.
     sbind (hw_put (h_w32 H (base + 0x68) (v AND 0xFFFFFFFD))) (\<lambda>_.
     hw_get (h_r32 H (base + 0x64)))))))"

text \<open>The common part of the two functions that send: status bits cleared, the command, the valid bit.\<close>

definition send_word :: "'d hda \<Rightarrow> u32 \<Rightarrow> u32 \<Rightarrow> (('s, 'd) sound, bool) st" where
  "send_word H final_command base =
     sbind (hw_get (h_r32 H (base + 0x68))) (\<lambda>v.
     sbind (hw_put (h_w32 H (base + 0x68) (v AND 0xFFFFFFFE))) (\<lambda>_.
     sbind (hw_get (h_r32 H (base + 0x68))) (\<lambda>v.
     sbind (hw_put (h_w32 H (base + 0x68) (v AND 0xFFFFFFFD))) (\<lambda>_.
     sbind (hw_get (h_r32 H (base + 0x60))) (\<lambda>_.
     sbind (hw_put (h_w32 H (base + 0x60) final_command)) (\<lambda>_.
     sbind (hw_get (h_r32 H (base + 0x60))) (\<lambda>_.
     sbind (hw_get (h_r32 H (base + 0x60))) (\<lambda>v.
     sbind (assert (v = final_command)) (\<lambda>_.
     sbind (hw_get (h_r32 H (base + 0x68))) (\<lambda>v.
     sbind (hw_put (h_w32 H (base + 0x68) (v OR 0x1))) (\<lambda>_.
     ret True)))))))))))"

definition verb :: "u32 \<Rightarrow> u32 \<Rightarrow> u32 \<Rightarrow> u32 \<Rightarrow> u32" where
  "verb codec node command dat =
     push_bit 28 (codec AND 0xf) + push_bit 20 (node AND 0xff) + push_bit 8 (command AND 0xfff) + (dat AND 0xff)"

definition verb_extended :: "u32 \<Rightarrow> u32 \<Rightarrow> u32 \<Rightarrow> u32 \<Rightarrow> u32" where
  "verb_extended codec node command dat =
     push_bit 28 (codec AND 0xf) + push_bit 20 (node AND 0xff) + push_bit 16 (command AND 0xf) + (dat AND 0xffff)"

definition send_command :: "'d hda \<Rightarrow> u32 \<Rightarrow> u32 \<Rightarrow> u32 \<Rightarrow> u32 \<Rightarrow> u32 \<Rightarrow> (('s, 'd) sound, bool) st" where
  "send_command H codec node command dat base = send_word H (verb codec node command dat) base"

definition send_comman_extended :: "'d hda \<Rightarrow> u32 \<Rightarrow> u32 \<Rightarrow> u32 \<Rightarrow> u32 \<Rightarrow> u32 \<Rightarrow> (('s, 'd) sound, bool) st" where
  "send_comman_extended H codec node command dat base = send_word H (verb_extended codec node command dat) base"

section \<open>The stream\<close>

text \<open>\<^verbatim>\<open>memcpy\<close> of bytes to a register.\<close>

fun put_bytes :: "'d hda \<Rightarrow> u32 \<Rightarrow> u8 list \<Rightarrow> (('s, 'd) sound, unit) st" where
  "put_bytes H a [] = ret ()"
| "put_bytes H a (x # xs) = sbind (hw_put (h_w8 H a x)) (\<lambda>_. put_bytes H (a + 1) xs)"

definition ready_to_play :: "'d hda \<Rightarrow> u32 \<Rightarrow> wave \<Rightarrow> (('s, 'd) sound, u16) st" where
  "ready_to_play H base w =
     (let x = base + (0x80 + 4 * 0x20) in
      sbind (hw_put (h_w32 H (x + 0x18) (b_entries w))) (\<lambda>_.
      sbind (hw_get (h_r32 H (x + 0x18))) (\<lambda>v.
      sbind (assert (v = b_entries w)) (\<lambda>_.
      sbind (put_bytes H (x + 12) [15, 0]) (\<lambda>_.
      sbind (hw_get (h_r16 H (x + 0xC))) (\<lambda>v.
      sbind (assert (v = 15)) (\<lambda>_.
      sbind (hw_get (h_r16 H (x + 0xC))) (\<lambda>_.
      sbind (put_bytes H (x + 0x8) (word_bytes 65536)) (\<lambda>_.
      sbind (hw_get (h_r32 H (x + 0x8))) (\<lambda>_.
      sbind (hw_get (h_r32 H (x + 0x8))) (\<lambda>v.
      sbind (assert (v = 4096 * 16)) (\<lambda>_.
      sbind (hw_get (h_r16 H (x + 0x12))) (\<lambda>current_FMT.
      let fmt = (current_FMT AND 0x8080) + ucast (bit_divsor w + bit_per_sample w) in
      sbind (hw_put (h_w16 H (x + 0x12) fmt)) (\<lambda>_.
      sbind (hw_get (h_r16 H (x + 0x12))) (\<lambda>_.
      ret fmt)))))))))))))))"

fun turnOnDevice :: "nat \<Rightarrow> 'd hda \<Rightarrow> u32 \<Rightarrow> (('s, 'd) sound, unit) st" where
  "turnOnDevice 0 H base = fail Diverges"
| "turnOnDevice (Suc k) H base =
     sbind (hw_get (h_r32 H (base + 8))) (\<lambda>v.
     sbind (hw_get (h_r32 H (base + 8))) (\<lambda>_. if v = 0 then turnOnDevice k H base else ret ()))"

text \<open>
  One turn of the endless loop: the position of the hardware, a page refilled when it lies more than a
  page behind, and whether the end of the file is reached, where the machine is shut down.
\<close>

definition play_turn ::
  "'d hda \<Rightarrow> 's reader \<Rightarrow> (nat \<Rightarrow> u8) \<Rightarrow> u32 \<Rightarrow> u32 \<Rightarrow> wave \<times> u64 \<times> u32 \<Rightarrow> (('s, 'd) sound, (wave \<times> u64 \<times> u32) \<times> bool) st" where
  "play_turn H fl junk x sz = (\<lambda>(w, written, index).
     sbind (hw_get (h_r32 H (x + 0x4))) (\<lambda>hardware_offset.
     sbind
       (if (ucast hardware_offset - written) mod 65536 > 4096 then
          sbind (on_au (rebuildData fl junk w index)) (\<lambda>w.
          ret (w, (written + 4096) mod 65536, (index + 1) mod 16))
        else ret (w, written, index)) (\<lambda>(w, written, index).
     ret ((w, written, index), w_offset w \<ge> ucast sz))))"

text \<open>The first \<open>n\<close> turns; \<open>True\<close> when the loop ended with the shutdown.\<close>

fun play :: "nat \<Rightarrow> 'd hda \<Rightarrow> 's reader \<Rightarrow> (nat \<Rightarrow> u8) \<Rightarrow> u32 \<Rightarrow> u32 \<Rightarrow> wave \<times> u64 \<times> u32 \<Rightarrow>
    (('s, 'd) sound, (wave \<times> u64 \<times> u32) \<times> bool) st" where
  "play 0 H fl junk x sz ring = ret (ring, False)"
| "play (Suc n) H fl junk x sz ring =
     sbind (play_turn H fl junk x sz ring) (\<lambda>(ring, over). if over then ret (ring, True) else play n H fl junk x sz ring)"

text \<open>The file is the one found by name; \<open>turns\<close> bounds the loop.\<close>

definition setup_for_audio ::
  "nat \<Rightarrow> nat \<Rightarrow> 'd hda \<Rightarrow> 's reader \<Rightarrow> (nat \<Rightarrow> u8) \<Rightarrow> (('s, 'd) sound, (wave \<times> u64 \<times> u32) \<times> bool) st" where
  "setup_for_audio turns polls H fl junk =
     (let base = 0xfebf0000; x = base + (0x80 + 4 * 0x20) in
      sbind (hw_put (h_outl H 0xCF8 0x80002004)) (\<lambda>_.
      sbind (hw_get (h_inl H 0xCFC)) (\<lambda>v.
      sbind (hw_put (h_outl H 0xCF8 0x80002004)) (\<lambda>_.
      sbind (hw_put (h_outl H 0xCFC (v OR 0x4))) (\<lambda>_.
      sbind (hw_get (h_r32 H (base + 8))) (\<lambda>v.
      sbind (hw_put (h_w32 H (base + 8) (v OR 0x01))) (\<lambda>_.
      sbind (hw_get (h_r32 H (base + 8))) (\<lambda>_.
      sbind (hw_get (h_r8 H (base + 3))) (\<lambda>v.
      sbind (assert (v = 1)) (\<lambda>_.
      sbind (hw_get (h_r8 H (base + 2))) (\<lambda>v.
      sbind (assert (v = 0)) (\<lambda>_.
      sbind (hw_get (h_r32 H base)) (\<lambda>_.
      sbind (turnOnDevice polls H base) (\<lambda>_.
      sbind (on_au (wave_new fl junk)) (\<lambda>w.
      sbind (ready_to_play H base w) (\<lambda>fmt.
      sbind (send_command H 0 3 0xf07 0 base) (\<lambda>_.
      sbind (get_response polls H base) (\<lambda>current_pinCntl.
      sbind (send_command H 0 3 0x707 (current_pinCntl OR 0x40) base) (\<lambda>_.
      sbind (send_command H 0 2 0x706 0x10 base) (\<lambda>_.
      sbind (send_comman_extended H 0 2 0x3 0xB035 base) (\<lambda>_.
      sbind (send_comman_extended H 0 2 0x2 (ucast fmt) base) (\<lambda>_.
      sbind (hw_get (h_r32 H x)) (\<lambda>v.
      sbind (hw_put (h_w32 H x (v + 0x100000))) (\<lambda>_.
      sbind (hw_get (h_r32 H x)) (\<lambda>v.
      sbind (hw_put (h_w32 H x (v + 0x2))) (\<lambda>_.
      sbind (hw_get (h_r32 H x)) (\<lambda>_.
      play turns H fl junk x (size_of_the_whole_file w) (w, 0, 0))))))))))))))))))))))))))))"

end
