(* ===== verification/Audio_Props.thy ===== *)
theory Audio_Props
  imports Audio Ext22_Props
begin

text \<open>
  The ring of pages that the sound hardware plays: it always holds 16 consecutive pages of the file.
\<close>

section \<open>Reading the file\<close>

text \<open>\<open>fl\<close> reads the bytes \<open>c\<close> of a file of \<open>L\<close> bytes, in the states with \<open>I\<close>.\<close>

definition file_bytes :: "('s \<Rightarrow> bool) \<Rightarrow> 's reader \<Rightarrow> (nat \<Rightarrow> u8) \<Rightarrow> nat \<Rightarrow> bool" where
  "file_bytes I fl c L \<longleftrightarrow>
     (\<forall>offset n. unat offset \<le> L \<longrightarrow>
        gives I (fl offset n) (int (min (unat n) (L - unat offset)), chunk c (unat offset) (min (unat n) (L - unat offset))))"

text \<open>The bytes of a page from position \<open>p\<close> of the file on, as far as the file goes.\<close>

definition holds_page :: "(nat \<Rightarrow> u8) \<Rightarrow> nat \<Rightarrow> nat \<Rightarrow> u8 list \<Rightarrow> bool" where
  "holds_page c L p xs \<longleftrightarrow> length xs = 4096 \<and> (\<forall>j < 4096. p + j < L \<longrightarrow> xs ! j = c (p + j))"

lemma read_into_file:
  assumes "file_bytes I fl c L" and "unat offset \<le> L" and "m = min (unat n) (L - unat offset)"
  shows "gives I (read_into fl offset n buf) (take (length buf) (chunk c (unat offset) m @ drop m buf))"
  unfolding read_into_def
  by (rule gives_bind) (use assms in \<open>auto simp: file_bytes_def intro!: gives_ret\<close>)

lemma read_word:
  assumes "file_bytes I fl c L" and "unat offset + 4 \<le> L" and "4 \<le> length buf"
  shows "\<exists>xs. gives I (read_into fl offset 4 buf) xs \<and> le32 xs 0 = le32_at c (unat offset)"
proof -
  have "gives I (read_into fl offset 4 buf) (take (length buf) (chunk c (unat offset) 4 @ drop 4 buf))"
    by (rule read_into_file [OF assms(1)]) (use assms(2) in auto)
  moreover have "le32 (take (length buf) (chunk c (unat offset) 4 @ drop 4 buf)) 0 = le32_at c (unat offset)"
    using assms(3) by (simp add: le32_def le32_at_def chunk_def nth_append)
  ultimately show ?thesis by blast
qed

lemma on_fs_gives:
  assumes "gives I m x" and "I (fs st)"
  shows "\<exists>s. on_fs m st = Inr (x, st\<lparr>fs := s\<rparr>) \<and> I s"
  using assms by (fastforce simp: gives_def on_fs_def)

lemma read_page_gives:
  assumes "file_bytes I fl c L" and "unat offset \<le> L" and "I (fs st)" and "length (page st a) = 4096"
  shows "\<exists>s xs. read_page fl offset a st = Inr ((), st\<lparr>fs := s, page := (page st)(a := xs)\<rparr>) \<and> I s \<and> holds_page c L (unat offset) xs"
proof -
  define m where "m = min 4096 (L - unat offset)"
  let ?xs = "take 4096 (chunk c (unat offset) m @ drop m (page st a))"
  have "gives I (read_into fl offset 4096 (page st a)) ?xs"
    using read_into_file [OF assms(1,2), of m 4096 "page st a"] assms(4) by (simp add: m_def)
  then obtain s where "read_into fl offset 4096 (page st a) (fs st) = Inr (?xs, s)" "I s"
    using assms(3) by (auto simp: gives_def)
  moreover have "holds_page c L (unat offset) ?xs"
    using assms(4) by (auto simp: holds_page_def m_def chunk_def nth_append)
  ultimately show ?thesis by (auto simp: read_page_def)
qed

section \<open>The ring\<close>

text \<open>The frame of page \<open>k\<close>, as the hardware finds it.\<close>

definition ring_frame :: "'s au \<Rightarrow> wave \<Rightarrow> nat \<Rightarrow> u32" where
  "ring_frame st w k = pm_mem (pm st) (b_entries w + of_nat (k * 16))"

text \<open>
  After \<open>n\<close> refills: the pages are different frames, the next one to refill is \<open>n mod 16\<close>, and the pages
  hold the pages \<open>n, ..., n + 15\<close> of the samples, each in its place.
\<close>

definition ring :: "(nat \<Rightarrow> u8) \<Rightarrow> nat \<Rightarrow> 's au \<Rightarrow> wave \<Rightarrow> u64 \<Rightarrow> u32 \<Rightarrow> nat \<Rightarrow> bool" where
  "ring c L st w written index n \<longleftrightarrow>
     w_offset w = of_nat (unat (size_of_the_junk w) + 65536 + 4096 * n) \<and>
     written = of_nat (4096 * (n mod 16)) \<and> index = of_nat (n mod 16) \<and>
     distinct (map (ring_frame st w) [0..<16]) \<and>
     (\<forall>m. n \<le> m \<and> m < n + 16 \<longrightarrow>
        holds_page c L (unat (size_of_the_junk w) + 4096 * m) (page st (ring_frame st w (m mod 16))))"

lemma unat_of_nat_small: "N < 2 ^ 64 \<Longrightarrow> unat (of_nat N :: u64) = N" "N < 2 ^ 32 \<Longrightarrow> unat (of_nat N :: u32) = N"
  by (simp_all add: unat_of_nat take_bit_nat_eq_self)

lemma step_written: "k < 16 \<Longrightarrow> (of_nat (4096 * k) + 4096) mod 65536 = (of_nat (4096 * (Suc k mod 16)) :: u64)"
proof (rule word_unat_eq_iff [THEN iffD2])
  assume k: "k < 16"
  have m: "Suc k mod 16 < 16" by simp
  have e: "(of_nat (4096 * k) + 4096 :: u64) = of_nat (4096 * Suc k)" by simp
  have "unat (of_nat (4096 * Suc k) :: u64) = 4096 * Suc k" "unat (of_nat (4096 * (Suc k mod 16)) :: u64) = 4096 * (Suc k mod 16)"
    by (rule unat_of_nat_small; use k m in simp)+
  then show "unat ((of_nat (4096 * k) + 4096) mod 65536 :: u64) = unat (of_nat (4096 * (Suc k mod 16)) :: u64)"
    unfolding e unat_mod by (simp only:) (simp add: mult_mod_right)
qed

lemma step_index: "k < 16 \<Longrightarrow> (of_nat k + 1) mod 16 = (of_nat (Suc k mod 16) :: u32)"
proof (rule word_unat_eq_iff [THEN iffD2])
  assume k: "k < 16"
  have m: "Suc k mod 16 < 16" by simp
  have e: "(of_nat k + 1 :: u32) = of_nat (Suc k)" by simp
  have "unat (of_nat (Suc k) :: u32) = Suc k" "unat (of_nat (Suc k mod 16) :: u32) = Suc k mod 16"
    by (rule unat_of_nat_small; use k m in simp)+
  then show "unat ((of_nat k + 1) mod 16 :: u32) = unat (of_nat (Suc k mod 16) :: u32)"
    unfolding e unat_mod by (simp only:) simp
qed

lemma offset32: "N < 2 ^ 32 \<Longrightarrow> unat (ucast (of_nat N :: u64) :: u32) = N"
  by (simp add: unsigned_ucast_eq unat_of_nat take_bit_nat_eq_self)

lemma ring_slot: "(of_nat (n mod 16) :: u32) * 16 = of_nat (n mod 16 * 16)"
  by simp

text \<open>A refill of the page whose turn it is.\<close>

lemma rebuild_ring:
  assumes f: "file_bytes I fl c L" and L: "L < 2 ^ 32" and I: "I (fs st)"
    and r: "ring c L st w written index n" and le: "unat (size_of_the_junk w) + 65536 + 4096 * n \<le> L"
  shows "\<exists>w' st'. rebuildData fl junk w index st = Inr (w', st') \<and> I (fs st') \<and>
    size_of_the_junk w' = size_of_the_junk w \<and> size_of_the_whole_file w' = size_of_the_whole_file w \<and>
    ring c L st' w' ((written + 4096) mod 65536) ((index + 1) mod 16) (Suc n)"
proof -
  let ?pos = "unat (size_of_the_junk w) + 65536 + 4096 * n" and ?a = "ring_frame st w (n mod 16)"
  have off: "unat (ucast (w_offset w) :: u32) = ?pos" using r le L offset32 [of ?pos] by (simp add: ring_def)
  have idx: "index = of_nat (n mod 16)" and wr: "written = of_nat (4096 * (n mod 16))" using r by (simp_all add: ring_def)
  have addr: "au_load (b_entries w + index * 16) st = Inr (?a, st)"
    unfolding idx ring_slot by (simp add: au_load_def ring_frame_def)
  obtain s1 where s1: "on_fs (read_into fl (ucast (w_offset w)) 8 (fresh junk 10)) st = Inr
      (take (length (fresh junk 10)) (chunk c ?pos (min 8 (L - ?pos)) @ drop (min 8 (L - ?pos)) (fresh junk 10)), st\<lparr>fs := s1\<rparr>)" "I s1"
    using on_fs_gives [OF read_into_file [OF f, of "ucast (w_offset w)" _ 8 "fresh junk 10", OF _ refl] I] le
    unfolding off by auto
  have pl: "length (page (st\<lparr>fs := s1\<rparr>) ?a) = 4096"
    using r by (auto simp: ring_def holds_page_def)
  obtain s2 xs where s2: "read_page fl (ucast (w_offset w)) ?a (st\<lparr>fs := s1\<rparr>) = Inr ((), st\<lparr>fs := s2, page := (page st)(?a := xs)\<rparr>)"
      "I s2" "holds_page c L ?pos xs"
    using read_page_gives [OF f, of "ucast (w_offset w)" "st\<lparr>fs := s1\<rparr>" ?a] le s1(2) pl unfolding off by auto
  let ?st = "st\<lparr>fs := s2, page := (page st)(?a := xs)\<rparr>" and ?w = "w\<lparr>w_offset := w_offset w + 4096\<rparr>"
  have run: "rebuildData fl junk w index st = Inr (?w, ?st)"
    unfolding rebuildData_def sbind_def addr by (simp add: s1(1) s2(1) ret_def)
  have fr: "ring_frame ?st ?w k = ring_frame st w k" for k by (simp add: ring_frame_def)
  have inj: "inj_on (ring_frame st w) {0..<16}" using r by (simp add: ring_def distinct_map)
  have pages: "holds_page c L (unat (size_of_the_junk w) + 4096 * m) (page ?st (ring_frame st w (m mod 16)))"
    if m: "Suc n \<le> m" "m < Suc n + 16" for m
  proof (cases "m = n + 16")
    case True
    then show ?thesis using s2(3) by (simp add: algebra_simps)
  next
    case False
    then have "0 < m - n" "m - n < 16" "n \<le> m" using m by linarith+
    then have "m mod 16 \<noteq> n mod 16" using mod_eq_dvd_iff_nat [of n m 16] nat_dvd_not_less [of "m - n" 16] by blast
    then have "ring_frame st w (m mod 16) \<noteq> ?a" using inj by (auto simp: inj_on_def)
    then show ?thesis using r m False by (simp add: ring_def)
  qed
  have ofs: "w_offset w + 4096 = of_nat (unat (size_of_the_junk w) + 65536 + 4096 * Suc n)"
    using r by (simp add: ring_def algebra_simps)
  have pos: "(written + 4096) mod 65536 = of_nat (4096 * (Suc n mod 16))" "(index + 1) mod 16 = of_nat (Suc n mod 16)"
    unfolding wr idx using step_written [of "n mod 16"] step_index [of "n mod 16"] by (simp_all add: mod_Suc_eq)
  have dist: "distinct (map (ring_frame st w) [0..<16])" using r by (simp add: ring_def)
  define w' where "w' = ?w"
  have w': "w_offset w' = w_offset w + 4096" "size_of_the_junk w' = size_of_the_junk w"
    "size_of_the_whole_file w' = size_of_the_whole_file w" by (simp_all add: w'_def)
  have "ring c L ?st w' ((written + 4096) mod 65536) ((index + 1) mod 16) (Suc n)"
    unfolding ring_def w'(1,2) fr [folded w'_def]
    by (intro conjI allI impI; (rule pos ofs dist | (elim conjE, rule pages; assumption)))
  then show ?thesis using run [folded w'_def] w' s2(2) by auto
qed

section \<open>The loop\<close>

lemma over_iff:
  assumes "ring c L st w written index n" and "unat (size_of_the_junk w) + 65536 + 4096 * n < 2 ^ 64"
  shows "w_offset w \<ge> ucast sz \<longleftrightarrow> unat (sz :: u32) \<le> unat (size_of_the_junk w) + 65536 + 4096 * n"
proof -
  have "unat (w_offset w) = unat (size_of_the_junk w) + 65536 + 4096 * n"
    using assms unat_of_nat_small(1) [OF assms(2)] by (simp add: ring_def)
  moreover have "unat (ucast sz :: u64) = unat sz"
    using unat_bound [of sz] by (simp add: unsigned_ucast_eq take_bit_nat_eq_self)
  ultimately show ?thesis by (simp add: word_le_nat_alt)
qed

text \<open>One turn refills one page or none.\<close>

lemma turn_ring:
  assumes f: "file_bytes I fl c L" and L: "L < 2 ^ 32" and I: "I (fs (au st))"
    and r: "ring c L (au st) w written index n" and le: "unat (size_of_the_junk w) + 65536 + 4096 * n \<le> L"
  shows "\<exists>w' written' index' over st' n'. play_turn H fl junk x sz (w, written, index) st = Inr (((w', written', index'), over), st') \<and>
    I (fs (au st')) \<and> n \<le> n' \<and> n' \<le> Suc n \<and> size_of_the_junk w' = size_of_the_junk w \<and>
    ring c L (au st') w' written' index' n' \<and> over = (unat sz \<le> unat (size_of_the_junk w) + 65536 + 4096 * n')"
proof -
  obtain h d where h: "h_r32 H (x + 0x4) (hw st) = (h, d)" by fastforce
  show ?thesis
  proof (cases "(ucast h - written) mod 65536 > 4096")
    case True
    obtain w' a where w': "rebuildData fl junk w index (au st) = Inr (w', a)" "I (fs a)" "size_of_the_junk w' = size_of_the_junk w"
      "ring c L a w' ((written + 4096) mod 65536) ((index + 1) mod 16) (Suc n)"
      using rebuild_ring [OF f L I r le] by blast
    have "(w_offset w' \<ge> ucast sz) = (unat sz \<le> unat (size_of_the_junk w) + 65536 + 4096 * Suc n)"
      using over_iff [OF w'(4), of sz] w'(3) le L by simp
    moreover have "play_turn H fl junk x sz (w, written, index) st = Inr (((w', (written + 4096) mod 65536, (index + 1) mod 16),
        w_offset w' \<ge> ucast sz), st\<lparr>hw := d, au := a\<rparr>)"
      using True w'(1) by (simp add: play_turn_def sbind_def hw_get_def h on_au_def ret_def)
    ultimately show ?thesis using w' by (auto intro!: exI [of _ "Suc n"])
  next
    case False
    have "(w_offset w \<ge> ucast sz) = (unat sz \<le> unat (size_of_the_junk w) + 65536 + 4096 * n)"
      using over_iff [OF r, of sz] le L by simp
    moreover have "play_turn H fl junk x sz (w, written, index) st = Inr (((w, written, index), w_offset w \<ge> ucast sz), st\<lparr>hw := d\<rparr>)"
      using False by (simp add: play_turn_def sbind_def hw_get_def h ret_def)
    ultimately show ?thesis using r I by (auto intro!: exI [of _ n])
  qed
qed

lemma play_ring:
  assumes f: "file_bytes I fl c L" and L: "L < 2 ^ 32" and sz: "unat sz \<le> L"
  shows "I (fs (au st)) \<Longrightarrow> ring c L (au st) w written index n \<Longrightarrow> unat (size_of_the_junk w) + 65536 + 4096 * n \<le> L \<Longrightarrow>
    \<exists>w' written' index' over st' n'. play turns H fl junk x sz (w, written, index) st = Inr (((w', written', index'), over), st') \<and>
      I (fs (au st')) \<and> n \<le> n' \<and> n' \<le> n + turns \<and> size_of_the_junk w' = size_of_the_junk w \<and>
      ring c L (au st') w' written' index' n' \<and> unat (size_of_the_junk w) + 65536 + 4096 * n' \<le> L + 4096 \<and>
      (over \<longrightarrow> unat sz \<le> unat (size_of_the_junk w) + 65536 + 4096 * n')"
proof (induction turns arbitrary: st w written index n)
  case 0
  have "play 0 H fl junk x sz (w, written, index) st = Inr (((w, written, index), False), st)" by (simp add: ret_def)
  moreover have "unat (size_of_the_junk w) + 65536 + 4096 * n \<le> L + 4096" "n \<le> n + 0" using 0(3) by linarith+
  ultimately show ?case using 0(1,2) by blast
next
  case (Suc turns)
  obtain w1 wr1 i1 over st1 n1 where t: "play_turn H fl junk x sz (w, written, index) st = Inr (((w1, wr1, i1), over), st1)"
    "I (fs (au st1))" "n \<le> n1" "n1 \<le> Suc n" "size_of_the_junk w1 = size_of_the_junk w" "ring c L (au st1) w1 wr1 i1 n1"
    "over = (unat sz \<le> unat (size_of_the_junk w) + 65536 + 4096 * n1)"
    using turn_ring [OF f L Suc.prems, where H = H and x = x and junk = junk and sz = sz] by blast
  show ?case
  proof (cases over)
    case True
    then have "play (Suc turns) H fl junk x sz (w, written, index) st = Inr (((w1, wr1, i1), True), st1)"
      by (simp add: sbind_def t(1) ret_def)
    moreover have "unat (size_of_the_junk w) + 65536 + 4096 * n1 \<le> L + 4096" "n1 \<le> n + Suc turns" using t(4) Suc.prems(3) by linarith+
    ultimately show ?thesis using t True by blast
  next
    case False
    then have "unat (size_of_the_junk w1) + 65536 + 4096 * n1 \<le> L" using t(5,7) sz by simp
    from Suc.IH [OF t(2,6) this] t(3-5) obtain w2 wr2 i2 over2 st2 n2 where
      "play turns H fl junk x sz (w1, wr1, i1) st1 = Inr (((w2, wr2, i2), over2), st2)" "I (fs (au st2))" "n1 \<le> n2" "n2 \<le> n1 + turns"
      "size_of_the_junk w2 = size_of_the_junk w" "ring c L (au st2) w2 wr2 i2 n2"
      "unat (size_of_the_junk w) + 65536 + 4096 * n2 \<le> L + 4096" "over2 \<longrightarrow> unat sz \<le> unat (size_of_the_junk w) + 65536 + 4096 * n2" by auto
    moreover from this(1) False have "play (Suc turns) H fl junk x sz (w, written, index) st = Inr (((w2, wr2, i2), over2), st2)"
      by (simp add: sbind_def t(1))
    moreover have "n \<le> n2" "n2 \<le> n + Suc turns" using t(3,4) \<open>n1 \<le> n2\<close> \<open>n2 \<le> n1 + turns\<close> by linarith+
    ultimately show ?thesis by blast
  qed
qed

section \<open>Building the ring\<close>

lemma au_alloc_gives:
  assumes "pm_inv (pm st)" and "pm_free (pm st) \<noteq> {}"
  shows "\<exists>p s. au_alloc st = Inr (p, st\<lparr>pm := s, page := (page st)(p := replicate 4096 0)\<rparr>) \<and> p \<in> pm_free (pm st) \<and>
    pm_offset p = 0 \<and> pm_inv s \<and> pm_free s = pm_free (pm st) - {p} \<and> pm_mem s = bzero_frame (pm_mem (pm st)) p"
  using assms(2) by (cases rule: alloc_sound [OF assms(1)]) (auto simp: au_alloc_def)

text \<open>The first \<open>k\<close> entries of the list of pages are the frames \<open>ps\<close>, and these hold the first pages of the samples.\<close>

definition building :: "('s \<Rightarrow> bool) \<Rightarrow> (nat \<Rightarrow> u8) \<Rightarrow> nat \<Rightarrow> u32 \<Rightarrow> nat \<Rightarrow> u32 list \<Rightarrow> 's au \<Rightarrow> bool" where
  "building I c L b sj ps st \<longleftrightarrow>
     I (fs st) \<and> pm_inv (pm st) \<and> pm_offset b = 0 \<and> b \<notin> pm_free (pm st) \<and> distinct ps \<and>
     (\<forall>p \<in> set ps. p \<notin> pm_free (pm st)) \<and> 16 \<le> card (pm_free (pm st)) + length ps \<and>
     (\<forall>i < length ps. pm_mem (pm st) (b + of_nat (i * 16)) = ps ! i \<and> holds_page c L (sj + 4096 * i) (page st (ps ! i)))"

text \<open>Word \<open>j\<close> of the frame \<open>b\<close>.\<close>

lemma entry_word: "(b :: u32) + of_nat (i * 16) + 4 * of_nat j = b + 4 * of_nat (4 * i + j)"
  by (simp add: algebra_simps)

lemma entry_frame:
  assumes "pm_offset b = 0" and "i < 16" and "j < 4"
  shows "frame (b + of_nat (i * 16) + 4 * of_nat j) = b"
proof -
  have "unat (of_nat (4 * i + j) :: u32) = 4 * i + j" by (rule unat_of_nat_small) (use assms in simp)
  then have "(of_nat (4 * i + j) :: u32) < 1024" using assms(2,3) by (simp add: word_less_nat_alt)
  then show ?thesis unfolding entry_word by (rule frame_slot [OF assms(1)])
qed

lemma entry_other:
  assumes "pm_offset b = 0" and "i < 16" and "k < 16" and "j < 4" and "i \<noteq> k \<or> 0 < j"
  shows "b + of_nat (i * 16) \<noteq> b + of_nat (k * 16) + 4 * of_nat j"
proof -
  have u: "unat (of_nat (4 * i) :: u32) = 4 * i" "unat (of_nat (4 * k + j) :: u32) = 4 * k + j"
    by (rule unat_of_nat_small; use assms in simp)+
  then have lt: "(of_nat (4 * i) :: u32) < 1024" "(of_nat (4 * k + j) :: u32) < 1024"
    using assms(2-4) by (simp_all add: word_less_nat_alt)
  have "4 * i \<noteq> 4 * k + j" using assms(4,5) by presburger
  then have "(of_nat (4 * i) :: u32) \<noteq> of_nat (4 * k + j)" using u by metis
  then have "b + 4 * of_nat (4 * i) \<noteq> b + 4 * of_nat (4 * k + j)" using slot_inj [OF assms(1) lt] by blast
  moreover have "b + of_nat (i * 16) = b + 4 * of_nat (4 * i)" by (simp add: mult.commute)
  ultimately show ?thesis unfolding entry_word by metis
qed

text \<open>The four words of entry \<open>k\<close>.\<close>

definition put_entry :: "u32 \<Rightarrow> u32 \<Rightarrow> pmem \<Rightarrow> pmem" where
  "put_entry e p s = pm_write (pm_write (pm_write (pm_write s e p) (e + 4) 0) (e + 8) 4096) (e + 12) 0"

lemma put_entry_mem:
  assumes b: "pm_offset b = 0" and k: "k < 16" and e: "e = b + of_nat (k * 16)"
  shows "pm_mem (put_entry e p s) e = p"
    and "i < 16 \<Longrightarrow> i \<noteq> k \<Longrightarrow> pm_mem (put_entry e p s) (b + of_nat (i * 16)) = pm_mem s (b + of_nat (i * 16))"
    and "pm_inv s \<Longrightarrow> b \<notin> pm_free s \<Longrightarrow> pm_inv (put_entry e p s) \<and> pm_free (put_entry e p s) = pm_free s"
proof -
  have ne: "b + of_nat (i * 16) \<noteq> e" "b + of_nat (i * 16) \<noteq> e + 4" "b + of_nat (i * 16) \<noteq> e + 8" "b + of_nat (i * 16) \<noteq> e + 12"
    if "i < 16" "i \<noteq> k" for i
    using entry_other [OF b that(1) k, of 0] entry_other [OF b that(1) k, of 1] entry_other [OF b that(1) k, of 2]
      entry_other [OF b that(1) k, of 3] that(2) unfolding e by simp_all
  have ek: "e \<noteq> e + 4" "e \<noteq> e + 8" "e \<noteq> e + 12"
    using entry_other [OF b k k, of 1] entry_other [OF b k k, of 2] entry_other [OF b k k, of 3] unfolding e by simp_all
  have fr: "frame e = b" "frame (e + 4) = b" "frame (e + 8) = b" "frame (e + 12) = b"
    using entry_frame [OF b k, of 0] entry_frame [OF b k, of 1] entry_frame [OF b k, of 2] entry_frame [OF b k, of 3]
    unfolding e by simp_all
  show "pm_mem (put_entry e p s) e = p" using ek by (simp add: put_entry_def)
  show "i < 16 \<Longrightarrow> i \<noteq> k \<Longrightarrow> pm_mem (put_entry e p s) (b + of_nat (i * 16)) = pm_mem s (b + of_nat (i * 16))"
    using ne [of i] by (simp add: put_entry_def)
  show "pm_inv s \<Longrightarrow> b \<notin> pm_free s \<Longrightarrow> pm_inv (put_entry e p s) \<and> pm_free (put_entry e p s) = pm_free s"
    by (simp add: put_entry_def pm_write_free fr)
qed

lemma au_order: "st\<lparr>page := y, pm := x\<rparr> = st\<lparr>pm := x, page := y\<rparr>" for st :: "'s au"
  by (cases st) simp

lemma wave_page_step:
  assumes f: "file_bytes I fl c L" and L: "L < 2 ^ 32" and B: "building I c L b (unat sj) ps st"
    and k: "length ps = k" "k < 16" and le: "unat sj + 4096 * k \<le> L"
  shows "\<exists>p st'. wave_page fl b sj k st = Inr ((), st') \<and> building I c L b (unat sj) (ps @ [p]) st'"
proof -
  let ?e = "b + of_nat (k * 16)"
  have b: "pm_offset b = 0" "b \<notin> pm_free (pm st)" and inv: "pm_inv (pm st)" and I: "I (fs st)"
    and ps: "distinct ps" "\<forall>p \<in> set ps. p \<notin> pm_free (pm st)" and card: "16 \<le> card (pm_free (pm st)) + k"
    and old: "\<forall>i < k. pm_mem (pm st) (b + of_nat (i * 16)) = ps ! i \<and> holds_page c L (unat sj + 4096 * i) (page st (ps ! i))"
    using B k(1) by (auto simp: building_def)
  have ne: "pm_free (pm st) \<noteq> {}" using card k(2) by auto
  obtain p s where p: "au_alloc st = Inr (p, st\<lparr>pm := s, page := (page st)(p := replicate 4096 0)\<rparr>)" "p \<in> pm_free (pm st)"
    "pm_offset p = 0" "pm_inv s" "pm_free s = pm_free (pm st) - {p}" "pm_mem s = bzero_frame (pm_mem (pm st)) p"
    using au_alloc_gives [OF inv ne] by blast
  note mem = put_entry_mem [OF b(1) k(2) refl, where p = p and s = s]
  have W: "pm_inv (put_entry ?e p s)" "pm_free (put_entry ?e p s) = pm_free (pm st) - {p}"
    using mem(3) p(4,5) b(2) by auto
  have bp: "b \<noteq> p" using b(2) p(2) by blast
  have "unat (of_nat (4096 * k) :: u32) = 4096 * k" by (rule unat_of_nat_small) (use k(2) in simp)
  then have off: "unat (sj + of_nat (4096 * k)) = unat sj + 4096 * k"
    using le L unat_add_lem [of sj "of_nat (4096 * k)", THEN iffD1] by simp
  let ?st1 = "st\<lparr>pm := put_entry ?e p s, page := (page st)(p := replicate 4096 0)\<rparr>"
  obtain t xs where t: "read_page fl (sj + of_nat (4096 * k)) p ?st1 = Inr ((), ?st1\<lparr>fs := t, page := (page ?st1)(p := xs)\<rparr>)"
    "I t" "holds_page c L (unat sj + 4096 * k) xs"
    using read_page_gives [OF f, of "sj + of_nat (4096 * k)" ?st1 p] le I unfolding off by auto
  let ?st' = "?st1\<lparr>fs := t, page := (page ?st1)(p := xs)\<rparr>"
  have ek: "?e \<noteq> ?e + 4" using entry_other [OF b(1) k(2) k(2), of 1] by simp
  have run: "wave_page fl b sj k st = Inr ((), ?st')"
    unfolding wave_page_def Let_def sbind_def p(1) using t(1) ek
    by (simp add: au_store_def au_load_def put_entry_def au_order)
  have "pm_mem (pm ?st') (b + of_nat (i * 16)) = (ps @ [p]) ! i \<and> holds_page c L (unat sj + 4096 * i) (page ?st' ((ps @ [p]) ! i))"
    if i: "i < length (ps @ [p])" for i
  proof (cases "i = k")
    case True
    then show ?thesis using mem(1) t(3) k(1) by (simp add: nth_append)
  next
    case False
    then have ik: "i < k" using i k(1) by simp
    have "frame (b + of_nat (i * 16)) = b" using entry_frame [OF b(1), of i 0] ik k(2) by simp
    then have "bzero_frame (pm_mem (pm st)) p (b + of_nat (i * 16)) = pm_mem (pm st) (b + of_nat (i * 16))"
      using bp by (intro bzero_other [OF p(3)]) simp
    moreover have "ps ! i \<noteq> p" using ps(2) p(2) ik k(1) nth_mem by metis
    ultimately show ?thesis using old ik k mem(2) [of i] p(6) False by (simp add: nth_append)
  qed
  moreover have "distinct (ps @ [p])" using ps p(2) by auto
  moreover have "\<forall>q \<in> set (ps @ [p]). q \<notin> pm_free (pm ?st')" using W(2) ps(2) by auto
  moreover have "16 \<le> card (pm_free (pm ?st')) + length (ps @ [p])"
    using card k(1) W(2) p(2) ne by (simp add: card_Diff_singleton_if)
  ultimately have "building I c L b (unat sj) (ps @ [p]) ?st'"
    unfolding building_def using t(2) W b by simp
  then show ?thesis using run by blast
qed

lemma wave_pages_steps:
  assumes f: "file_bytes I fl c L" and L: "L < 2 ^ 32" and le: "unat sj + 65536 \<le> L"
  shows "building I c L b (unat sj) ps st \<Longrightarrow> length ps = k \<Longrightarrow> k + m = 16 \<Longrightarrow>
    \<exists>qs st'. wave_pages fl b sj [k..<16] st = Inr ((), st') \<and> length qs = 16 \<and> building I c L b (unat sj) qs st'"
proof (induction m arbitrary: k ps st)
  case 0
  then show ?case by (auto simp: ret_def)
next
  case (Suc m)
  have "k < 16" "unat sj + 4096 * k \<le> L" using Suc.prems(3) le by simp_all
  from wave_page_step [OF f L Suc.prems(1,2) this] obtain p st1 where
    p: "wave_page fl b sj k st = Inr ((), st1)" "building I c L b (unat sj) (ps @ [p]) st1" by blast
  have "length (ps @ [p]) = Suc k" "Suc k + m = 16" using Suc.prems by simp_all
  from Suc.IH [OF p(2) this] p(1) Suc.prems(3) show ?case
    by (auto simp: upt_conv_Cons sbind_def)
qed

text \<open>Reading the file changes only the state behind it.\<close>

lemma on_fs_yields:
  assumes "gives I m x" and "\<And>st. J st \<Longrightarrow> I (fs st)" and "\<And>st s. J st \<Longrightarrow> I s \<Longrightarrow> J (st\<lparr>fs := s\<rparr>)"
  shows "yields J (on_fs m) x J"
  unfolding yields_def
proof (intro allI impI)
  fix st assume st: "J st"
  from on_fs_gives [of I m x st, OF assms(1) assms(2) [OF st]] obtain s where "on_fs m st = Inr (x, st\<lparr>fs := s\<rparr>)" "I s" by blast
  then show "\<exists>st'. on_fs m st = Inr (x, st') \<and> J st'" using assms(3) [OF st] by blast
qed

lemma sbind_run: "m s = Inr (x, s') \<Longrightarrow> sbind m f s = f x s'"
  by (simp add: sbind_def)

lemma yields_run: "yields I m x J \<Longrightarrow> I s \<Longrightarrow> \<exists>s'. m s = Inr (x, s') \<and> J s'"
  by (simp add: yields_def)

lemma wave_new_ring:
  assumes f: "file_bytes I fl c L" and L: "L < 2 ^ 32" and I: "I (fs st)"
    and pm: "pm_inv (pm st)" "17 \<le> card (pm_free (pm st))"
    and long: "52 + unat (le32_at c 40) + 65536 \<le> L"
  shows "\<exists>w st'. wave_new fl junk st = Inr (w, st') \<and> I (fs st') \<and>
    unat (size_of_the_junk w) = 52 + unat (le32_at c 40) \<and> size_of_the_whole_file w = le32_at c 4 \<and> ring c L st' w 0 0 0"
proof -
  have ne: "pm_free (pm st) \<noteq> {}" using pm(2) by auto
  obtain b s0 where b: "au_alloc st = Inr (b, st\<lparr>pm := s0, page := (page st)(b := replicate 4096 0)\<rparr>)" "b \<in> pm_free (pm st)"
    "pm_offset b = 0" "pm_inv s0" "pm_free s0 = pm_free (pm st) - {b}"
    using au_alloc_gives [OF pm(1) ne] by blast
  define K where "K = (\<lambda>t :: 'a au. I (fs t) \<and> pm t = s0)"
  define J where "J = (\<lambda>t :: 'a au. \<exists>qs. length qs = 16 \<and> building I c L b (52 + unat (le32_at c 40)) qs t)"
  have K0: "K (st\<lparr>pm := s0, page := (page st)(b := replicate 4096 0)\<rparr>)" using I by (simp add: K_def)
  have rd: "yields K (on_fs (read_into fl off n buf)) (take (length buf) (chunk c (unat off) (unat n) @ drop (unat n) buf)) K"
    if "unat off + unat n \<le> L" for off n buf
    by (rule on_fs_yields [where I = I, OF read_into_file [OF f]]) (use that in \<open>auto simp: K_def\<close>)
  define sj where "sj = 12 + 24 + 4 + le32_at c 40 + 4"
  have lt: "unat (le32_at c 40) + 65588 < 2 ^ 32" using long L by linarith
  have add: "unat (le32_at c 40 + k) = unat (le32_at c 40) + unat k" if "unat k \<le> 65588" for k
    by (rule unat_add_lem [THEN iffD1]) (use lt that in simp)
  have sj: "sj = le32_at c 40 + 44" "sj + 4 = le32_at c 40 + 48" "sj + 8 = le32_at c 40 + 52"
    "sj + 8 + 4096 * 15 + 4096 = le32_at c 40 + 65588"
    by (simp_all add: sj_def)
  have usj: "unat sj = 44 + unat (le32_at c 40)" "unat (sj + 4) = 48 + unat (le32_at c 40)" "unat (sj + 8) = 52 + unat (le32_at c 40)"
    unfolding sj(2,3) using add [of 44] add [of 48] add [of 52] by (simp_all add: sj(1))
  have uend: "unat (sj + 8 + 4096 * 15 + 4096) = 65588 + unat (le32_at c 40)"
    unfolding sj(4) using add [of 65588] by simp
  have card: "16 \<le> card (pm_free s0)" using b(2,5) pm(2) by (simp add: card_Diff_singleton_if)
  have pages: "yields K (wave_pages fl b (sj + 8) [0..<16]) () J"
    unfolding yields_def
  proof (intro allI impI)
    fix t assume "K t"
    then have "building I c L b (unat (sj + 8)) [] t"
      using b card by (simp add: building_def K_def)
    from wave_pages_steps [OF f L _ this, of 0 16] long usj(3)
    show "\<exists>t'. wave_pages fl b (sj + 8) [0..<16] t = Inr ((), t') \<and> J t'" by (auto simp: J_def)
  qed
  have last: "yields J (on_fs (read_into fl (sj + 8) 8 buf)) (take (length buf) (chunk c (unat (sj + 8)) 8 @ drop 8 buf)) J" for buf
  proof (rule on_fs_yields [where I = I])
    show "gives I (read_into fl (sj + 8) 8 buf) (take (length buf) (chunk c (unat (sj + 8)) 8 @ drop 8 buf))"
      by (rule read_into_file [OF f]) (use long usj(3) in auto)
  qed (auto simp: J_def building_def)
  have le: "le32 (take 5 (chunk c k 4 @ drop 4 (fresh junk 5))) 0 = le32_at c k" for k
    by (simp add: le32_def le32_at_def chunk_def nth_append)
  define fmt where "fmt = parse_wave_header (take 24 (chunk c 12 24))"
  define w where "w = \<lparr>w_fmt = fmt, b_entries = b, w_offset = ucast (sj + 8 + 4096 * 15 + 4096), size_of_the_junk = sj + 8,
    size_of_the_whole_file = le32_at c 4, bit_divsor = (if sample_rate fmt = 16000 then 0x200 else 0x500),
    bit_per_sample = (if bits_per_sample fmt = 16 then 0x10 else 0)\<rparr>"
  have word: "yields K (on_fs (read_into fl off 4 (fresh junk 5))) (take 5 (chunk c (unat off) 4 @ drop 4 (fresh junk 5))) K"
    if "unat off + 4 \<le> L" for off
    using rd [of off 4 "fresh junk 5"] that by simp
  have words: "yields K (on_fs (read_into fl 0 4 (fresh junk 5))) (take 5 (chunk c 0 4 @ drop 4 (fresh junk 5))) K"
    "yields K (on_fs (read_into fl 4 4 (fresh junk 5))) (take 5 (chunk c 4 4 @ drop 4 (fresh junk 5))) K"
    "yields K (on_fs (read_into fl 8 4 (fresh junk 5))) (take 5 (chunk c 8 4 @ drop 4 (fresh junk 5))) K"
    "yields K (on_fs (read_into fl (12 + 24) 4 (fresh junk 5))) (take 5 (chunk c 36 4 @ drop 4 (fresh junk 5))) K"
    "yields K (on_fs (read_into fl (12 + 24 + 4) 4 (fresh junk 5))) (take 5 (chunk c 40 4 @ drop 4 (fresh junk 5))) K"
    "yields K (on_fs (read_into fl sj 4 (fresh junk 5))) (take 5 (chunk c (unat sj) 4 @ drop 4 (fresh junk 5))) K"
    "yields K (on_fs (read_into fl (sj + 4) 4 (fresh junk 5))) (take 5 (chunk c (unat (sj + 4)) 4 @ drop 4 (fresh junk 5))) K"
    using word [of 0] word [of 4] word [of 8] word [of "12 + 24"] word [of "12 + 24 + 4"] word [of sj] word [of "sj + 4"]
      long usj by simp_all
  have header: "yields K (on_fs (read_into fl 12 24 (replicate 24 0))) (take 24 (chunk c 12 24)) K"
    using rd [of 12 24 "replicate 24 0"] long by (simp add: chunk_def)
  have "yields K (sbind (on_fs (read_into fl 0 4 (fresh junk 5))) (\<lambda>riff.
     sbind (on_fs (read_into fl 4 4 (fresh junk 5))) (\<lambda>size_of_file.
     sbind (on_fs (read_into fl 8 4 (fresh junk 5))) (\<lambda>wav.
     sbind (on_fs (read_into fl 12 24 (replicate 24 0))) (\<lambda>fmt_stuff.
     sbind (on_fs (read_into fl (12 + 24) 4 (fresh junk 5))) (\<lambda>list_tag.
     sbind (on_fs (read_into fl (12 + 24 + 4) 4 (fresh junk 5))) (\<lambda>size_of_junk.
     sbind (on_fs (read_into fl (12 + 24 + 4 + le32 size_of_junk 0 + 4) 4 (fresh junk 5))) (\<lambda>data_tag.
     sbind (on_fs (read_into fl (12 + 24 + 4 + le32 size_of_junk 0 + 4 + 4) 4 (fresh junk 5))) (\<lambda>data_size.
     sbind (wave_pages fl b (12 + 24 + 4 + le32 size_of_junk 0 + 4 + 8) [0..<16]) (\<lambda>_.
     sbind (on_fs (read_into fl (12 + 24 + 4 + le32 size_of_junk 0 + 4 + 8) 8 (fresh junk 10))) (\<lambda>first_few.
     ret \<lparr>w_fmt = parse_wave_header fmt_stuff, b_entries = b,
          w_offset = ucast (12 + 24 + 4 + le32 size_of_junk 0 + 4 + 8 + 4096 * 15 + 4096),
          size_of_the_junk = 12 + 24 + 4 + le32 size_of_junk 0 + 4 + 8,
          size_of_the_whole_file = le32 size_of_file 0,
          bit_divsor = (if sample_rate (parse_wave_header fmt_stuff) = 16000 then 0x200 else 0x500),
          bit_per_sample = (if bits_per_sample (parse_wave_header fmt_stuff) = 16 then 0x10 else 0)\<rparr>))))))))))) w J"
    apply (rule yields_bind [OF words(1)] yields_bind [OF words(2)] yields_bind [OF words(3)] yields_bind [OF header]
        yields_bind [OF words(4)] yields_bind [OF words(5)])+
    apply (simp only: le flip: sj_def)
    apply (rule yields_bind [OF words(6)] yields_bind [OF words(7)] yields_bind [OF pages] yields_bind [OF last])+
    apply (simp only: w_def fmt_def, rule yields_ret)
    done
  from yields_run [OF this K0] have "\<exists>st'. wave_new fl junk st = Inr (w, st') \<and> J st'"
    unfolding wave_new_def Let_def by (simp only: sbind_run [where m = au_alloc, OF b(1)])
  then obtain st' where st': "wave_new fl junk st = Inr (w, st')" "J st'" by blast
  obtain qs where qs: "length qs = 16" "building I c L b (unat (size_of_the_junk w)) qs st'"
    using st'(2) usj(3) by (auto simp: J_def w_def)
  have fr: "ring_frame st' w k = qs ! k" if "k < 16" for k
    using qs that by (simp add: ring_frame_def building_def w_def)
  have "map (ring_frame st' w) [0..<16] = qs" by (rule nth_equalityI) (use qs(1) fr in auto)
  then have dist: "distinct (map (ring_frame st' w) [0..<16])" using qs(2) by (simp add: building_def)
  have ofs: "w_offset w = of_nat (unat (size_of_the_junk w) + 65536 + 4096 * 0)"
  proof (rule word_unat_eq_iff [THEN iffD2])
    have "unat (w_offset w) = 65588 + unat (le32_at c 40)"
      using uend lt by (simp add: w_def unsigned_ucast_eq take_bit_nat_eq_self)
    moreover have "unat (of_nat (52 + unat (le32_at c 40) + 65536) :: u64) = 65588 + unat (le32_at c 40)"
      by (subst unat_of_nat_small) (use lt in simp_all)
    ultimately show "unat (w_offset w) = unat (of_nat (unat (size_of_the_junk w) + 65536 + 4096 * 0) :: u64)"
      using usj(3) by (simp add: w_def)
  qed
  have "ring c L st' w 0 0 0"
    unfolding ring_def using dist ofs qs fr by (simp add: building_def)
  moreover have "I (fs st')" using qs(2) by (simp add: building_def)
  ultimately show ?thesis using st'(1) usj(3) by (auto simp: w_def)
qed

section \<open>Property\<close>


text \<open>A file of 70000 bytes of silence, and a machine with 256 frames.\<close>

definition silence :: "nat \<Rightarrow> u8" where
  "silence k = (if k = 4 then 0x70 else if k = 5 then 0x11 else if k = 6 then 1 else 0)"

definition silent_file :: "unit reader" where
  "silent_file offset n st =
     (if unat offset \<le> 70000
      then Inr ((int (min (unat n) (70000 - unat offset)), chunk silence (unat offset) (min (unat n) (70000 - unat offset))), st)
      else Inr ((-1, []), st))"

definition large_pm :: pmem where
  "large_pm = \<lparr>pm_mem = (\<lambda>_. 0), pm_firstFree = 0, pm_avail = 0x101000, pm_limit = 0x201000\<rparr>"

lemma large_pm_rep: "pm_rep large_pm []"
  by (simp add: pm_rep_def large_pm_def pm_offset_def)

lemma large_pm_free: "17 \<le> card (pm_free large_pm)"
proof -
  let ?A = "{0x101000, 0x102000, 0x103000, 0x104000, 0x105000, 0x106000, 0x107000, 0x108000, 0x109000,
    0x10a000, 0x10b000, 0x10c000, 0x10d000, 0x10e000, 0x10f000, 0x110000, 0x111000 :: u32}"
  have "?A \<subseteq> pm_free large_pm" unfolding pm_rep_free [OF large_pm_rep] by (simp add: large_pm_def pm_offset_def)
  moreover have "finite (pm_free large_pm)" by simp
  ultimately have "card ?A \<le> card (pm_free large_pm)" by (intro card_mono)
  then show ?thesis by simp
qed


end
