(* ===== verification/Threads.thy ===== *)
theory Threads
  imports Queue
begin

text \<open>
  The scheduler of \<^verbatim>\<open>kernel/threads.h\<close> and \<^verbatim>\<open>kernel/threads.cc\<close>, with the timer interrupt of
  \<^verbatim>\<open>kernel/pit.cc\<close> and the semaphores that block threads, on any number of cores. All queues are linked
  through the one field \<^verbatim>\<open>next\<close> of the threads, so that a thread in two queues would break both.
  What happens between two accesses to shared queues is one step: \<^verbatim>\<open>block\<close> is two steps, the removal of
  the next thread from the ready queue and the switch of contexts with the action that follows it.
  \<^const>\<open>None\<close> is the dereference of a null pointer or of a deleted thread, or a failed assertion.
\<close>

section \<open>Threads and queues\<close>

type_synonym tid = nat

record tcb =
  t_isIdle :: bool
  t_id :: u32
  t_process :: nat
  t_no_preempt :: u32
  t_esp :: u32
  t_interruptEsp :: u32

definition STACK_WORDS :: u32 where "STACK_WORDS = 8 * 1024 div 4"

text \<open>\<^verbatim>\<open>first\<close> and \<^verbatim>\<open>last\<close> of a queue.\<close>

type_synonym links = "tid option \<times> tid option"

definition queue_view :: "links \<Rightarrow> (tid \<Rightarrow> tid option) \<Rightarrow> tid queue" where
  "queue_view l nx = \<lparr>q_first = fst l, q_last = snd l, q_next = nx\<rparr>"

definition link :: "links \<Rightarrow> (tid \<Rightarrow> tid option) \<Rightarrow> tid \<Rightarrow> (links \<times> (tid \<Rightarrow> tid option)) option" where
  "link l nx t = map_option (\<lambda>q. ((q_first q, q_last q), q_next q)) (queue_add (queue_view l nx) t)"

definition unlink :: "links \<Rightarrow> (tid \<Rightarrow> tid option) \<Rightarrow> links \<times> tid option" where
  "unlink l nx = (case queue_remove (queue_view l nx) of (q, r) \<Rightarrow> ((q_first q, q_last q), r))"

section \<open>State\<close>

text \<open>What the thread that blocks on a core leaves to do after the switch.\<close>

datatype action = Reschedule | Bury | Wait nat

datatype core = Runs | Switches tid action

record sema =
  s_count :: u64
  s_waiting :: links
  s_locked :: bool

record sched =
  tcbs :: "tid \<Rightarrow> tcb option"
  nexts :: "tid \<Rightarrow> tid option"
  readyQ :: links
  zombies :: links
  semas :: "nat \<Rightarrow> sema"
  activeThreads :: "nat \<Rightarrow> tid"
  idleThreads :: "nat \<Rightarrow> tid"
  esp0 :: "nat \<Rightarrow> u32"
  cores :: "nat \<Rightarrow> core"
  next_id :: u32

definition isIdle :: "sched \<Rightarrow> tid \<Rightarrow> bool" where
  "isIdle s t \<longleftrightarrow> (case tcbs s t of None \<Rightarrow> False | Some b \<Rightarrow> t_isIdle b)"

definition set_no_preempt :: "tid \<Rightarrow> u32 \<Rightarrow> sched \<Rightarrow> sched option" where
  "set_no_preempt t v s =
     map_option (\<lambda>b. s\<lparr>tcbs := (tcbs s)(t \<mapsto> b\<lparr>t_no_preempt := v\<rparr>)\<rparr>) (tcbs s t)"

section \<open>Operations\<close>

definition schedule :: "tid \<Rightarrow> sched \<Rightarrow> sched option" where
  "schedule t s =
     (case tcbs s t of
        None \<Rightarrow> None
      | Some b \<Rightarrow>
          if t_isIdle b then Some s
          else map_option (\<lambda>(l, nx). s\<lparr>readyQ := l, nexts := nx\<rparr>) (link (readyQ s) (nexts s) t))"

definition bury :: "tid \<Rightarrow> sched \<Rightarrow> sched option" where
  "bury t s =
     (case tcbs s t of
        None \<Rightarrow> None
      | Some b \<Rightarrow>
          if t_isIdle b then Some s
          else map_option (\<lambda>(l, nx). s\<lparr>zombies := l, nexts := nx\<rparr>) (link (zombies s) (nexts s) t))"

definition wait_on :: "nat \<Rightarrow> tid \<Rightarrow> sched \<Rightarrow> sched option" where
  "wait_on k t s =
     (case tcbs s t of
        None \<Rightarrow> None
      | Some b \<Rightarrow>
          if t_isIdle b then None
          else map_option (\<lambda>(l, nx). s\<lparr>semas := (semas s)(k := (semas s k)\<lparr>s_waiting := l, s_locked := False\<rparr>), nexts := nx\<rparr>)
                 (link (s_waiting (semas s k)) (nexts s) t))"

fun act :: "action \<Rightarrow> tid \<Rightarrow> sched \<Rightarrow> sched option" where
  "act Reschedule me s = schedule me s"
| "act Bury me s = bury me s"
| "act (Wait k) me s = wait_on k me s"

text \<open>
  \<^verbatim>\<open>block\<close> up to the switch. When the ready queue is empty it returns, or an idle thread tries again,
  or the idle thread of the core is chosen.
\<close>

definition block_begin :: "bool \<Rightarrow> action \<Rightarrow> nat \<Rightarrow> sched \<Rightarrow> sched option" where
  "block_begin can_return a c s =
     (let me = activeThreads s c in
      case set_no_preempt me 1 s of
        None \<Rightarrow> None
      | Some s1 \<Rightarrow>
          (case unlink (readyQ s1) (nexts s1) of
             (l, None) \<Rightarrow>
               if can_return then Some s1
               else if isIdle s1 me then (if me = idleThreads s1 c then Some s1 else None)
               else Some (s1\<lparr>cores := (cores s1)(c := Switches (idleThreads s1 c) a)\<rparr>)
           | (l, Some next_tcb) \<Rightarrow>
               Some (s1\<lparr>readyQ := l, cores := (cores s1)(c := Switches next_tcb a)\<rparr>)))"

text \<open>The rest of \<^verbatim>\<open>block\<close>: \<^verbatim>\<open>gheith_contextSwitch\<close> clears the flags of both threads and runs the action.\<close>

definition block_end :: "nat \<Rightarrow> sched \<Rightarrow> sched option" where
  "block_end c s =
     (case cores s c of
        Runs \<Rightarrow> None
      | Switches next_tcb a \<Rightarrow>
          let me = activeThreads s c in
          case set_no_preempt next_tcb 1 s of
            None \<Rightarrow> None
          | Some s1 \<Rightarrow>
              let s2 = s1\<lparr>activeThreads := (activeThreads s1)(c := next_tcb),
                          esp0 := (esp0 s1)(c := t_interruptEsp (the (tcbs s1 next_tcb)))\<rparr> in
              case Option.bind (set_no_preempt me 0 s2) (set_no_preempt next_tcb 0) of
                None \<Rightarrow> None
              | Some s3 \<Rightarrow> act a me (s3\<lparr>cores := (cores s3)(c := Runs)\<rparr>))"

definition yield :: "nat \<Rightarrow> sched \<Rightarrow> sched option" where
  "yield c s = block_begin True Reschedule c s"

definition stop :: "nat \<Rightarrow> sched \<Rightarrow> sched option" where
  "stop c s = block_begin False Bury c s"

definition apitHandler :: "nat \<Rightarrow> sched \<Rightarrow> sched option" where
  "apitHandler c s =
     (case tcbs s (activeThreads s c) of
        None \<Rightarrow> None
      | Some b \<Rightarrow> if t_isIdle b \<or> t_no_preempt b \<noteq> 0 then Some s else yield c s)"

text \<open>\<^verbatim>\<open>Semaphore::down\<close> and \<^verbatim>\<open>up\<close>; the lock stays taken until the switch.\<close>

definition down :: "nat \<Rightarrow> nat \<Rightarrow> sched \<Rightarrow> sched option" where
  "down k c s =
     (if s_count (semas s k) > 0
      then Some (s\<lparr>semas := (semas s)(k := (semas s k)\<lparr>s_count := s_count (semas s k) - 1\<rparr>)\<rparr>)
      else block_begin False (Wait k) c (s\<lparr>semas := (semas s)(k := (semas s k)\<lparr>s_locked := True\<rparr>)\<rparr>))"

definition up :: "nat \<Rightarrow> sched \<Rightarrow> sched option" where
  "up k s =
     (case unlink (s_waiting (semas s k)) (nexts s) of
        (l, None) \<Rightarrow> Some (s\<lparr>semas := (semas s)(k := (semas s k)\<lparr>s_count := s_count (semas s k) + 1\<rparr>)\<rparr>)
      | (l, Some next) \<Rightarrow> schedule next (s\<lparr>semas := (semas s)(k := (semas s k)\<lparr>s_waiting := l\<rparr>)\<rparr>))"

text \<open>One turn of \<^verbatim>\<open>delete_zombies\<close>, and its loop.\<close>

definition reap :: "sched \<Rightarrow> sched \<times> bool" where
  "reap s =
     (case unlink (zombies s) (nexts s) of
        (l, None) \<Rightarrow> (s, False)
      | (l, Some it) \<Rightarrow> (s\<lparr>zombies := l, tcbs := (tcbs s)(it := None)\<rparr>, True))"

fun delete_zombies :: "nat \<Rightarrow> sched \<Rightarrow> sched option" where
  "delete_zombies 0 s = None"
| "delete_zombies (Suc k) s = (case reap s of (s1, again) \<Rightarrow> if again then delete_zombies k s1 else Some s1)"

text \<open>The constructors of \<^verbatim>\<open>TCBWithStack\<close>, with the address of its stack, and of \<^verbatim>\<open>IdleTcb\<close>, with what its memory holds.\<close>

definition tcb_with_stack :: "nat \<Rightarrow> u32 \<Rightarrow> u32 \<Rightarrow> tcb" where
  "tcb_with_stack p i stack = \<lparr>t_isIdle = False, t_id = i, t_process = p, t_no_preempt = 0,
     t_esp = stack + 4 * (STACK_WORDS - 2), t_interruptEsp = stack + 4 * 2047\<rparr>"

definition idle_tcb :: "nat \<Rightarrow> u32 \<Rightarrow> u32 \<Rightarrow> tcb" where
  "idle_tcb p i junk = \<lparr>t_isIdle = True, t_id = i, t_process = p, t_no_preempt = junk, t_esp = junk, t_interruptEsp = 0\<rparr>"

text \<open>The thread that \<^verbatim>\<open>thread\<close> makes after \<^verbatim>\<open>delete_zombies\<close>; \<open>t\<close> is its memory.\<close>

definition spawn :: "tid \<Rightarrow> nat \<Rightarrow> u32 \<Rightarrow> sched \<Rightarrow> sched option" where
  "spawn t p stack s =
     schedule t (s\<lparr>tcbs := (tcbs s)(t \<mapsto> tcb_with_stack p (next_id s) stack), next_id := next_id s + 1\<rparr>)"

definition thread :: "nat \<Rightarrow> tid \<Rightarrow> nat \<Rightarrow> u32 \<Rightarrow> sched \<Rightarrow> sched option" where
  "thread k t p stack s = Option.bind (delete_zombies k s) (spawn t p stack)"

text \<open>
  \<^verbatim>\<open>threadsInit\<close> on \<open>n\<close> cores: the idle threads and the reaper. The semaphores hold what their
  constructors gave them.
\<close>

definition no_threads :: "(tid \<Rightarrow> tid option) \<Rightarrow> (nat \<Rightarrow> u64) \<Rightarrow> sched" where
  "no_threads nx counts = \<lparr>tcbs = (\<lambda>_. None), nexts = nx, readyQ = (None, None), zombies = (None, None),
     semas = (\<lambda>k. \<lparr>s_count = counts k, s_waiting = (None, None), s_locked = False\<rparr>),
     activeThreads = id, idleThreads = id, esp0 = (\<lambda>_. 0), cores = (\<lambda>_. Runs), next_id = 0\<rparr>"

fun make_idle :: "nat \<Rightarrow> (nat \<Rightarrow> u32) \<Rightarrow> nat list \<Rightarrow> sched \<Rightarrow> sched" where
  "make_idle p junk [] s = s"
| "make_idle p junk (i # js) s = make_idle p junk js
     (s\<lparr>tcbs := (tcbs s)(i \<mapsto> idle_tcb p (next_id s) (junk i)), next_id := next_id s + 1,
        idleThreads := (idleThreads s)(i := i), activeThreads := (activeThreads s)(i := i)\<rparr>)"

definition threadsInit :: "nat \<Rightarrow> nat \<Rightarrow> (nat \<Rightarrow> u32) \<Rightarrow> u32 \<Rightarrow> sched \<Rightarrow> sched option" where
  "threadsInit n p junk stack s = thread 1 n p stack (make_idle p junk [0..<n] s)"

section \<open>Steps\<close>

text \<open>
  What a core may do: a timer interrupt at any time; the switch when it is in \<^verbatim>\<open>block\<close>; otherwise a call
  by its thread, or a turn of the loop of an idle thread. A semaphore whose lock is taken is not touched.
\<close>

datatype call = Tick nat | Switch nat | Yield nat | Stop nat | Down nat nat | Up nat nat | Reap nat | Spawn nat tid nat u32

definition calls :: "nat \<Rightarrow> sched \<Rightarrow> nat \<Rightarrow> bool" where
  "calls n s c \<longleftrightarrow> c < n \<and> cores s c = Runs \<and> \<not> isIdle s (activeThreads s c)"

fun enabled :: "nat \<Rightarrow> sched \<Rightarrow> call \<Rightarrow> bool" where
  "enabled n s (Tick c) = (c < n)"
| "enabled n s (Switch c) = (c < n \<and> cores s c \<noteq> Runs)"
| "enabled n s (Yield c) = calls n s c"
| "enabled n s (Stop c) = (c < n \<and> cores s c = Runs)"
| "enabled n s (Down k c) = (calls n s c \<and> \<not> s_locked (semas s k))"
| "enabled n s (Up k c) = (calls n s c \<and> \<not> s_locked (semas s k))"
| "enabled n s (Reap c) = calls n s c"
| "enabled n s (Spawn c t p stack) = (calls n s c \<and> tcbs s t = None)"

fun perform :: "call \<Rightarrow> sched \<Rightarrow> sched option" where
  "perform (Tick c) s = apitHandler c s"
| "perform (Switch c) s = block_end c s"
| "perform (Yield c) s = yield c s"
| "perform (Stop c) s = stop c s"
| "perform (Down k c) s = down k c s"
| "perform (Up k c) s = up k s"
| "perform (Reap c) s = Some (fst (reap s))"
| "perform (Spawn c t p stack) s = spawn t p stack s"

inductive sched_reach :: "nat \<Rightarrow> sched \<Rightarrow> sched \<Rightarrow> bool" for n where
  start: "sched_reach n s s"
| step: "sched_reach n s s' \<Longrightarrow> enabled n s' x \<Longrightarrow> perform x s' = Some s'' \<Longrightarrow> sched_reach n s s''"

end
