(* ===== verification/Threads_Props.thy ===== *)
theory Threads_Props
  imports Threads
begin

text \<open>
  Every thread is in exactly one place, whatever the cores do and in whatever order: the queues that
  share the field \<^verbatim>\<open>next\<close> never break. With one core the timer serves the threads in turn.
\<close>

section \<open>Queues that share a field\<close>

definition holds :: "(tid \<Rightarrow> tid option) \<Rightarrow> links \<Rightarrow> tid list \<Rightarrow> bool" where
  "holds nx l xs \<longleftrightarrow> queue_rep (queue_view l nx) xs"

lemma holds_empty: "holds nx (None, None) []"
  by (simp add: holds_def queue_rep_def queue_view_def)

lemma link_holds:
  assumes "holds nx l xs" and "t \<notin> set xs"
  obtains l' nx' where "link l nx t = Some (l', nx')" and "holds nx' l' (xs @ [t])"
    and "\<And>m ys. holds nx m ys \<Longrightarrow> set ys \<inter> set (xs @ [t]) = {} \<Longrightarrow> holds nx' m ys"
proof -
  obtain q where q: "queue_add (queue_view l nx) t = Some q" "queue_rep q (xs @ [t])"
    "\<And>u. u \<notin> set (xs @ [t]) \<Longrightarrow> q_next q u = nx u"
    using queue_add_rep [of "queue_view l nx" xs t] assms by (auto simp: holds_def queue_view_def)
  have "holds (q_next q) m ys" if "holds nx m ys" "set ys \<inter> set (xs @ [t]) = {}" for m ys
  proof -
    have "linked (q_next q) p ys = linked nx p ys" for p
      by (rule linked_cong) (use that(2) q(3) in blast)
    then show ?thesis using that(1) by (simp add: holds_def queue_rep_def queue_view_def)
  qed
  moreover have "holds (q_next q) (q_first q, q_last q) (xs @ [t])"
    using q(2) by (simp add: holds_def queue_view_def queue_rep_def)
  ultimately show ?thesis using that q(1) by (simp add: link_def)
qed

lemma unlink_holds:
  assumes "holds nx l xs"
  obtains l' where "unlink l nx = (l', case xs of [] \<Rightarrow> None | x # _ \<Rightarrow> Some x)" and "holds nx l' (tl xs)"
proof -
  note R = queue_remove_rep [OF assms [unfolded holds_def]]
  obtain q r where q: "queue_remove (queue_view l nx) = (q, r)" by fastforce
  then have "holds nx (q_first q, q_last q) (tl xs)"
    using R(1,3) by (simp add: holds_def queue_view_def queue_rep_def)
  then show ?thesis using that R(2) q by (simp add: unlink_def)
qed

text \<open>A queue of the threads with a property.\<close>

definition queue_of :: "(tid \<Rightarrow> tid option) \<Rightarrow> links \<Rightarrow> (tid \<Rightarrow> bool) \<Rightarrow> bool" where
  "queue_of nx l P \<longleftrightarrow> (\<exists>xs. holds nx l xs \<and> (\<forall>t. t \<in> set xs \<longleftrightarrow> P t))"

lemma queue_of_link:
  assumes "queue_of nx l P" and "\<not> P t"
  obtains l' nx' where "link l nx t = Some (l', nx')" and "queue_of nx' l' (\<lambda>u. P u \<or> u = t)"
    and "\<And>m Q. queue_of nx m Q \<Longrightarrow> (\<And>u. Q u \<Longrightarrow> \<not> P u \<and> u \<noteq> t) \<Longrightarrow> queue_of nx' m Q"
proof -
  obtain xs where xs: "holds nx l xs" "\<forall>t. t \<in> set xs \<longleftrightarrow> P t" using assms(1) by (auto simp: queue_of_def)
  then have "t \<notin> set xs" using assms(2) by simp
  from link_holds [OF xs(1) this] obtain l' nx' where l: "link l nx t = Some (l', nx')" "holds nx' l' (xs @ [t])"
    "\<And>m ys. holds nx m ys \<Longrightarrow> set ys \<inter> set (xs @ [t]) = {} \<Longrightarrow> holds nx' m ys" by metis
  have "queue_of nx' m Q" if "queue_of nx m Q" "\<And>u. Q u \<Longrightarrow> \<not> P u \<and> u \<noteq> t" for m Q
  proof -
    obtain ys where ys: "holds nx m ys" "\<forall>u. u \<in> set ys \<longleftrightarrow> Q u" using \<open>queue_of nx m Q\<close> by (auto simp: queue_of_def)
    have "set ys \<inter> set (xs @ [t]) = {}" using ys(2) xs(2) \<open>\<And>u. Q u \<Longrightarrow> \<not> P u \<and> u \<noteq> t\<close> by auto
    then have "holds nx' m ys" using l(3) ys(1) by blast
    then show ?thesis using ys(2) by (auto simp: queue_of_def)
  qed
  moreover have "queue_of nx' l' (\<lambda>u. P u \<or> u = t)"
    unfolding queue_of_def by (rule exI [of _ "xs @ [t]"]) (use l(2) xs(2) in auto)
  ultimately show ?thesis using that l(1) by blast
qed

lemma queue_of_unlink:
  assumes "queue_of nx l P"
  obtains (empty) l' where "unlink l nx = (l', None)" and "\<And>u. \<not> P u"
    | (some) l' t where "unlink l nx = (l', Some t)" and "P t" and "queue_of nx l' (\<lambda>u. P u \<and> u \<noteq> t)"
proof -
  obtain xs where xs: "holds nx l xs" "\<forall>t. t \<in> set xs \<longleftrightarrow> P t" using assms by (auto simp: queue_of_def)
  obtain l' where l': "unlink l nx = (l', case xs of [] \<Rightarrow> None | x # _ \<Rightarrow> Some x)" "holds nx l' (tl xs)"
    using unlink_holds [OF xs(1)] .
  show ?thesis
  proof (cases xs)
    case Nil
    then show ?thesis using empty l' xs(2) by simp
  next
    case (Cons t ts)
    have "distinct xs" using xs(1) by (simp add: holds_def queue_rep_def)
    then have "\<forall>u. u \<in> set ts \<longleftrightarrow> P u \<and> u \<noteq> t" using xs(2) Cons by auto
    then have "queue_of nx l' (\<lambda>u. P u \<and> u \<noteq> t)" using l'(2) Cons by (auto simp: queue_of_def)
    moreover have "P t" using xs(2) Cons by auto
    ultimately show ?thesis using some [of l' t] l'(1) Cons by simp
  qed
qed

lemma queue_of_cong: "queue_of nx l P \<Longrightarrow> (\<And>u. P u = Q u) \<Longrightarrow> queue_of nx l Q"
  by (simp add: queue_of_def)

section \<open>The place of a thread\<close>

datatype place = Gone | Idling | Running nat | Picked nat | Queued | Dying | Waiting nat

definition queues_ok :: "sched \<Rightarrow> (tid \<Rightarrow> place) \<Rightarrow> bool" where
  "queues_ok s pl \<longleftrightarrow>
     queue_of (nexts s) (readyQ s) (\<lambda>t. pl t = Queued) \<and>
     queue_of (nexts s) (zombies s) (\<lambda>t. pl t = Dying) \<and>
     (\<forall>k. queue_of (nexts s) (s_waiting (semas s k)) (\<lambda>t. pl t = Waiting k))"

definition tcbs_ok :: "sched \<Rightarrow> (tid \<Rightarrow> place) \<Rightarrow> bool" where
  "tcbs_ok s pl \<longleftrightarrow> (\<forall>t. (pl t = Gone \<longleftrightarrow> tcbs s t = None) \<and> (pl t = Idling \<longleftrightarrow> isIdle s t))"

text \<open>Core \<open>c\<close>: what it runs, and where it is inside \<^verbatim>\<open>block\<close>; no timer interrupt disturbs it there.\<close>

definition core_ok :: "sched \<Rightarrow> (tid \<Rightarrow> place) \<Rightarrow> nat \<Rightarrow> bool" where
  "core_ok s pl c \<longleftrightarrow>
     pl (idleThreads s c) = Idling \<and>
     (activeThreads s c = idleThreads s c \<or> pl (activeThreads s c) = Running c) \<and>
     (\<forall>t a. cores s c = Switches t a \<longrightarrow>
          (pl t = Picked c \<or> t = idleThreads s c \<and> activeThreads s c \<noteq> idleThreads s c) \<and>
          (activeThreads s c \<noteq> idleThreads s c \<longrightarrow> t_no_preempt (the (tcbs s (activeThreads s c))) \<noteq> 0) \<and>
          (activeThreads s c = idleThreads s c \<longrightarrow> (\<forall>k. a \<noteq> Wait k)))"

definition sched_ok :: "nat \<Rightarrow> sched \<Rightarrow> (tid \<Rightarrow> place) \<Rightarrow> bool" where
  "sched_ok n s pl \<longleftrightarrow>
     queues_ok s pl \<and> tcbs_ok s pl \<and> (\<forall>c < n. core_ok s pl c) \<and>
     (\<forall>t c. pl t = Running c \<longrightarrow> c < n \<and> activeThreads s c = t) \<and>
     (\<forall>t c. pl t = Picked c \<longrightarrow> c < n \<and> (\<exists>a. cores s c = Switches t a))"

fun place_after :: "action \<Rightarrow> place" where
  "place_after Reschedule = Queued"
| "place_after Bury = Dying"
| "place_after (Wait k) = Waiting k"

section \<open>Operations\<close>

lemma set_no_preempt_gives:
  assumes "tcbs_ok s pl" and "pl t \<noteq> Gone"
  obtains b where "tcbs s t = Some b" and "set_no_preempt t v s = Some (s\<lparr>tcbs := (tcbs s)(t \<mapsto> b\<lparr>t_no_preempt := v\<rparr>)\<rparr>)"
    and "tcbs_ok (s\<lparr>tcbs := (tcbs s)(t \<mapsto> b\<lparr>t_no_preempt := v\<rparr>)\<rparr>) pl"
proof -
  obtain b where b: "tcbs s t = Some b" using assms by (auto simp: tcbs_ok_def)
  moreover have "tcbs_ok (s\<lparr>tcbs := (tcbs s)(t \<mapsto> b\<lparr>t_no_preempt := v\<rparr>)\<rparr>) pl"
    using assms(1) b by (auto simp: tcbs_ok_def isIdle_def)
  ultimately show ?thesis using that by (simp add: set_no_preempt_def)
qed

text \<open>What an action changes.\<close>

lemma act_gives:
  assumes q: "queues_ok s pl" and b: "tcbs s t = Some b" "\<not> t_isIdle b"
    and p: "pl t \<noteq> Queued" "pl t \<noteq> Dying" "\<forall>k. pl t \<noteq> Waiting k"
  obtains s' where "act a t s = Some s'" and "queues_ok s' (pl(t := place_after a))"
    and "tcbs s' = tcbs s" and "activeThreads s' = activeThreads s" and "idleThreads s' = idleThreads s" and "cores s' = cores s"
proof (cases a)
  case Reschedule
  obtain l nx where l: "link (readyQ s) (nexts s) t = Some (l, nx)" "queue_of nx l (\<lambda>u. pl u = Queued \<or> u = t)"
    "\<And>m Q. queue_of (nexts s) m Q \<Longrightarrow> (\<And>u. Q u \<Longrightarrow> \<not> pl u = Queued \<and> u \<noteq> t) \<Longrightarrow> queue_of nx m Q"
    using queue_of_link [of "nexts s" "readyQ s" "\<lambda>u. pl u = Queued" t] q p by (auto simp: queues_ok_def)
  have "queue_of nx (zombies s) (\<lambda>u. pl u = Dying)" "queue_of nx (s_waiting (semas s k)) (\<lambda>u. pl u = Waiting k)" for k
    by (rule l(3); use q p in \<open>auto simp: queues_ok_def\<close>)+
  note R = queue_of_cong [OF this(1)] queue_of_cong [OF this(2)] queue_of_cong [OF l(2)]
  have "queues_ok (s\<lparr>readyQ := l, nexts := nx\<rparr>) (pl(t := Queued))"
    unfolding queues_ok_def by (intro conjI allI; simp; rule R; use p in auto)
  then show ?thesis using that l(1) b Reschedule by (simp add: schedule_def)
next
  case Bury
  obtain l nx where l: "link (zombies s) (nexts s) t = Some (l, nx)" "queue_of nx l (\<lambda>u. pl u = Dying \<or> u = t)"
    "\<And>m Q. queue_of (nexts s) m Q \<Longrightarrow> (\<And>u. Q u \<Longrightarrow> \<not> pl u = Dying \<and> u \<noteq> t) \<Longrightarrow> queue_of nx m Q"
    using queue_of_link [of "nexts s" "zombies s" "\<lambda>u. pl u = Dying" t] q p by (auto simp: queues_ok_def)
  have "queue_of nx (readyQ s) (\<lambda>u. pl u = Queued)" "queue_of nx (s_waiting (semas s k)) (\<lambda>u. pl u = Waiting k)" for k
    by (rule l(3); use q p in \<open>auto simp: queues_ok_def\<close>)+
  note R = queue_of_cong [OF this(1)] queue_of_cong [OF this(2)] queue_of_cong [OF l(2)]
  have "queues_ok (s\<lparr>zombies := l, nexts := nx\<rparr>) (pl(t := Dying))"
    unfolding queues_ok_def by (intro conjI allI; simp; rule R; use p in auto)
  then show ?thesis using that l(1) b Bury by (simp add: bury_def)
next
  case (Wait k)
  obtain l nx where l: "link (s_waiting (semas s k)) (nexts s) t = Some (l, nx)" "queue_of nx l (\<lambda>u. pl u = Waiting k \<or> u = t)"
    "\<And>m Q. queue_of (nexts s) m Q \<Longrightarrow> (\<And>u. Q u \<Longrightarrow> \<not> pl u = Waiting k \<and> u \<noteq> t) \<Longrightarrow> queue_of nx m Q"
    using queue_of_link [of "nexts s" "s_waiting (semas s k)" "\<lambda>u. pl u = Waiting k" t] q p by (auto simp: queues_ok_def)
  have "queue_of nx (readyQ s) (\<lambda>u. pl u = Queued)" "queue_of nx (zombies s) (\<lambda>u. pl u = Dying)"
    "i \<noteq> k \<Longrightarrow> queue_of nx (s_waiting (semas s i)) (\<lambda>u. pl u = Waiting i)" for i
    by (rule l(3); use q p in \<open>auto simp: queues_ok_def\<close>)+
  note R = queue_of_cong [OF this(1)] queue_of_cong [OF this(2)] queue_of_cong [OF this(3)] queue_of_cong [OF l(2)]
  have "queues_ok (s\<lparr>semas := (semas s)(k := (semas s k)\<lparr>s_waiting := l, s_locked := False\<rparr>), nexts := nx\<rparr>) (pl(t := Waiting k))"
    unfolding queues_ok_def
  proof (intro conjI allI)
    fix i
    show "queue_of (nexts (s\<lparr>semas := (semas s)(k := (semas s k)\<lparr>s_waiting := l, s_locked := False\<rparr>), nexts := nx\<rparr>))
      (s_waiting (semas (s\<lparr>semas := (semas s)(k := (semas s k)\<lparr>s_waiting := l, s_locked := False\<rparr>), nexts := nx\<rparr>) i))
      (\<lambda>u. (pl(t := Waiting k)) u = Waiting i)"
      by (cases "i = k"; simp; rule R; use p in auto)
  qed (simp; rule R; use p in auto)+
  then show ?thesis using that l(1) b Wait by (simp add: wait_on_def)
qed

text \<open>A thread leaves the ready queue, the zombies or the queue of a semaphore.\<close>

lemma queues_leave:
  assumes "queues_ok s pl" and l: "queue_of (nexts s) l (\<lambda>u. pl u = pl t \<and> u \<noteq> t)"
    and p: "p \<noteq> Queued" "p \<noteq> Dying" "\<forall>k. p \<noteq> Waiting k"
    and e: "nexts s' = nexts s" "readyQ s' = (if pl t = Queued then l else readyQ s)"
      "zombies s' = (if pl t = Dying then l else zombies s)"
      "\<And>k. s_waiting (semas s' k) = (if pl t = Waiting k then l else s_waiting (semas s k))"
  shows "queues_ok s' (pl(t := p))"
proof -
  have "queue_of (nexts s) (readyQ s) (\<lambda>u. pl u = Queued)" "queue_of (nexts s) (zombies s) (\<lambda>u. pl u = Dying)"
    "queue_of (nexts s) (s_waiting (semas s k)) (\<lambda>u. pl u = Waiting k)" for k
    using assms(1) by (simp_all add: queues_ok_def)
  note R = queue_of_cong [OF this(1)] queue_of_cong [OF this(2)] queue_of_cong [OF this(3)] queue_of_cong [OF l]
  show ?thesis
    unfolding queues_ok_def e
    by (intro conjI allI; simp split: if_splits; intro conjI impI; rule R; use p in auto)
qed

lemma queues_move:
  assumes "queues_ok s pl" and "pl t \<noteq> Queued" "pl t \<noteq> Dying" "\<And>k. pl t \<noteq> Waiting k" and "p \<noteq> Queued" "p \<noteq> Dying" "\<And>k. p \<noteq> Waiting k"
  shows "queues_ok s (pl(t := p))"
proof -
  have "((pl(t := p)) u = q) = (pl u = q)" if "q = Queued \<or> q = Dying \<or> (\<exists>k. q = Waiting k)" for u q
    using assms(2-7) that by auto
  then show ?thesis using assms(1) unfolding queues_ok_def by simp
qed

lemma live:
  assumes "tcbs_ok s pl" and "pl t \<noteq> Gone" and "pl t \<noteq> Idling"
  shows "\<exists>b. tcbs s t = Some b \<and> \<not> t_isIdle b"
proof -
  have "tcbs s t \<noteq> None" "\<not> isIdle s t" using assms unfolding tcbs_ok_def by blast+
  then show ?thesis by (auto simp: isIdle_def)
qed

lemma tcbs_move:
  assumes "tcbs_ok s pl" and "pl t \<noteq> Gone" "pl t \<noteq> Idling" and "p \<noteq> Gone" "p \<noteq> Idling" and "tcbs s' = tcbs s"
  shows "tcbs_ok s' (pl(t := p))"
  using assms by (simp add: tcbs_ok_def isIdle_def)

text \<open>The active thread of a core.\<close>

lemma active_place:
  assumes "sched_ok n s pl" and "c < n"
  shows "pl (activeThreads s c) = Idling \<or> pl (activeThreads s c) = Running c"
    and "pl (activeThreads s c) \<noteq> Gone"
    and "isIdle s (activeThreads s c) \<longleftrightarrow> activeThreads s c = idleThreads s c"
proof -
  have C: "pl (idleThreads s c) = Idling" "activeThreads s c = idleThreads s c \<or> pl (activeThreads s c) = Running c"
    and T: "\<And>t. pl t = Idling \<longleftrightarrow> isIdle s t"
    using assms by (simp_all add: sched_ok_def core_ok_def tcbs_ok_def)
  show "pl (activeThreads s c) = Idling \<or> pl (activeThreads s c) = Running c" using C by auto
  then show "pl (activeThreads s c) \<noteq> Gone" by auto
  show "isIdle s (activeThreads s c) \<longleftrightarrow> activeThreads s c = idleThreads s c" using C T [of "activeThreads s c"] by auto
qed

lemma block_begin_ok:
  assumes ok: "sched_ok n s pl" and c: "c < n" "cores s c = Runs"
    and a: "activeThreads s c = idleThreads s c \<Longrightarrow> \<forall>k. a \<noteq> Wait k"
  shows "\<exists>s' pl'. block_begin can_return a c s = Some s' \<and> sched_ok n s' pl'"
proof -
  let ?me = "activeThreads s c"
  have Q: "queues_ok s pl" and T: "tcbs_ok s pl" and C: "\<And>d. d < n \<Longrightarrow> core_ok s pl d"
    and R: "\<And>t d. pl t = Running d \<Longrightarrow> d < n \<and> activeThreads s d = t"
    and P: "\<And>t d. pl t = Picked d \<Longrightarrow> d < n \<and> (\<exists>a. cores s d = Switches t a)"
    using ok by (simp_all add: sched_ok_def)
  note A = active_place [OF ok c(1)]
  obtain b where b: "tcbs s ?me = Some b" "set_no_preempt ?me 1 s = Some (s\<lparr>tcbs := (tcbs s)(?me \<mapsto> b\<lparr>t_no_preempt := 1\<rparr>)\<rparr>)"
    "tcbs_ok (s\<lparr>tcbs := (tcbs s)(?me \<mapsto> b\<lparr>t_no_preempt := 1\<rparr>)\<rparr>) pl"
    using set_no_preempt_gives [OF T A(2), of 1] by blast
  define s1 where "s1 = s\<lparr>tcbs := (tcbs s)(?me \<mapsto> b\<lparr>t_no_preempt := 1\<rparr>)\<rparr>"
  have f: "nexts s1 = nexts s" "readyQ s1 = readyQ s" "zombies s1 = zombies s" "semas s1 = semas s" "activeThreads s1 = activeThreads s"
    "idleThreads s1 = idleThreads s" "cores s1 = cores s" "isIdle s1 ?me = t_isIdle b"
    by (simp_all add: s1_def isIdle_def)
  have idle: "t_isIdle b \<longleftrightarrow> ?me = idleThreads s c" using A(3) b(1) by (simp add: isIdle_def)
  have flag: "t_no_preempt (the (tcbs s1 t)) \<noteq> 0" if "t = ?me \<or> t_no_preempt (the (tcbs s t)) \<noteq> 0" for t
    using that by (auto simp: s1_def)
  have C1: "core_ok s1 pl d" if "d < n" for d
    using C [OF that] flag unfolding core_ok_def f by (auto)
  have ok1: "sched_ok n s1 pl"
    unfolding sched_ok_def using Q b(3) C1 R P by (simp add: f queues_ok_def flip: s1_def)
  have Q1: "queue_of (nexts s) (readyQ s) (\<lambda>t. pl t = Queued)" using Q by (simp add: queues_ok_def)
  show ?thesis
  proof (cases rule: queue_of_unlink [OF Q1])
    case (1 l)
    note 2 = 1
    show ?thesis
    proof (cases "can_return \<or> t_isIdle b")
      case True
      then have "block_begin can_return a c s = Some s1"
        using 2 idle by (auto simp: block_begin_def Let_def b(2) f simp flip: s1_def)
      then show ?thesis using ok1 by blast
    next
      case False
      let ?s = "s1\<lparr>cores := (cores s1)(c := Switches (idleThreads s1 c) a)\<rparr>"
      have run: "block_begin can_return a c s = Some ?s"
        using 2 False by (simp add: block_begin_def Let_def b(2) f flip: s1_def)
      have "core_ok ?s pl d" if "d < n" for d
        using C1 [OF that] C1 [OF c(1)] idle False flag [of ?me] unfolding core_ok_def by (auto simp: f)
      moreover have "pl t \<noteq> Picked c" for t using P [of t c] c(2) by auto
      ultimately have "sched_ok n ?s pl"
        using ok1 c(2) unfolding sched_ok_def by (auto simp: queues_ok_def tcbs_ok_def isIdle_def f)
      then show ?thesis using run by blast
    qed
  next
    case (2 l t)
    note 3 = 2
    let ?s = "s1\<lparr>readyQ := l, cores := (cores s1)(c := Switches t a)\<rparr>" and ?pl = "pl(t := Picked c)"
    have t: "t \<noteq> ?me" using A(1) 3(2) by auto
    have "block_begin can_return a c s = Some ?s"
      using 3 by (simp add: block_begin_def Let_def b(2) f flip: s1_def)
    moreover have "core_ok ?s ?pl d" if "d < n" for d
      using C1 [OF that] C1 [OF c(1)] 3(2) t a flag [of ?me] unfolding core_ok_def by (auto simp: f)
    moreover have "queues_ok ?s ?pl"
      by (rule queues_leave [OF Q]) (use 3(2,3) in \<open>simp_all add: f\<close>)
    moreover have "tcbs_ok ?s ?pl" using tcbs_move [OF b(3), of t "Picked c" ?s] 3(2) by (simp flip: s1_def)
    moreover have "d < n \<and> activeThreads ?s d = u" if "?pl u = Running d" for u d
      using R [of u d] that by (simp add: f split: if_splits)
    moreover have "d < n \<and> (\<exists>a. cores ?s d = Switches u a)" if "?pl u = Picked d" for u d
      using P [of u d] that c by (auto simp: f split: if_splits)
    ultimately show ?thesis unfolding sched_ok_def by blast
  qed
qed

lemma set_two_flags:
  assumes "tcbs_ok s pl" and "pl t \<noteq> Gone" and "pl u \<noteq> Gone"
  obtains f where "Option.bind (set_no_preempt t 0 s) (set_no_preempt u 0) = Some (s\<lparr>tcbs := f\<rparr>)"
    and "tcbs_ok (s\<lparr>tcbs := f\<rparr>) pl" and "\<And>v. v \<noteq> t \<Longrightarrow> v \<noteq> u \<Longrightarrow> f v = tcbs s v"
proof -
  obtain b where b: "set_no_preempt t 0 s = Some (s\<lparr>tcbs := (tcbs s)(t \<mapsto> b\<lparr>t_no_preempt := 0\<rparr>)\<rparr>)"
    "tcbs_ok (s\<lparr>tcbs := (tcbs s)(t \<mapsto> b\<lparr>t_no_preempt := 0\<rparr>)\<rparr>) pl" (is "tcbs_ok ?s pl")
    using set_no_preempt_gives [OF assms(1,2), of 0] by blast
  obtain b' where b': "set_no_preempt u 0 ?s = Some (?s\<lparr>tcbs := (tcbs ?s)(u \<mapsto> b'\<lparr>t_no_preempt := 0\<rparr>)\<rparr>)"
    "tcbs_ok (?s\<lparr>tcbs := (tcbs ?s)(u \<mapsto> b'\<lparr>t_no_preempt := 0\<rparr>)\<rparr>) pl"
    using set_no_preempt_gives [OF b(2) assms(3), of 0] by blast
  have "Option.bind (set_no_preempt t 0 s) (set_no_preempt u 0) =
      Some (s\<lparr>tcbs := (tcbs s)(t \<mapsto> b\<lparr>t_no_preempt := 0\<rparr>, u \<mapsto> b'\<lparr>t_no_preempt := 0\<rparr>)\<rparr>)"
    using b(1) b'(1) by simp
  then show ?thesis using that [of "(tcbs s)(t \<mapsto> b\<lparr>t_no_preempt := 0\<rparr>, u \<mapsto> b'\<lparr>t_no_preempt := 0\<rparr>)"] b'(2) by simp
qed

text \<open>
  The switch: the chosen thread runs, the one that blocked goes where its action says. An idle thread
  stays what it is.
\<close>

lemma block_end_ok:
  assumes ok: "sched_ok n s pl" and c: "c < n" "cores s c \<noteq> Runs"
  shows "\<exists>s' pl'. block_end c s = Some s' \<and> sched_ok n s' pl'"
proof -
  obtain t a where ta: "cores s c = Switches t a" using c(2) by (cases "cores s c") auto
  let ?me = "activeThreads s c"
  have Q: "queues_ok s pl" and T: "tcbs_ok s pl" and C: "\<And>d. d < n \<Longrightarrow> core_ok s pl d"
    and R: "\<And>t d. pl t = Running d \<Longrightarrow> d < n \<and> activeThreads s d = t"
    and P: "\<And>t d. pl t = Picked d \<Longrightarrow> d < n \<and> (\<exists>a. cores s d = Switches t a)"
    using ok by (simp_all add: sched_ok_def)
  note A = active_place [OF ok c(1)]
  have Cc: "pl (idleThreads s c) = Idling" "?me = idleThreads s c \<or> pl ?me = Running c"
    "pl t = Picked c \<or> t = idleThreads s c \<and> ?me \<noteq> idleThreads s c"
    "?me = idleThreads s c \<longrightarrow> (\<forall>k. a \<noteq> Wait k)"
    using C [OF c(1)] ta by (simp_all add: core_ok_def)
  have t: "pl t \<noteq> Gone" "t \<noteq> ?me" using Cc A(1) by auto
  obtain b where b: "set_no_preempt t 1 s = Some (s\<lparr>tcbs := (tcbs s)(t \<mapsto> b\<lparr>t_no_preempt := 1\<rparr>)\<rparr>)"
    "tcbs_ok (s\<lparr>tcbs := (tcbs s)(t \<mapsto> b\<lparr>t_no_preempt := 1\<rparr>)\<rparr>) pl"
    using set_no_preempt_gives [OF T t(1), of 1] by blast
  define s2 where "s2 = s\<lparr>tcbs := (tcbs s)(t \<mapsto> b\<lparr>t_no_preempt := 1\<rparr>), activeThreads := (activeThreads s)(c := t),
      esp0 := (esp0 s)(c := t_interruptEsp b)\<rparr>"
  have "tcbs_ok s2 pl" using b(2) by (simp add: s2_def tcbs_ok_def isIdle_def)
  from set_two_flags [OF this A(2) t(1)] obtain f where
    f: "Option.bind (set_no_preempt ?me 0 s2) (set_no_preempt t 0) = Some (s2\<lparr>tcbs := f\<rparr>)" "tcbs_ok (s2\<lparr>tcbs := f\<rparr>) pl"
      "\<And>v. v \<noteq> ?me \<Longrightarrow> v \<noteq> t \<Longrightarrow> f v = tcbs s2 v" by metis
  define s4 where "s4 = s2\<lparr>tcbs := f, cores := (cores s2)(c := Runs)\<rparr>"
  have run: "block_end c s = act a ?me s4"
    using b(1) f(1) by (simp add: block_end_def ta Let_def s2_def s4_def)
  have g: "nexts s4 = nexts s" "readyQ s4 = readyQ s" "zombies s4 = zombies s" "semas s4 = semas s"
    "activeThreads s4 = (activeThreads s)(c := t)" "idleThreads s4 = idleThreads s" "cores s4 = (cores s)(c := Runs)" "tcbs s4 = f"
    by (simp_all add: s4_def s2_def)
  define pl1 where "pl1 = (if pl t = Picked c then pl(t := Running c) else pl)"
  have F4: "tcbs_ok s4 pl" using f(2) by (simp add: s4_def tcbs_ok_def isIdle_def)
  have T1: "tcbs_ok s4 pl1"
    using F4 tcbs_move [OF F4, of t "Running c" s4] by (auto simp: pl1_def)
  have Q4: "queues_ok s4 pl" using Q by (simp add: queues_ok_def g)
  have Q1: "queues_ok s4 pl1" using queues_move [OF Q4, of t "Running c"] Q4 by (auto simp: pl1_def)
  have cores: "sched_ok n s' pl2" if q: "queues_ok s' pl2" "tcbs_ok s' pl2"
    and e: "activeThreads s' = activeThreads s4" "idleThreads s' = idleThreads s4" "cores s' = cores s4" "tcbs s' = tcbs s4"
    and u: "pl2 t = pl1 t" "\<And>u. u \<noteq> t \<Longrightarrow> u \<noteq> ?me \<Longrightarrow> pl2 u = pl u"
    and m: "pl2 ?me = (if ?me = idleThreads s c then Idling else place_after a)" for s' pl2
  proof -
    have pt: "pl2 t = (if t = idleThreads s c then Idling else Running c)"
      using u(1) Cc(1,3) by (auto simp: pl1_def)
    have other: "pl2 u = pl u" "u \<noteq> t" "u \<noteq> ?me" if v: "pl u = Running d \<or> pl u = Picked d" "d \<noteq> c" for u d
    proof -
      show ne: "u \<noteq> t" "u \<noteq> ?me" using v Cc(1,3) A(1) by auto
      then show "pl2 u = pl u" by (rule u(2))
    qed
    have idle: "pl2 (idleThreads s d) = Idling" if "d < n" for d
    proof -
      have "pl (idleThreads s d) = Idling" using C [OF that] by (simp add: core_ok_def)
      then have "idleThreads s d = t \<longrightarrow> t = idleThreads s c" "idleThreads s d = ?me \<longrightarrow> ?me = idleThreads s c"
        using Cc(2,3) by auto
      then show ?thesis using \<open>pl (idleThreads s d) = Idling\<close> u(2) [of "idleThreads s d"] pt m
        by (cases "idleThreads s d = t"; cases "idleThreads s d = ?me"; simp)
    qed
    have "core_ok s' pl2 d" if d: "d < n" for d
    proof (cases "d = c")
      case True
      then show ?thesis using idle [OF c(1)] pt by (auto simp: core_ok_def e g)
    next
      case False
      then have "f v = tcbs s v" if "pl v = Running d" for v using f(3) [of v] other(2,3) [of v d] that by (simp add: s2_def)
      then show ?thesis using C [OF d] idle [OF d] False other(1) [of _ d] by (auto simp: core_ok_def e g)
    qed
    moreover have "d < n \<and> activeThreads s' d = v" if "pl2 v = Running d" for v d
    proof (cases "v = t")
      case True
      then show ?thesis using that pt c(1) by (auto simp: e g split: if_splits)
    next
      case False
      then have "v \<noteq> ?me" using that m by (cases a) (auto split: if_splits)
      then show ?thesis using R [of v d] that u(2) False by (auto simp: e g)
    qed
    moreover have "d < n \<and> (\<exists>a. cores s' d = Switches v a)" if "pl2 v = Picked d" for v d
    proof -
      have "v \<noteq> t" using that pt by (auto split: if_splits)
      moreover have "v \<noteq> ?me" using that m by (cases a) (auto split: if_splits)
      ultimately show ?thesis using P [of v d] that u(2) ta by (auto simp: e g)
    qed
    ultimately show ?thesis using q by (simp add: sched_ok_def)
  qed
  have me1: "pl1 ?me = pl ?me" using t(2) by (simp add: pl1_def)
  show ?thesis
  proof (cases "?me = idleThreads s c")
    case True
    then have "isIdle s4 ?me" using F4 Cc(1) by (simp add: tcbs_ok_def)
    then have "act a ?me s4 = Some s4"
      using Cc(4) True by (cases a) (auto simp: schedule_def bury_def isIdle_def split: option.splits)
    moreover have "sched_ok n s4 pl1"
      by (rule cores [OF Q1 T1]) (use True Cc(1) me1 in \<open>auto simp: pl1_def\<close>)
    ultimately show ?thesis using run by metis
  next
    case False
    then have me: "pl ?me = Running c" using Cc(2) by simp
    obtain b' where b': "tcbs s4 ?me = Some b'" "\<not> t_isIdle b'"
      using live [OF F4, of ?me] me by auto
    obtain s' where s': "act a ?me s4 = Some s'" "queues_ok s' (pl1(?me := place_after a))" "tcbs s' = tcbs s4"
      "activeThreads s' = activeThreads s4" "idleThreads s' = idleThreads s4" "cores s' = cores s4"
      using act_gives [OF Q1 b'] me1 me by auto
    have "place_after a \<noteq> Gone" "place_after a \<noteq> Idling" by (cases a; simp)+
    then have "tcbs_ok s' (pl1(?me := place_after a))"
      using tcbs_move [OF T1, of ?me "place_after a" s'] me1 me s'(3) by simp
    then have "sched_ok n s' (pl1(?me := place_after a))"
      by (rule cores [OF s'(2)]) (use False s' t(2) in \<open>auto simp: pl1_def\<close>)
    then show ?thesis using run s'(1) by metis
  qed
qed

lemma apitHandler_ok:
  assumes ok: "sched_ok n s pl" and c: "c < n"
  shows "\<exists>s' pl'. apitHandler c s = Some s' \<and> sched_ok n s' pl'"
proof -
  let ?me = "activeThreads s c"
  note A = active_place [OF ok c]
  have "tcbs_ok s pl" using ok by (simp add: sched_ok_def)
  then obtain b where b: "tcbs s ?me = Some b" using A(2) by (auto simp: tcbs_ok_def)
  show ?thesis
  proof (cases "t_isIdle b \<or> t_no_preempt b \<noteq> 0")
    case True
    then have "apitHandler c s = Some s" using b by (simp add: apitHandler_def)
    then show ?thesis using ok by blast
  next
    case False
    then have ne: "?me \<noteq> idleThreads s c" using A(3) b by (simp add: isIdle_def)
    have "core_ok s pl c" using ok c by (simp add: sched_ok_def)
    then have "cores s c = Runs" using ne b False by (cases "cores s c") (auto simp: core_ok_def)
    then show ?thesis
      using block_begin_ok [OF ok c, of Reschedule True] b False by (simp add: apitHandler_def yield_def)
  qed
qed

text \<open>Counts and locks of semaphores do not matter for the places.\<close>

lemma sched_ok_sema:
  assumes "sched_ok n s pl" and "s_waiting v = s_waiting (semas s k)"
  shows "sched_ok n (s\<lparr>semas := (semas s)(k := v)\<rparr>) pl"
  using assms by (auto simp: sched_ok_def queues_ok_def tcbs_ok_def isIdle_def core_ok_def)

lemma down_ok:
  assumes ok: "sched_ok n s pl" and c: "calls n s c"
  shows "\<exists>s' pl'. down k c s = Some s' \<and> sched_ok n s' pl'"
proof (cases "s_count (semas s k) > 0")
  case True
  then have "down k c s = Some (s\<lparr>semas := (semas s)(k := (semas s k)\<lparr>s_count := s_count (semas s k) - 1\<rparr>)\<rparr>)"
    by (simp add: down_def)
  moreover have "sched_ok n (s\<lparr>semas := (semas s)(k := (semas s k)\<lparr>s_count := s_count (semas s k) - 1\<rparr>)\<rparr>) pl"
    by (rule sched_ok_sema [OF ok]) simp
  ultimately show ?thesis by blast
next
  case False
  let ?s = "s\<lparr>semas := (semas s)(k := (semas s k)\<lparr>s_locked := True\<rparr>)\<rparr>"
  have "sched_ok n ?s pl" by (rule sched_ok_sema [OF ok]) simp
  moreover have "c < n" "cores ?s c = Runs" "activeThreads ?s c \<noteq> idleThreads ?s c"
    using c active_place(3) [OF ok, of c] by (simp_all add: calls_def)
  ultimately show ?thesis using block_begin_ok [of n ?s pl c "Wait k" False] False by (simp add: down_def)
qed

text \<open>A thread in none of the queues is scheduled.\<close>

lemma schedule_ok:
  assumes ok: "sched_ok n s pl" and q: "queues_ok s' (pl(t := p))" and p: "p \<noteq> Queued" "p \<noteq> Dying" "\<forall>k. p \<noteq> Waiting k"
    and t: "pl t = Gone \<or> (\<exists>k. pl t = Waiting k)" "tcbs s' t = Some b" "\<not> t_isIdle b" "\<And>u. u \<noteq> t \<Longrightarrow> tcbs s' u = tcbs s u"
    and e: "activeThreads s' = activeThreads s" "idleThreads s' = idleThreads s" "cores s' = cores s"
  shows "\<exists>s'' pl'. schedule t s' = Some s'' \<and> sched_ok n s'' pl'"
proof -
  have T: "tcbs_ok s pl" and C: "\<And>d. d < n \<Longrightarrow> core_ok s pl d"
    and R: "\<And>t d. pl t = Running d \<Longrightarrow> d < n \<and> activeThreads s d = t"
    and P: "\<And>t d. pl t = Picked d \<Longrightarrow> d < n \<and> (\<exists>a. cores s d = Switches t a)"
    using ok by (simp_all add: sched_ok_def)
  have "(pl(t := p)) t \<noteq> Queued" "(pl(t := p)) t \<noteq> Dying" "\<forall>k. (pl(t := p)) t \<noteq> Waiting k" using p by simp_all
  then obtain s'' where a: "act Reschedule t s' = Some s''" "queues_ok s'' ((pl(t := p))(t := place_after Reschedule))" "tcbs s'' = tcbs s'"
      "activeThreads s'' = activeThreads s'" "idleThreads s'' = idleThreads s'" "cores s'' = cores s'"
    by (rule act_gives [OF q t(2,3)])
  note s'' = a(1,2) [simplified] a(3) a(4-6) [unfolded e]
  have "tcbs_ok s'' (pl(t := Queued))"
    using T t(2-4) by (simp add: tcbs_ok_def isIdle_def s''(3))
  moreover have "core_ok s'' (pl(t := Queued)) d" if "d < n" for d
  proof -
    have "idleThreads s d \<noteq> t" "activeThreads s d \<noteq> t" using active_place(1) [OF ok that] C [OF that] t(1) by (auto simp: core_ok_def)
    then show ?thesis using C [OF that] t(1,4) by (auto simp: core_ok_def s'')
  qed
  moreover have "d < n \<and> activeThreads s'' d = u" if "(pl(t := Queued)) u = Running d" for u d
    using R [of u d] that by (simp add: s'' split: if_splits)
  moreover have "d < n \<and> (\<exists>a. cores s'' d = Switches u a)" if "(pl(t := Queued)) u = Picked d" for u d
    using P [of u d] that by (simp add: s'' split: if_splits)
  ultimately show ?thesis using s''(1,2) unfolding sched_ok_def by blast
qed

lemma up_ok:
  assumes ok: "sched_ok n s pl"
  shows "\<exists>s' pl'. up k s = Some s' \<and> sched_ok n s' pl'"
proof -
  have Q: "queues_ok s pl" and T: "tcbs_ok s pl" using ok by (simp_all add: sched_ok_def)
  have W: "queue_of (nexts s) (s_waiting (semas s k)) (\<lambda>t. pl t = Waiting k)" using Q by (simp add: queues_ok_def)
  show ?thesis
  proof (cases rule: queue_of_unlink [OF W])
    case (1 l)
    then have "up k s = Some (s\<lparr>semas := (semas s)(k := (semas s k)\<lparr>s_count := s_count (semas s k) + 1\<rparr>)\<rparr>)"
      by (simp add: up_def)
    moreover have "sched_ok n (s\<lparr>semas := (semas s)(k := (semas s k)\<lparr>s_count := s_count (semas s k) + 1\<rparr>)\<rparr>) pl"
      by (rule sched_ok_sema [OF ok]) simp
    ultimately show ?thesis by blast
  next
    case (2 l t)
    let ?s = "s\<lparr>semas := (semas s)(k := (semas s k)\<lparr>s_waiting := l\<rparr>)\<rparr>"
    obtain b where b: "tcbs s t = Some b" "\<not> t_isIdle b" using live [OF T, of t] 2(2) by auto
    have "queues_ok ?s (pl(t := Running 0))"
      by (rule queues_leave [OF Q]) (use 2(2,3) in \<open>auto simp: \<close>)
    then have "\<exists>s'' pl'. schedule t ?s = Some s'' \<and> sched_ok n s'' pl'"
      by (rule schedule_ok [OF ok]) (use 2(2) b in auto)
    then show ?thesis using 2(1) by (simp add: up_def)
  qed
qed

lemma spawn_ok:
  assumes ok: "sched_ok n s pl" and t: "tcbs s t = None"
  shows "\<exists>s' pl'. spawn t p stack s = Some s' \<and> sched_ok n s' pl'"
proof -
  have Q: "queues_ok s pl" and T: "tcbs_ok s pl" using ok by (simp_all add: sched_ok_def)
  have gone: "pl t = Gone" using T t by (simp add: tcbs_ok_def)
  let ?s = "s\<lparr>tcbs := (tcbs s)(t \<mapsto> tcb_with_stack p (next_id s) stack), next_id := next_id s + 1\<rparr>"
  have "queues_ok ?s pl" using Q by (simp add: queues_ok_def)
  then have "queues_ok ?s (pl(t := Gone))" using gone by (simp add: fun_upd_idem)
  then have "\<exists>s'' pl'. schedule t ?s = Some s'' \<and> sched_ok n s'' pl'"
    by (rule schedule_ok [OF ok, where b = "tcb_with_stack p (next_id s) stack"]) (use gone in \<open>auto simp: tcb_with_stack_def\<close>)
  then show ?thesis by (simp add: spawn_def)
qed

lemma reap_ok:
  assumes ok: "sched_ok n s pl"
  shows "\<exists>pl'. sched_ok n (fst (reap s)) pl'"
proof -
  have Q: "queues_ok s pl" and T: "tcbs_ok s pl" and C: "\<And>d. d < n \<Longrightarrow> core_ok s pl d"
    and R: "\<And>t d. pl t = Running d \<Longrightarrow> d < n \<and> activeThreads s d = t"
    and P: "\<And>t d. pl t = Picked d \<Longrightarrow> d < n \<and> (\<exists>a. cores s d = Switches t a)"
    using ok by (simp_all add: sched_ok_def)
  have Z: "queue_of (nexts s) (zombies s) (\<lambda>t. pl t = Dying)" using Q by (simp add: queues_ok_def)
  show ?thesis
  proof (cases rule: queue_of_unlink [OF Z])
    case (1 l)
    then show ?thesis using ok by (auto simp: reap_def)
  next
    case (2 l t)
    let ?s = "s\<lparr>zombies := l, tcbs := (tcbs s)(t := None)\<rparr>" and ?pl = "pl(t := Gone)"
    have "queues_ok ?s ?pl"
      by (rule queues_leave [OF Q]) (use 2(2,3) in simp_all)
    moreover have "tcbs_ok ?s ?pl" using T by (simp add: tcbs_ok_def isIdle_def)
    moreover have "core_ok ?s ?pl d" if "d < n" for d
    proof -
      have "idleThreads s d \<noteq> t" "activeThreads s d \<noteq> t" using active_place(1) [OF ok that] C [OF that] 2(2) by (auto simp: core_ok_def)
      then show ?thesis using C [OF that] 2(2) by (auto simp: core_ok_def)
    qed
    moreover have "d < n \<and> activeThreads ?s d = u" if "?pl u = Running d" for u d
      using R [of u d] that by (simp split: if_splits)
    moreover have "d < n \<and> (\<exists>a. cores ?s d = Switches u a)" if "?pl u = Picked d" for u d
      using P [of u d] that by (simp split: if_splits)
    ultimately have "sched_ok n ?s ?pl" unfolding sched_ok_def by blast
    then show ?thesis using 2(1) by (auto simp: reap_def)
  qed
qed

section \<open>Initialisation\<close>

lemma make_idle_fields:
  "make_idle p junk js s = s' \<Longrightarrow> nexts s' = nexts s \<and> readyQ s' = readyQ s \<and> zombies s' = zombies s \<and> semas s' = semas s \<and>
     cores s' = cores s \<and> (\<forall>t. t \<notin> set js \<longrightarrow> tcbs s' t = tcbs s t \<and> activeThreads s' t = activeThreads s t \<and> idleThreads s' t = idleThreads s t) \<and>
     (\<forall>t \<in> set js. (\<exists>b. tcbs s' t = Some b \<and> t_isIdle b) \<and> activeThreads s' t = t \<and> idleThreads s' t = t)"
proof (induction js arbitrary: s)
  case Nil
  then show ?case by simp
next
  case (Cons i js)
  let ?s = "s\<lparr>tcbs := (tcbs s)(i \<mapsto> idle_tcb p (next_id s) (junk i)), next_id := next_id s + 1,
        idleThreads := (idleThreads s)(i := i), activeThreads := (activeThreads s)(i := i)\<rparr>"
  have s': "make_idle p junk js ?s = s'" using Cons.prems by simp
  note IH = Cons.IH [OF s']
  have "(\<exists>b. tcbs s' i = Some b \<and> t_isIdle b) \<and> activeThreads s' i = i \<and> idleThreads s' i = i"
    by (cases "i \<in> set js") (use IH in \<open>auto simp: idle_tcb_def\<close>)
  then show ?case using IH by simp
qed

lemma threadsInit_ok: "\<exists>s pl. threadsInit n p junk stack (no_threads nx counts) = Some s \<and> sched_ok n s pl"
proof -
  define s where "s = make_idle p junk [0..<n] (no_threads nx counts)"
  note F = make_idle_fields [OF s_def [symmetric]]
  have e: "readyQ s = (None, None)" "zombies s = (None, None)" "\<And>k. s_waiting (semas s k) = (None, None)" "\<And>c. cores s c = Runs"
    using F by (simp_all add: no_threads_def)
  have low: "\<exists>b. tcbs s t = Some b \<and> t_isIdle b" "activeThreads s t = t" "idleThreads s t = t" if "t < n" for t
    using F that by auto
  have high: "tcbs s t = None" if "\<not> t < n" for t using F that by (simp add: no_threads_def)
  let ?pl = "\<lambda>t. if t < n then Idling else Gone"
  have "queue_of (nexts s) (None, None) (\<lambda>t. False)" using holds_empty by (auto simp: queue_of_def)
  then have "queues_ok s ?pl"
    unfolding queues_ok_def e by (auto elim!: queue_of_cong)
  moreover have "(?pl t = Gone) = (tcbs s t = None) \<and> (?pl t = Idling) = isIdle s t" for t
    using low(1) [of t] high [of t] by (cases "t < n") (auto simp: isIdle_def)
  then have "tcbs_ok s ?pl" by (simp add: tcbs_ok_def)
  moreover have "core_ok s ?pl c" if "c < n" for c using low(2,3) [OF that] that by (simp add: core_ok_def e)
  ultimately have "sched_ok n s ?pl" by (simp add: sched_ok_def)
  from spawn_ok [OF this high, of n p stack] obtain s' pl' where "spawn n p stack s = Some s'" "sched_ok n s' pl'" by auto
  moreover obtain l where "unlink (None, None) (nexts s) = (l, None)" by (rule unlink_holds [OF holds_empty]) simp
  then have "delete_zombies 1 s = Some s" by (simp add: reap_def e)
  then have "threadsInit n p junk stack (no_threads nx counts) = spawn n p stack s"
    by (simp add: threadsInit_def thread_def flip: s_def)
  ultimately show ?thesis by metis
qed

lemma perform_ok:
  assumes "sched_ok n s pl" and "enabled n s x"
  shows "\<exists>s' pl'. perform x s = Some s' \<and> sched_ok n s' pl'"
proof (cases x)
  case (Tick c)
  then show ?thesis using apitHandler_ok [OF assms(1), of c] assms(2) by simp
next
  case (Switch c)
  then show ?thesis using block_end_ok [OF assms(1), of c] assms(2) by simp
next
  case (Yield c)
  then show ?thesis using block_begin_ok [OF assms(1), of c Reschedule True] assms(2) by (simp add: yield_def calls_def)
next
  case (Stop c)
  then show ?thesis using block_begin_ok [OF assms(1), of c Bury False] assms(2) by (simp add: stop_def)
next
  case (Down k c)
  then show ?thesis using down_ok [OF assms(1), of c k] assms(2) by simp
next
  case (Up k c)
  then show ?thesis using up_ok [OF assms(1), of k] by simp
next
  case (Reap c)
  then show ?thesis using reap_ok [OF assms(1)] by simp
next
  case (Spawn c t p stack)
  then show ?thesis using spawn_ok [OF assms(1), of t p stack] assms(2) by simp
qed

lemma reach_ok:
  "sched_reach n s s' \<Longrightarrow> sched_ok n s pl \<Longrightarrow> \<exists>pl'. sched_ok n s' pl'"
proof (induction rule: sched_reach.induct)
  case (step s s' x s'')
  then show ?case using perform_ok [of n s' _ x] by auto
qed blast

section \<open>Round robin\<close>

text \<open>A timer interrupt on core \<open>c\<close> and the switch it leads to.\<close>

definition quantum :: "nat \<Rightarrow> sched \<Rightarrow> sched option" where
  "quantum c s = Option.bind (apitHandler c s) (\<lambda>s1. if cores s1 c = Runs then Some s1 else block_end c s1)"

fun quanta :: "nat \<Rightarrow> nat \<Rightarrow> sched \<Rightarrow> sched option" where
  "quanta 0 c s = Some s"
| "quanta (Suc k) c s = Option.bind (quantum c s) (quanta k c)"

text \<open>The thread \<open>me\<close> runs on core \<open>c\<close> and can be interrupted; the threads \<open>xs\<close> are ready, in this order.\<close>

definition serves :: "sched \<Rightarrow> nat \<Rightarrow> tid \<Rightarrow> tid list \<Rightarrow> bool" where
  "serves s c me xs \<longleftrightarrow>
     cores s c = Runs \<and> activeThreads s c = me \<and> holds (nexts s) (readyQ s) xs \<and> me \<notin> set xs \<and>
     (\<forall>t \<in> set (me # xs). \<exists>b. tcbs s t = Some b \<and> \<not> t_isIdle b) \<and> t_no_preempt (the (tcbs s me)) = 0"

lemma quantum_serves:
  assumes "serves s c me (x # xs)"
  shows "\<exists>s'. quantum c s = Some s' \<and> serves s' c x (xs @ [me])"
proof -
  have S: "cores s c = Runs" "activeThreads s c = me" "holds (nexts s) (readyQ s) (x # xs)" "me \<notin> set (x # xs)"
    and L: "\<And>t. t = me \<or> t = x \<or> t \<in> set xs \<Longrightarrow> \<exists>b. tcbs s t = Some b \<and> \<not> t_isIdle b"
    using assms by (auto simp: serves_def)
  obtain b where b: "tcbs s me = Some b" "\<not> t_isIdle b" "t_no_preempt b = 0"
    using assms by (auto simp: serves_def)
  obtain bx where bx: "tcbs s x = Some bx" "\<not> t_isIdle bx" using L [of x] by auto
  obtain l where l: "unlink (readyQ s) (nexts s) = (l, Some x)" "holds (nexts s) l xs"
    using unlink_holds [OF S(3)] by auto
  have dist: "distinct (x # xs)" using S(3) by (simp add: holds_def queue_rep_def)
  obtain l' nx where l': "link l (nexts s) me = Some (l', nx)" "holds nx l' (xs @ [me])"
    by (rule link_holds [OF l(2), of me]) (use S(4) in auto)
  let ?f = "(tcbs s)(me \<mapsto> b\<lparr>t_no_preempt := 0\<rparr>, x \<mapsto> bx\<lparr>t_no_preempt := 0\<rparr>)"
  let ?s = "s\<lparr>tcbs := ?f, nexts := nx, readyQ := l', activeThreads := (activeThreads s)(c := x),
     esp0 := (esp0 s)(c := t_interruptEsp bx), cores := (cores s)(c := Runs)\<rparr>"
  have ne: "x \<noteq> me" using S(4) by auto
  have "quantum c s = Some ?s"
    using b bx l(1) l'(1) ne S(1,2)
    by (simp add: quantum_def apitHandler_def yield_def block_begin_def Let_def set_no_preempt_def block_end_def schedule_def fun_upd_twist)
  moreover have "serves ?s c x (xs @ [me])"
    using l'(2) L b bx dist ne S(4) by (auto simp: serves_def)
  ultimately show ?thesis by blast
qed

lemma quanta_serve:
  "serves s c me xs \<Longrightarrow> i < length xs \<Longrightarrow>
    \<exists>s'. quanta (Suc i) c s = Some s' \<and> serves s' c (xs ! i) (drop (Suc i) xs @ me # take i xs)"
proof (induction i arbitrary: s me xs)
  case 0
  then obtain x ys where "xs = x # ys" by (cases xs) auto
  then show ?case using quantum_serves [of s c me x ys] 0 by auto
next
  case (Suc i)
  then obtain x ys where xs: "xs = x # ys" by (cases xs) auto
  obtain s1 where s1: "quantum c s = Some s1" "serves s1 c x (ys @ [me])" using quantum_serves Suc.prems xs by blast
  have "i < length (ys @ [me])" using Suc.prems(2) xs by simp
  from Suc.IH [OF s1(2) this] obtain s' where "quanta (Suc i) c s1 = Some s'"
    "serves s' c ((ys @ [me]) ! i) (drop (Suc i) (ys @ [me]) @ x # take i (ys @ [me]))" by blast
  then show ?case using s1(1) Suc.prems(2) xs by (auto simp: nth_append)
qed

section \<open>Properties\<close>



text \<open>
  C19. The timer serves the ready threads in turn: when a thread that may be interrupted runs on a
  core and the threads \<open>xs\<close> are ready, then after \<open>i + 1\<close> interrupts of this core thread \<open>i\<close> of them runs
  and may be interrupted, and the others wait in the order in which they will be served.
\<close>

theorem round_robin:
  assumes "serves s c me xs" and "i < length xs"
  shows "\<exists>s'. quanta (Suc i) c s = Some s' \<and> serves s' c (xs ! i) (drop (Suc i) xs @ me # take i xs)"
  using quanta_serve [OF assms] .

text \<open>A core that runs thread 9 while the threads 4, 5 and 6 are ready.\<close>

definition busy :: sched where
  "busy = (no_threads ((\<lambda>_. None)(4 := Some 5, 5 := Some 6)) (\<lambda>_. 0))
     \<lparr>tcbs := (\<lambda>t. if t = 0 then Some (idle_tcb 0 0 0) else Some (tcb_with_stack 0 (of_nat t) 0)),
      readyQ := (Some 4, Some 6), activeThreads := (\<lambda>_. 9)\<rparr>"

theorem round_robin_witness:
  "\<exists>s'. quanta 2 0 busy = Some s' \<and> activeThreads s' 0 = 5 \<and> holds (nexts s') (readyQ s') [6, 9, 4]"
proof -
  have "serves busy 0 9 [4, 5, 6]"
    by (simp add: serves_def busy_def no_threads_def holds_def queue_rep_def queue_view_def tcb_with_stack_def)
  from round_robin [OF this, of 1] show ?thesis by (auto simp: serves_def numeral_2_eq_2)
qed

text \<open>
  C20. A thread that the timer finds alone is not preempted again: the interrupt leaves its flag set, and
  while it runs, whatever threads become ready, no later interrupt of the core switches.
\<close>

theorem lone_thread_keeps_core:
  assumes "serves s c me []"
  shows "\<exists>s1. quantum c s = Some s1 \<and> \<not> serves s1 c me [] \<and>
    (\<forall>s2. activeThreads s2 c = me \<and> cores s2 c = Runs \<and> tcbs s2 me = tcbs s1 me \<longrightarrow> quantum c s2 = Some s2)"
proof -
  obtain b where b: "tcbs s me = Some b" "\<not> t_isIdle b" "t_no_preempt b = 0" "cores s c = Runs" "activeThreads s c = me"
    using assms by (auto simp: serves_def)
  have "holds (nexts s) (readyQ s) []" using assms by (simp add: serves_def)
  then obtain l where "unlink (readyQ s) (nexts s) = (l, None)" by (rule unlink_holds) simp
  then have "quantum c s = Some (s\<lparr>tcbs := (tcbs s)(me \<mapsto> b\<lparr>t_no_preempt := 1\<rparr>)\<rparr>)"
    using b by (simp add: quantum_def apitHandler_def yield_def block_begin_def Let_def set_no_preempt_def)
  then show ?thesis using b by (auto simp: serves_def quantum_def apitHandler_def)
qed

theorem lone_thread_keeps_core_witness:
  "\<exists>s1. quantum 0 (busy\<lparr>readyQ := (None, None)\<rparr>) = Some s1 \<and> quantum 0 (s1\<lparr>readyQ := (Some 4, Some 6)\<rparr>) = Some (s1\<lparr>readyQ := (Some 4, Some 6)\<rparr>)"
proof -
  have "serves (busy\<lparr>readyQ := (None, None)\<rparr>) 0 9 []"
    by (simp add: serves_def busy_def no_threads_def holds_empty tcb_with_stack_def)
  from lone_thread_keeps_core [OF this] obtain s1 where s1: "quantum 0 (busy\<lparr>readyQ := (None, None)\<rparr>) = Some s1"
    "\<forall>s2. activeThreads s2 0 = 9 \<and> cores s2 0 = Runs \<and> tcbs s2 9 = tcbs s1 9 \<longrightarrow> quantum 0 s2 = Some s2" by blast
  have "activeThreads s1 0 = 9" "cores s1 0 = Runs"
    using s1(1) by (auto simp: quantum_def apitHandler_def yield_def block_begin_def set_no_preempt_def busy_def no_threads_def
      tcb_with_stack_def unlink_def queue_remove_def queue_view_def)
  then show ?thesis using s1 by simp
qed

end
