(* ===== verification/Fork.thy ===== *)
theory Fork
  imports VMM_Spaces
begin

text \<open>
  The copy of an address space in \<^verbatim>\<open>Process::fork\<close> of \<^verbatim>\<open>kernel/process.cc\<close>: the loops over the user half of
  the page tables. \<open>parent\<close> and \<open>child\<close> are the directories \<^verbatim>\<open>pd\<close> of the two processes.
\<close>

section \<open>The loops\<close>

definition fork_pte :: "u32 \<Rightarrow> u32 \<Rightarrow> nat \<Rightarrow> pmem \<Rightarrow> pm_panic + pmem" where
  "fork_pte child_pt parent_pt j s =
     (let pti = word_of_nat j;
          child_pte = pm_mem s (child_pt + 4 * pti) in
      if child_pte AND 1 = 1 then Inr s
      else let parent_pte = pm_mem s (parent_pt + 4 * pti) in
        if parent_pte AND 1 = 0 then Inr s
        else let parent_frame = parent_pte AND 0xFFFFF000 in
          rbind (alloc_frame s) (\<lambda>(s1, child_frame).
          let s2 = copy_words s1 child_frame parent_frame 1024 in
          Inr (pm_write s2 (child_pt + 4 * pti) (child_frame OR 7))))"

definition fork_pde :: "u32 \<Rightarrow> u32 \<Rightarrow> nat \<Rightarrow> pmem \<Rightarrow> pm_panic + pmem" where
  "fork_pde parent child i s =
     (let pdi = word_of_nat i;
          parent_pde = pm_mem s (parent + 4 * pdi) in
      if parent_pde AND 1 = 0 then Inr s
      else
        let parent_pt = parent_pde AND 0xFFFFF000;
            child_pde = pm_mem s (child + 4 * pdi) in
        rbind
          (if child_pde AND 1 = 0
           then rbind (alloc_frame s) (\<lambda>(s1, p). Inr (pm_write s1 (child + 4 * pdi) (p OR 7), p))
           else Inr (s, child_pde AND 0xFFFFF000))
          (\<lambda>(s1, child_pt). rfold (fork_pte child_pt parent_pt) [0..<1024] s1))"

definition fork_pages :: "u32 \<Rightarrow> u32 \<Rightarrow> pmem \<Rightarrow> pm_panic + pmem" where
  "fork_pages parent child s = rfold (fork_pde parent child) [512..<1024] s"

section \<open>What the loops keep\<close>

text \<open>The page tables of the user half.\<close>

definition upper_tables :: "(u32 \<Rightarrow> u32) \<Rightarrow> u32 \<Rightarrow> u32 set" where
  "upper_tables m pd = {frame (m (pd + 4 * i)) |i. i < 1024 \<and> 512 \<le> i \<and> present (m (pd + 4 * i))}"

text \<open>
  The two spaces have nothing private in common: the child's directory and user tables are not
  tables of the parent and not frames of its user pages.
\<close>

definition parent_frames :: "Config \<Rightarrow> pmem \<Rightarrow> u32 \<Rightarrow> u32 set" where
  "parent_frames cfg s P = vm_tables (pm_mem s) P \<union> {f. \<exists>va. user_page cfg va \<and> translate (pm_mem s) P va = Some f}"

definition child_frames :: "pmem \<Rightarrow> u32 \<Rightarrow> u32 set" where
  "child_frames s C = insert C (upper_tables (pm_mem s) C)"

text \<open>The pages \<open>V\<close> have been dealt with.\<close>

definition copied :: "pmem \<Rightarrow> u32 \<Rightarrow> u32 \<Rightarrow> u32 \<Rightarrow> bool" where
  "copied s P C va \<longleftrightarrow> pm_offset va = 0 \<and> 512 \<le> pdi_of va \<and> translate (pm_mem s) C va = None \<and> translate (pm_mem s) P va \<noteq> None"

definition fork_state :: "pmem \<Rightarrow> u32 \<Rightarrow> u32 \<Rightarrow> u32 set \<Rightarrow> pmem \<Rightarrow> bool" where
  "fork_state s P C D s' \<longleftrightarrow>
     vm_wf s' C \<and> pm_limit s' = pm_limit s \<and> pm_free s' \<subseteq> pm_free s \<and>
     (\<forall>a. frame a \<notin> pm_free s \<union> child_frames s C \<longrightarrow> pm_mem s' a = pm_mem s a) \<and>
     upper_tables (pm_mem s') C \<subseteq> upper_tables (pm_mem s) C \<union> pm_free s \<and>
     (\<forall>va. pm_offset va = 0 \<longrightarrow> va \<notin> D \<longrightarrow> translate (pm_mem s') C va = translate (pm_mem s) C va) \<and>
     (\<forall>va \<in> D.
        (\<exists>f. translate (pm_mem s') C va = Some f \<and> pm_offset f = 0 \<and> f \<in> pm_free s - pm_free s' \<and> f \<notin> vm_tables (pm_mem s') C \<and>
          (\<forall>k < 1024. pm_mem s' (f + 4 * k) = pm_mem s (the (translate (pm_mem s) P va) + 4 * k)) \<and>
          (\<forall>vb \<in> D. translate (pm_mem s') C vb = Some f \<longrightarrow> vb = va)))"

definition forks :: "pmem \<Rightarrow> u32 \<Rightarrow> u32 \<Rightarrow> u32 set \<Rightarrow> pmem \<Rightarrow> bool" where
  "forks s P C V s' \<longleftrightarrow> fork_state s P C {va \<in> V. copied s P C va} s'"

text \<open>Copying words into a frame that is not free.\<close>

lemma copy_frame:
  assumes inv: "pm_inv s" and d: "pm_offset d = 0" "d \<notin> pm_free s" and t: "pm_offset t = 0" "d \<noteq> t"
  defines "s' \<equiv> copy_words s d t 1024"
  shows "pm_inv s'" and "pm_free s' = pm_free s" and "pm_limit s' = pm_limit s"
    and "\<And>a. frame a \<noteq> d \<Longrightarrow> pm_mem s' a = pm_mem s a"
    and "\<And>k. k < 1024 \<Longrightarrow> pm_mem s' (d + 4 * k) = pm_mem s (t + 4 * k)"
proof -
  have C: "\<And>k. k < 1024 \<Longrightarrow> pm_mem s' (d + 4 * word_of_nat k) = pm_mem s (t + 4 * word_of_nat k)"
      "\<And>a. frame a \<noteq> d \<Longrightarrow> pm_mem s' a = pm_mem s a"
      "pm_firstFree s' = pm_firstFree s" "pm_avail s' = pm_avail s" "pm_limit s' = pm_limit s"
    using copy_words_sound [OF d(1) t, of 0 1024 s] by (simp_all add: Let_def s'_def)
  show "pm_limit s' = pm_limit s" by (rule C(5))
  show "\<And>a. frame a \<noteq> d \<Longrightarrow> pm_mem s' a = pm_mem s a" by (rule C(2))
  show "pm_mem s' (d + 4 * k) = pm_mem s (t + 4 * k)" if "k < 1024" for k
  proof -
    have "unat k < 1024" using that by (simp add: word_less_nat_alt)
    then show ?thesis using C(1) [of "unat k"] by simp
  qed
  obtain fs where rep: "pm_rep s fs" using pm_inv_rep [OF inv] by blast
  have "pm_mem s' f = pm_mem s f" if "f \<in> set fs" for f
    using that d(2) rep frame_id [of f] unfolding pm_rep_free [OF rep]
    by (intro C(2)) (auto simp: pm_rep_def)
  then have "chain (pm_mem s) (pm_firstFree s) fs = chain (pm_mem s') (pm_firstFree s) fs"
    by (intro chain_cong) simp
  then have rep': "pm_rep s' fs" using rep C(3-5) by (simp add: pm_rep_def)
  then show "pm_inv s'" unfolding pm_inv_def by blast
  show "pm_free s' = pm_free s"
    using C(3-5) unfolding pm_rep_free [OF rep] pm_rep_free [OF rep'] by auto
qed

definition fork_ready :: "Config \<Rightarrow> pmem \<Rightarrow> u32 \<Rightarrow> u32 \<Rightarrow> bool" where
  "fork_ready cfg s P C \<longleftrightarrow>
     private_ok cfg s P \<and> vm_wf s C \<and> (\<forall>va. user_page cfg va \<longrightarrow> translate (pm_mem s) C va = None) \<and>
     child_frames s C \<inter> parent_frames cfg s P = {} \<and>
     (\<forall>va. pm_offset va = 0 \<and> 512 \<le> pdi_of va \<and> \<not> user_page cfg va \<longrightarrow>
        translate (pm_mem s) P va = None \<or> translate (pm_mem s) C va \<noteq> None)"

lemma copied_user:
  assumes "fork_ready cfg s P C" and "copied s P C va"
  shows "user_page cfg va"
proof -
  have "pm_offset va = 0 \<and> 512 \<le> pdi_of va \<and> \<not> user_page cfg va \<longrightarrow>
        translate (pm_mem s) P va = None \<or> translate (pm_mem s) C va \<noteq> None"
    using assms(1) unfolding fork_ready_def by simp
  then show ?thesis using assms(2) by (auto simp: copied_def)
qed

lemma parent_frame_kept:
  assumes "fork_ready cfg s P C" and "f \<in> parent_frames cfg s P"
  shows "pm_offset f = 0" and "f \<notin> pm_free s \<union> child_frames s C"
proof -
  have pr: "private_ok cfg s P" using assms(1) by (simp add: fork_ready_def)
  then have "pm_owned s f"
    using assms(2) tables_owned [of s P f] by (auto simp: private_ok_def parent_frames_def)
  then show "pm_offset f = 0" by (simp add: pm_owned_def)
  have "f \<notin> pm_free s" using \<open>pm_owned s f\<close> by (simp add: pm_owned_def)
  moreover have "f \<notin> child_frames s C" using assms by (auto simp: fork_ready_def)
  ultimately show "f \<notin> pm_free s \<union> child_frames s C" by blast
qed

text \<open>The parent is as it was.\<close>

lemma parent_kept:
  assumes r: "fork_ready cfg s P C" and fk: "forks s P C V t"
  shows "vm_wf t P" and "translate (pm_mem t) P = translate (pm_mem s) P" and "vm_tables (pm_mem t) P = vm_tables (pm_mem s) P"
    and "\<And>f k. f \<in> parent_frames cfg s P \<Longrightarrow> k < 1024 \<Longrightarrow> pm_mem t (f + 4 * k) = pm_mem s (f + 4 * k)"
proof -
  have wf: "vm_wf s P" using r by (simp add: fork_ready_def private_ok_def)
  have mem: "pm_mem t a = pm_mem s a" if "frame a \<notin> pm_free s \<union> child_frames s C" for a
    using fk that unfolding forks_def fork_state_def by blast
  have T: "pm_inv t" "pm_limit t = pm_limit s" "pm_free t \<subseteq> pm_free s" using fk vm_wfD(1) unfolding forks_def fork_state_def by blast+
  have tab: "f \<in> parent_frames cfg s P" if "f \<in> vm_tables (pm_mem s) P" for f using that by (simp add: parent_frames_def)
  have "pm_free t \<inter> vm_tables (pm_mem s) P = {}" using T(3) parent_frame_kept(2) [OF r tab] by blast
  note K = wf_keep [OF wf T(1,2) this]
  have M: "pm_mem t a = pm_mem s a" if "frame a \<in> vm_tables (pm_mem s) P" for a
    using mem parent_frame_kept(2) [OF r tab [OF that]] by blast
  show "vm_wf t P" "translate (pm_mem t) P = translate (pm_mem s) P" "vm_tables (pm_mem t) P = vm_tables (pm_mem s) P"
    using K M by blast+
  show "pm_mem t (f + 4 * k) = pm_mem s (f + 4 * k)" if "f \<in> parent_frames cfg s P" "k < 1024" for f k
    using mem [of "f + 4 * k"] frame_slot [OF parent_frame_kept(1) [OF r that(1)] that(2)] parent_frame_kept(2) [OF r that(1)] by simp
qed

lemma forks_none:
  assumes "forks s P C V t" and "\<not> copied s P C va"
  shows "forks s P C (insert va V) t"
proof -
  have "{vb \<in> insert va V. copied s P C vb} = {vb \<in> V. copied s P C vb}" using assms(2) by auto
  then show ?thesis using assms(1) unfolding forks_def by simp
qed

lemma fork_pte_step:
  assumes r: "fork_ready cfg s P C" and fk: "forks s P C V t"
    and i: "i < 1024" "512 \<le> i" and j: "j < 1024" and va: "va = page_va i j" "va \<notin> V"
    and ct: "present (pm_mem t (C + 4 * i))" and pt: "present (pm_mem s (P + 4 * i))"
  defines "res \<equiv> fork_pte (frame (pm_mem t (C + 4 * i))) (frame (pm_mem s (P + 4 * i))) (unat j) t"
  shows "res = Inl NoMoreFrames \<or>
    (\<exists>t'. res = Inr t' \<and> forks s P C (insert va V) t' \<and> (\<forall>k < 1024. pm_mem t' (C + 4 * k) = pm_mem t (C + 4 * k)))"
proof -
  let ?ct = "frame (pm_mem t (C + 4 * i))" and ?pt = "frame (pm_mem s (P + 4 * i))"
  note A = page_va_parts [OF i(1) j, folded va(1)]
  have F: "vm_wf t C" "pm_limit t = pm_limit s" "pm_free t \<subseteq> pm_free s"
    and keep: "\<And>a. frame a \<notin> pm_free s \<union> child_frames s C \<Longrightarrow> pm_mem t a = pm_mem s a"
    and upper: "upper_tables (pm_mem t) C \<subseteq> upper_tables (pm_mem s) C \<union> pm_free s"
    and old: "\<And>vb. pm_offset vb = 0 \<Longrightarrow> \<not> (vb \<in> V \<and> copied s P C vb) \<Longrightarrow> translate (pm_mem t) C vb = translate (pm_mem s) C vb"
    and new: "\<And>vb. vb \<in> V \<Longrightarrow> copied s P C vb \<Longrightarrow>
        \<exists>f. translate (pm_mem t) C vb = Some f \<and> pm_offset f = 0 \<and> f \<in> pm_free s - pm_free t \<and> f \<notin> vm_tables (pm_mem t) C \<and>
          (\<forall>k < 1024. pm_mem t (f + 4 * k) = pm_mem s (the (translate (pm_mem s) P vb) + 4 * k)) \<and>
          (\<forall>vc. vc \<in> V \<and> copied s P C vc \<and> translate (pm_mem t) C vc = Some f \<longrightarrow> vc = vb)"
    using fk unfolding forks_def fork_state_def by blast+
  note W = vm_wfD [OF F(1)]
  have ptab: "?pt \<in> parent_frames cfg s P" using pt i(1) by (auto simp: parent_frames_def vm_tables_def)
  have ppte: "pm_mem t (?pt + 4 * j) = pm_mem s (?pt + 4 * j)" by (rule parent_kept(4) [OF r fk ptab j])
  have "translate (pm_mem s) C va = translate (pm_mem t) C va" using old [OF A(3)] va(2) by simp
  then have tc: "translate (pm_mem s) C va = (if present (pm_mem t (?ct + 4 * j)) then Some (frame (pm_mem t (?ct + 4 * j))) else None)"
    using ct unfolding translate_entry [of "pm_mem t"] A(1,2) by simp
  have tp: "translate (pm_mem s) P va = (if present (pm_mem s (?pt + 4 * j)) then Some (frame (pm_mem s (?pt + 4 * j))) else None)"
    using pt unfolding translate_entry A(1,2) by simp
  have wj: "word_of_nat (unat j) = j" by simp
  have one: "x AND 1 = 1 \<longleftrightarrow> x AND 1 \<noteq> 0" for x :: u32 using and_one_eq [of x] by (auto simp: mod_2_eq_odd)
  show ?thesis
  proof (cases "copied s P C va")
    case False
    then have "present (pm_mem t (?ct + 4 * j)) \<or> \<not> present (pm_mem t (?pt + 4 * j))"
      using tc tp A i(2) ppte by (auto simp: copied_def split: if_splits)
    then have "res = Inr t" by (auto simp: res_def fork_pte_def Let_def one)
    then show ?thesis using forks_none [OF fk False] by blast
  next
    case True
    then have np: "\<not> present (pm_mem t (?ct + 4 * j))" and pp: "present (pm_mem t (?pt + 4 * j))"
      using tc tp ppte by (auto simp: copied_def split: if_splits)
    let ?g = "frame (pm_mem s (?pt + 4 * j))"
    have g: "translate (pm_mem s) P va = Some ?g" using tp pp ppte by simp
    have gp: "?g \<in> parent_frames cfg s P" using g copied_user [OF r True] by (auto simp: parent_frames_def)
    show ?thesis
    proof (cases rule: alloc_sound [OF W(1)])
      case 1
      then show ?thesis using np pp by (simp add: res_def fork_pte_def Let_def one)
    next
      case (2 s1 p)
      note L = alloc_keeps [OF F(1) 2(2,4,5-8)]
      let ?s2 = "copy_words s1 p ?g 1024"
      let ?t = "pm_write ?s2 (?ct + 4 * j) (p OR 7)"
      have ps: "p \<in> pm_free s" using 2(2) F(3) by blast
      have pg: "p \<noteq> ?g" using ps parent_frame_kept(2) [OF r gp] by blast
      have p1: "p \<notin> pm_free s1" using 2(6) by simp
      note Y = copy_frame [OF 2(5,4) p1 frame_aligned pg]
      have ptab: "p \<notin> vm_tables (pm_mem t) C" using 2(2) tables_owned [OF F(1)] by (auto simp: pm_owned_def)
      have free2: "pm_free ?s2 \<inter> vm_tables (pm_mem s1) C = {}"
        using Y(2) tables_owned [OF L(1)] by (auto simp: pm_owned_def)
      have mem2: "pm_mem ?s2 a = pm_mem t a" if "frame a \<noteq> p" for a
        using Y(4) [OF that] bzero_other [OF 2(4) that] 2(7) by simp
      have tabmem: "pm_mem ?s2 a = pm_mem s1 a" if "frame a \<in> vm_tables (pm_mem s1) C" for a
        using Y(4) that ptab L(3) by metis
      have K: "vm_wf ?s2 C" "translate (pm_mem ?s2) C = translate (pm_mem s1) C" "vm_tables (pm_mem ?s2) C = vm_tables (pm_mem s1) C"
        by (rule wf_keep [OF L(1) Y(1,3) free2]; erule tabmem)+
      have rows: "pm_mem ?s2 (C + 4 * k) = pm_mem t (C + 4 * k)" if "k < 1024" for k
        using mem2 frame_slot [OF W(3) that] ptab by (auto simp: vm_tables_def)
      have ct2: "present (pm_mem ?s2 (C + 4 * i))" "?ct = frame (pm_mem ?s2 (C + 4 * i))" using ct rows [OF i(1)] by simp_all
      note T = table_write [OF K(1) i(1) ct2 j, where v = "p OR 7"]
      have ctt: "?ct \<in> vm_tables (pm_mem t) C" using ct i(1) by (auto simp: vm_tables_def)
      have ctu: "?ct \<in> upper_tables (pm_mem t) C" using ct i by (auto simp: upper_tables_def)
      have cts: "frame (?ct + 4 * j) = ?ct" by (rule frame_slot [OF frame_aligned j])
      have pct: "p \<noteq> ?ct" using ctt ptab by blast
      have tabs: "vm_tables (pm_mem ?t) C = vm_tables (pm_mem t) C" using T(4) K(3) L(3) by simp
      have mem3: "pm_mem ?t a = pm_mem t a" if "frame a \<noteq> p" "frame a \<noteq> ?ct" for a
        using mem2 [OF that(1)] that(2) cts by auto
      have rows3: "pm_mem ?t (C + 4 * k) = pm_mem t (C + 4 * k)" if "k < 1024" for k
        using T(6) [OF that] rows [OF that] by simp
      have tr: "translate (pm_mem ?t) C vb = (if vb = va then Some p else translate (pm_mem t) C vb)" if "pm_offset vb = 0" for vb
      proof -
        have "pdi_of vb = i \<and> pti_of vb = j \<longleftrightarrow> vb = va" using page_va_eq [OF that] A va(1) by auto
        then show ?thesis using T(5) [of vb] K(2) L(2) frame_id [OF 2(4)] by simp
      qed
      have run: "res = Inr ?t" using np pp 2(1) ppte by (simp add: res_def fork_pte_def Let_def one frame_def [symmetric])
      have free3: "pm_free ?t = pm_free t - {p}" using T(2) Y(2) 2(6) by simp
      have "forks s P C (insert va V) ?t"
        unfolding forks_def fork_state_def
      proof (intro conjI allI impI ballI)
        show "vm_wf ?t C" by (rule T(1))
        show "pm_limit ?t = pm_limit s" using T(3) Y(3) 2(8) F(2) by simp
        show "pm_free ?t \<subseteq> pm_free s" using free3 F(3) by blast
        show "pm_mem ?t a = pm_mem s a" if "frame a \<notin> pm_free s \<union> child_frames s C" for a
        proof -
          have "frame a \<noteq> p" "frame a \<noteq> ?ct" using that ps ctu upper by (auto simp: child_frames_def)
          then show ?thesis using mem3 keep [OF that] by simp
        qed
        have "upper_tables (pm_mem ?t) C = upper_tables (pm_mem t) C"
          unfolding upper_tables_def using rows3 by (metis (no_types, lifting))
        then show "upper_tables (pm_mem ?t) C \<subseteq> upper_tables (pm_mem s) C \<union> pm_free s" using upper by simp
        show "translate (pm_mem ?t) C vb = translate (pm_mem s) C vb"
          if "pm_offset vb = 0" "vb \<notin> {vb \<in> insert va V. copied s P C vb}" for vb
          using tr [OF that(1)] old [OF that(1)] that(2) True by auto
      next
        fix vb
        assume vb: "vb \<in> {vb \<in> insert va V. copied s P C vb}"
        have pn: "translate (pm_mem t) C vc \<noteq> Some p" if "vc \<in> V" "copied s P C vc" for vc
          using new [OF that] 2(2) by auto
        have off: "pm_offset vc = 0" if "copied s P C vc" for vc using that by (simp add: copied_def)
        show "\<exists>f. translate (pm_mem ?t) C vb = Some f \<and> pm_offset f = 0 \<and> f \<in> pm_free s - pm_free ?t \<and> f \<notin> vm_tables (pm_mem ?t) C \<and>
          (\<forall>k < 1024. pm_mem ?t (f + 4 * k) = pm_mem s (the (translate (pm_mem s) P vb) + 4 * k)) \<and>
          (\<forall>vc \<in> {vb \<in> insert va V. copied s P C vb}. translate (pm_mem ?t) C vc = Some f \<longrightarrow> vc = vb)"
        proof (cases "vb = va")
          case True
          have "pm_mem ?t (p + 4 * k) = pm_mem s (?g + 4 * k)" if "k < 1024" for k
          proof -
            have "p + 4 * k \<noteq> ?ct + 4 * j" using slot_other [OF 2(4) frame_aligned pct that j] .
            moreover have "pm_mem s1 (?g + 4 * k) = pm_mem t (?g + 4 * k)"
              using bzero_other [OF 2(4)] frame_slot [OF frame_aligned that, of "pm_mem s (?pt + 4 * j)"] pg 2(7) by simp
            ultimately show ?thesis using Y(5) [OF that] parent_kept(4) [OF r fk gp that] by simp
          qed
          moreover have "\<forall>vc \<in> {vb \<in> insert va V. copied s P C vb}. translate (pm_mem ?t) C vc = Some p \<longrightarrow> vc = vb"
            using True tr off pn by (auto split: if_splits)
          ultimately show ?thesis
            using True tr [OF A(3)] 2(4) ps free3 ptab tabs g by auto
        next
          case False
          then have v: "vb \<in> V" "copied s P C vb" using vb by auto
          from new [OF this] obtain f where f: "translate (pm_mem t) C vb = Some f" "pm_offset f = 0" "f \<in> pm_free s - pm_free t"
            "f \<notin> vm_tables (pm_mem t) C" "\<forall>k < 1024. pm_mem t (f + 4 * k) = pm_mem s (the (translate (pm_mem s) P vb) + 4 * k)"
            "\<forall>vc. vc \<in> V \<and> copied s P C vc \<and> translate (pm_mem t) C vc = Some f \<longrightarrow> vc = vb" by blast
          have fp: "f \<noteq> p" "f \<noteq> ?ct" using f(3,4) 2(2) ctt by auto
          have "pm_mem ?t (f + 4 * k) = pm_mem t (f + 4 * k)" if "k < 1024" for k
            using mem3 frame_slot [OF f(2) that] fp by metis
          moreover have "vc = vb" if "vc \<in> insert va V \<and> copied s P C vc \<and> translate (pm_mem ?t) C vc = Some f" for vc
            using that tr off [of vc] f(6) fp(1) by (auto split: if_splits)
          ultimately show ?thesis
            using f tr [OF off [OF v(2)]] False free3 tabs by auto
        qed
      qed
      then show ?thesis using run rows3 by blast
    qed
  qed
qed

lemma fork_row:
  assumes r: "fork_ready cfg s P C" and i: "i < 1024" "512 \<le> i" and pt: "present (pm_mem s (P + 4 * i))"
  shows "forks s P C V t \<Longrightarrow> present (pm_mem t (C + 4 * i)) \<Longrightarrow> distinct js \<Longrightarrow> set js \<subseteq> {..<1024} \<Longrightarrow>
    (\<And>j. j \<in> set js \<Longrightarrow> page_va i (word_of_nat j) \<notin> V) \<Longrightarrow>
    rfold (fork_pte (frame (pm_mem t (C + 4 * i))) (frame (pm_mem s (P + 4 * i)))) js t = Inl NoMoreFrames \<or>
    (\<exists>t'. rfold (fork_pte (frame (pm_mem t (C + 4 * i))) (frame (pm_mem s (P + 4 * i)))) js t = Inr t' \<and>
       forks s P C (V \<union> (\<lambda>j. page_va i (word_of_nat j)) ` set js) t')"
proof (induction js arbitrary: t V)
  case Nil
  then show ?case by simp
next
  case (Cons j js)
  have j: "j < 1024" "word_of_nat j < (1024 :: u32)" "unat (word_of_nat j :: u32) = j"
    using Cons.prems(4) of_nat_less_1024 unat_of_nat_1024 by auto
  have "page_va i (word_of_nat j) \<notin> V" using Cons.prems(5) by simp
  from fork_pte_step [OF r Cons.prems(1) i j(2) refl this Cons.prems(2) pt] consider
    "fork_pte (frame (pm_mem t (C + 4 * i))) (frame (pm_mem s (P + 4 * i))) j t = Inl NoMoreFrames"
    | t1 where "fork_pte (frame (pm_mem t (C + 4 * i))) (frame (pm_mem s (P + 4 * i))) j t = Inr t1"
      "forks s P C (insert (page_va i (word_of_nat j)) V) t1" "pm_mem t1 (C + 4 * i) = pm_mem t (C + 4 * i)"
    using i(1) unfolding j(3) by blast
  then show ?case
  proof cases
    case 1
    then show ?thesis by simp
  next
    case 2
    have "page_va i (word_of_nat l) \<notin> insert (page_va i (word_of_nat j)) V" if "l \<in> set js" for l
    proof -
      have "l < 1024" "l \<noteq> j" using that Cons.prems(3,4) by auto
      then have "(word_of_nat l :: u32) \<noteq> word_of_nat j" using j unat_of_nat_1024 by metis
      then have "page_va i (word_of_nat l) \<noteq> page_va i (word_of_nat j)"
        using page_va_parts(2) [OF i(1) of_nat_less_1024 [OF \<open>l < 1024\<close>]] page_va_parts(2) [OF i(1) j(2)] by metis
      then show ?thesis using Cons.prems(5) that by simp
    qed
    moreover have "insert (page_va i (word_of_nat j)) V \<union> (\<lambda>j. page_va i (word_of_nat j)) ` set js =
        V \<union> (\<lambda>j. page_va i (word_of_nat j)) ` set (j # js)" by auto
    ultimately show ?thesis
      using Cons.IH [OF 2(2)] Cons.prems(2-4) 2(1,3) by simp
  qed
qed

lemma row_image: "i < 1024 \<Longrightarrow> (\<lambda>j. page_va i (word_of_nat j)) ` set [0..<1024] = {va. pm_offset va = 0 \<and> pdi_of va = i}"
proof (intro equalityI subsetI)
  fix va
  assume i: "i < 1024" and "va \<in> {va. pm_offset va = 0 \<and> pdi_of va = i}"
  then have "va = page_va i (word_of_nat (unat (pti_of va)))" using page_va_eq [of va] by simp
  moreover have "unat (pti_of va) < 1024" using pti_less [of va] by (simp add: word_less_nat_alt)
  moreover have "unat (pti_of va) \<in> set [0..<1024]" using calculation(2) by (simp only: set_upt atLeastLessThan_iff le0 simp_thms)
  ultimately show "va \<in> (\<lambda>j. page_va i (word_of_nat j)) ` set [0..<1024]" by blast
qed (auto simp: page_va_parts of_nat_less_1024)

lemma forks_skip:
  assumes "forks s P C V t" and "\<And>va. va \<in> W \<Longrightarrow> \<not> copied s P C va"
  shows "forks s P C (V \<union> W) t"
proof -
  have "{va \<in> V \<union> W. copied s P C va} = {va \<in> V. copied s P C va}" using assms(2) by auto
  then show ?thesis using assms(1) by (simp add: forks_def)
qed

text \<open>A new page table of the child.\<close>

lemma forks_table:
  assumes fk: "forks s P C V t" and i: "i < 1024" "512 \<le> i" and np: "\<not> present (pm_mem t (C + 4 * i))"
    and p: "alloc_frame t = Inr (t1, p)" "p \<in> pm_free t" "p \<noteq> 0" "pm_offset p = 0" "pm_inv t1" "pm_free t1 = pm_free t - {p}"
      "pm_mem t1 = bzero_frame (pm_mem t) p" "pm_limit t1 = pm_limit t"
  defines "t2 \<equiv> pm_write t1 (C + 4 * i) (p OR 7)"
  shows "forks s P C V t2" and "present (pm_mem t2 (C + 4 * i))" and "frame (pm_mem t2 (C + 4 * i)) = p"
proof -
  have F: "vm_wf t C" "pm_limit t = pm_limit s" "pm_free t \<subseteq> pm_free s"
    and keep: "\<And>a. frame a \<notin> pm_free s \<union> child_frames s C \<Longrightarrow> pm_mem t a = pm_mem s a"
    and upper: "upper_tables (pm_mem t) C \<subseteq> upper_tables (pm_mem s) C \<union> pm_free s"
    using fk unfolding forks_def fork_state_def by blast+
  note W = vm_wfD [OF F(1)]
  note A = table_add [OF F(1) i(1) np p(2-8) free_limit [OF W(1) p(2)], folded t2_def]
  have ps: "p \<in> pm_free s" using p(2) F(3) by blast
  show "present (pm_mem t2 (C + 4 * i))" "frame (pm_mem t2 (C + 4 * i)) = p" by (rule A(6), rule A(7))
  have mem: "pm_mem t2 a = pm_mem t a" if "frame a \<noteq> p" "frame a \<noteq> C" for a
    using that frame_slot [OF W(3) i(1)] bzero_other [OF p(4) that(1)] p(7) by (auto simp: t2_def)
  have rows: "pm_mem t2 (C + 4 * k) = pm_mem t (C + 4 * k)" if "k < 1024" "k \<noteq> i" for k
  proof -
    have "frame (C + 4 * k) \<noteq> p" using frame_slot [OF W(3) that(1)] W(4) p(2) by auto
    then have "pm_mem t1 (C + 4 * k) = pm_mem t (C + 4 * k)" using bzero_other [OF p(4)] p(7) by simp
    then show ?thesis using slot_inj [OF W(3) that(1) i(1)] that(2) by (auto simp: t2_def)
  qed
  have fp: "f \<noteq> p" "f \<noteq> C" if "f \<notin> pm_free t" "f \<notin> vm_tables (pm_mem t) C" for f
    using that p(2) by (auto simp: vm_tables_def)
  show "forks s P C V t2"
    unfolding forks_def fork_state_def
  proof (intro conjI allI impI ballI)
    show "vm_wf t2 C" by (rule A(1))
    show "pm_limit t2 = pm_limit s" "pm_free t2 \<subseteq> pm_free s" using A(2,3) F(2,3) by auto
    show "pm_mem t2 a = pm_mem s a" if "frame a \<notin> pm_free s \<union> child_frames s C" for a
      using mem [of a] keep [OF that] that ps by (auto simp: child_frames_def)
    show "upper_tables (pm_mem t2) C \<subseteq> upper_tables (pm_mem s) C \<union> pm_free s"
    proof
      fix f
      assume "f \<in> upper_tables (pm_mem t2) C"
      then obtain k where k: "f = frame (pm_mem t2 (C + 4 * k))" "k < 1024" "512 \<le> k" "present (pm_mem t2 (C + 4 * k))"
        by (auto simp: upper_tables_def)
      show "f \<in> upper_tables (pm_mem s) C \<union> pm_free s"
      proof (cases "k = i")
        case True
        then show ?thesis using k(1) A(7) ps by simp
      next
        case False
        then have "f \<in> upper_tables (pm_mem t) C" using k rows [OF k(2)] by (auto simp: upper_tables_def)
        then show ?thesis using upper by blast
      qed
    qed
    show "translate (pm_mem t2) C va = translate (pm_mem s) C va" if "pm_offset va = 0" "va \<notin> {va \<in> V. copied s P C va}" for va
      using fk that unfolding A(5) forks_def fork_state_def by blast
  next
    fix va
    assume va: "va \<in> {va \<in> V. copied s P C va}"
    let ?D = "{va \<in> V. copied s P C va}"
    have "\<exists>f. translate (pm_mem t) C va = Some f \<and> pm_offset f = 0 \<and> f \<in> pm_free s - pm_free t \<and> f \<notin> vm_tables (pm_mem t) C \<and>
          (\<forall>k < 1024. pm_mem t (f + 4 * k) = pm_mem s (the (translate (pm_mem s) P va) + 4 * k)) \<and>
          (\<forall>vb \<in> ?D. translate (pm_mem t) C vb = Some f \<longrightarrow> vb = va)"
      using fk va unfolding forks_def fork_state_def by blast
    then obtain f where f: "translate (pm_mem t) C va = Some f" "pm_offset f = 0" "f \<in> pm_free s - pm_free t" "f \<notin> vm_tables (pm_mem t) C"
          "\<forall>k < 1024. pm_mem t (f + 4 * k) = pm_mem s (the (translate (pm_mem s) P va) + 4 * k)"
          "\<forall>vb \<in> ?D. translate (pm_mem t) C vb = Some f \<longrightarrow> vb = va" by blast
    have "pm_mem t2 (f + 4 * k) = pm_mem t (f + 4 * k)" if "k < 1024" for k
      using mem [of "f + 4 * k"] frame_slot [OF f(2) that] fp [OF _ f(4)] f(3) by simp
    moreover have "f \<in> pm_free s - pm_free t2" "f \<notin> vm_tables (pm_mem t2) C" using f(3,4) A(2,4) fp [OF _ f(4)] by auto
    ultimately show "\<exists>f. translate (pm_mem t2) C va = Some f \<and> pm_offset f = 0 \<and> f \<in> pm_free s - pm_free t2 \<and> f \<notin> vm_tables (pm_mem t2) C \<and>
          (\<forall>k < 1024. pm_mem t2 (f + 4 * k) = pm_mem s (the (translate (pm_mem s) P va) + 4 * k)) \<and>
          (\<forall>vb \<in> ?D. translate (pm_mem t2) C vb = Some f \<longrightarrow> vb = va)"
      unfolding A(5) using f by auto
  qed
qed

lemma fork_pde_step:
  assumes r: "fork_ready cfg s P C" and fk: "forks s P C V t" and k: "512 \<le> k" "k < 1024"
    and V: "\<And>va. va \<in> V \<Longrightarrow> pdi_of va \<noteq> word_of_nat k"
  shows "fork_pde P C k t = Inl NoMoreFrames \<or>
    (\<exists>t'. fork_pde P C k t = Inr t' \<and> forks s P C (V \<union> {va. pm_offset va = 0 \<and> pdi_of va = word_of_nat k}) t')"
proof -
  let ?i = "word_of_nat k :: u32"
  have i: "?i < 1024" "512 \<le> ?i" using k by (simp_all add: word_less_nat_alt word_le_nat_alt unat_of_nat)
  have P: "P \<in> parent_frames cfg s P" by (simp add: parent_frames_def vm_tables_def)
  have pe: "pm_mem t (P + 4 * ?i) = pm_mem s (P + 4 * ?i)" by (rule parent_kept(4) [OF r fk P i(1)])
  have W: "pm_inv t" using fk vm_wfD(1) unfolding forks_def fork_state_def by blast
  have fresh: "page_va ?i (word_of_nat j) \<notin> V" if "j \<in> set [0..<1024]" for j
    using V page_va_parts(1) [OF i(1) of_nat_less_1024] that by auto
  note row = fork_row [OF r i, where V = V and js = "[0..<1024]", unfolded row_image [OF i(1)], OF _ _ _ distinct_upt all_ptes fresh]
  show ?thesis
  proof (cases "present (pm_mem s (P + 4 * ?i))")
    case False
    have "forks s P C (V \<union> {va. pm_offset va = 0 \<and> pdi_of va = ?i}) t"
      by (rule forks_skip [OF fk]) (use False in \<open>auto simp: copied_def translate_entry\<close>)
    then show ?thesis using False pe by (simp add: fork_pde_def Let_def)
  next
    case pr: True
    show ?thesis
    proof (cases "present (pm_mem t (C + 4 * ?i))")
      case True
      then show ?thesis using row [OF pr fk True] pr pe by (simp add: fork_pde_def Let_def frame_def)
    next
      case False
      show ?thesis
      proof (cases rule: alloc_sound [OF W])
        case 1
        then show ?thesis using False pr pe by (simp add: fork_pde_def Let_def)
      next
        case (2 t1 p)
        note T = forks_table [OF fk i False 2]
        have "fork_pde P C k t = rfold (fork_pte p (frame (pm_mem s (P + 4 * ?i)))) [0..<1024] (pm_write t1 (C + 4 * ?i) (p OR 7))"
          using False pr pe 2(1) by (simp add: fork_pde_def Let_def frame_def)
        then show ?thesis using row [OF pr T(1,2)] unfolding T(3) by simp
      qed
    qed
  qed
qed

lemma fork_rows:
  assumes r: "fork_ready cfg s P C"
  shows "forks s P C V t \<Longrightarrow> distinct ks \<Longrightarrow> (\<forall>k \<in> set ks. 512 \<le> k \<and> k < 1024) \<Longrightarrow>
    (\<And>va k. va \<in> V \<Longrightarrow> k \<in> set ks \<Longrightarrow> pdi_of va \<noteq> word_of_nat k) \<Longrightarrow>
    rfold (fork_pde P C) ks t = Inl NoMoreFrames \<or>
    (\<exists>t'. rfold (fork_pde P C) ks t = Inr t' \<and>
       forks s P C (V \<union> {va. pm_offset va = 0 \<and> (\<exists>k \<in> set ks. pdi_of va = word_of_nat k)}) t')"
proof (induction ks arbitrary: t V)
  case Nil
  then show ?case by simp
next
  case (Cons k ks)
  let ?W = "{va. pm_offset va = 0 \<and> pdi_of va = word_of_nat k}"
  have k: "512 \<le> k" "k < 1024" using Cons.prems(3) by auto
  have "pdi_of va \<noteq> word_of_nat k" if "va \<in> V" for va using Cons.prems(4) that by simp
  from fork_pde_step [OF r Cons.prems(1) k this] consider "fork_pde P C k t = Inl NoMoreFrames"
    | t1 where "fork_pde P C k t = Inr t1" "forks s P C (V \<union> ?W) t1" by blast
  then show ?case
  proof cases
    case 1
    then show ?thesis by simp
  next
    case 2
    have "pdi_of va \<noteq> word_of_nat l" if "va \<in> V \<union> ?W" "l \<in> set ks" for va l
    proof -
      have "l < 1024" "l \<noteq> k" using that Cons.prems(2,3) by auto
      then have "(word_of_nat l :: u32) \<noteq> word_of_nat k" using k unat_of_nat_1024 by metis
      then show ?thesis using that Cons.prems(4) by auto
    qed
    moreover have "V \<union> ?W \<union> {va. pm_offset va = 0 \<and> (\<exists>k \<in> set ks. pdi_of va = word_of_nat k)} =
        V \<union> {va. pm_offset va = 0 \<and> (\<exists>k \<in> set (k # ks). pdi_of va = word_of_nat k)}" by auto
    ultimately show ?thesis using Cons.IH [OF 2(2)] Cons.prems(2,3) 2(1) by simp
  qed
qed

lemma fork_pages_sound:
  assumes r: "fork_ready cfg s P C"
  shows "fork_pages P C s = Inl NoMoreFrames \<or>
    (\<exists>t. fork_pages P C s = Inr t \<and> fork_state s P C {va. copied s P C va} t)"
proof -
  have "vm_wf s C" using r by (simp add: fork_ready_def)
  then have start: "forks s P C {} s" by (auto simp: forks_def fork_state_def)
  define ks :: "nat list" where "ks = [512..<1024]"
  have ks: "k \<in> set ks \<longleftrightarrow> 512 \<le> k \<and> k < 1024" for k unfolding ks_def by (rule in_user_rows)
  have "distinct ks" unfolding ks_def by (rule distinct_upt)
  let ?W = "{va. pm_offset va = 0 \<and> (\<exists>k \<in> set ks. pdi_of va = word_of_nat k)}"
  have "va \<in> ?W" if "copied s P C va" for va
  proof -
    have "512 \<le> unat (pdi_of va)" "unat (pdi_of va) < 1024"
      using that pdi_less [of va] by (simp_all add: copied_def word_le_nat_alt word_less_nat_alt)
    then have "unat (pdi_of va) \<in> set ks" by (simp add: ks)
    then show ?thesis using that by (force simp: copied_def)
  qed
  then have W: "{va \<in> {} \<union> ?W. copied s P C va} = {va. copied s P C va}" by blast
  have "\<forall>k \<in> set ks. 512 \<le> k \<and> k < 1024" by (simp add: ks)
  from fork_rows [OF r start \<open>distinct ks\<close> this] show ?thesis
    unfolding fork_pages_def ks_def [symmetric] forks_def W by blast
qed

end
