(* ===== verification/Fork_Props.thy ===== *)
theory Fork_Props
  imports Fork VMM_Props
begin

text \<open>The copy of an address space is a copy: the child's pages are new frames with the parent's words.\<close>

lemma free_frame:
  assumes "pm_inv s" and "f \<in> pm_free s"
  shows "f \<noteq> 0" and "f < pm_limit s" and "pm_offset f = 0"
proof -
  obtain fs where rep: "pm_rep s fs" using pm_inv_rep [OF assms(1)] by blast
  have ch: "chain m p gs \<Longrightarrow> 0 \<notin> set gs" for m p gs by (induction gs arbitrary: p) auto
  show "f \<noteq> 0" "pm_offset f = 0"
    using assms(2) rep ch unfolding pm_rep_free [OF rep] by (auto simp: pm_rep_def)
  show "f < pm_limit s" by (rule free_limit [OF assms])
qed

text \<open>What a page of the child has to be: no page, or a frame that was free, with the words of the parent's.\<close>

definition page_copied :: "pmem \<Rightarrow> pmem \<Rightarrow> u32 option \<Rightarrow> u32 option \<Rightarrow> bool" where
  "page_copied s s' parent child =
     (case parent of
        None \<Rightarrow> child = None
      | Some f \<Rightarrow> (\<exists>g. child = Some g \<and> g \<in> pm_free s \<and>
          (\<forall>k < 1024. pm_mem s' (g + 4 * k) = pm_mem s (f + 4 * k) \<and> pm_mem s' (f + 4 * k) = pm_mem s (f + 4 * k))))"


text \<open>A parent with one page, whose second word is 42, and an empty child.\<close>

definition fork_pm :: pmem where
  "fork_pm = small_pm\<lparr>pm_mem := (\<lambda>_. 0)(0x100800 := 0xFE007, 0xFE000 := 0xFD007, 0xFD004 := 42)\<rparr>"

lemma fork_pm_words:
  assumes "i < 1024"
  shows "pm_mem fork_pm (0x100000 + 4 * i) = (if i = 512 then 0xFE007 else 0)"
    and "pm_mem fork_pm (0xFE000 + 4 * i) = (if i = 0 then 0xFD007 else 0)"
    and "pm_mem fork_pm (0xFF000 + 4 * i) = 0"
proof -
  have fr: "frame (0x100000 + 4 * i) = 0x100000" "frame (0xFE000 + 4 * i) = 0xFE000" "frame (0xFF000 + 4 * i) = 0xFF000"
    by (rule frame_slot; use assms in \<open>simp add: pm_offset_def\<close>)+
  have other: "frame 0x100800 = 0x100000" "frame 0xFE000 = 0xFE000" "frame 0xFD004 = 0xFD000" by (simp_all add: frame_def)
  have ne: "a \<noteq> b" if "frame a \<noteq> frame b" for a b using that by auto
  have "0x100000 + 4 * i = 0x100000 + 4 * 512 \<longleftrightarrow> i = 512" "0xFE000 + 4 * i = 0xFE000 + 4 * 0 \<longleftrightarrow> i = 0"
    using slot_inj [OF _ assms, of "0x100000" 512] slot_inj [OF _ assms, of "0xFE000" 0] by (auto simp: pm_offset_def)
  then show "pm_mem fork_pm (0x100000 + 4 * i) = (if i = 512 then 0xFE007 else 0)"
    "pm_mem fork_pm (0xFE000 + 4 * i) = (if i = 0 then 0xFD007 else 0)" "pm_mem fork_pm (0xFF000 + 4 * i) = 0"
    using ne [of "0x100000 + 4 * i"] ne [of "0xFE000 + 4 * i"] ne [of "0xFF000 + 4 * i"] unfolding fr
    by (auto simp: fork_pm_def other)
qed

lemma fork_pm_owned: "pm_inv fork_pm" "pm_offset f = 0 \<Longrightarrow> f \<noteq> 0 \<Longrightarrow> f < 0x101000 \<Longrightarrow> pm_owned fork_pm f"
proof -
  have rep: "pm_rep fork_pm []" by (simp add: pm_rep_def fork_pm_def small_pm_def pm_offset_def)
  then show "pm_inv fork_pm" unfolding pm_inv_def by blast
  show "pm_owned fork_pm f" if "pm_offset f = 0" "f \<noteq> 0" "f < 0x101000"
    using that less_trans [OF that(3), of "0x108000"] unfolding pm_owned_def pm_rep_free [OF rep]
    by (auto simp: fork_pm_def small_pm_def)
qed

lemma fork_pm_tables:
  "vm_wf fork_pm 0x100000" "vm_wf fork_pm 0xFF000" "vm_tables (pm_mem fork_pm) 0x100000 = {0x100000, 0xFE000}"
  "child_frames fork_pm 0xFF000 = {0xFF000}" "translate (pm_mem fork_pm) 0xFF000 va = None"
  "translate (pm_mem fork_pm) 0x100000 va = (if pdi_of va = 512 \<and> pti_of va = 0 then Some 0xFD000 else None)"
proof -
  note W = fork_pm_words
  have fr: "frame 0xFE007 = 0xFE000" "frame 0xFD007 = 0xFD000" by (simp_all add: frame_def)
  have own: "pm_owned fork_pm 0x100000" "pm_owned fork_pm 0xFF000" "pm_owned fork_pm 0xFE000"
    by (rule fork_pm_owned(2); simp add: pm_offset_def)+
  show "vm_wf fork_pm 0x100000" "vm_wf fork_pm 0xFF000"
    using own fork_pm_owned(1) by (auto simp: vm_wf_def W fr split: if_splits)
  have "(\<exists>i. f = frame (pm_mem fork_pm (0x100000 + 4 * i)) \<and> i < 1024 \<and> present (pm_mem fork_pm (0x100000 + 4 * i))) \<longleftrightarrow> f = 0xFE000" for f
    using W(1) W(1) [of 512] by (auto simp: fr split: if_splits intro!: exI [of _ 512])
  then show "vm_tables (pm_mem fork_pm) 0x100000 = {0x100000, 0xFE000}" by (auto simp: vm_tables_def)
  show "child_frames fork_pm 0xFF000 = {0xFF000}" using W(3) by (auto simp: child_frames_def upper_tables_def)
  show "translate (pm_mem fork_pm) 0xFF000 va = None" by (simp add: translate_entry W(3) pdi_less)
  show "translate (pm_mem fork_pm) 0x100000 va = (if pdi_of va = 512 \<and> pti_of va = 0 then Some 0xFD000 else None)"
    using W(1) [of 512] W(2) [of 0] by (simp add: translate_entry W(1,2) pdi_less pti_less fr)
qed

lemma fork_pm_ready: "fork_ready small_config fork_pm 0x100000 0xFF000"
proof -
  have page: "va = 0x80000000" if "pm_offset va = 0" "pdi_of va = 512" "pti_of va = 0" for va
    using page_va_eq [OF that(1)] that(2,3) by (simp add: page_va_def)
  have user: "user_page small_config 0x80000000" by (simp add: user_page_def is_special_def small_config_def pm_offset_def)
  have "pm_owned fork_pm 0xFD000" by (rule fork_pm_owned(2); simp add: pm_offset_def)
  then have "private_ok small_config fork_pm 0x100000"
    unfolding private_ok_def fork_pm_tables(3,6) using fork_pm_tables(1) page by (auto simp: user_page_def split: if_splits)
  then show ?thesis
    unfolding fork_ready_def parent_frames_def fork_pm_tables(3-6)
    using fork_pm_tables(2) user page by (auto split: if_splits)
qed


end
