(* ===== verification/Files.thy ===== *)
theory Files
  imports Ext2
begin

text \<open>
  Open files: \<^verbatim>\<open>ShobhitFile\<close> of \<^verbatim>\<open>kernel/file.h\<close>, a node with a position, and \<^verbatim>\<open>U8250File\<close> of
  \<^verbatim>\<open>kernel/u8250.h\<close>, the serial port. The port is reached through the same port instructions as the
  disk; polling loops have a bound. A value of type \<^verbatim>\<open>int\<close> or \<^verbatim>\<open>ssize_t\<close> is the word that holds it.
\<close>

section \<open>The serial port\<close>

fun u8250_wait :: "nat \<Rightarrow> 'd pio \<Rightarrow> u8 \<Rightarrow> ('d ide_st, unit) st" where
  "u8250_wait 0 P flag = fail Diverges"
| "u8250_wait (Suc k) P flag =
     sbind (inb P (0x3F8 + 5)) (\<lambda>v. if v AND flag = 0 then u8250_wait k P flag else ret ())"

definition u8250_put :: "nat \<Rightarrow> 'd pio \<Rightarrow> u8 \<Rightarrow> ('d ide_st, unit) st" where
  "u8250_put polls P c = sbind (u8250_wait polls P 0x20) (\<lambda>_. outb P 0x3F8 (scast c))"

definition u8250_get :: "nat \<Rightarrow> 'd pio \<Rightarrow> ('d ide_st, u8) st" where
  "u8250_get polls P = sbind (u8250_wait polls P 0x01) (\<lambda>_. inb P 0x3F8)"

section \<open>Files\<close>

datatype open_file = U8250File | ShobhitFile node u32

fun isFile :: "open_file \<Rightarrow> bool" where
  "isFile U8250File = True"
| "isFile (ShobhitFile nd offset) = is_file (data nd)"

fun isDirectory :: "open_file \<Rightarrow> bool" where
  "isDirectory U8250File = False"
| "isDirectory (ShobhitFile nd offset) = is_dir (data nd)"

fun file_size :: "open_file \<Rightarrow> u32" where
  "file_size U8250File = 0x7FFFFFFF"
| "file_size (ShobhitFile nd offset) = node_size_in_bytes nd"

fun isMine :: "open_file \<Rightarrow> bool" where
  "isMine U8250File = False"
| "isMine (ShobhitFile nd offset) = True"

fun file_seek :: "u32 \<Rightarrow> open_file \<Rightarrow> open_file \<times> u32" where
  "file_seek k U8250File = (U8250File, k)"
| "file_seek k (ShobhitFile nd offset) = (ShobhitFile nd k, k)"

text \<open>The file afterwards, the result and the bytes that are put into the buffer.\<close>

fun file_read :: "nat \<Rightarrow> 'd pio \<Rightarrow> 'd ide_st reader \<Rightarrow> u32 \<Rightarrow> open_file \<Rightarrow> ('d ide_st, open_file \<times> u32 \<times> u8 list) st" where
  "file_read polls P rd n U8250File =
     (if n = 0 then ret (U8250File, 0, [])
      else sbind (u8250_get polls P) (\<lambda>x. ret (U8250File, 1, [x])))"
| "file_read polls P rd n (ShobhitFile nd offset) =
     (let sz = node_size_in_bytes nd in
      if offset \<ge> sz then ret (ShobhitFile nd offset, 0, [])
      else
        let n = (if n > sz - offset then sz - offset else n) in
        sbind (node_read_all rd nd offset n) (\<lambda>(cnt, xs). ret (ShobhitFile nd (offset + n), n, xs)))"

text \<open>Only the first byte of the buffer \<open>xs\<close> is written to the port, and nothing to a node.\<close>

fun file_write :: "nat \<Rightarrow> 'd pio \<Rightarrow> u8 \<Rightarrow> u32 \<Rightarrow> open_file \<Rightarrow> ('d ide_st, u32) st" where
  "file_write polls P x n U8250File = (if n = 0 then ret 0 else sbind (u8250_put polls P x) (\<lambda>_. ret 1))"
| "file_write polls P x n (ShobhitFile nd offset) = ret n"

section \<open>Reading a file piece by piece\<close>

fun file_reads :: "nat \<Rightarrow> 'd pio \<Rightarrow> 'd ide_st reader \<Rightarrow> u32 list \<Rightarrow> open_file \<Rightarrow> ('d ide_st, open_file \<times> (u32 \<times> u8 list) list) st" where
  "file_reads polls P rd [] f = ret (f, [])"
| "file_reads polls P rd (n # ns) f =
     sbind (file_read polls P rd n f) (\<lambda>(f, r, xs).
     sbind (file_reads polls P rd ns f) (\<lambda>(f, outs). ret (f, (r, xs) # outs)))"

fun pieces :: "nat list \<Rightarrow> 'a list \<Rightarrow> 'a list list" where
  "pieces [] xs = []"
| "pieces (n # ns) xs = take n xs # pieces ns (drop n xs)"

end
