(* ===== verification/Files_Props.thy ===== *)
theory Files_Props
  imports Files Ext2_Props
begin

text \<open>Reads from an open file return consecutive pieces of it.\<close>

definition file_content :: "(nat \<Rightarrow> u8) \<Rightarrow> node \<Rightarrow> u8 list" where
  "file_content D nd = map (node_byte D nd) [0..<unat (size_low (data nd))]"

text \<open>One read of a node whose bytes \<open>rd\<close> delivers.\<close>

lemma file_read_piece:
  assumes rd: "\<And>offset n. unat offset \<le> unat (size_low (data nd)) \<Longrightarrow>
      gives I (node_read_all rd nd offset n)
        (int (min (unat n) (unat (size_low (data nd)) - unat offset)),
         chunk (node_byte D nd) (unat offset) (min (unat n) (unat (size_low (data nd)) - unat offset)))"
  shows "\<exists>k'. gives I (file_read polls P rd n (ShobhitFile nd k))
      (ShobhitFile nd k', of_nat (length (take (unat n) (drop (unat k) (file_content D nd)))), take (unat n) (drop (unat k) (file_content D nd))) \<and>
    drop (unat k') (file_content D nd) = drop (unat n) (drop (unat k) (file_content D nd))"
proof (cases "k \<ge> node_size_in_bytes nd")
  case True
  then have "drop (unat k) (file_content D nd) = []"
    by (simp add: file_content_def node_size_in_bytes_def word_le_nat_alt)
  then show ?thesis using True by (intro exI [of _ k]) (auto simp: Let_def)
next
  case False
  let ?sz = "size_low (data nd)"
  let ?n = "if n > ?sz - k then ?sz - k else n"
  have lt: "unat k < unat ?sz" using False by (simp add: node_size_in_bytes_def word_less_nat_alt not_le)
  then have sub: "unat (?sz - k) = unat ?sz - unat k" by (simp add: unat_sub word_le_nat_alt)
  have un: "unat ?n = min (unat n) (unat ?sz - unat k)" using sub by (simp add: word_less_nat_alt min_def)
  have "unat k + unat ?n < 2 ^ 32" using un lt unat_bound [of ?sz] by simp
  then have k': "unat (k + ?n) = unat k + unat ?n" by (intro unat_add_lem [THEN iffD1]) simp
  have "map f [a..<a + m] = take m (drop a (map f [0..<b]))" if "a + m \<le> b" for f :: "nat \<Rightarrow> u8" and a m b
    using that by (simp add: take_map drop_map)
  from this [of "unat k" "unat ?n" "unat ?sz" "node_byte D nd"]
  have ch: "chunk (node_byte D nd) (unat k) (unat ?n) = take (unat ?n) (drop (unat k) (file_content D nd))"
    using un lt by (simp add: chunk_def file_content_def)
  have len: "length (drop (unat k) (file_content D nd)) = unat ?sz - unat k" by (simp add: file_content_def)
  have tk: "take (unat ?n) (drop (unat k) (file_content D nd)) = take (unat n) (drop (unat k) (file_content D nd))"
    using un len by (simp add: min_def)
  have "gives I (node_read_all rd nd k ?n) (int (unat ?n), take (unat n) (drop (unat k) (file_content D nd)))"
    using rd [of k ?n] lt un ch tk by simp
  moreover have "length (take (unat n) (drop (unat k) (file_content D nd))) = unat ?n"
    using un len by (simp add: min.commute)
  then have "of_nat (length (take (unat n) (drop (unat k) (file_content D nd)))) = ?n" by simp
  ultimately have "gives I (file_read polls P rd n (ShobhitFile nd k))
      (ShobhitFile nd (k + ?n), of_nat (length (take (unat n) (drop (unat k) (file_content D nd)))), take (unat n) (drop (unat k) (file_content D nd)))"
    using False by (auto simp: Let_def node_size_in_bytes_def intro!: gives_bind)
  moreover have "drop (unat (k + ?n)) (file_content D nd) = drop (unat n) (drop (unat k) (file_content D nd))"
    using k' un len by (cases "unat n \<le> unat ?sz - unat k") (simp_all add: add.commute)
  ultimately show ?thesis by blast
qed

lemma file_reads_pieces:
  assumes rd: "\<And>offset n. unat offset \<le> unat (size_low (data nd)) \<Longrightarrow>
      gives I (node_read_all rd nd offset n)
        (int (min (unat n) (unat (size_low (data nd)) - unat offset)),
         chunk (node_byte D nd) (unat offset) (min (unat n) (unat (size_low (data nd)) - unat offset)))"
  shows "\<exists>f. gives I (file_reads polls P rd ns (ShobhitFile nd k))
      (f, map (\<lambda>xs. (of_nat (length xs), xs)) (pieces (map unat ns) (drop (unat k) (file_content D nd))))"
proof (induction ns arbitrary: k)
  case Nil
  then show ?case by auto
next
  case (Cons n ns)
  from file_read_piece [OF rd, where n = n and k = k and polls = polls and P = P] obtain k' where
    k': "gives I (file_read polls P rd n (ShobhitFile nd k))
      (ShobhitFile nd k', of_nat (length (take (unat n) (drop (unat k) (file_content D nd)))), take (unat n) (drop (unat k) (file_content D nd)))"
    "drop (unat k') (file_content D nd) = drop (unat n) (drop (unat k) (file_content D nd))" by blast
  from Cons.IH [of k'] obtain f where "gives I (file_reads polls P rd ns (ShobhitFile nd k'))
      (f, map (\<lambda>xs. (of_nat (length xs), xs)) (pieces (map unat ns) (drop (unat k') (file_content D nd))))" by blast
  then have "gives I (file_reads polls P rd (n # ns) (ShobhitFile nd k))
      (f, (of_nat (length (take (unat n) (drop (unat k) (file_content D nd)))), take (unat n) (drop (unat k) (file_content D nd))) #
        map (\<lambda>xs. (of_nat (length xs), xs)) (pieces (map unat ns) (drop (unat k') (file_content D nd))))"
    unfolding file_reads.simps
    by - (rule gives_bind [OF k'(1)], simp only: prod.case, rule gives_bind, assumption, simp only: prod.case, rule gives_ret)
  then show ?case using k'(2) by auto
qed

section \<open>Property\<close>

text \<open>
   Reading an open file on a drive that follows the protocol, from the position a seek set and in
  pieces of any sizes, succeeds and returns consecutive pieces of the bytes of the file: each as long as was
  asked for until the end of the file, with its length as the result, and empty from the end on.
\<close>

theorem file_reads_consecutive:
  assumes "ata_drive P drive D idle transfer" and "0 < polls" and "idle (dev s)" and "node_ok D ide_size_in_bytes nd"
  shows "\<exists>f s'. file_reads polls P (ide_read_all polls P drive) ns (fst (file_seek k (ShobhitFile nd j))) s =
      Inr ((f, map (\<lambda>xs. (of_nat (length xs), xs)) (pieces (map unat ns) (drop (unat k) (file_content D nd)))), s') \<and> idle (dev s')"
proof -
  have rd: "gives (\<lambda>s. ata_drive P drive D idle transfer \<and> 0 < polls \<and> idle (dev s)) (node_read_all (ide_read_all polls P drive) nd offset n)
        (int (min (unat n) (unat (size_low (data nd)) - unat offset)),
         chunk (node_byte D nd) (unat offset) (min (unat n) (unat (size_low (data nd)) - unat offset)))"
    if "unat offset \<le> unat (size_low (data nd))" for offset n
    using ide_disk.node_read_all_cut [OF assms(4) that refl, of P drive idle transfer polls n] assms(1,2)
    by (auto simp: gives_def)
  from file_reads_pieces [OF rd, where ns = ns and k = k and polls = polls and P = P] show ?thesis using assms(1-3) by (auto simp: gives_def)
qed

theorem file_reads_consecutive_witness:
  "\<exists>f s'. file_reads 1 (sim_pio sample_disk) (ide_read_all 1 (sim_pio sample_disk) 0) [4, 0, 100, 5]
      (fst (file_seek 18 (ShobhitFile sample_dir 0))) sample_state =
     Inr ((f, [(4, [1, 1, 97, 0]), (0, []), (2, [0, 0]), (0, [])]), s')"
proof -
  have s: "unat (size_low (data sample_dir)) = 24" by (simp add: sample_dir_def node_new_def)
  have "drop 18 (file_content sample_disk sample_dir) = map (node_byte sample_disk sample_dir) [18..<24]"
    by (simp add: file_content_def s drop_map)
  also have "\<dots> = [1, 1, 97, 0, 0, 0]" by (simp add: upt_rec sample_bytes sample_disk_def)
  finally show ?thesis
    using file_reads_consecutive [OF sim_drive _ _ sample_ok, of 1 sample_state "[4, 0, 100, 5]" 18 0]
    by (auto simp: sample_state_def)
qed

end
