(* ===== verification/Process.thy ===== *)
theory Process
  imports Threads Files Fork
begin

text \<open>
  Processes, \<^verbatim>\<open>kernel/process.h\<close> and \<^verbatim>\<open>kernel/process.cc\<close>, and futures, \<^verbatim>\<open>kernel/future.h\<close>. Files, semaphores,
  futures and processes are objects with a number; a \<^verbatim>\<open>Shared\<close> pointer is the number or \<^const>\<open>None\<close>, so that two
  descriptors can name one object. An object is made under the next number and is never destroyed here:
  what \<^verbatim>\<open>Shared\<close> does when the last reference goes is not part of the model. The lock \<^verbatim>\<open>mutex\<close> is the atomicity of the
  operations. \<open>works\<close> holds, for a thread that a process was given by \<^verbatim>\<open>fork\<close>, the program counter and
  the stack pointer with which it enters user mode. Failures of the scheduler and the frame allocator are panics.
\<close>

section \<open>State\<close>

record future =
  go :: nat
  isReady :: bool
  f_t :: u32

record process =
  files :: "nat option list"
  sems :: "nat option list"
  children :: "nat option list"
  p_output :: nat
  pd :: u32

definition NSEM :: nat where "NSEM = 10"
definition NCHILD :: nat where "NCHILD = 10"
definition NFILE :: nat where "NFILE = 10"

record 'd kernel =
  io :: "'d ide_st"
  phys :: pmem
  threads :: sched
  file_objs :: "nat \<Rightarrow> open_file"
  next_file :: nat
  next_sem :: nat
  futures :: "nat \<Rightarrow> future"
  next_future :: nat
  procs :: "nat \<Rightarrow> process"
  next_proc :: nat
  works :: "tid \<Rightarrow> (u32 \<times> u32) option"

definition on_io :: "('d ide_st, 'a) st \<Rightarrow> ('d kernel, 'a) st" where
  "on_io m = (\<lambda>k. case m (io k) of Inl e \<Rightarrow> Inl e | Inr (x, s) \<Rightarrow> Inr (x, k\<lparr>io := s\<rparr>))"

definition on_phys :: "(pmem \<Rightarrow> pm_panic + pmem) \<Rightarrow> ('d kernel, unit) st" where
  "on_phys m = (\<lambda>k. case m (phys k) of Inl e \<Rightarrow> Inl Panic | Inr s \<Rightarrow> Inr ((), k\<lparr>phys := s\<rparr>))"

definition on_threads :: "(sched \<Rightarrow> sched option) \<Rightarrow> ('d kernel, unit) st" where
  "on_threads m = (\<lambda>k. case m (threads k) of None \<Rightarrow> Inl Panic | Some s \<Rightarrow> Inr ((), k\<lparr>threads := s\<rparr>))"

definition get_proc :: "nat \<Rightarrow> ('d kernel, process) st" where
  "get_proc p k = Inr (procs k p, k)"

definition set_proc :: "nat \<Rightarrow> process \<Rightarrow> ('d kernel, unit) st" where
  "set_proc p x k = Inr ((), k\<lparr>procs := (procs k)(p := x)\<rparr>)"

section \<open>Objects\<close>

definition make_file :: "open_file \<Rightarrow> ('d kernel, nat) st" where
  "make_file f k = Inr (next_file k, k\<lparr>file_objs := (file_objs k)(next_file k := f), next_file := next_file k + 1\<rparr>)"

definition make_sem :: "u32 \<Rightarrow> ('d kernel, nat) st" where
  "make_sem init k =
     (let i = next_sem k; t = threads k in
      Inr (i, k\<lparr>threads := t\<lparr>semas := (semas t)(i := \<lparr>s_count = ucast init, s_waiting = (None, None), s_locked = False\<rparr>)\<rparr>,
                next_sem := i + 1\<rparr>))"

definition make_future :: "('d kernel, nat) st" where
  "make_future =
     sbind (make_sem 0) (\<lambda>g k. Inr (next_future k,
       k\<lparr>futures := (futures k)(next_future k := \<lparr>go = g, isReady = False, f_t = 0\<rparr>), next_future := next_future k + 1\<rparr>))"

section \<open>Futures\<close>

definition future_set :: "nat \<Rightarrow> u32 \<Rightarrow> ('d kernel, unit) st" where
  "future_set f v =
     (\<lambda>k. sbind (assert (\<not> isReady (futures k f))) (\<lambda>_.
          sbind (\<lambda>k. Inr ((), k\<lparr>futures := (futures k)(f := (futures k f)\<lparr>f_t := v, isReady := True\<rparr>)\<rparr>)) (\<lambda>_.
          on_threads (up (go (futures k f))))) k)"

text \<open>\<^verbatim>\<open>get\<close> by the thread on core \<open>c\<close>: its value, or \<open>None\<close> when the thread blocks; then \<open>future_woken\<close> is what it does after.\<close>

definition future_woken :: "nat \<Rightarrow> ('d kernel, u32) st" where
  "future_woken f = (\<lambda>k. sbind (on_threads (up (go (futures k f)))) (\<lambda>_ k. Inr (f_t (futures k f), k)) k)"

definition future_get :: "nat \<Rightarrow> nat \<Rightarrow> ('d kernel, u32 option) st" where
  "future_get c f =
     (\<lambda>k. if isReady (futures k f) then Inr (Some (f_t (futures k f)), k)
          else
            let blocks = s_count (semas (threads k) (go (futures k f))) = 0 in
            sbind (on_threads (down (go (futures k f)) c)) (\<lambda>_.
            if blocks then ret None else sbind (future_woken f) (\<lambda>v. ret (Some v))) k)"

section \<open>Descriptors\<close>

definition FL :: u32 where "FL = 0x00000000"
definition PROC :: u32 where "PROC = 0x10000000"
definition SEM :: u32 where "SEM = 0x20000000"
definition INDEX_MASK :: u32 where "INDEX_MASK = 0x0FFFFFFF"

text \<open>The index of a descriptor of a kind, \<open>None\<close> for \<open>-1\<close>.\<close>

definition id_index :: "u32 \<Rightarrow> nat \<Rightarrow> u32 \<Rightarrow> nat option" where
  "id_index kind limit d =
     (if d AND 0xF0000000 \<noteq> kind then None
      else if unat (d AND INDEX_MASK) \<ge> limit then None
      else Some (unat (d AND INDEX_MASK)))"

definition getSemaphoreIndex :: "u32 \<Rightarrow> nat option" where "getSemaphoreIndex d = id_index SEM NSEM d"
definition getChildIndex :: "u32 \<Rightarrow> nat option" where "getChildIndex d = id_index PROC NCHILD d"
definition getFileIndex :: "u32 \<Rightarrow> nat option" where "getFileIndex d = id_index FL NFILE d"

fun first_null :: "nat \<Rightarrow> 'a option list \<Rightarrow> nat option" where
  "first_null i [] = None"
| "first_null i (x # xs) = (if x = None then Some i else first_null (i + 1) xs)"

definition newSemaphore :: "nat \<Rightarrow> u32 \<Rightarrow> ('d kernel, u32) st" where
  "newSemaphore p init =
     sbind (get_proc p) (\<lambda>x.
     case first_null 0 (sems x) of
       None \<Rightarrow> ret (-1)
     | Some i \<Rightarrow>
         sbind (make_sem init) (\<lambda>s.
         sbind (set_proc p (x\<lparr>sems := (sems x)[i := Some s]\<rparr>)) (\<lambda>_.
         ret (SEM OR (of_nat i AND INDEX_MASK)))))"

definition getSemaphore :: "process \<Rightarrow> u32 \<Rightarrow> nat option" where
  "getSemaphore x d =
     (let idx = unat (d AND INDEX_MASK) in
      if idx \<ge> NSEM \<or> d AND 0xF0000000 \<noteq> 0x20000000 then None else sems x ! idx)"

definition getFile :: "process \<Rightarrow> u32 \<Rightarrow> nat option" where
  "getFile x fd = (case getFileIndex fd of None \<Rightarrow> None | Some i \<Rightarrow> files x ! unat fd)"

definition setFile :: "nat option \<Rightarrow> process \<Rightarrow> process \<times> u32" where
  "setFile f x = (case first_null 0 (files x) of None \<Rightarrow> (x, -1) | Some i \<Rightarrow> (x\<lparr>files := (files x)[i := f]\<rparr>, of_nat i))"

definition close :: "u32 \<Rightarrow> process \<Rightarrow> process \<times> u32" where
  "close d x =
     (case getSemaphoreIndex d of
        Some i \<Rightarrow> if sems x ! i = None then (x, -1) else (x\<lparr>sems := (sems x)[i := None]\<rparr>, 0)
      | None \<Rightarrow>
     (case getChildIndex d of
        Some i \<Rightarrow> if children x ! i = None then (x, -1) else (x\<lparr>children := (children x)[i := None]\<rparr>, 0)
      | None \<Rightarrow>
     (case getFileIndex d of
        Some i \<Rightarrow> if files x ! i = None then (x, -1) else (x\<lparr>files := (files x)[i := None]\<rparr>, 0)
      | None \<Rightarrow> (x, -1))))"

text \<open>
  \<^verbatim>\<open>wait\<close> up to the value of the child's future: an error, a value with its slot, or blocked. The slot is
  cleared after the value is written through the caller's pointer.
\<close>

datatype wait_result = WaitFails | WaitValue nat u32 | WaitBlocks nat nat

definition wait :: "nat \<Rightarrow> nat \<Rightarrow> u32 \<Rightarrow> ('d kernel, wait_result) st" where
  "wait c p d =
     sbind (get_proc p) (\<lambda>x.
     case getChildIndex d of
       None \<Rightarrow> ret WaitFails
     | Some i \<Rightarrow>
         (case children x ! i of
            None \<Rightarrow> ret WaitFails
          | Some f \<Rightarrow> sbind (future_get c f) (\<lambda>v. ret (case v of None \<Rightarrow> WaitBlocks i f | Some v \<Rightarrow> WaitValue i v))))"

definition wait_clear :: "nat \<Rightarrow> nat \<Rightarrow> ('d kernel, unit) st" where
  "wait_clear p i = sbind (get_proc p) (\<lambda>x. set_proc p (x\<lparr>children := (children x)[i := None]\<rparr>))"

section \<open>Making and copying processes\<close>

text \<open>The members and the constructor; the first process has the serial port as its files 0, 1 and 2.\<close>

definition make_process :: "Config \<Rightarrow> u32 \<Rightarrow> bool \<Rightarrow> ('d kernel, nat) st" where
  "make_process cfg shared isInit =
     sbind make_future (\<lambda>out k.
     case make_pd cfg shared (phys k) of
       Inl e \<Rightarrow> Inl Panic
     | Inr (s, d) \<Rightarrow>
         sbind (if isInit then sbind (make_file U8250File) (\<lambda>f. ret (replicate 3 (Some f) @ replicate 7 None))
                else ret (replicate NFILE None)) (\<lambda>fs k.
         Inr (next_proc k, k\<lparr>procs := (procs k)(next_proc k :=
             \<lparr>files = fs, sems = replicate NSEM None, children = replicate NCHILD None, p_output = out, pd = d\<rparr>),
           next_proc := next_proc k + 1\<rparr>)) (k\<lparr>phys := s\<rparr>))"

definition clear_private :: "Config \<Rightarrow> u32 \<Rightarrow> nat \<Rightarrow> ('d kernel, unit) st" where
  "clear_private cfg cr3 p = sbind (get_proc p) (\<lambda>x. on_phys (delete_private cfg cr3 (pd x)))"

definition process_fork :: "Config \<Rightarrow> u32 \<Rightarrow> nat \<Rightarrow> ('d kernel, nat option \<times> u32) st" where
  "process_fork cfg shared p =
     sbind (get_proc p) (\<lambda>x.
     case first_null 0 (children x) of
       None \<Rightarrow> ret (None, -1)
     | Some index \<Rightarrow>
         sbind (make_process cfg shared False) (\<lambda>child.
         sbind (get_proc child) (\<lambda>y.
         sbind (on_phys (fork_pages (pd x) (pd y))) (\<lambda>_.
         sbind (set_proc child (y\<lparr>sems := map (\<lambda>i. if sems x ! i \<noteq> None then sems x ! i else sems y ! i) [0..<NSEM],
                                  files := map (\<lambda>i. files x ! i) [0..<NFILE]\<rparr>)) (\<lambda>_.
         sbind (set_proc p (x\<lparr>children := (children x)[index := Some (p_output y)]\<rparr>)) (\<lambda>_.
         ret (Some child, PROC OR of_nat index)))))))"

end
