(* ===== verification/Sys.thy ===== *)
theory Sys
  imports Process
begin

text \<open>
  System calls, \<^verbatim>\<open>kernel/sys.cc\<close>, and the loader, \<^verbatim>\<open>kernel/elf.cc\<close>. The memory of the caller is reached
  through the page tables of its process, byte by byte, with the page fault handler behind it. Strings are
  read up to their terminator; the number of bytes read, arguments and polls has a bound.
\<close>

section \<open>The memory of the caller\<close>

text \<open>What a call needs to know: the core, the machine, the file system, and the memory of a new thread.\<close>

record 'd env =
  core_id :: nat
  config :: Config
  shared_pd :: u32
  ports :: "'d pio"
  bound :: nat
  reader :: "'d ide_st reader"
  root_fs :: ext2
  root :: node
  new_tid :: tid
  new_stack :: u32
  junk :: "nat \<Rightarrow> u8"

definition cur_proc :: "'d env \<Rightarrow> 'd kernel \<Rightarrow> nat" where
  "cur_proc E k = t_process (the (tcbs (threads k) (activeThreads (threads k) (core_id E))))"

definition this_proc :: "'d env \<Rightarrow> ('d kernel, process) st" where
  "this_proc E k = Inr (procs k (cur_proc E k), k)"

definition put_proc :: "'d env \<Rightarrow> process \<Rightarrow> ('d kernel, unit) st" where
  "put_proc E x k = set_proc (cur_proc E k) x k"

text \<open>The frame of a page, after a page fault when there is none.\<close>

definition walk :: "'d env \<Rightarrow> u32 \<Rightarrow> ('d kernel, u32) st" where
  "walk E va = (\<lambda>k. case translate (pm_mem (phys k)) (pd (procs k (cur_proc E k))) va of None \<Rightarrow> Inl Panic | Some f \<Rightarrow> Inr (f, k))"

definition touch :: "'d env \<Rightarrow> u32 \<Rightarrow> ('d kernel, u32) st" where
  "touch E va =
     (\<lambda>k. let d = pd (procs k (cur_proc E k)) in
        if translate (pm_mem (phys k)) d va = None
        then sbind (on_phys (vmm_pageFault d d d va)) (\<lambda>_. walk E va) k
        else walk E va k)"

definition load8 :: "'d env \<Rightarrow> u32 \<Rightarrow> ('d kernel, u8) st" where
  "load8 E va =
     sbind (touch E va) (\<lambda>f k. Inr (ucast (drop_bit (8 * unat (va AND 3)) (pm_mem (phys k) (f + (va AND 0xFFC)))), k))"

definition store8 :: "'d env \<Rightarrow> u32 \<Rightarrow> u8 \<Rightarrow> ('d kernel, unit) st" where
  "store8 E va x =
     sbind (touch E va) (\<lambda>f k.
       let sh = 8 * unat (va AND 3); a = f + (va AND 0xFFC); w = pm_mem (phys k) a in
       Inr ((), k\<lparr>phys := pm_write (phys k) a ((w AND NOT (push_bit sh 0xFF)) OR push_bit sh (ucast x))\<rparr>))"

fun load_bytes :: "'d env \<Rightarrow> nat \<Rightarrow> u32 \<Rightarrow> ('d kernel, u8 list) st" where
  "load_bytes E 0 va = ret []"
| "load_bytes E (Suc n) va = sbind (load8 E va) (\<lambda>x. sbind (load_bytes E n (va + 1)) (\<lambda>xs. ret (x # xs)))"

fun store_bytes :: "'d env \<Rightarrow> u32 \<Rightarrow> u8 list \<Rightarrow> ('d kernel, unit) st" where
  "store_bytes E va [] = ret ()"
| "store_bytes E va (x # xs) = sbind (store8 E va x) (\<lambda>_. store_bytes E (va + 1) xs)"

definition load32 :: "'d env \<Rightarrow> u32 \<Rightarrow> ('d kernel, u32) st" where
  "load32 E va = sbind (load_bytes E 4 va) (\<lambda>xs. ret (le32 xs 0))"

definition store32 :: "'d env \<Rightarrow> u32 \<Rightarrow> u32 \<Rightarrow> ('d kernel, unit) st" where
  "store32 E va v = store_bytes E va (word_bytes v)"

fun load_string :: "nat \<Rightarrow> 'd env \<Rightarrow> u32 \<Rightarrow> ('d kernel, u8 list) st" where
  "load_string 0 E va = fail Diverges"
| "load_string (Suc n) E va =
     sbind (load8 E va) (\<lambda>x. if x = 0 then ret [] else sbind (load_string n E (va + 1)) (\<lambda>xs. ret (x # xs)))"

text \<open>\<^verbatim>\<open>memcpy\<close> and \<^verbatim>\<open>bzero\<close> count with a signed number.\<close>

definition copy_count :: "u32 \<Rightarrow> nat" where "copy_count n = nat (sint n)"

section \<open>Loading a program\<close>

record elf_header =
  e_magic :: "u8 list"
  e_entry :: u32
  e_phoff :: u32
  e_phentsize :: u16
  e_phnum :: u16

definition parse_elf_header :: "u8 list \<Rightarrow> elf_header" where
  "parse_elf_header xs = \<lparr>e_magic = take 4 xs, e_entry = le32 xs 24, e_phoff = le32 xs 28, e_phentsize = le16 xs 42, e_phnum = le16 xs 44\<rparr>"

record program_header =
  ph_type :: u32
  ph_offset :: u32
  ph_vaddr :: u32
  ph_filesz :: u32
  ph_memsz :: u32

definition parse_program_header :: "u8 list \<Rightarrow> program_header" where
  "parse_program_header xs = \<lparr>ph_type = le32 xs 0, ph_offset = le32 xs 4, ph_vaddr = le32 xs 8, ph_filesz = le32 xs 16, ph_memsz = le32 xs 20\<rparr>"

definition node_reader :: "'d env \<Rightarrow> node \<Rightarrow> 'd kernel reader" where
  "node_reader E nd = (\<lambda>offset n. on_io (node_read_all (reader E) nd offset n))"

fun elf_segments :: "'d env \<Rightarrow> node \<Rightarrow> u32 \<Rightarrow> u32 \<Rightarrow> nat \<Rightarrow> ('d kernel, unit) st" where
  "elf_segments E nd hoff step 0 = ret ()"
| "elf_segments E nd hoff step (Suc n) =
     sbind (bio_read_thing (node_reader E nd) 32 hoff) (\<lambda>xs.
     let ph = parse_program_header xs; p = ph_vaddr ph in
     sbind
       (if ph_type ph = 1 then
          sbind (node_reader E nd (ph_offset ph) (ph_filesz ph)) (\<lambda>(cnt, bytes).
          sbind (store_bytes E p bytes) (\<lambda>_.
          store_bytes E (p + ph_filesz ph) (replicate (copy_count (ph_memsz ph - ph_filesz ph)) 0)))
        else ret ()) (\<lambda>_.
     elf_segments E nd (hoff + step) step n))"

definition elf_load :: "'d env \<Rightarrow> node \<Rightarrow> ('d kernel, u32) st" where
  "elf_load E nd =
     sbind (bio_read_thing (node_reader E nd) 52 0) (\<lambda>xs.
     let hdr = parse_elf_header xs in
     sbind (elf_segments E nd (e_phoff hdr) (ucast (e_phentsize hdr)) (unat (e_phnum hdr))) (\<lambda>_. ret (e_entry hdr)))"

section \<open>exec\<close>

text \<open>
  How a call ends: with a value; in user mode at a program counter and stack; blocked, with what it does when it
  is woken; not at all.
\<close>

datatype outcome = Returns u32 | EntersUser u32 u32 | Blocks u32 | Awaits nat nat u32 | Stops | ShutsDown

definition find_path :: "'d env \<Rightarrow> u8 list \<Rightarrow> ('d kernel, node option) st" where
  "find_path E path = on_io (ext2_find (reader E) (root_fs E) (Some (root E)) path)"

fun exec_size :: "u32 \<Rightarrow> u8 list list \<Rightarrow> u32" where
  "exec_size total_size [] = total_size"
| "exec_size total_size (a # argv) =
     (let total_size = total_size + 4 + of_nat (length a) in exec_size (total_size + 4 - total_size mod 4) argv)"

text \<open>Every string is copied with its terminator and padded, with what follows it in memory, to a multiple of 4.\<close>

fun exec_args :: "'d env \<Rightarrow> u32 \<Rightarrow> u32 \<Rightarrow> u8 list list \<Rightarrow> ('d kernel, unit) st" where
  "exec_args E string_pointers strings [] = ret ()"
| "exec_args E string_pointers strings (a # argv) =
     sbind (store32 E string_pointers strings) (\<lambda>_.
     let len = of_nat (length a) + (4 - of_nat (length a) mod 4) in
     sbind (store_bytes E strings (take (copy_count len) (a @ 0 # map (junk E) [0..<4]))) (\<lambda>_.
     exec_args E (string_pointers + 4) (strings + len) argv))"

definition exec :: "'d env \<Rightarrow> u8 list \<Rightarrow> u8 list list \<Rightarrow> ('d kernel, outcome) st" where
  "exec E path argv =
     sbind (find_path E path) (\<lambda>file.
     case file of
       None \<Rightarrow> ret (Returns (-1))
     | Some nd \<Rightarrow>
         if \<not> is_file (data nd) then ret (Returns (-1))
         else
           let total_size = exec_size 8 argv + 4;
               total_size = total_size + 4 - total_size mod 4;
               argc = of_nat (length argv);
               sp = 0xefffe000 - total_size div 4 in
           sbind (store32 E sp argc) (\<lambda>_.
           sbind (store32 E (sp + 4) (sp + 8)) (\<lambda>_.
           sbind (exec_args E (sp + 8) (sp + 8 + 4 * argc) argv) (\<lambda>_.
           sbind (elf_load E nd) (\<lambda>e. ret (EntersUser e sp))))))"

section \<open>System calls\<close>

text \<open>The word \<open>i\<close> of the stack of the caller.\<close>

definition arg :: "'d env \<Rightarrow> u32 \<Rightarrow> u32 \<Rightarrow> ('d kernel, u32) st" where
  "arg E userEsp i = load32 E (userEsp + 4 * i)"

abbreviation (input) error :: "('d kernel, outcome) st" where "error \<equiv> ret (Returns (-1))"

definition sys_exit :: "'d env \<Rightarrow> u32 \<Rightarrow> ('d kernel, outcome) st" where
  "sys_exit E userEsp =
     sbind (arg E userEsp 1) (\<lambda>status.
     sbind (this_proc E) (\<lambda>x k.
     (sbind (clear_private (config E) (pd x) (cur_proc E k)) (\<lambda>_.
      sbind (future_set (p_output x) status) (\<lambda>_.
      sbind (on_threads (stop (core_id E))) (\<lambda>_. ret Stops)))) k))"

definition sys_write :: "'d env \<Rightarrow> u32 \<Rightarrow> ('d kernel, outcome) st" where
  "sys_write E userEsp =
     sbind (arg E userEsp 1) (\<lambda>fd.
     sbind (arg E userEsp 2) (\<lambda>buf.
     sbind (arg E userEsp 3) (\<lambda>nbyte.
     if sint fd < 0 \<or> sint fd > 2 then error
     else if buf < 0x80000000 then error
     else
       sbind (this_proc E) (\<lambda>x k.
       (case getFile x fd of
          None \<Rightarrow> error
        | Some f \<Rightarrow>
            if isMine (file_objs k f) then error
            else
              sbind (if nbyte = 0 then ret 0 else load8 E buf) (\<lambda>b.
              sbind (on_io (file_write (bound E) (ports E) b nbyte (file_objs k f))) (\<lambda>r. ret (Returns r)))) k))))"

definition sys_fork :: "'d env \<Rightarrow> u32 \<Rightarrow> u32 \<Rightarrow> ('d kernel, outcome) st" where
  "sys_fork E userPC userEsp =
     (\<lambda>k. sbind (process_fork (config E) (shared_pd E) (cur_proc E k)) (\<lambda>(child, index).
      case child of
        None \<Rightarrow> error
      | Some p \<Rightarrow>
          sbind (on_threads (thread (bound E) (new_tid E) p (new_stack E))) (\<lambda>_ k.
          Inr (Returns index, k\<lparr>works := (works k)(new_tid E \<mapsto> (userPC, userEsp))\<rparr>))) k)"

definition sys_sem :: "'d env \<Rightarrow> u32 \<Rightarrow> ('d kernel, outcome) st" where
  "sys_sem E userEsp =
     sbind (arg E userEsp 1) (\<lambda>n k. sbind (newSemaphore (cur_proc E k) n) (\<lambda>r. ret (Returns r)) k)"

definition sys_up :: "'d env \<Rightarrow> u32 \<Rightarrow> ('d kernel, outcome) st" where
  "sys_up E userEsp =
     sbind (this_proc E) (\<lambda>x.
     sbind (arg E userEsp 1) (\<lambda>d.
     case getSemaphore x d of
       None \<Rightarrow> error
     | Some s \<Rightarrow> sbind (on_threads (up s)) (\<lambda>_. ret (Returns 0))))"

definition sys_down :: "'d env \<Rightarrow> u32 \<Rightarrow> ('d kernel, outcome) st" where
  "sys_down E userEsp =
     sbind (this_proc E) (\<lambda>x.
     sbind (arg E userEsp 1) (\<lambda>d.
     case getSemaphore x d of
       None \<Rightarrow> error
     | Some s \<Rightarrow>
         (\<lambda>k. let blocks = s_count (semas (threads k) s) = 0 in
          sbind (on_threads (down s (core_id E))) (\<lambda>_. ret (if blocks then Blocks 0 else Returns 0)) k)))"

definition sys_close :: "'d env \<Rightarrow> u32 \<Rightarrow> ('d kernel, outcome) st" where
  "sys_close E userEsp =
     sbind (arg E userEsp 1) (\<lambda>d.
     sbind (this_proc E) (\<lambda>x.
     let (x', r) = close d x in sbind (put_proc E x') (\<lambda>_. ret (Returns r))))"

text \<open>The index into \<^verbatim>\<open>children\<close> is not checked before it is used. \<open>sys_waited\<close> is what follows when the value is there.\<close>

definition sys_waited :: "'d env \<Rightarrow> nat \<Rightarrow> u32 \<Rightarrow> u32 \<Rightarrow> ('d kernel, outcome) st" where
  "sys_waited E i ptr v =
     sbind (store32 E ptr v) (\<lambda>_ k. sbind (wait_clear (cur_proc E k) i) (\<lambda>_. ret (Returns 0)) k)"

definition sys_wait :: "'d env \<Rightarrow> u32 \<Rightarrow> ('d kernel, outcome) st" where
  "sys_wait E userEsp =
     sbind (this_proc E) (\<lambda>x.
     sbind (arg E userEsp 1) (\<lambda>d.
     let i = unat (d AND 0x0FFFFFFF) in
     if i \<ge> NCHILD then fail Undefined
     else if children x ! i = None then error
     else
       sbind (arg E userEsp 2) (\<lambda>ptr.
       if ptr < 0x80000000 then error
       else (\<lambda>k. sbind (wait (core_id E) (cur_proc E k) d) (\<lambda>r.
         case r of
           WaitFails \<Rightarrow> error
         | WaitBlocks i f \<Rightarrow> ret (Awaits i f ptr)
         | WaitValue i v \<Rightarrow> sys_waited E i ptr v) k))))"

text \<open>Symbolic links are followed at most 9 times; a link to nothing is a null dereference.\<close>

fun follow :: "nat \<Rightarrow> bool \<Rightarrow> 'd env \<Rightarrow> node \<Rightarrow> ('d kernel, node option) st" where
  "follow 0 with_rest E nd = ret (if is_symlink (data nd) then None else Some nd)"
| "follow (Suc n) with_rest E nd =
     (if is_symlink (data nd) then
        sbind (on_io (get_symbol (reader E) nd)) (\<lambda>buf.
        sbind (find_path E (take (k_strlen (buf @ (if with_rest then my_path nd else [])) 0) (buf @ (if with_rest then my_path nd else [])))) (\<lambda>r.
        case r of None \<Rightarrow> fail Undefined | Some nd' \<Rightarrow> follow n with_rest E nd'))
      else ret (Some nd))"

fun count_args :: "nat \<Rightarrow> 'd env \<Rightarrow> u32 \<Rightarrow> u32 \<Rightarrow> ('d kernel, u32 list option) st" where
  "count_args 0 E userEsp i = fail Diverges"
| "count_args (Suc n) E userEsp i =
     sbind (arg E userEsp i) (\<lambda>a.
     if a = 0 then ret (Some [])
     else if a < 0x80000000 then ret None
     else sbind (count_args n E userEsp (i + 1)) (\<lambda>r. ret (map_option (\<lambda>as. a # as) r)))"

fun load_strings :: "'d env \<Rightarrow> u32 list \<Rightarrow> ('d kernel, u8 list list) st" where
  "load_strings E [] = ret []"
| "load_strings E (a # as) = sbind (load_string (bound E) E a) (\<lambda>x. sbind (load_strings E as) (\<lambda>xs. ret (x # xs)))"

text \<open>Every turn of the check reads the first program header.\<close>

fun check_headers :: "'d env \<Rightarrow> node \<Rightarrow> u32 \<Rightarrow> nat \<Rightarrow> ('d kernel, bool) st" where
  "check_headers E nd phoff 0 = ret True"
| "check_headers E nd phoff (Suc n) =
     sbind (bio_read_thing (node_reader E nd) 32 phoff) (\<lambda>xs.
     let p = parse_program_header xs in
     if ph_vaddr p + ph_memsz p < 0x80000000 then ret False else check_headers E nd phoff n)"

definition elf_ok :: "elf_header \<Rightarrow> bool" where
  "elf_ok h \<longleftrightarrow> e_magic h = [0x7F, 69, 76, 70] \<and> e_entry h \<ge> 0x80000000"

definition sys_execl :: "'d env \<Rightarrow> u32 \<Rightarrow> ('d kernel, outcome) st" where
  "sys_execl E userEsp =
     sbind (arg E userEsp 1) (\<lambda>pathp.
     if pathp < 0x80000000 then error
     else
       sbind (load_string (bound E) E pathp) (\<lambda>path.
       sbind (find_path E path) (\<lambda>r.
       case r of
         None \<Rightarrow> error
       | Some nd \<Rightarrow>
           sbind (follow 9 False E nd) (\<lambda>r.
           case r of
             None \<Rightarrow> error
           | Some nd \<Rightarrow>
               sbind (node_reader E nd 0 52) (\<lambda>(cnt, xs).
               let elf = parse_elf_header (take 52 (xs @ map (junk E) [0..<52])) in
               if \<not> elf_ok elf then error
               else
                 sbind (check_headers E nd (e_phoff elf) (unat (e_phnum elf))) (\<lambda>ok.
                 if \<not> ok then error
                 else
                   sbind (count_args (bound E) E userEsp 2) (\<lambda>as.
                   case as of
                     None \<Rightarrow> error
                   | Some as \<Rightarrow>
                       sbind (load_strings E as) (\<lambda>argv.
                       sbind (load_string (bound E) E pathp) (\<lambda>path.
                       sbind (this_proc E) (\<lambda>x k.
                       (sbind (clear_private (config E) (pd x) (cur_proc E k)) (\<lambda>_.
                        sbind (put_proc E (x\<lparr>sems := replicate 10 None, children := replicate 10 None\<rparr>)) (\<lambda>_.
                        exec E path argv))) k)))))))))) "

definition sys_open :: "'d env \<Rightarrow> u32 \<Rightarrow> ('d kernel, outcome) st" where
  "sys_open E userEsp =
     sbind (arg E userEsp 1) (\<lambda>path_to.
     if path_to = 0 \<or> path_to < 0x80000000 then error
     else
       sbind (load_string (bound E) E path_to) (\<lambda>path.
       sbind (find_path E path) (\<lambda>r.
       case r of
         None \<Rightarrow> error
       | Some nd \<Rightarrow>
           sbind (follow 9 True E nd) (\<lambda>r.
           case r of
             None \<Rightarrow> error
           | Some nd \<Rightarrow>
               sbind (this_proc E) (\<lambda>x.
               sbind (make_file (ShobhitFile nd 0)) (\<lambda>f.
               let (x', r) = setFile (Some f) x in
               sbind (put_proc E x') (\<lambda>_. ret (Returns r))))))))"

text \<open>Descriptors 0, 1 and 2 of the serial port are refused, or have no length.\<close>

definition sys_len :: "'d env \<Rightarrow> u32 \<Rightarrow> ('d kernel, outcome) st" where
  "sys_len E userEsp =
     sbind (this_proc E) (\<lambda>x.
     sbind (arg E userEsp 1) (\<lambda>fd k.
     (if fd \<in> {0, 1, 2} \<and> getFile x fd = None then fail Undefined
      else if fd \<in> {0, 1, 2} \<and> \<not> isMine (file_objs k (the (getFile x fd))) then ret (Returns 0)
      else
        (case getFile x fd of
           None \<Rightarrow> error
         | Some f \<Rightarrow> ret (Returns (file_size (file_objs k f))))) k))"

definition standard_refused :: "'d kernel \<Rightarrow> process \<Rightarrow> u32 \<Rightarrow> bool" where
  "standard_refused k x fd \<longleftrightarrow>
     fd \<in> {0, 1, 2} \<and> (case getFile x fd of None \<Rightarrow> True | Some f \<Rightarrow> \<not> isMine (file_objs k f))"

definition sys_read :: "'d env \<Rightarrow> u32 \<Rightarrow> ('d kernel, outcome) st" where
  "sys_read E userEsp =
     sbind (this_proc E) (\<lambda>x.
     sbind (arg E userEsp 2) (\<lambda>buf.
     if buf < 0x80000000 then error
     else
       sbind (arg E userEsp 1) (\<lambda>fd k.
       (if standard_refused k x fd then error
        else
          (case getFile x fd of
             None \<Rightarrow> error
           | Some f \<Rightarrow>
               sbind (arg E userEsp 3) (\<lambda>n.
               sbind (on_io (file_read (bound E) (ports E) (reader E) n (file_objs k f))) (\<lambda>(f', r, xs) k.
               sbind (store_bytes E buf xs) (\<lambda>_. ret (Returns r)) (k\<lparr>file_objs := (file_objs k)(f := f')\<rparr>))))) k)))"

definition sys_seek :: "'d env \<Rightarrow> u32 \<Rightarrow> ('d kernel, outcome) st" where
  "sys_seek E userEsp =
     sbind (this_proc E) (\<lambda>x.
     sbind (arg E userEsp 1) (\<lambda>fd k.
     (if standard_refused k x fd then error
      else
        (case getFile x fd of
           None \<Rightarrow> error
         | Some f \<Rightarrow>
             sbind (arg E userEsp 2) (\<lambda>n k.
             let (f', r) = file_seek n (file_objs k f) in
             Inr (Returns r, k\<lparr>file_objs := (file_objs k)(f := f')\<rparr>)))) k))"

definition sysHandler :: "'d env \<Rightarrow> u32 \<Rightarrow> u32 \<Rightarrow> u32 \<Rightarrow> ('d kernel, outcome) st" where
  "sysHandler E eax userPC userEsp =
     (if eax = 0 then sys_exit E userEsp
      else if eax = 1 then sys_write E userEsp
      else if eax = 2 then sys_fork E userPC userEsp
      else if eax = 3 then sys_sem E userEsp
      else if eax = 4 then sys_up E userEsp
      else if eax = 5 then sys_down E userEsp
      else if eax = 6 then sys_close E userEsp
      else if eax = 7 then ret ShutsDown
      else if eax = 8 then sys_wait E userEsp
      else if eax = 9 then sys_execl E userEsp
      else if eax = 10 then sys_open E userEsp
      else if eax = 11 then sys_len E userEsp
      else if eax = 12 then sys_read E userEsp
      else if eax = 13 then sys_seek E userEsp
      else error)"

end
