(* ===== verification/Process_Props.thy ===== *)
theory Process_Props
  imports Sys
begin

text \<open>The descriptors of a process as a partial map.\<close>

datatype object = FileObj nat | SemObj nat | ChildObj nat

definition tables_ok :: "process \<Rightarrow> bool" where
  "tables_ok x \<longleftrightarrow> length (files x) = 10 \<and> length (sems x) = 10 \<and> length (children x) = 10"

definition opened :: "process \<Rightarrow> u32 \<Rightarrow> object option" where
  "opened x d =
     (case getSemaphoreIndex d of Some i \<Rightarrow> map_option SemObj (sems x ! i) | None \<Rightarrow>
     (case getChildIndex d of Some i \<Rightarrow> map_option ChildObj (children x ! i) | None \<Rightarrow>
     (case getFileIndex d of Some i \<Rightarrow> map_option FileObj (files x ! i) | None \<Rightarrow> None)))"

text \<open>A descriptor is its kind and its index.\<close>

lemma word_split: "(d AND 0xF0000000) OR (d AND 0x0FFFFFFF) = (d :: u32)"
proof -
  have "(d AND 0xF0000000) OR (d AND 0x0FFFFFFF) = d AND (0xF0000000 OR 0x0FFFFFFF)"
    by (simp only: bit.conj_disj_distrib)
  also have "(0xF0000000 OR 0x0FFFFFFF :: u32) = -1" by simp
  finally show ?thesis by simp
qed

lemma small_mask: "i < 10 \<Longrightarrow> (of_nat i :: u32) AND 0x0FFFFFFF = of_nat i \<and> (of_nat i :: u32) AND 0xF0000000 = 0"
proof -
  assume "i < 10"
  then have "i = 0 \<or> i = 1 \<or> i = 2 \<or> i = 3 \<or> i = 4 \<or> i = 5 \<or> i = 6 \<or> i = 7 \<or> i = 8 \<or> i = 9" by presburger
  then show ?thesis by auto
qed

lemma id_index_iff:
  assumes "kind AND 0xF0000000 = kind" and "kind AND 0x0FFFFFFF = 0"
  shows "id_index kind 10 d = Some i \<longleftrightarrow> i < 10 \<and> d = kind OR of_nat i"
proof
  assume l: "id_index kind 10 d = Some i"
  then have k: "d AND 0xF0000000 = kind" and u: "unat (d AND 0x0FFFFFFF) = i" and i: "i < 10"
    by (auto simp: id_index_def INDEX_MASK_def split: if_splits)
  have "d AND 0x0FFFFFFF = of_nat i" using u by auto
  then show "i < 10 \<and> d = kind OR of_nat i" using i k word_split [of d] by simp
next
  assume r: "i < 10 \<and> d = kind OR of_nat i"
  then have "d AND 0xF0000000 = kind" "d AND 0x0FFFFFFF = of_nat i"
    using small_mask [of i] assms by (simp_all add: bit.conj_disj_distrib2)
  moreover have "unat (of_nat i :: u32) = i" using r by (simp add: unat_of_nat)
  ultimately show "id_index kind 10 d = Some i" using r by (simp add: id_index_def INDEX_MASK_def)
qed

lemma index_iff:
  "getSemaphoreIndex d = Some i \<longleftrightarrow> i < 10 \<and> d = SEM OR of_nat i"
  "getChildIndex d = Some i \<longleftrightarrow> i < 10 \<and> d = PROC OR of_nat i"
  "getFileIndex d = Some i \<longleftrightarrow> i < 10 \<and> d = of_nat i"
  using id_index_iff [of SEM d i] id_index_iff [of PROC d i] id_index_iff [of FL d i]
  by (simp_all add: getSemaphoreIndex_def getChildIndex_def getFileIndex_def SEM_def PROC_def FL_def NSEM_def NCHILD_def NFILE_def)

lemma kinds: "i < 10 \<Longrightarrow> (SEM OR of_nat i) AND 0xF0000000 = SEM" "i < 10 \<Longrightarrow> (PROC OR of_nat i) AND 0xF0000000 = PROC"
  "i < 10 \<Longrightarrow> (of_nat i :: u32) AND 0xF0000000 = 0"
  using small_mask [of i] by (simp_all add: SEM_def PROC_def bit.conj_disj_distrib2)

lemma kinds_differ:
  "getSemaphoreIndex d = Some i \<Longrightarrow> getChildIndex d = None \<and> getFileIndex d = None"
  "getChildIndex d = Some i \<Longrightarrow> getSemaphoreIndex d = None \<and> getFileIndex d = None"
  "getFileIndex d = Some i \<Longrightarrow> getSemaphoreIndex d = None \<and> getChildIndex d = None"
  by (auto simp: getSemaphoreIndex_def getChildIndex_def getFileIndex_def id_index_def SEM_def PROC_def FL_def split: if_splits)

lemma opened_of:
  "getSemaphoreIndex d = Some i \<Longrightarrow> opened x d = map_option SemObj (sems x ! i)"
  "getChildIndex d = Some i \<Longrightarrow> opened x d = map_option ChildObj (children x ! i)"
  "getFileIndex d = Some i \<Longrightarrow> opened x d = map_option FileObj (files x ! i)"
  by (simp add: opened_def, simp add: opened_def kinds_differ(2), simp add: opened_def kinds_differ(3))

lemma same_index:
  "getSemaphoreIndex d = Some i \<Longrightarrow> getSemaphoreIndex e = Some i \<Longrightarrow> e = d"
  "getChildIndex d = Some i \<Longrightarrow> getChildIndex e = Some i \<Longrightarrow> e = d"
  "getFileIndex d = Some i \<Longrightarrow> getFileIndex e = Some i \<Longrightarrow> e = d"
  unfolding index_iff by auto

text \<open>Changing one slot changes one descriptor.\<close>

lemma opened_update:
  assumes "tables_ok x"
  shows "getSemaphoreIndex d = Some i \<Longrightarrow> opened (x\<lparr>sems := (sems x)[i := v]\<rparr>) = (opened x)(d := map_option SemObj v)"
    and "getChildIndex d = Some i \<Longrightarrow> opened (x\<lparr>children := (children x)[i := v]\<rparr>) = (opened x)(d := map_option ChildObj v)"
    and "getFileIndex d = Some i \<Longrightarrow> opened (x\<lparr>files := (files x)[i := v]\<rparr>) = (opened x)(d := map_option FileObj v)"
proof -
  have len: "getSemaphoreIndex e = Some j \<Longrightarrow> j < length (sems x)" "getChildIndex e = Some j \<Longrightarrow> j < length (children x)"
    "getFileIndex e = Some j \<Longrightarrow> j < length (files x)" for e j
    using assms by (simp_all add: index_iff tables_ok_def)
  show "opened (x\<lparr>sems := (sems x)[i := v]\<rparr>) = (opened x)(d := map_option SemObj v)" if d: "getSemaphoreIndex d = Some i"
  proof
    fix e
    show "opened (x\<lparr>sems := (sems x)[i := v]\<rparr>) e = ((opened x)(d := map_option SemObj v)) e"
      using d len(1) [OF d] same_index(1) [OF d, of e] opened_of(1) [OF d]
      by (cases "e = d") (auto simp: opened_def nth_list_update split: option.splits)
  qed
  show "opened (x\<lparr>children := (children x)[i := v]\<rparr>) = (opened x)(d := map_option ChildObj v)" if d: "getChildIndex d = Some i"
  proof
    fix e
    show "opened (x\<lparr>children := (children x)[i := v]\<rparr>) e = ((opened x)(d := map_option ChildObj v)) e"
      using d len(2) [OF d] same_index(2) [OF d, of e] opened_of(2) [OF d]
      by (cases "e = d") (auto simp: opened_def nth_list_update split: option.splits)
  qed
  show "opened (x\<lparr>files := (files x)[i := v]\<rparr>) = (opened x)(d := map_option FileObj v)" if d: "getFileIndex d = Some i"
  proof
    fix e
    show "opened (x\<lparr>files := (files x)[i := v]\<rparr>) e = ((opened x)(d := map_option FileObj v)) e"
      using d len(3) [OF d] same_index(3) [OF d, of e] opened_of(3) [OF d]
      by (cases "e = d") (auto simp: opened_def nth_list_update split: option.splits)
  qed
qed

lemma first_null_Some: "first_null k xs = Some i \<Longrightarrow> \<exists>j < length xs. i = k + j \<and> xs ! j = None"
proof (induction xs arbitrary: k)
  case (Cons y ys)
  show ?case
  proof (cases "y = None")
    case False
    then have "first_null (k + 1) ys = Some i" using Cons.prems by (simp only: first_null.simps if_False)
    from Cons.IH [OF this] obtain j where "j < length ys" "i = k + 1 + j" "ys ! j = None" by blast
    then show ?thesis by (intro exI [of _ "Suc j"]) simp
  qed (use Cons.prems in auto)
qed simp

lemma first_null_None: "first_null k xs = None \<Longrightarrow> j < length xs \<Longrightarrow> xs ! j \<noteq> None"
proof (induction xs arbitrary: k j)
  case (Cons y ys)
  then have y: "y \<noteq> None" "first_null (k + 1) ys = None" by (simp_all split: if_splits)
  show ?case
  proof (cases j)
    case 0
    then show ?thesis using y(1) by simp
  next
    case (Suc l)
    then show ?thesis using Cons.IH [OF y(2), of l] Cons.prems(2) by simp
  qed
qed simp

lemma first_null_0:
  assumes "length xs = 10"
  shows "first_null 0 xs = Some i \<Longrightarrow> i < 10 \<and> xs ! i = None"
    and "first_null 0 xs = None \<Longrightarrow> i < 10 \<Longrightarrow> xs ! i \<noteq> None"
  using first_null_Some [of 0 xs i] first_null_None [of 0 xs i] assms by auto

text \<open>The slot that is found is of a descriptor that is not open; when none is found, all are open.\<close>

lemma free_file:
  assumes "tables_ok x" "first_null 0 (files x) = Some i"
  shows "getFileIndex (of_nat i) = Some i" "opened x (of_nat i) = None"
proof -
  have i: "i < 10" "files x ! i = None" using first_null_0(1) [of "files x" i] assms by (simp_all add: tables_ok_def)
  then show g: "getFileIndex (of_nat i) = Some i" by (simp add: index_iff)
  show "opened x (of_nat i) = None" using opened_of(3) [OF g, of x] i by simp
qed

lemma free_sem:
  assumes "tables_ok x" "first_null 0 (sems x) = Some i"
  shows "getSemaphoreIndex (SEM OR of_nat i) = Some i" "opened x (SEM OR of_nat i) = None"
proof -
  have i: "i < 10" "sems x ! i = None" using first_null_0(1) [of "sems x" i] assms by (simp_all add: tables_ok_def)
  then show g: "getSemaphoreIndex (SEM OR of_nat i) = Some i" by (simp add: index_iff)
  show "opened x (SEM OR of_nat i) = None" using opened_of(1) [OF g, of x] i by simp
qed

lemma files_full:
  assumes "tables_ok x"
  shows "(\<forall>i < 10. opened x (of_nat i) \<noteq> None) \<longleftrightarrow> first_null 0 (files x) = None"
proof
  assume "\<forall>i < 10. opened x (of_nat i) \<noteq> None"
  then show "first_null 0 (files x) = None"
    using free_file(2) [OF assms] first_null_0(1) [of "files x"] assms by (cases "first_null 0 (files x)") (auto simp: tables_ok_def)
next
  assume n: "first_null 0 (files x) = None"
  show "\<forall>i < 10. opened x (of_nat i) \<noteq> None"
  proof (intro allI impI)
    fix i :: nat
    assume i: "i < 10"
    then have "getFileIndex (of_nat i) = Some i" by (simp add: index_iff)
    then show "opened x (of_nat i) \<noteq> None"
      using opened_of(3) [of "of_nat i" i x] first_null_0(2) [of "files x" i] n i assms by (simp add: tables_ok_def)
  qed
qed

lemma sems_full:
  assumes "tables_ok x"
  shows "(\<forall>i < 10. opened x (SEM OR of_nat i) \<noteq> None) \<longleftrightarrow> first_null 0 (sems x) = None"
proof
  assume "\<forall>i < 10. opened x (SEM OR of_nat i) \<noteq> None"
  then show "first_null 0 (sems x) = None"
    using free_sem(2) [OF assms] first_null_0(1) [of "sems x"] assms by (cases "first_null 0 (sems x)") (auto simp: tables_ok_def)
next
  assume n: "first_null 0 (sems x) = None"
  show "\<forall>i < 10. opened x (SEM OR of_nat i) \<noteq> None"
  proof (intro allI impI)
    fix i :: nat
    assume i: "i < 10"
    then have "getSemaphoreIndex (SEM OR of_nat i) = Some i" by (simp add: index_iff)
    then show "opened x (SEM OR of_nat i) \<noteq> None"
      using opened_of(1) [of "SEM OR of_nat i" i x] first_null_0(2) [of "sems x" i] n i assms by (simp add: tables_ok_def)
  qed
qed

lemma close_spec:
  assumes "tables_ok x"
  shows "let (x', r) = close d x in tables_ok x' \<and> opened x' = (opened x)(d := None) \<and> r = (if opened x d = None then -1 else 0)"
proof -
  note upd = opened_update [OF assms, where v = None] fun_upd_idem [of "opened x" d None]
  show ?thesis
  proof (cases "getSemaphoreIndex d")
    case (Some i)
    then show ?thesis using upd opened_of(1) [OF Some, of x] assms by (simp add: close_def tables_ok_def)
  next
    case sem: None
    show ?thesis
    proof (cases "getChildIndex d")
      case (Some i)
      then show ?thesis using upd opened_of(2) [OF Some, of x] sem assms by (simp add: close_def tables_ok_def)
    next
      case child: None
      show ?thesis
      proof (cases "getFileIndex d")
        case None
        then show ?thesis using upd sem child assms by (simp add: close_def opened_def)
      next
        case (Some i)
        then show ?thesis using upd opened_of(3) [OF Some, of x] sem child assms by (simp add: close_def tables_ok_def)
      qed
    qed
  qed
qed

lemma setFile_spec:
  assumes "tables_ok x"
  shows "let (x', r) = setFile (Some f) x in tables_ok x' \<and>
           (if \<forall>i < 10. opened x (of_nat i) \<noteq> None then x' = x \<and> r = -1
            else opened x r = None \<and> opened x' = (opened x)(r \<mapsto> FileObj f))"
proof (cases "first_null 0 (files x)")
  case None
  then show ?thesis unfolding files_full [OF assms] using assms by (simp add: setFile_def)
next
  case (Some i)
  show ?thesis unfolding files_full [OF assms]
    using opened_update(3) [OF assms free_file(1) [OF assms Some], of "Some f"] free_file(2) [OF assms Some] Some assms
    by (simp add: setFile_def tables_ok_def)
qed

lemma newSemaphore_spec:
  assumes "tables_ok (procs k p)"
  shows "\<exists>k' r. newSemaphore p n k = Inr (r, k') \<and> tables_ok (procs k' p) \<and>
           (if \<forall>i < 10. opened (procs k p) (SEM OR of_nat i) \<noteq> None then k' = k \<and> r = -1
            else opened (procs k p) r = None \<and> opened (procs k' p) = (opened (procs k p))(r \<mapsto> SemObj (next_sem k)) \<and>
              s_count (semas (threads k') (next_sem k)) = ucast n \<and> (\<forall>q. q \<noteq> p \<longrightarrow> procs k' q = procs k q))"
proof (cases "first_null 0 (sems (procs k p))")
  case None
  then show ?thesis unfolding sems_full [OF assms] using assms by (simp add: newSemaphore_def get_proc_def sbind_def ret_def)
next
  case (Some i)
  have i: "i < 10" using first_null_0(1) [of "sems (procs k p)" i] Some assms by (simp add: tables_ok_def)
  show ?thesis unfolding sems_full [OF assms]
    using opened_update(1) [OF assms free_sem(1) [OF assms Some], of "Some (next_sem k)"] free_sem(2) [OF assms Some] Some assms
      small_mask [OF i]
    by (simp add: newSemaphore_def get_proc_def set_proc_def make_sem_def sbind_def ret_def INDEX_MASK_def Let_def tables_ok_def)
qed

lemma getFile_spec: "getFile x d = Some g \<longleftrightarrow> opened x d = Some (FileObj g)"
proof (cases "getFileIndex d")
  case None
  then show ?thesis by (auto simp: getFile_def opened_def split: option.splits)
next
  case (Some i)
  moreover have "unat d = i" using Some by (auto simp: index_iff unat_of_nat)
  ultimately show ?thesis using opened_of(3) [OF Some, of x] by (simp add: getFile_def)
qed

lemma getSemaphore_spec: "getSemaphore x d = Some s \<longleftrightarrow> opened x d = Some (SemObj s)"
proof (cases "getSemaphoreIndex d")
  case None
  then show ?thesis
    by (auto simp: getSemaphore_def opened_def getSemaphoreIndex_def id_index_def SEM_def Let_def split: option.splits if_splits)
next
  case (Some i)
  then show ?thesis using opened_of(1) [OF Some, of x]
    by (auto simp: getSemaphore_def getSemaphoreIndex_def id_index_def SEM_def Let_def split: if_splits)
qed

section \<open>Properties\<close>

text \<open>
  C31. The descriptors of a process are a partial map from numbers to objects. \<^verbatim>\<open>close\<close> removes exactly the
  descriptor it is given and returns 0, or returns \<open>-1\<close> and changes nothing when it is not open;
  \<^verbatim>\<open>setFile\<close> and \<^verbatim>\<open>newSemaphore\<close> add a descriptor that was not open, for the object they are given or make,
  or return \<open>-1\<close> and change nothing when all ten slots of the kind are taken; \<^verbatim>\<open>getFile\<close> and
  \<^verbatim>\<open>getSemaphore\<close> find exactly the open descriptors of their kind.
\<close>

theorem descriptors_are_a_map:
  fixes k :: "'d kernel"
  assumes "tables_ok (procs k p)"
  defines "x \<equiv> procs k p"
  shows "(let (x', r) = close d x in tables_ok x' \<and> opened x' = (opened x)(d := None) \<and> r = (if opened x d = None then -1 else 0)) \<and>
         (let (x', r) = setFile (Some f) x in tables_ok x' \<and>
           (if \<forall>i < 10. opened x (of_nat i) \<noteq> None then x' = x \<and> r = -1
            else opened x r = None \<and> opened x' = (opened x)(r \<mapsto> FileObj f))) \<and>
         (\<exists>k' r. newSemaphore p n k = Inr (r, k') \<and> tables_ok (procs k' p) \<and>
           (if \<forall>i < 10. opened x (SEM OR of_nat i) \<noteq> None then k' = k \<and> r = -1
            else opened x r = None \<and> opened (procs k' p) = (opened x)(r \<mapsto> SemObj (next_sem k)) \<and>
              s_count (semas (threads k') (next_sem k)) = ucast n \<and> (\<forall>q. q \<noteq> p \<longrightarrow> procs k' q = procs k q))) \<and>
         (\<forall>g. getFile x d = Some g \<longleftrightarrow> opened x d = Some (FileObj g)) \<and>
         (\<forall>s. getSemaphore x d = Some s \<longleftrightarrow> opened x d = Some (SemObj s))"
  unfolding x_def using close_spec [OF assms(1)] setFile_spec [OF assms(1)] newSemaphore_spec [OF assms(1)] getFile_spec getSemaphore_spec
  by blast

theorem descriptors_are_a_map_witness:
  "\<forall>k0 :: unit kernel. \<forall>p.
    let x = \<lparr>files = [Some 0, Some 0, Some 0, None, None, None, None, None, None, None], sems = [None, None, None, None, None, None, None, None, None, None],
        children = [None, None, None, None, None, None, None, None, None, None], p_output = 0, pd = 0x2000\<rparr> in
    getFile x 2 = Some 0 \<and> opened x 2 = Some (FileObj 0) \<and> opened x 3 = None \<and>
    opened (fst (setFile (Some 7) x)) 3 = Some (FileObj 7) \<and>
    opened (fst (close 2 x)) = (opened x)(2 := None) \<and>
    (\<exists>k r. newSemaphore p 5 (k0\<lparr>procs := \<lambda>_. x\<rparr>) = Inr (r, k) \<and> opened (procs k p) r = Some (SemObj (next_sem k0)))"
proof (intro allI)
  fix k0 :: "unit kernel" and p
  define x where "x = \<lparr>files = [Some 0, Some 0, Some 0, None, None, None, None, None, None, None], sems = [None, None, None, None, None, None, None, None, None, None],
      children = [None, None, None, None, None, None, None, None, None, None], p_output = 0, pd = (0x2000 :: u32)\<rparr>"
  define k where "k = k0\<lparr>procs := \<lambda>_. x\<rparr>"
  have xk: "procs k p = x" "next_sem k = next_sem k0" by (simp_all add: k_def)
  have ok: "tables_ok (procs k p)" by (simp add: xk x_def tables_ok_def)
  have get: "getFile x 2 = Some 0" and set: "setFile (Some 7) x = (x\<lparr>files := (files x)[3 := Some 7]\<rparr>, 3)"
    and o3: "opened x 3 = None" and os: "opened x (SEM OR of_nat 3) = None"
    by (simp_all add: x_def getFile_def setFile_def opened_def getFileIndex_def getChildIndex_def getSemaphoreIndex_def
      id_index_def FL_def PROC_def SEM_def NSEM_def INDEX_MASK_def NFILE_def NCHILD_def)
  have o3': "opened x (of_nat 3) = None" using o3 by simp
  have lt: "(3 :: nat) < 10" by simp
  have f: "\<not> (\<forall>i < 10. opened x (of_nat i) \<noteq> None)" using o3' lt by blast
  have s: "\<not> (\<forall>i < 10. opened x (SEM OR of_nat i) \<noteq> None)" using os lt by blast
  note all = descriptors_are_a_map [OF ok, of 2 7 5, unfolded xk]
  have "opened x 2 = Some (FileObj 0)" using all get by blast
  moreover have "opened (fst (setFile (Some 7) x)) 3 = Some (FileObj 7)"
    using all f unfolding set by (simp only: Let_def case_prod_conv prod.sel if_False simp_thms fun_upd_same)
  moreover have "opened (fst (close 2 x)) = (opened x)(2 := None)"
    using all by (simp only: Let_def case_prod_beta prod.sel simp_thms)
  moreover have "\<exists>k' r. newSemaphore p 5 k = Inr (r, k') \<and> opened (procs k' p) r = Some (SemObj (next_sem k0))"
    using all s by (simp only: if_False simp_thms) (metis fun_upd_same)
  ultimately show "let x = \<lparr>files = [Some 0, Some 0, Some 0, None, None, None, None, None, None, None], sems = [None, None, None, None, None, None, None, None, None, None],
        children = [None, None, None, None, None, None, None, None, None, None], p_output = 0, pd = 0x2000\<rparr> in
    getFile x 2 = Some 0 \<and> opened x 2 = Some (FileObj 0) \<and> opened x 3 = None \<and>
    opened (fst (setFile (Some 7) x)) 3 = Some (FileObj 7) \<and>
    opened (fst (close 2 x)) = (opened x)(2 := None) \<and>
    (\<exists>k r. newSemaphore p 5 (k0\<lparr>procs := \<lambda>_. x\<rparr>) = Inr (r, k) \<and> opened (procs k p) r = Some (SemObj (next_sem k0)))"
    using get o3 unfolding k_def x_def [symmetric] Let_def by blast
qed

end
