(* ===== verification/User_Memory.thy ===== *)
theory User_Memory
  imports Sys VMM_Props
begin

text \<open>
  The memory of a process as the kernel sees it while it serves a call: a function from addresses to bytes
  in which pages that were never touched are zero. Loads give its bytes, stores update it, and page
  faults do not show, as long as there are two free frames for every page that is still to be made.
\<close>

section \<open>The view\<close>

definition cur_pd :: "'d env \<Rightarrow> 'd kernel \<Rightarrow> u32" where
  "cur_pd E k = pd (procs k (cur_proc E k))"

definition word_byte :: "u32 \<Rightarrow> u32 \<Rightarrow> u8" where
  "word_byte w va = ucast (drop_bit (8 * unat (va AND 3)) w)"

definition user_byte :: "pmem \<Rightarrow> u32 \<Rightarrow> u32 \<Rightarrow> u8" where
  "user_byte s d va = (case translate (pm_mem s) d va of None \<Rightarrow> 0 | Some f \<Rightarrow> word_byte (pm_mem s (f + (va AND 0xFFC))) va)"

text \<open>\<open>W\<close> are the pages that a call may touch, \<open>I\<close> is what holds of the disk.\<close>

definition room :: "pmem \<Rightarrow> u32 \<Rightarrow> u32 set \<Rightarrow> bool" where
  "room s d W \<longleftrightarrow> 2 * card {p \<in> W. translate (pm_mem s) d p = None} \<le> card (pm_free s)"

definition umem :: "'d env \<Rightarrow> ('d ide_st \<Rightarrow> bool) \<Rightarrow> u32 set \<Rightarrow> 'd kernel \<Rightarrow> (u32 \<Rightarrow> u8) \<Rightarrow> bool" where
  "umem E I W k M \<longleftrightarrow>
     private_ok (config E) (phys k) (cur_pd E k) \<and> I (io k) \<and> (\<forall>p \<in> W. user_page (config E) p) \<and>
     room (phys k) (cur_pd E k) W \<and>
     (\<forall>va. user_page (config E) (frame va) \<longrightarrow> user_byte (phys k) (cur_pd E k) va = M va)"

text \<open>Only the disk and the frames have changed.\<close>

definition same_rest :: "'d kernel \<Rightarrow> 'd kernel \<Rightarrow> bool" where
  "same_rest k k' \<longleftrightarrow> k' = k\<lparr>io := io k', phys := phys k'\<rparr>"

definition does :: "'d env \<Rightarrow> ('d ide_st \<Rightarrow> bool) \<Rightarrow> u32 set \<Rightarrow> ('d kernel, 'a) st \<Rightarrow> 'd kernel \<Rightarrow> 'a \<Rightarrow> (u32 \<Rightarrow> u8) \<Rightarrow> bool" where
  "does E I W m k x M \<longleftrightarrow> (\<exists>k'. m k = Inr (x, k') \<and> same_rest k k' \<and> umem E I W k' M)"

lemma same_rest_refl [simp]: "same_rest k k"
  by (simp add: same_rest_def)

lemma same_rest_trans: "same_rest k l \<Longrightarrow> same_rest l m \<Longrightarrow> same_rest k m"
  unfolding same_rest_def by (cases k; cases l; cases m) simp

lemma same_rest_fields:
  assumes "same_rest k k'"
  shows "procs k' = procs k" "threads k' = threads k" "file_objs k' = file_objs k" "next_file k' = next_file k"
    "cur_proc E k' = cur_proc E k" "cur_pd E k' = cur_pd E k" "futures k' = futures k" "works k' = works k"
proof -
  have k': "k' = k\<lparr>io := io k', phys := phys k'\<rparr>" using assms by (simp add: same_rest_def)
  show "procs k' = procs k" "threads k' = threads k" "file_objs k' = file_objs k" "next_file k' = next_file k"
    "futures k' = futures k" "works k' = works k"
    by (subst k', simp)+
  then show "cur_proc E k' = cur_proc E k" "cur_pd E k' = cur_pd E k" by (simp_all add: cur_proc_def cur_pd_def)
qed

lemma does_ret: "umem E I W k M \<Longrightarrow> does E I W (ret x) k x M"
  by (simp add: does_def ret_def)

lemma does_bind:
  assumes "does E I W m k x M" and "\<And>k'. same_rest k k' \<Longrightarrow> umem E I W k' M \<Longrightarrow> does E I W (f x) k' y N"
  shows "does E I W (sbind m f) k y N"
  using assms same_rest_trans unfolding does_def sbind_def by fastforce

section \<open>Frames and page faults\<close>

lemma map_frames:
  assumes wf: "vm_wf s d" and m: "vm_map s d va pa = Inr s'"
  shows "\<exists>q. pm_free s \<subseteq> insert q (pm_free s')"
proof (cases "present (pm_mem s (d + 4 * pdi_of va))")
  case True
  then show ?thesis using map_sound [OF wf, of va pa] m by (metis sum.distinct(1) sum.inject(2) subset_insertI)
next
  case False
  note W = vm_wfD [OF wf]
  show ?thesis
  proof (cases rule: alloc_sound [OF W(1)])
    case 1
    then show ?thesis using m False by (simp add: vm_map_def Let_def)
  next
    case (2 s1 p)
    note A = table_add [OF wf pdi_less False 2(2-7,8) free_limit [OF W(1) 2(2)]]
    note T = table_write [OF A(1) pdi_less A(6) A(7) [symmetric] pti_less, of va "pa OR 7"]
    have "s' = pm_write (pm_write s1 (d + 4 * pdi_of va) (p OR 7)) (p + 4 * pti_of va) (pa OR 7)"
      using m False 2 frame_id [of p] by (simp add: vm_map_def Let_def frame_def [symmetric])
    then have "pm_free s' = pm_free s - {p}" using T(2) A(2) by simp
    then show ?thesis by blast
  qed
qed

lemma translate_frame: "translate m d (frame va) = translate m d va"
proof -
  have "frame (frame va) = frame va" unfolding frame_def by (simp add: and.assoc)
  then have "pdi_of (frame va) = pdi_of va" "pti_of (frame va) = pti_of va" using page_eq_iff by blast+
  then show ?thesis by (simp add: translate_entry)
qed

lemma frame_offset: "pm_offset (frame va) = 0" "frame (frame va) = frame va"
  unfolding frame_def pm_offset_def by (simp_all add: and.assoc)

text \<open>The word of an address lies in the frame of its page.\<close>

lemma word_index: "va AND 0xFFC = 4 * (drop_bit 2 va AND 0x3FF)" "drop_bit 2 va AND 0x3FF < (1024 :: u32)"
proof -
  have ten: "(0x3FF :: u32) = mask 10" by (simp add: mask_eq_exp_minus_1)
  have two: "2 \<le> n \<Longrightarrow> Suc (Suc (n - 2)) = n" for n :: nat by simp
  have m: "(0xFFC :: u32) = push_bit 2 (mask 10)" by (simp add: mask_eq_exp_minus_1 push_bit_eq_mult)
  have "va AND 0xFFC = push_bit 2 (drop_bit 2 va AND mask 10)"
    unfolding m by (rule bit_word_eqI) (auto simp: bit_simps two)
  then show "va AND 0xFFC = 4 * (drop_bit 2 va AND 0x3FF)" by (simp add: ten push_bit_eq_mult mult.commute)
  have "drop_bit 2 va AND 0x3FF = take_bit 10 (drop_bit 2 va)" by (simp add: ten take_bit_eq_mask)
  then show "drop_bit 2 va AND 0x3FF < (1024 :: u32)"
    by (simp add: word_less_def unsigned_take_bit_eq take_bit_eq_mod uint_mod_distrib)
qed

lemma frame_word: "pm_offset f = 0 \<Longrightarrow> frame (f + (va AND 0xFFC)) = f"
  unfolding word_index(1) by (rule frame_slot) (simp_all add: word_index(2))

text \<open>A page fault of a page of \<open>W\<close>: the view is as before.\<close>

lemma fault_step:
  assumes ok: "private_ok cfg s d" and W: "\<forall>p \<in> W. user_page cfg p" and rm: "room s d W"
    and va: "frame va \<in> W" and none: "translate (pm_mem s) d va = None"
  obtains s' f where "vmm_pageFault d d d va s = Inr s'" and "private_ok cfg s' d" and "room s' d W"
    and "translate (pm_mem s') d va = Some f"
    and "\<And>vb. user_page cfg (frame vb) \<Longrightarrow> user_byte s' d vb = user_byte s d vb"
proof -
  have wf: "vm_wf s d" using ok by (simp add: private_ok_def)
  have user: "user_page cfg (frame va)" using W va by blast
  have high: "0x80000000 \<le> va"
  proof (rule ccontr)
    assume "\<not> 0x80000000 \<le> va"
    then have "uint va < 0x80000000" by (simp add: word_le_def)
    then have "uint (frame va) < 0x80000000" by (simp add: uint_frame)
    then have "frame va < 0x80000000" by (simp add: word_less_def)
    then show False using user by (simp add: user_page_def is_special_def)
  qed
  have missing: "frame va \<in> {p \<in> W. translate (pm_mem s) d p = None}" using va none by (simp add: translate_frame)
  then have "1 \<le> card {p \<in> W. translate (pm_mem s) d p = None}" by (simp add: Suc_le_eq card_gt_0_iff) blast
  then have two: "2 \<le> card (pm_free s)" using rm unfolding room_def by linarith
  show ?thesis
  proof (cases rule: pageFault_sound [OF wf high])
    case (1 p)
    then have "card (pm_free s) \<le> card {p}" by (intro card_mono) auto
    then show ?thesis using two by simp
  next
    case (2 s1 p s')
    have tr: "translate (pm_mem s') d vb = (if frame vb = frame va then Some p else translate (pm_mem s) d vb)" for vb
      using 2(3,7,8) by (simp add: maps_page_def frame_offset frame_id)
    have wf': "vm_wf s' d" and lim: "pm_limit s' = pm_limit s1" and tabs: "vm_tables (pm_mem s') d \<subseteq> vm_tables (pm_mem s) d \<union> pm_free s1"
      and free: "pm_free s' \<subseteq> pm_free s1" and mem: "\<And>a. frame a \<notin> vm_tables (pm_mem s') d \<Longrightarrow> pm_mem s' a = pm_mem s1 a"
      using 2(8,9) by (auto simp: maps_page_def)
    have pt: "p \<notin> vm_tables (pm_mem s') d"
      using tabs 2(2,5) tables_owned [OF wf] by (auto simp: pm_owned_def)
    note lims = 2(10)
    have old: "pm_owned s f \<and> f \<notin> vm_tables (pm_mem s) d" if "user_page cfg vb" "translate (pm_mem s) d vb = Some f" for vb f
      using ok that unfolding private_ok_def by blast
    have keep: "pm_owned s' f \<and> f \<notin> vm_tables (pm_mem s') d \<and> f \<noteq> p" if "user_page cfg vb" "translate (pm_mem s) d vb = Some f" for vb f
      using old [OF that] tabs free 2(2,5) lim lims by (auto simp: pm_owned_def)
    have new: "pm_owned s' p"
      using 2(2,3,5,11) free_limit [OF vm_wfD(1) [OF wf] 2(2)] free lim lims by (auto simp: pm_owned_def)
    have ok': "private_ok cfg s' d"
      unfolding private_ok_def
    proof (intro conjI allI impI wf')
      fix vb f
      assume vb: "user_page cfg vb \<and> translate (pm_mem s') d vb = Some f"
      show "pm_owned s' f" "f \<notin> vm_tables (pm_mem s') d"
        using vb tr [of vb] keep [of vb f] new pt by (auto split: if_splits)
      fix vc
      assume vc: "user_page cfg vc \<and> translate (pm_mem s') d vc = Some f"
      have ids: "frame vb = vb" "frame vc = vc" using vb vc by (simp_all add: user_page_def frame_id)
      show "vc = vb"
        using vb vc tr [of vb] tr [of vc] ids keep [of vb f] keep [of vc f] private_unique [OF ok, of vb f vc]
        by (auto split: if_splits)
    qed
    have rm': "room s' d W"
    proof -
      obtain q where "pm_free s1 \<subseteq> insert q (pm_free s')" using map_frames [OF 2(4,12)] by blast
      then have "pm_free s \<subseteq> insert p (insert q (pm_free s'))" using 2(5) by blast
      then have "card (pm_free s) \<le> card (insert p (insert q (pm_free s')))" by (intro card_mono) simp_all
      also have "\<dots> \<le> card (pm_free s') + 2"
        using card_insert_le_m1 by (metis add_2_eq_Suc' card_insert_if finite le_SucI order_refl not_less_eq_eq)
      finally have fr: "card (pm_free s) \<le> card (pm_free s') + 2" .
      have "{q \<in> W. translate (pm_mem s') d q = None} = {q \<in> W. translate (pm_mem s) d q = None} - {frame va}"
        using W tr by (auto simp: user_page_def frame_id)
      then have "card {q \<in> W. translate (pm_mem s') d q = None} = card {q \<in> W. translate (pm_mem s) d q = None} - 1"
        using missing by simp
      then show ?thesis using rm fr missing unfolding room_def by linarith
    qed
    have bytes: "user_byte s' d vb = user_byte s d vb" if vb: "user_page cfg (frame vb)" for vb
    proof -
      have off: "frame (f + (vb AND 0xFFC)) = f" if "pm_offset f = 0" for f
        using frame_word [OF that] .
      show ?thesis
      proof (cases "frame vb = frame va")
        case True
        then have "translate (pm_mem s) d vb = None" using none translate_frame [of _ d vb] translate_frame [of _ d va] by metis
        moreover have "pm_mem s' (p + (vb AND 0xFFC)) = 0"
          using mem [of "p + (vb AND 0xFFC)"] off [OF 2(3)] pt bzero_in [OF 2(3) off [OF 2(3)]] 2(6) by simp
        ultimately show ?thesis using tr [of vb] True by (simp add: user_byte_def word_byte_def)
      next
        case False
        show ?thesis
        proof (cases "translate (pm_mem s) d vb")
          case None
          then show ?thesis using tr [of vb] False by (simp add: user_byte_def)
        next
          case (Some f)
          then have f: "pm_owned s' f" "f \<notin> vm_tables (pm_mem s') d" "f \<noteq> p"
            using keep [of "frame vb" f] vb by (auto simp: translate_frame)
          then have "pm_mem s' (f + (vb AND 0xFFC)) = pm_mem s (f + (vb AND 0xFFC))"
            using mem [of "f + (vb AND 0xFFC)"] off [of f] bzero_other [OF 2(3), of "f + (vb AND 0xFFC)"] 2(6)
            by (simp add: pm_owned_def)
          then show ?thesis using tr [of vb] False Some by (simp add: user_byte_def)
        qed
      qed
    qed
    show ?thesis using that [of s' p] 2(1) ok' rm' bytes tr [of va] by simp
  qed
qed

section \<open>Loads and stores\<close>

lemma umem_user: "umem E I W k M \<Longrightarrow> frame va \<in> W \<Longrightarrow> user_page (config E) (frame va)"
  by (simp add: umem_def)

lemma touch_spec:
  assumes mem: "umem E I W k M" and va: "frame va \<in> W"
  obtains k' f where "touch E va k = Inr (f, k')" and "same_rest k k'" and "umem E I W k' M"
    and "translate (pm_mem (phys k')) (cur_pd E k') va = Some f"
proof (cases "translate (pm_mem (phys k)) (cur_pd E k) va")
  case (Some f)
  then have "touch E va k = Inr (f, k)" by (simp add: touch_def walk_def cur_pd_def Let_def)
  then show ?thesis using that [of f k] mem Some by simp
next
  case None
  have U: "private_ok (config E) (phys k) (cur_pd E k)" "I (io k)" "\<forall>p \<in> W. user_page (config E) p" "room (phys k) (cur_pd E k) W"
    "\<And>va. user_page (config E) (frame va) \<Longrightarrow> user_byte (phys k) (cur_pd E k) va = M va"
    using mem by (simp_all add: umem_def)
  obtain s' f where s': "vmm_pageFault (cur_pd E k) (cur_pd E k) (cur_pd E k) va (phys k) = Inr s'"
    "private_ok (config E) s' (cur_pd E k)" "room s' (cur_pd E k) W" "translate (pm_mem s') (cur_pd E k) va = Some f"
    "\<And>vb. user_page (config E) (frame vb) \<Longrightarrow> user_byte s' (cur_pd E k) vb = user_byte (phys k) (cur_pd E k) vb"
    using fault_step [OF U(1,3,4) va None] by blast
  let ?k = "k\<lparr>phys := s'\<rparr>"
  have sr: "same_rest k ?k" by (simp add: same_rest_def)
  note F = same_rest_fields [OF sr]
  have "touch E va k = Inr (f, ?k)"
    using None s'(1,4) F by (simp add: touch_def walk_def on_phys_def sbind_def cur_pd_def Let_def)
  moreover have "umem E I W ?k M" using U s' F(6) [of E] by (simp add: umem_def)
  ultimately show ?thesis using that [of f ?k] sr s'(4) F(6) [of E] by simp
qed

lemma load8_does:
  assumes "umem E I W k M" and "frame va \<in> W"
  shows "does E I W (load8 E va) k (M va) M"
proof -
  obtain k' f where k': "touch E va k = Inr (f, k')" "same_rest k k'" "umem E I W k' M"
    "translate (pm_mem (phys k')) (cur_pd E k') va = Some f" by (rule touch_spec [OF assms])
  have "user_byte (phys k') (cur_pd E k') va = M va" using k'(3) umem_user [OF k'(3) assms(2)] by (simp add: umem_def)
  then have "load8 E va k = Inr (M va, k')"
    using k' by (simp add: load8_def sbind_def user_byte_def word_byte_def)
  then show ?thesis using k' unfolding does_def by blast
qed

lemma word_byte_set:
  fixes w va :: u32
  defines "sh \<equiv> 8 * unat (va AND 3)"
  shows "word_byte ((w AND NOT (push_bit sh 0xFF)) OR push_bit sh (ucast (x :: u8))) vb = (if vb AND 3 = va AND 3 then x else word_byte w vb)"
proof -
  have lt: "unat (v AND 3) \<le> 3" for v :: u32
    using word_and_le1 [of v 3] by (simp add: word_le_nat_alt)
  have ff: "(0xFF :: u32) = mask 8" by (simp add: mask_eq_exp_minus_1)
  show ?thesis
  proof (cases "vb AND 3 = va AND 3")
    case True
    then show ?thesis using lt [of va] unfolding word_byte_def sh_def ff
      by (intro bit_word_eqI) (auto simp: bit_simps)
  next
    case False
    then have "unat (vb AND 3) \<noteq> unat (va AND 3)" unfolding word_unat_eq_iff .
    then show ?thesis using lt [of va] lt [of vb] False unfolding word_byte_def sh_def ff
      by (intro bit_word_eqI) (auto simp: bit_simps dest: bit_imp_le_length)
  qed
qed

lemma address_parts: "va = vb \<longleftrightarrow> frame va = frame vb \<and> va AND 0xFFC = vb AND 0xFFC \<and> va AND 3 = vb AND (3 :: u32)"
proof
  assume eq: "frame va = frame vb \<and> va AND 0xFFC = vb AND 0xFFC \<and> va AND 3 = vb AND 3"
  have split: "v = (frame v OR (v AND 0xFFC)) OR (v AND 3)" for v :: u32
  proof -
    have "(frame v OR (v AND 0xFFC)) OR (v AND 3) = v AND ((0xFFFFF000 OR 0xFFC) OR 3)"
      by (simp only: frame_def bit.conj_disj_distrib)
    also have "((0xFFFFF000 OR 0xFFC) OR 3 :: u32) = -1" by simp
    finally show ?thesis by simp
  qed
  show "va = vb" using eq split [of va] split [of vb] by metis
qed auto

lemma word_slot:
  assumes "pm_offset f = 0" and "pm_offset g = 0"
  shows "f + (va AND 0xFFC) = g + (vb AND 0xFFC) \<longleftrightarrow> f = g \<and> va AND 0xFFC = vb AND 0xFFC"
  using frame_word [OF assms(1), of va] frame_word [OF assms(2), of vb] by (metis add_left_cancel)

text \<open>A write to the frame of a page.\<close>

lemma write_step:
  fixes w :: u32
  assumes ok: "private_ok cfg s d" and va: "user_page cfg (frame va)" and f: "translate (pm_mem s) d va = Some f"
  defines "s' \<equiv> pm_write s (f + (va AND 0xFFC)) w"
  shows "private_ok cfg s' d" and "translate (pm_mem s') d = translate (pm_mem s) d" and "pm_free s' = pm_free s"
    and "\<And>vb. user_page cfg (frame vb) \<Longrightarrow> user_byte s' d vb =
      (if frame vb = frame va \<and> vb AND 0xFFC = va AND 0xFFC then word_byte w vb else user_byte s d vb)"
proof -
  have wf: "vm_wf s d" using ok by (simp add: private_ok_def)
  have own: "pm_owned s g \<and> g \<notin> vm_tables (pm_mem s) d" if "user_page cfg (frame vb)" "translate (pm_mem s) d vb = Some g" for vb g
    using ok that translate_frame [of "pm_mem s" d vb] unfolding private_ok_def by metis
  note F = own [OF va f]
  have off: "pm_offset f = 0" using F by (simp add: pm_owned_def)
  note fr = frame_word [OF off, of va]
  have nf: "frame (f + (va AND 0xFFC)) \<notin> pm_free s" using F fr by (simp add: pm_owned_def)
  note P = pm_write_free [OF vm_wfD(1) [OF wf] nf, of w]
  show fr': "pm_free s' = pm_free s" using P by (simp add: s'_def)
  have "pm_free s' \<inter> vm_tables (pm_mem s) d = {}" using fr' tables_owned [OF wf] by (auto simp: pm_owned_def)
  note K = wf_keep [OF wf P(1) [folded s'_def] _ this]
  have m: "pm_mem s' a = pm_mem s a" if "frame a \<in> vm_tables (pm_mem s) d" for a
    using that F fr by (auto simp: s'_def)
  have lim: "pm_limit s' = pm_limit s" by (simp add: s'_def)
  note K' = K [OF lim m]
  show tr: "translate (pm_mem s') d = translate (pm_mem s) d" using K'(2) .
  have "pm_owned s' g = pm_owned s g" for g using fr' lim by (simp add: pm_owned_def)
  then show "private_ok cfg s' d" using ok K'(1,3) tr unfolding private_ok_def by simp
  fix vb
  assume vb: "user_page cfg (frame vb)"
  show "user_byte s' d vb = (if frame vb = frame va \<and> vb AND 0xFFC = va AND 0xFFC then word_byte w vb else user_byte s d vb)"
  proof (cases "translate (pm_mem s) d vb")
    case None
    then have "frame vb \<noteq> frame va" using f translate_frame by (metis option.distinct(1))
    then show ?thesis using None tr by (simp add: user_byte_def)
  next
    case (Some g)
    have g: "pm_offset g = 0" using own [OF vb Some] by (simp add: pm_owned_def)
    have "g = f \<longleftrightarrow> frame vb = frame va"
      using private_unique [OF ok vb, of f "frame va"] Some f va translate_frame by (metis option.inject)
    then show ?thesis using Some tr word_slot [OF g off, of vb va] by (auto simp: user_byte_def s'_def)
  qed
qed

lemma store8_does:
  assumes "umem E I W k M" and "frame va \<in> W"
  shows "does E I W (store8 E va x) k () (M(va := x))"
proof -
  obtain k' f where k': "touch E va k = Inr (f, k')" "same_rest k k'" "umem E I W k' M"
    "translate (pm_mem (phys k')) (cur_pd E k') va = Some f" by (rule touch_spec [OF assms])
  note user = umem_user [OF k'(3) assms(2)]
  let ?sh = "8 * unat (va AND 3)" and ?a = "f + (va AND 0xFFC)"
  let ?v = "(pm_mem (phys k') ?a AND NOT (push_bit ?sh 0xFF)) OR push_bit ?sh (ucast x)"
  let ?k = "k'\<lparr>phys := pm_write (phys k') ?a ?v\<rparr>"
  have st: "store8 E va x k = Inr ((), ?k)" using k'(1) by (simp add: store8_def sbind_def Let_def)
  have sr: "same_rest k' ?k" by (simp add: same_rest_def)
  have d: "cur_pd E ?k = cur_pd E k'" using same_rest_fields(6) [OF sr] .
  have U: "private_ok (config E) (phys k') (cur_pd E k')" "I (io k')" "\<forall>p \<in> W. user_page (config E) p" "room (phys k') (cur_pd E k') W"
    "\<And>va. user_page (config E) (frame va) \<Longrightarrow> user_byte (phys k') (cur_pd E k') va = M va"
    using k'(3) by (simp_all add: umem_def)
  note S = write_step [OF U(1) user k'(4), where w = ?v]
  have "user_byte (pm_write (phys k') ?a ?v) (cur_pd E k') vb = (M(va := x)) vb" if vb: "user_page (config E) (frame vb)" for vb
  proof (cases "frame vb = frame va \<and> vb AND 0xFFC = va AND 0xFFC")
    case True
    have "word_byte (pm_mem (phys k') ?a) vb = user_byte (phys k') (cur_pd E k') vb"
      using k'(4) True translate_frame by (metis option.simps(5) user_byte_def)
    then show ?thesis using S(4) [OF vb] True word_byte_set [of "pm_mem (phys k') ?a" va x vb] U(5) [OF vb] address_parts [of vb va] by simp
  next
    case False
    then show ?thesis using S(4) [OF vb] U(5) [OF vb] by auto
  qed
  moreover have "room (pm_write (phys k') ?a ?v) (cur_pd E k') W" using U(4) S(2,3) by (simp add: room_def)
  ultimately have "umem E I W ?k (M(va := x))" using U(2,3) S(1) d by (simp add: umem_def)
  then show ?thesis using st same_rest_trans [OF k'(2) sr] unfolding does_def by blast
qed

section \<open>Sequences of bytes\<close>

definition mem_chunk :: "(u32 \<Rightarrow> u8) \<Rightarrow> u32 \<Rightarrow> nat \<Rightarrow> u8 list" where
  "mem_chunk M va n = map (\<lambda>i. M (va + of_nat i)) [0..<n]"

definition mem_word :: "(u32 \<Rightarrow> u8) \<Rightarrow> u32 \<Rightarrow> u32" where
  "mem_word M va = le32 (mem_chunk M va 4) 0"

fun mem_put :: "(u32 \<Rightarrow> u8) \<Rightarrow> u32 \<Rightarrow> u8 list \<Rightarrow> u32 \<Rightarrow> u8" where
  "mem_put M va [] = M"
| "mem_put M va (x # xs) = mem_put (M(va := x)) (va + 1) xs"

text \<open>All bytes from \<open>va\<close> on are in pages of \<open>W\<close>.\<close>

definition within :: "u32 set \<Rightarrow> u32 \<Rightarrow> nat \<Rightarrow> bool" where
  "within W va n \<longleftrightarrow> (\<forall>i < n. frame (va + of_nat i) \<in> W)"

lemma within_Suc: "within W va (Suc n) \<longleftrightarrow> frame va \<in> W \<and> within W (va + 1) n"
  unfolding within_def by (auto simp: All_less_Suc2 algebra_simps)

lemma mem_chunk_Suc: "mem_chunk M va (Suc n) = M va # mem_chunk M (va + 1) n"
  by (simp add: mem_chunk_def upt_conv_Cons map_Suc_upt [symmetric] algebra_simps del: upt_Suc)

lemma load_bytes_does:
  "umem E I W k M \<Longrightarrow> within W va n \<Longrightarrow> does E I W (load_bytes E n va) k (mem_chunk M va n) M"
proof (induction n arbitrary: va k)
  case 0
  then show ?case by (simp add: does_ret mem_chunk_def)
next
  case (Suc n)
  then have w: "frame va \<in> W" "within W (va + 1) n" by (simp_all add: within_Suc)
  show ?case unfolding load_bytes.simps mem_chunk_Suc
    by (rule does_bind [OF load8_does [OF Suc.prems(1) w(1)]], rule does_bind [OF Suc.IH [OF _ w(2)]], assumption) (rule does_ret)
qed

lemma store_bytes_does:
  "umem E I W k M \<Longrightarrow> within W va (length xs) \<Longrightarrow> does E I W (store_bytes E va xs) k () (mem_put M va xs)"
proof (induction xs arbitrary: va k M)
  case Nil
  then show ?case by (simp add: does_ret)
next
  case (Cons x xs)
  then have w: "frame va \<in> W" "within W (va + 1) (length xs)" by (simp_all add: within_Suc)
  show ?case unfolding store_bytes.simps mem_put.simps
    by (rule does_bind [OF store8_does [OF Cons.prems(1) w(1)]]) (rule Cons.IH [OF _ w(2)])
qed

lemma load32_does: "umem E I W k M \<Longrightarrow> within W va 4 \<Longrightarrow> does E I W (load32 E va) k (mem_word M va) M"
  unfolding load32_def mem_word_def by (rule does_bind [OF load_bytes_does]) (auto intro: does_ret)

lemma store32_does: "umem E I W k M \<Longrightarrow> within W va 4 \<Longrightarrow> does E I W (store32 E va v) k () (mem_put M va (word_bytes v))"
  unfolding store32_def by (rule store_bytes_does) (simp_all add: word_bytes_def eval_nat_numeral)

lemma load_string_does:
  assumes "umem E I W k M" and "mem_chunk M va (length cs) = cs" and "0 \<notin> set cs" and "M (va + of_nat (length cs)) = 0"
    and "within W va (length cs + 1)" and "length cs < n"
  shows "does E I W (load_string n E va) k cs M"
  using assms
proof (induction cs arbitrary: va k n)
  case Nil
  then obtain m where "n = Suc m" by (cases n) auto
  then show ?case using Nil
    by (auto simp: within_Suc intro!: does_bind [OF load8_does [OF Nil(1)]] does_ret)
next
  case (Cons c cs)
  then obtain m where n: "n = Suc m" by (cases n) auto
  have w: "frame va \<in> W" "within W (va + 1) (length cs + 1)" using Cons.prems(5) by (simp_all add: within_Suc)
  have c: "M va = c" "mem_chunk M (va + 1) (length cs) = cs" "c \<noteq> 0" "0 \<notin> set cs" "M (va + 1 + of_nat (length cs)) = 0"
    using Cons.prems(2-4) by (simp_all add: mem_chunk_Suc algebra_simps)
  have "does E I W (load_string m E (va + 1)) k' cs M" if "umem E I W k' M" for k'
    using Cons.IH [OF that c(2,4,5) w(2)] Cons.prems(6) n by simp
  then show ?case unfolding n load_string.simps
    using c by (intro does_bind [OF load8_does [OF Cons.prems(1) w(1)]]) (auto intro!: does_bind does_ret)
qed

text \<open>What a sequence of stores leaves.\<close>

lemma mem_put_at:
  assumes "length xs \<le> 2 ^ 32"
  shows "mem_put M va xs vb = (if unat (vb - va) < length xs then xs ! unat (vb - va) else M vb)"
  using assms
proof (induction xs arbitrary: M va)
  case (Cons x xs)
  have IH: "mem_put M (va + 1) xs vb = (if unat (vb - (va + 1)) < length xs then xs ! unat (vb - (va + 1)) else M vb)" for M
    using Cons by simp
  show ?case
  proof (cases "vb = va")
    case True
    have "vb - (va + 1) = - 1" using True by simp
    then have "unat (vb - (va + 1)) = 2 ^ 32 - 1" by (simp add: unsigned_minus_1_eq_mask mask_eq_exp_minus_1)
    then show ?thesis using IH Cons.prems True by simp
  next
    case False
    then have nz: "vb - va \<noteq> 0" by simp
    have "unat (vb - va) = Suc (unat (vb - va - 1))" using unat_minus_one [OF nz] nz by (simp add: unat_gt_0)
    moreover have "vb - va - 1 = vb - (va + 1)" by simp
    ultimately have d: "unat (vb - va) = Suc (unat (vb - (va + 1)))" by metis
    show ?thesis unfolding mem_put.simps IH d using False by simp
  qed
qed simp

end
