(* ===== verification/Elf_Props.thy ===== *)
theory Elf_Props
  imports User_Memory Ext2_Props
begin

text \<open>Loading a program: the memory of the process afterwards is the image the program headers describe.\<close>

section \<open>The image of a program\<close>

text \<open>The program headers of a file with the bytes \<open>c\<close>, and which of them are loaded.\<close>

definition header_of :: "(nat \<Rightarrow> u8) \<Rightarrow> elf_header" where
  "header_of c = parse_elf_header (chunk c 0 52)"

definition header_at :: "elf_header \<Rightarrow> nat \<Rightarrow> u32" where
  "header_at h i = e_phoff h + of_nat i * ucast (e_phentsize h)"

definition segment_of :: "(nat \<Rightarrow> u8) \<Rightarrow> elf_header \<Rightarrow> nat \<Rightarrow> program_header" where
  "segment_of c h i = parse_program_header (chunk c (unat (header_at h i)) 32)"

definition segments_of :: "(nat \<Rightarrow> u8) \<Rightarrow> program_header list" where
  "segments_of c = (let h = header_of c in map (segment_of c h) [0..<unat (e_phnum h)])"

text \<open>The byte at an address is the one of the last loaded segment there: from the file, or zero after its part of the file.\<close>

definition covers :: "program_header \<Rightarrow> u32 \<Rightarrow> bool" where
  "covers ph va \<longleftrightarrow> ph_type ph = 1 \<and> va - ph_vaddr ph < ph_memsz ph"

definition segment_byte :: "(nat \<Rightarrow> u8) \<Rightarrow> program_header \<Rightarrow> u32 \<Rightarrow> u8" where
  "segment_byte c ph va =
     (if va - ph_vaddr ph < ph_filesz ph then c (unat (ph_offset ph) + unat (va - ph_vaddr ph)) else 0)"

definition image :: "(nat \<Rightarrow> u8) \<Rightarrow> program_header list \<Rightarrow> (u32 \<Rightarrow> u8) \<Rightarrow> u32 \<Rightarrow> u8" where
  "image c phs M va = (case find (\<lambda>ph. covers ph va) (rev phs) of None \<Rightarrow> M va | Some ph \<Rightarrow> segment_byte c ph va)"

text \<open>A file of \<open>L\<close> bytes whose headers and segments are inside it, and whose segments are in pages of \<open>W\<close>.\<close>

definition segment_ok :: "nat \<Rightarrow> u32 set \<Rightarrow> program_header \<Rightarrow> bool" where
  "segment_ok L W ph \<longleftrightarrow>
     (ph_type ph = 1 \<longrightarrow> unat (ph_offset ph) + unat (ph_filesz ph) \<le> L \<and> ph_filesz ph \<le> ph_memsz ph \<and>
        unat (ph_memsz ph - ph_filesz ph) < 2 ^ 31 \<and> within W (ph_vaddr ph) (unat (ph_memsz ph)))"

definition program_ok :: "(nat \<Rightarrow> u8) \<Rightarrow> nat \<Rightarrow> u32 set \<Rightarrow> bool" where
  "program_ok c L W \<longleftrightarrow> 52 \<le> L \<and>
     (\<forall>i < unat (e_phnum (header_of c)). unat (header_at (header_of c) i) + 32 \<le> L \<and> segment_ok L W (segment_of c (header_of c) i))"

lemma image_Nil: "image c [] M = M"
  by (rule ext) (simp add: image_def)

lemma image_Cons: "image c (ph # phs) M = image c phs (\<lambda>va. if covers ph va then segment_byte c ph va else M va)"
proof -
  have f: "find P (xs @ [y]) = (case find P xs of None \<Rightarrow> if P y then Some y else None | Some z \<Rightarrow> Some z)" for P and xs :: "'x list" and y
    by (induction xs) auto
  show ?thesis by (rule ext) (auto simp: image_def f split: option.splits)
qed

section \<open>Loading\<close>

text \<open>A file that is read as the bytes \<open>c\<close>.\<close>

definition reads_as :: "'d env \<Rightarrow> ('d ide_st \<Rightarrow> bool) \<Rightarrow> node \<Rightarrow> (nat \<Rightarrow> u8) \<Rightarrow> nat \<Rightarrow> bool" where
  "reads_as E I nd c L \<longleftrightarrow> L < 2 ^ 32 \<and>
     (\<forall>offset n. unat offset \<le> L \<longrightarrow>
        gives I (node_read_all (reader E) nd offset n) (int (min (unat n) (L - unat offset)), chunk c (unat offset) (min (unat n) (L - unat offset))))"

lemma on_io_does:
  assumes "gives I m x" and "umem E I W k M"
  shows "does E I W (on_io m) k x M"
proof -
  have "I (io k)" using assms(2) by (simp add: umem_def)
  then obtain s where s: "m (io k) = Inr (x, s)" "I s" using assms(1) unfolding gives_def by blast
  have sr: "same_rest k (k\<lparr>io := s\<rparr>)" by (simp add: same_rest_def)
  have "umem E I W (k\<lparr>io := s\<rparr>) M" using assms(2) s(2) same_rest_fields(6) [OF sr, of E] by (simp add: umem_def)
  then show ?thesis using s(1) sr by (auto simp: does_def on_io_def)
qed

lemma node_reader_does:
  assumes "reads_as E I nd c L" and "unat offset + unat n \<le> L" and "umem E I W k M"
  shows "does E I W (node_reader E nd offset n) k (int (unat n), chunk c (unat offset) (unat n)) M"
proof -
  have "gives I (node_read_all (reader E) nd offset n) (int (min (unat n) (L - unat offset)), chunk c (unat offset) (min (unat n) (L - unat offset)))"
    using assms(1) add_leD1 [OF assms(2)] unfolding reads_as_def by blast
  moreover have "min (unat n) (L - unat offset) = unat n" using assms(2) by simp
  ultimately show ?thesis unfolding node_reader_def using on_io_does [OF _ assms(3)] by metis
qed

lemma thing_does:
  assumes "reads_as E I nd c L" and "unat offset + unat n \<le> L" and "umem E I W k M"
  shows "does E I W (bio_read_thing (node_reader E nd) n offset) k (chunk c (unat offset) (unat n)) M"
  unfolding bio_read_thing_def
  by (rule does_bind [OF node_reader_does [OF assms]]) (auto simp: assert_def intro!: does_bind does_ret)

text \<open>One segment.\<close>

lemma within_mono: "within W va n \<Longrightarrow> m \<le> n \<Longrightarrow> within W va m"
  by (simp add: within_def)

lemma within_add: "within W va (m + n) \<Longrightarrow> within W (va + of_nat m) n"
proof -
  assume w: "within W va (m + n)"
  show "within W (va + of_nat m) n"
    unfolding within_def
  proof (intro allI impI)
    fix i
    assume "i < n"
    then have "m + i < m + n" by simp
    then have "frame (va + of_nat (m + i)) \<in> W" using w unfolding within_def by blast
    then show "frame (va + of_nat m + of_nat i) \<in> W" by (simp add: add.assoc)
  qed
qed

lemma segment_put:
  assumes "ph_type ph = 1" and "ph_filesz ph \<le> ph_memsz ph"
  shows "mem_put (mem_put M (ph_vaddr ph) (chunk c (unat (ph_offset ph)) (unat (ph_filesz ph)))) (ph_vaddr ph + ph_filesz ph)
      (replicate (unat (ph_memsz ph - ph_filesz ph)) 0) = (\<lambda>va. if covers ph va then segment_byte c ph va else M va)"
    (is "?l = ?r")
proof
  fix va
  let ?f = "ph_filesz ph" and ?m = "ph_memsz ph" and ?d = "va - ph_vaddr ph"
  have sub: "unat (?m - ?f) = unat ?m - unat ?f" using assms(2) by (simp add: unat_sub)
  have len: "length (chunk c (unat (ph_offset ph)) (unat ?f)) \<le> 2 ^ 32" "length (replicate (unat (?m - ?f)) (0 :: u8)) \<le> 2 ^ 32"
    using unsigned_less [of ?f, where 'a = nat] unsigned_less [of "?m - ?f", where 'a = nat] by simp_all
  have ch: "chunk c (unat (ph_offset ph)) (unat ?f) ! unat ?d = c (unat (ph_offset ph) + unat ?d)" if "unat ?d < unat ?f"
    using that by (simp add: chunk_def)
  have d: "va - (ph_vaddr ph + ?f) = ?d - ?f" by simp
  show "?l va = ?r va"
  proof (cases "?d < ?f")
    case True
    then have lt: "unat ?d < unat ?f" by (simp add: word_less_nat_alt)
    have big: "\<not> unat (?d - ?f) < unat (?m - ?f)"
    proof -
      have e1: "uint (?d - ?f) = uint ?d - uint ?f + 4294967296" using True by (simp add: uint_sub_if' word_less_def)
      have e2: "uint (?m - ?f) = uint ?m - uint ?f" using assms(2) by (simp add: uint_sub_if' word_le_def)
      have ub: "uint ?m < 4294967296" using uint_bounded [of ?m] by simp
      have ge: "0 \<le> uint ?d" by (rule uint_ge_0)
      have "uint (?m - ?f) \<le> uint (?d - ?f)" unfolding e1 e2 using ub ge by linarith
      then have "?m - ?f \<le> ?d - ?f" by (simp only: word_le_def)
      then show ?thesis by (simp only: word_le_nat_alt not_less)
    qed
    have "?d < ?m" using True assms(2) by simp
    then show ?thesis using True lt big ch assms(1) by (simp add: d mem_put_at [OF len(1)] mem_put_at [OF len(2)] covers_def segment_byte_def)
  next
    case False
    then have ge: "\<not> unat ?d < unat ?f" and dd: "unat (?d - ?f) = unat ?d - unat ?f" by (simp_all add: word_less_nat_alt unat_sub word_le_nat_alt)
    have "unat (?d - ?f) < unat (?m - ?f) \<longleftrightarrow> ?d < ?m"
      using ge assms(2) unfolding dd sub by (auto simp: word_less_nat_alt word_le_nat_alt)
    then show ?thesis using False ge assms(1) by (simp add: d mem_put_at [OF len(1)] mem_put_at [OF len(2)] covers_def segment_byte_def)
  qed
qed

lemma segment_does:
  assumes rd: "reads_as E I nd c L" and sg: "segment_ok L W ph" and mem: "umem E I W k M" and ty: "ph_type ph = 1"
  shows "does E I W (sbind (node_reader E nd (ph_offset ph) (ph_filesz ph)) (\<lambda>(cnt, bytes).
      sbind (store_bytes E (ph_vaddr ph) bytes) (\<lambda>_.
      store_bytes E (ph_vaddr ph + ph_filesz ph) (replicate (copy_count (ph_memsz ph - ph_filesz ph)) 0)))) k ()
      (\<lambda>va. if covers ph va then segment_byte c ph va else M va)"
proof -
  let ?f = "ph_filesz ph" and ?m = "ph_memsz ph"
  have s: "unat (ph_offset ph) + unat ?f \<le> L" "?f \<le> ?m" "unat (?m - ?f) < 2 ^ 31" "within W (ph_vaddr ph) (unat ?m)"
    using sg ty by (simp_all add: segment_ok_def)
  have sub: "unat ?f + unat (?m - ?f) = unat ?m" using s(2) by (simp add: unat_sub word_le_nat_alt)
  have cnt: "copy_count (?m - ?f) = unat (?m - ?f)"
  proof -
    have "int (unat (?m - ?f)) < int (2 ^ 31)" using s(3) by (simp only: of_nat_less_iff)
    then have "uint (?m - ?f) < 2 ^ 31" by simp
    moreover have "sint (?m - ?f) = signed_take_bit 31 (uint (?m - ?f))" by (simp add: sint_uint)
    moreover have "- (2 ^ 31) \<le> uint (?m - ?f)" by (rule order_trans [OF _ uint_ge_0]) simp
    ultimately have "sint (?m - ?f) = uint (?m - ?f)" using signed_take_bit_int_eq_self by metis
    then show ?thesis by (simp only: copy_count_def unat_eq_nat_uint)
  qed
  have w1: "within W (ph_vaddr ph) (unat ?f)" using within_mono [OF s(4), of "unat ?f"] sub by simp
  have w2: "within W (ph_vaddr ph + ?f) (unat (?m - ?f))" using within_add [of W "ph_vaddr ph" "unat ?f" "unat (?m - ?f)"] s(4) sub by simp
  show ?thesis
    unfolding segment_put [OF ty s(2), symmetric] cnt
    by (rule does_bind [OF node_reader_does [OF rd s(1) mem]], simp only: prod.case, rule does_bind [OF store_bytes_does], assumption)
      (use w1 w2 in \<open>auto intro!: store_bytes_does\<close>)
qed

lemma segments_does:
  assumes rd: "reads_as E I nd c L"
    and ok: "\<And>j. i \<le> j \<Longrightarrow> j < i + n \<Longrightarrow> unat (header_at h j) + 32 \<le> L \<and> segment_ok L W (segment_of c h j)"
    and mem: "umem E I W k M"
  shows "does E I W (elf_segments E nd (header_at h i) (ucast (e_phentsize h)) n) k () (image c (map (segment_of c h) [i..<i + n]) M)"
  using ok mem
proof (induction n arbitrary: i k M)
  case 0
  then show ?case by (simp add: image_Nil does_ret)
next
  case (Suc n)
  let ?ph = "segment_of c h i"
  let ?N = "\<lambda>va. if covers ?ph va then segment_byte c ?ph va else M va"
  have i: "unat (header_at h i) + unat (32 :: u32) \<le> L" "segment_ok L W ?ph" using Suc.prems(1) [of i] by simp_all
  have nxt: "header_at h i + ucast (e_phentsize h) = header_at h (Suc i)" by (simp add: header_at_def algebra_simps)
  have IH: "does E I W (elf_segments E nd (header_at h i + ucast (e_phentsize h)) (ucast (e_phentsize h)) n) k' ()
      (image c (map (segment_of c h) [Suc i..<Suc i + n]) ?N)" if "umem E I W k' ?N" for k'
    unfolding nxt using Suc.IH [of "Suc i", OF _ that] Suc.prems(1) by simp
  have ups: "[i..<i + Suc n] = i # [Suc i..<Suc i + n]" by (simp add: upt_conv_Cons)
  have ph: "parse_program_header (chunk c (unat (header_at h i)) (unat (32 :: u32))) = ?ph" by (simp add: segment_of_def)
  have body: "does E I W (if ph_type ?ph = 1 then
          sbind (node_reader E nd (ph_offset ?ph) (ph_filesz ?ph)) (\<lambda>(cnt, bytes).
          sbind (store_bytes E (ph_vaddr ?ph) bytes) (\<lambda>_.
          store_bytes E (ph_vaddr ?ph + ph_filesz ?ph) (replicate (copy_count (ph_memsz ?ph - ph_filesz ?ph)) 0)))
        else ret ()) k' () ?N" if "umem E I W k' M" for k'
  proof (cases "ph_type ?ph = 1")
    case True
    then show ?thesis using segment_does [OF rd i(2) that True] by simp
  next
    case False
    then have "?N = M" by (auto simp: covers_def)
    then show ?thesis using False does_ret [OF that] by simp
  qed
  show ?case
    unfolding elf_segments.simps ups list.map image_Cons Let_def
    by (rule does_bind [OF thing_does [OF rd i(1) Suc.prems(2)]], unfold ph, rule does_bind [OF body], assumption) (rule IH)
qed

lemma elf_load_does:
  assumes rd: "reads_as E I nd c L" and ok: "program_ok c L W" and mem: "umem E I W k M"
  shows "does E I W (elf_load E nd) k (e_entry (header_of c)) (image c (segments_of c) M)"
proof -
  let ?h = "header_of c"
  have L: "unat (0 :: u32) + unat (52 :: u32) \<le> L" using ok by (simp add: program_ok_def)
  have h: "parse_elf_header (chunk c (unat (0 :: u32)) (unat (52 :: u32))) = ?h" by (simp add: header_of_def)
  have h0: "e_phoff ?h = header_at ?h 0" by (simp add: header_at_def)
  have S: "does E I W (elf_segments E nd (header_at ?h 0) (ucast (e_phentsize ?h)) (unat (e_phnum ?h))) k' ()
      (image c (map (segment_of c ?h) [0..<0 + unat (e_phnum ?h)]) M)" if "umem E I W k' M" for k'
    by (rule segments_does [OF rd _ that]) (use ok in \<open>auto simp: program_ok_def\<close>)
  show ?thesis
    unfolding elf_load_def Let_def segments_of_def
    by (rule does_bind [OF thing_does [OF rd L mem]], unfold h h0, rule does_bind [OF S [unfolded add_0]], assumption) (rule does_ret)
qed

section \<open>Property\<close>

text \<open>What holds of the disk: it follows the protocol and is idle.\<close>

definition drive_ok :: "'d pio \<Rightarrow> u32 \<Rightarrow> (nat \<Rightarrow> u8) \<Rightarrow> ('d \<Rightarrow> bool) \<Rightarrow> (nat \<Rightarrow> nat \<Rightarrow> 'd \<Rightarrow> bool) \<Rightarrow> nat \<Rightarrow> 'd ide_st \<Rightarrow> bool" where
  "drive_ok P drive D idle transfer polls s \<longleftrightarrow> ata_drive P drive D idle transfer \<and> 0 < polls \<and> idle (dev s)"

lemma drive_reads:
  assumes "reader E = ide_read_all polls P drive" and "node_ok D ide_size_in_bytes nd"
  shows "reads_as E (drive_ok P drive D idle transfer polls) nd (node_byte D nd) (unat (size_low (data nd)))"
  unfolding reads_as_def
proof (intro conjI allI impI)
  show "unat (size_low (data nd)) < 2 ^ 32" using unsigned_less [of "size_low (data nd)", where 'a = nat] by simp
  fix offset n :: u32
  assume "unat offset \<le> unat (size_low (data nd))"
  from ide_disk.node_read_all_cut [OF assms(2) this refl, of P drive idle transfer polls n]
  show "gives (drive_ok P drive D idle transfer polls) (node_read_all (reader E) nd offset n)
      (int (min (unat n) (unat (size_low (data nd)) - unat offset)),
       chunk (node_byte D nd) (unat offset) (min (unat n) (unat (size_low (data nd)) - unat offset)))"
    by (auto simp: assms(1) gives_def drive_ok_def)
qed

text \<open>
  C35. Loading a program whose headers and segments lie in its file and in pages of its process succeeds
  when there are two free frames for each of these pages that is not mapped yet. It returns the entry point of
  the header; afterwards the memory of the process is the image of the program: every address a
  loaded segment covers holds the byte of the file, or zero after the part of the segment that is in the file,
  the last segment counts where several overlap, and every other byte is as it was. Nothing but the frames and the
  disk changes.
\<close>

theorem elf_load_correct:
  assumes "umem E (drive_ok P drive D idle transfer polls) W k M"
    and "reader E = ide_read_all polls P drive" and "node_ok D ide_size_in_bytes nd"
    and "program_ok (node_byte D nd) (unat (size_low (data nd))) W"
  shows "\<exists>k'. elf_load E nd k = Inr (e_entry (header_of (node_byte D nd)), k') \<and> same_rest k k' \<and>
    umem E (drive_ok P drive D idle transfer polls) W k' (image (node_byte D nd) (segments_of (node_byte D nd)) M)"
  using elf_load_does [OF drive_reads [OF assms(2,3)] assms(4,1)] by (simp add: does_def)

text \<open>A program of one segment, with the bytes 7, 8, 9 at \<open>0x80001000\<close> and two zeros after them.\<close>

definition elf_bytes :: "u8 list" where
  "elf_bytes = [0x7F, 69, 76, 70, 1, 1, 1, 0, 0, 0, 0, 0, 0, 0, 0, 0, 2, 0, 3, 0, 1, 0, 0, 0,
     0, 0x10, 0, 0x80, 52, 0, 0, 0, 0, 0, 0, 0, 0, 0, 0, 0, 52, 0, 32, 0, 1, 0, 0, 0, 0, 0, 0, 0,
     1, 0, 0, 0, 84, 0, 0, 0, 0, 0x10, 0, 0x80, 0, 0, 0, 0, 3, 0, 0, 0, 5, 0, 0, 0, 5, 0, 0, 0, 0, 0, 0, 0,
     7, 8, 9]"

definition elf_disk :: "nat \<Rightarrow> u8" where
  "elf_disk i = (if 2048 \<le> i \<and> i < 2135 then elf_bytes ! (i - 2048) else 0)"

definition elf_node :: node where
  "elf_node = node_new 12 1024 \<lparr>mode = 0x81ED, uid = 0, size_low = 87, atime = 0, ctime = 0, mtime = 0, dtime = 0,
     gid = 0, n_links = 1, n_sectors = 2, flags = 0, os1 = 0, direct = 2 # replicate 11 0,
     indirect_1 = 0, indirect_2 = 0, indirect_3 = 0, gen = 0, fragment = 0\<rparr>"

lemma elf_node_ok: "node_ok elf_disk ide_size_in_bytes elf_node"
proof -
  have sz: "unat ide_size_in_bytes = 2 ^ 32 - 1"
    by (simp add: ide_size_in_bytes_def unsigned_minus_1_eq_mask mask_eq_exp_minus_1)
  have b: "unat b * unat (block_size elf_node) < unat (size_low (data elf_node)) \<longleftrightarrow> b = 0" for b
    using unat_gt_0 [of b] by (cases "b = 0") (auto simp: elf_node_def node_new_def)
  show ?thesis unfolding node_ok_def b by (simp add: elf_node_def node_new_def node_block_def sz)
qed

lemma elf_node_chunk: "i + n \<le> 87 \<Longrightarrow> chunk (node_byte elf_disk elf_node) i n = chunk ((!) elf_bytes) i n"
  by (rule chunk_cong) (simp add: node_byte_def node_block_def elf_node_def node_new_def elf_disk_def)

lemma elf_parts:
  "header_of (node_byte elf_disk elf_node) = \<lparr>e_magic = [0x7F, 69, 76, 70], e_entry = 0x80001000, e_phoff = 52, e_phentsize = 32, e_phnum = 1\<rparr>"
  "segments_of (node_byte elf_disk elf_node) = [\<lparr>ph_type = 1, ph_offset = 84, ph_vaddr = 0x80001000, ph_filesz = 3, ph_memsz = 5\<rparr>]"
proof -
  let ?c = "node_byte elf_disk elf_node"
  have c1: "chunk ?c 0 52 = take 52 elf_bytes"
    using elf_node_chunk [of 0 52] by (simp add: chunk_def elf_bytes_def upt_rec)
  have c2: "chunk ?c 52 32 = take 32 (drop 52 elf_bytes)"
    using elf_node_chunk [of 52 32] by (simp add: chunk_def elf_bytes_def upt_rec)
  show h: "header_of ?c = \<lparr>e_magic = [0x7F, 69, 76, 70], e_entry = 0x80001000, e_phoff = 52, e_phentsize = 32, e_phnum = 1\<rparr>"
    unfolding header_of_def c1 by (simp add: parse_elf_header_def elf_bytes_def le32_def le32_at_def le16_def)
  show "segments_of ?c = [\<lparr>ph_type = 1, ph_offset = 84, ph_vaddr = 0x80001000, ph_filesz = 3, ph_memsz = 5\<rparr>]"
    unfolding segments_of_def h
    by (simp add: segment_of_def header_at_def c2 parse_program_header_def elf_bytes_def le32_def le32_at_def)
qed

lemma elf_program_ok: "program_ok (node_byte elf_disk elf_node) 87 {0x80001000}"
proof -
  have w: "within {0x80001000} 0x80001000 5"
    unfolding within_def by (simp add: frame_def All_less_Suc eval_nat_numeral)
  have sg: "segment_of (node_byte elf_disk elf_node) (header_of (node_byte elf_disk elf_node)) 0 =
      \<lparr>ph_type = 1, ph_offset = 84, ph_vaddr = 0x80001000, ph_filesz = 3, ph_memsz = 5\<rparr>"
    using elf_parts(2) unfolding segments_of_def Let_def elf_parts(1) by simp
  show ?thesis unfolding program_ok_def elf_parts(1) using sg [unfolded elf_parts(1)] w
    by (simp add: header_at_def segment_ok_def)
qed

text \<open>A process with an empty address space.\<close>

definition sample_process :: process where
  "sample_process = \<lparr>files = replicate 10 None, sems = replicate 10 None, children = replicate 10 None, p_output = 0, pd = 0x100000\<rparr>"

definition sample_env :: "(nat \<Rightarrow> u8) \<Rightarrow> sim env \<Rightarrow> sim env" where
  "sample_env D E = E\<lparr>config := small_config, reader := ide_read_all 1 (sim_pio D) 0\<rparr>"

definition sample_kernel :: "sim kernel \<Rightarrow> sim kernel" where
  "sample_kernel k = k\<lparr>io := sample_state, phys := small_pm, procs := \<lambda>_. sample_process\<rparr>"

lemma sample_umem:
  assumes "\<forall>p \<in> W. user_page small_config p" and "card W \<le> 2"
  shows "umem (sample_env D E) (drive_ok (sim_pio D) 0 D (\<lambda>d. sim_pos d = None)
      (\<lambda>n k d. if k = 128 then sim_pos d = None else sim_pos d = Some (n, k)) 1) W (sample_kernel k) (\<lambda>_. 0)"
proof -
  have d: "cur_pd (sample_env D E) (sample_kernel k) = 0x100000"
    by (simp add: cur_pd_def sample_kernel_def sample_process_def)
  have "card {0x101000, 0x102000, 0x103000, 0x104000 :: u32} \<le> card (pm_free small_pm)"
    using small_pm_free by (intro card_mono) auto
  then have four: "4 \<le> card (pm_free small_pm)" by simp
  show ?thesis
    unfolding umem_def d using assms four small_pd(2) small_private [of small_config] sim_drive [of D]
    by (simp add: sample_env_def sample_kernel_def room_def user_byte_def drive_ok_def sample_state_def)
qed

theorem elf_load_correct_witness:
  "\<forall>E k. \<exists>k'. elf_load (sample_env elf_disk E) elf_node (sample_kernel k) = Inr (0x80001000, k') \<and>
     map (user_byte (phys k') (cur_pd (sample_env elf_disk E) k')) [0x80001000, 0x80001001, 0x80001002, 0x80001003, 0x80001004] = [7, 8, 9, 0, 0]"
proof (intro allI)
  fix E :: "sim env" and k :: "sim kernel"
  let ?E = "sample_env elf_disk E"
  have rd: "reader ?E = ide_read_all 1 (sim_pio elf_disk) 0" by (simp add: sample_env_def)
  have sz: "unat (size_low (data elf_node)) = 87" by (simp add: elf_node_def node_new_def)
  have up: "\<forall>p \<in> {0x80001000}. user_page small_config p"
    by (simp add: user_page_def pm_offset_def is_special_def small_config_def)
  have cd: "card {0x80001000 :: u32} \<le> 2" by simp
  have cf: "config ?E = small_config" by (simp add: sample_env_def)
  from elf_load_correct [OF sample_umem [OF up cd, of elf_disk E k] rd elf_node_ok, unfolded sz, OF elf_program_ok]
  obtain k' where ld: "elf_load ?E elf_node (sample_kernel k) = Inr (e_entry (header_of (node_byte elf_disk elf_node)), k')"
    and um: "umem ?E (drive_ok (sim_pio elf_disk) 0 elf_disk (\<lambda>d. sim_pos d = None)
      (\<lambda>n k d. if k = 128 then sim_pos d = None else sim_pos d = Some (n, k)) 1) {0x80001000} k'
      (image (node_byte elf_disk elf_node) (segments_of (node_byte elf_disk elf_node)) (\<lambda>_. 0))" by blast
  have ld': "elf_load ?E elf_node (sample_kernel k) = Inr (0x80001000, k')" using ld unfolding elf_parts(1) by simp
  have view: "user_byte (phys k') (cur_pd ?E k') va = image (node_byte elf_disk elf_node) (segments_of (node_byte elf_disk elf_node)) (\<lambda>_. 0) va"
    if "user_page small_config (frame va)" for va
    using um that unfolding umem_def cf by blast
  have im: "image (node_byte elf_disk elf_node) (segments_of (node_byte elf_disk elf_node)) (\<lambda>_. 0) va =
      (if va - 0x80001000 < 3 then elf_bytes ! (84 + unat (va - 0x80001000)) else 0)" for va
  proof -
    let ?d = "va - 0x80001000"
    have "node_byte elf_disk elf_node (84 + unat ?d) = elf_bytes ! (84 + unat ?d)" if "?d < 3"
    proof -
      have "unat ?d < 3" using that by (simp add: word_less_nat_alt)
      then show ?thesis using elf_node_chunk [of "84 + unat ?d" 1] by (simp add: chunk_def)
    qed
    moreover have "?d < 3 \<Longrightarrow> ?d < 5" unfolding word_less_nat_alt by simp
    ultimately show ?thesis
      by (simp add: elf_parts(2) image_Cons image_Nil covers_def segment_byte_def)
  qed
  have "user_page small_config (frame 0x80001000)" "user_page small_config (frame 0x80001001)" "user_page small_config (frame 0x80001002)"
    "user_page small_config (frame 0x80001003)" "user_page small_config (frame 0x80001004)"
    by (simp_all add: frame_def user_page_def pm_offset_def is_special_def small_config_def)
  note at = this [THEN view, unfolded im]
  have "map (user_byte (phys k') (cur_pd ?E k')) [0x80001000, 0x80001001, 0x80001002, 0x80001003, 0x80001004] = [7, 8, 9, 0, 0]"
    unfolding list.map at by (simp add: elf_bytes_def)
  then show "\<exists>k'. elf_load ?E elf_node (sample_kernel k) = Inr (0x80001000, k') \<and>
     map (user_byte (phys k') (cur_pd ?E k')) [0x80001000, 0x80001001, 0x80001002, 0x80001003, 0x80001004] = [7, 8, 9, 0, 0]"
    using ld' by (intro exI [of _ k'] conjI)
qed

end
