(* ===== verification/Sys_Props.thy ===== *)
theory Sys_Props
  imports Elf_Props Process_Props Files_Props
begin

text \<open>System calls: which are refused, what \<^verbatim>\<open>read\<close> leaves in the memory of the caller.\<close>

section \<open>Arguments\<close>

definition call_arg :: "(u32 \<Rightarrow> u8) \<Rightarrow> u32 \<Rightarrow> u32 \<Rightarrow> u32" where
  "call_arg M userEsp i = mem_word M (userEsp + 4 * i)"

definition args_within :: "u32 set \<Rightarrow> u32 \<Rightarrow> bool" where
  "args_within W userEsp \<longleftrightarrow> within W (userEsp + 4) 4 \<and> within W (userEsp + 8) 4 \<and> within W (userEsp + 12) 4"

lemma arg_does:
  assumes "args_within W userEsp" and "i \<in> {1, 2, 3}" and "umem E I W k M"
  shows "does E I W (arg E userEsp i) k (call_arg M userEsp i) M"
proof -
  have "within W (userEsp + 4 * i) 4" using assms(1,2) by (auto simp: args_within_def)
  then show ?thesis unfolding arg_def call_arg_def by (rule load32_does [OF assms(3)])
qed

text \<open>Steps of a call that began in \<open>k0\<close>, in the process \<open>x\<close>.\<close>

lemma arg_step:
  assumes "same_rest k0 k" and "umem E I W k M" and "args_within W userEsp" and "i \<in> {1, 2, 3}"
    and "\<And>k'. same_rest k0 k' \<Longrightarrow> umem E I W k' M \<Longrightarrow> does E I W (f (call_arg M userEsp i)) k' y N"
  shows "does E I W (sbind (arg E userEsp i) f) k y N"
  by (rule does_bind [OF arg_does [OF assms(3,4,2)]]) (rule assms(5) [OF same_rest_trans [OF assms(1)]])

lemma proc_at: "same_rest k0 k \<Longrightarrow> procs k (cur_proc E k) = procs k0 (cur_proc E k0)"
  using same_rest_fields [of k0 k] by simp

lemma proc_step:
  assumes "same_rest k0 k" and "does E I W (f (procs k0 (cur_proc E k0))) k y N"
  shows "does E I W (sbind (this_proc E) f) k y N"
  using assms(2) proc_at [OF assms(1), of E] by (simp add: does_def this_proc_def sbind_def)

text \<open>A step that uses the state it is run in.\<close>

lemma does_here: "does E I W (f k) k y N \<Longrightarrow> does E I W (\<lambda>k. f k k) k y N"
  by (simp add: does_def)

section \<open>Calls that are refused\<close>

text \<open>The calls that name what the process does not have, or memory of the kernel.\<close>

definition refused :: "process \<Rightarrow> (u32 \<Rightarrow> u32) \<Rightarrow> u32 \<Rightarrow> bool" where
  "refused x a eax \<longleftrightarrow>
     eax = 1 \<and> (sint (a 1) < 0 \<or> 2 < sint (a 1) \<or> a 2 < 0x80000000 \<or> getFile x (a 1) = None) \<or>
     (eax = 4 \<or> eax = 5) \<and> getSemaphore x (a 1) = None \<or>
     eax = 6 \<and> opened x (a 1) = None \<or>
     eax = 8 \<and> unat (a 1 AND 0x0FFFFFFF) < 10 \<and>
       (children x ! unat (a 1 AND 0x0FFFFFFF) = None \<or> a 2 < 0x80000000 \<or> getChildIndex (a 1) = None) \<or>
     (eax = 9 \<or> eax = 10) \<and> a 1 < 0x80000000 \<or>
     eax = 11 \<and> getFile x (a 1) = None \<and> a 1 \<notin> {0, 1, 2} \<or>
     eax = 12 \<and> (a 2 < 0x80000000 \<or> getFile x (a 1) = None) \<or>
     eax = 13 \<and> getFile x (a 1) = None \<or>
     14 \<le> eax"


lemma low_calls:
  "\<not> (14 :: u32) \<le> 0" "\<not> (14 :: u32) \<le> 1" "\<not> (14 :: u32) \<le> 2" "\<not> (14 :: u32) \<le> 3" "\<not> (14 :: u32) \<le> 4" "\<not> (14 :: u32) \<le> 5"
    "\<not> (14 :: u32) \<le> 6" "\<not> (14 :: u32) \<le> 7" "\<not> (14 :: u32) \<le> 8" "\<not> (14 :: u32) \<le> 9" "\<not> (14 :: u32) \<le> 10" "\<not> (14 :: u32) \<le> 11"
    "\<not> (14 :: u32) \<le> 12" "\<not> (14 :: u32) \<le> 13"
  by (simp_all add: word_le_nat_alt)

lemma refused_calls:
  "refused x a 1 \<longleftrightarrow> sint (a 1) < 0 \<or> 2 < sint (a 1) \<or> a 2 < 0x80000000 \<or> getFile x (a 1) = None"
  "refused x a 4 \<longleftrightarrow> getSemaphore x (a 1) = None"
  "refused x a 5 \<longleftrightarrow> getSemaphore x (a 1) = None"
  "refused x a 6 \<longleftrightarrow> opened x (a 1) = None"
  "refused x a 8 \<longleftrightarrow> unat (a 1 AND 0x0FFFFFFF) < 10 \<and>
       (children x ! unat (a 1 AND 0x0FFFFFFF) = None \<or> a 2 < 0x80000000 \<or> getChildIndex (a 1) = None)"
  "refused x a 9 \<longleftrightarrow> a 1 < 0x80000000"
  "refused x a 10 \<longleftrightarrow> a 1 < 0x80000000"
  "refused x a 11 \<longleftrightarrow> getFile x (a 1) = None \<and> a 1 \<notin> {0, 1, 2}"
  "refused x a 12 \<longleftrightarrow> a 2 < 0x80000000 \<or> getFile x (a 1) = None"
  "refused x a 13 \<longleftrightarrow> getFile x (a 1) = None"
  "\<not> refused x a 0" "\<not> refused x a 2" "\<not> refused x a 3" "\<not> refused x a 7"
  by (simp_all add: refused_def low_calls)

lemma refused_write:
  assumes args: "args_within W userEsp" and mem: "umem E I W k M"
    and r: "refused (procs k (cur_proc E k)) (call_arg M userEsp) 1"
  shows "does E I W (sys_write E userEsp) k (Returns (-1)) M"
  unfolding sys_write_def
  apply (rule arg_step [OF same_rest_refl mem args], simp)
  apply (rule arg_step [OF _ _ args], assumption, assumption, simp)
  apply (rule arg_step [OF _ _ args], assumption, assumption, simp)
  using r by (auto simp: refused_calls intro!: proc_step [of k] does_ret)

lemma refused_up:
  assumes args: "args_within W userEsp" and mem: "umem E I W k M"
    and r: "refused (procs k (cur_proc E k)) (call_arg M userEsp) 4"
  shows "does E I W (sys_up E userEsp) k (Returns (-1)) M"
  unfolding sys_up_def
  apply (rule proc_step [OF same_rest_refl])
  apply (rule arg_step [OF same_rest_refl mem args], simp)
  using r by (auto simp: refused_calls intro!: does_ret)

lemma refused_down:
  assumes args: "args_within W userEsp" and mem: "umem E I W k M"
    and r: "refused (procs k (cur_proc E k)) (call_arg M userEsp) 5"
  shows "does E I W (sys_down E userEsp) k (Returns (-1)) M"
  unfolding sys_down_def
  apply (rule proc_step [OF same_rest_refl])
  apply (rule arg_step [OF same_rest_refl mem args], simp)
  using r by (auto simp: refused_calls intro!: does_ret)

lemma close_refused: "opened x d = None \<Longrightarrow> close d x = (x, -1)"
  by (auto simp: opened_def close_def split: option.splits)

lemma put_same: "does E I W m k y N \<Longrightarrow> does E I W (sbind (put_proc E (procs k (cur_proc E k))) (\<lambda>_. m)) k y N"
proof -
  have "k\<lparr>procs := (procs k)(cur_proc E k := procs k (cur_proc E k))\<rparr> = k" by (simp add: fun_upd_idem)
  then show "does E I W m k y N \<Longrightarrow> does E I W (sbind (put_proc E (procs k (cur_proc E k))) (\<lambda>_. m)) k y N"
    by (simp add: does_def put_proc_def set_proc_def sbind_def)
qed

lemma refused_close:
  assumes args: "args_within W userEsp" and mem: "umem E I W k M"
    and r: "refused (procs k (cur_proc E k)) (call_arg M userEsp) 6"
  shows "does E I W (sys_close E userEsp) k (Returns (-1)) M"
  unfolding sys_close_def
  apply (rule arg_step [OF same_rest_refl mem args], simp)
  apply (rule proc_step, assumption)
  subgoal for k1
    using r put_same [OF does_ret, of E I W k1 M "Returns (-1)"] proc_at [of k k1 E]
    by (simp add: refused_calls close_refused)
  done

lemma refused_wait:
  fixes k :: "'a kernel"
  assumes args: "args_within W userEsp" and mem: "umem E I W k M"
    and r: "refused (procs k (cur_proc E k)) (call_arg M userEsp) 8"
  shows "does E I W (sys_wait E userEsp) k (Returns (-1)) M"
proof -
  let ?a = "call_arg M userEsp" and ?x = "procs k (cur_proc E k)"
  have n: "unat (?a 1 AND 0x0FFFFFFF) < 10" using r by (simp add: refused_calls)
  have waits: "does E I W (\<lambda>k. sbind (wait (core_id E) (cur_proc E k) (?a 1)) g k) k2 (Returns (-1)) M"
    if "umem E I W k2 M" "getChildIndex (?a 1) = None" "g WaitFails = ret (Returns (-1))" for k2 and g :: "wait_result \<Rightarrow> ('a kernel, outcome) st"
    using does_ret [OF that(1), of "Returns (-1)"] that(2,3) by (simp add: does_def wait_def get_proc_def sbind_def ret_def)
  show ?thesis
    unfolding sys_wait_def Let_def
    apply (rule proc_step [OF same_rest_refl])
    apply (rule arg_step [OF same_rest_refl mem args], simp)
    subgoal for k1
    proof (cases "children ?x ! unat (?a 1 AND 0x0FFFFFFF) = None")
      case True
      assume "umem E I W k1 M"
      then show ?thesis using True n by (simp add: NCHILD_def does_ret)
    next
      case False
      assume k1: "same_rest k k1" "umem E I W k1 M"
      then show ?thesis using False n r
        by (auto simp: NCHILD_def refused_calls intro!: arg_step [OF k1 args] does_ret waits)
    qed
    done
qed

lemma refused_execl:
  assumes args: "args_within W userEsp" and mem: "umem E I W k M" and r: "refused (procs k (cur_proc E k)) (call_arg M userEsp) 9"
  shows "does E I W (sys_execl E userEsp) k (Returns (-1)) M"
  unfolding sys_execl_def
  apply (rule arg_step [OF same_rest_refl mem args], simp)
  using r by (simp add: refused_calls does_ret)

lemma refused_open:
  assumes args: "args_within W userEsp" and mem: "umem E I W k M" and r: "refused (procs k (cur_proc E k)) (call_arg M userEsp) 10"
  shows "does E I W (sys_open E userEsp) k (Returns (-1)) M"
  unfolding sys_open_def
  apply (rule arg_step [OF same_rest_refl mem args], simp)
  using r by (simp add: refused_calls does_ret)

lemma refused_len:
  assumes args: "args_within W userEsp" and mem: "umem E I W k M" and r: "refused (procs k (cur_proc E k)) (call_arg M userEsp) 11"
  shows "does E I W (sys_len E userEsp) k (Returns (-1)) M"
  unfolding sys_len_def
  apply (rule proc_step [OF same_rest_refl])
  apply (rule arg_step [OF same_rest_refl mem args], simp)
  using r by (simp add: refused_calls does_ret)

lemma refused_read:
  assumes args: "args_within W userEsp" and mem: "umem E I W k M" and r: "refused (procs k (cur_proc E k)) (call_arg M userEsp) 12"
  shows "does E I W (sys_read E userEsp) k (Returns (-1)) M"
  unfolding sys_read_def
  apply (rule proc_step [OF same_rest_refl])
  apply (rule arg_step [OF same_rest_refl mem args], simp)
  subgoal for k1
    apply (cases "call_arg M userEsp 2 < 0x80000000")
     apply (simp add: does_ret)
    apply (simp only: if_False)
    apply (rule arg_step [of k k1, OF _ _ args], assumption, assumption, simp)
    using r by (simp add: refused_calls standard_refused_def does_def ret_def)
  done

lemma refused_seek:
  assumes args: "args_within W userEsp" and mem: "umem E I W k M" and r: "refused (procs k (cur_proc E k)) (call_arg M userEsp) 13"
  shows "does E I W (sys_seek E userEsp) k (Returns (-1)) M"
  unfolding sys_seek_def
  apply (rule proc_step [OF same_rest_refl])
  apply (rule arg_step [OF same_rest_refl mem args], simp)
  using r by (simp add: refused_calls standard_refused_def does_ret)

lemma refused_does:
  assumes "args_within W userEsp" and "umem E I W k M" and r: "refused (procs k (cur_proc E k)) (call_arg M userEsp) eax"
  shows "does E I W (sysHandler E eax userPC userEsp) k (Returns (-1)) M"
proof -
  note rest = refused_write [OF assms(1,2)] refused_up [OF assms(1,2)] refused_down [OF assms(1,2)] refused_close [OF assms(1,2)]
    refused_wait [OF assms(1,2)] refused_execl [OF assms(1,2)] refused_open [OF assms(1,2)] refused_len [OF assms(1,2)]
    refused_read [OF assms(1,2)] refused_seek [OF assms(1,2)]
  have "eax \<in> {1, 4, 5, 6, 8, 9, 10, 11, 12, 13} \<or> 14 \<le> eax" using r unfolding refused_def by blast
  then consider "eax = 1" | "eax = 4" | "eax = 5" | "eax = 6" | "eax = 8" | "eax = 9" | "eax = 10" | "eax = 11" | "eax = 12" | "eax = 13" | "14 \<le> eax"
    by blast
  then show ?thesis
  proof cases
    case 11
    then have "eax \<noteq> 0" "eax \<noteq> 1" "eax \<noteq> 2" "eax \<noteq> 3" "eax \<noteq> 4" "eax \<noteq> 5" "eax \<noteq> 6" "eax \<noteq> 7" "eax \<noteq> 8" "eax \<noteq> 9" "eax \<noteq> 10"
      "eax \<noteq> 11" "eax \<noteq> 12" "eax \<noteq> 13" using low_calls by metis+
    then show ?thesis unfolding sysHandler_def by (simp add: does_ret [OF assms(2)])
  qed (use r rest in \<open>simp_all add: sysHandler_def\<close>)
qed

section \<open>Properties\<close>



text \<open>
  C38. \<^verbatim>\<open>read\<close> of a descriptor that is an open file puts the next bytes of the file at the buffer, as many as were asked for
  until its end, returns their number and moves the position past them; every other byte of memory, every
  other file and every descriptor is as before.
\<close>

theorem sys_read_correct:
  fixes k :: "'d kernel" and M userEsp
  defines "fd \<equiv> call_arg M userEsp 1" and "buf \<equiv> call_arg M userEsp 2" and "n \<equiv> call_arg M userEsp 3"
  assumes mem: "umem E (drive_ok P drive D idle transfer polls) W k M" and args: "args_within W userEsp"
    and rd: "reader E = ide_read_all polls P drive" and nd: "node_ok D ide_size_in_bytes nd"
    and f: "getFile (procs k (cur_proc E k)) fd = Some f" "file_objs k f = ShobhitFile nd pos"
    and xs: "xs = take (unat n) (drop (unat pos) (file_content D nd))"
    and buf: "0x80000000 \<le> buf" "within W buf (length xs)"
  shows "\<exists>k' pos'. sysHandler E 12 userPC userEsp k = Inr (Returns (of_nat (length xs)), k') \<and>
    umem E (drive_ok P drive D idle transfer polls) W k' (mem_put M buf xs) \<and>
    k' = k\<lparr>io := io k', phys := phys k', file_objs := (file_objs k)(f := ShobhitFile nd pos')\<rparr> \<and>
    drop (unat pos') (file_content D nd) = drop (unat n) (drop (unat pos) (file_content D nd))"
proof -
  let ?I = "drive_ok P drive D idle transfer polls"
  obtain k1 where k1: "arg E userEsp 2 k = Inr (buf, k1)" "same_rest k k1" "umem E ?I W k1 M"
    using arg_does [OF args _ mem, of 2] unfolding does_def buf_def by auto
  obtain k2 where k2: "arg E userEsp 1 k1 = Inr (fd, k2)" "same_rest k1 k2" "umem E ?I W k2 M"
    using arg_does [OF args _ k1(3), of 1] unfolding does_def fd_def by auto
  obtain k3 where k3: "arg E userEsp 3 k2 = Inr (n, k3)" "same_rest k2 k3" "umem E ?I W k3 M"
    using arg_does [OF args _ k2(3), of 3] unfolding does_def n_def by auto
  have sr2: "same_rest k k2" using same_rest_trans k1(2) k2(2) by blast
  have sr3: "same_rest k k3" using same_rest_trans sr2 k3(2) by blast
  note F2 = same_rest_fields [OF sr2] and F3 = same_rest_fields [OF sr3]
  have "gives ?I (node_read_all (reader E) nd offset m)
      (int (min (unat m) (unat (size_low (data nd)) - unat offset)),
       chunk (node_byte D nd) (unat offset) (min (unat m) (unat (size_low (data nd)) - unat offset)))"
    if "unat offset \<le> unat (size_low (data nd))" for offset m
    using drive_reads [OF rd nd, of idle transfer] that unfolding reads_as_def by blast
  from file_read_piece [OF this, where n = n and k = pos and polls = "bound E" and P = "ports E"] obtain pos' where
    g: "gives ?I (file_read (bound E) (ports E) (reader E) n (ShobhitFile nd pos)) (ShobhitFile nd pos', of_nat (length xs), xs)"
    and pos': "drop (unat pos') (file_content D nd) = drop (unat n) (drop (unat pos) (file_content D nd))"
    unfolding xs by blast
  obtain k4 where k4: "on_io (file_read (bound E) (ports E) (reader E) n (ShobhitFile nd pos)) k3 = Inr ((ShobhitFile nd pos', of_nat (length xs), xs), k4)"
    "same_rest k3 k4" "umem E ?I W k4 M"
    using on_io_does [OF g k3(3)] unfolding does_def by blast
  let ?k = "k4\<lparr>file_objs := (file_objs k4)(f := ShobhitFile nd pos')\<rparr>"
  have "cur_pd E ?k = cur_pd E k4" by (simp add: cur_pd_def cur_proc_def)
  then have "umem E ?I W ?k M" using k4(3) by (simp add: umem_def)
  from store_bytes_does [OF this buf(2)] obtain k5 where k5: "store_bytes E buf xs ?k = Inr ((), k5)" "same_rest ?k k5" "umem E ?I W k5 (mem_put M buf xs)"
    unfolding does_def by blast
  have sr4: "same_rest k k4" using same_rest_trans sr3 k4(2) by blast
  have "k5 = ?k\<lparr>io := io k5, phys := phys k5\<rparr>" "k4 = k\<lparr>io := io k4, phys := phys k4\<rparr>"
    using k5(2) sr4 by (simp_all add: same_rest_def)
  then have rest: "k5 = k\<lparr>io := io k5, phys := phys k5, file_objs := (file_objs k)(f := ShobhitFile nd pos')\<rparr>"
    by (cases k; cases k4; cases k5) simp
  have "\<not> standard_refused k2 (procs k (cur_proc E k)) fd" using f F2(3) by (simp add: standard_refused_def)
  then have "sys_read E userEsp k = Inr (Returns (of_nat (length xs)), k5)"
    using k1(1) k2(1) k3(1) k4(1) k5(1) f buf(1) F2(3) F3(3)
    by (simp add: sys_read_def this_proc_def sbind_def ret_def not_less [symmetric])
  then have "sysHandler E 12 userPC userEsp k = Inr (Returns (of_nat (length xs)), k5)" by (simp add: sysHandler_def)
  then show ?thesis using k5(3) rest pos' by blast
qed

text \<open>A process that has the program of the sample disk open as descriptor 0, at its last three bytes, and its arguments on the stack.\<close>

definition reading_kernel :: "sim kernel \<Rightarrow> sim kernel" where
  "reading_kernel k = (sample_kernel k)\<lparr>procs := \<lambda>_. sample_process\<lparr>files := Some 0 # replicate 9 None\<rparr>, file_objs := \<lambda>_. ShobhitFile elf_node 84\<rparr>"

definition reading_args :: "u8 list" where
  "reading_args = [0, 0, 0, 0, 0x20, 0x10, 0, 0x80, 100, 0, 0, 0]"

lemma reading_call_args:
  defines "M \<equiv> mem_put (\<lambda>_. 0) 0x80001004 reading_args"
  shows "call_arg M 0x80001000 1 = 0" "call_arg M 0x80001000 2 = 0x80001020" "call_arg M 0x80001000 3 = 100"
  by (simp_all add: M_def reading_args_def call_arg_def mem_word_def mem_chunk_def le32_def le32_at_def upt_rec)

theorem sys_read_correct_witness:
  "\<forall>E k. \<exists>k1 k2. store_bytes (sample_env elf_disk E) 0x80001004 reading_args (reading_kernel k) = Inr ((), k1) \<and>
     sysHandler (sample_env elf_disk E) 12 0 0x80001000 k1 = Inr (Returns 3, k2) \<and>
     map (user_byte (phys k2) (cur_pd (sample_env elf_disk E) k2)) [0x80001020, 0x80001021, 0x80001022] = [7, 8, 9]"
proof (intro allI)
  fix E :: "sim env" and k :: "sim kernel"
  let ?E = "sample_env elf_disk E" and ?M = "mem_put (\<lambda>_. 0) 0x80001004 reading_args"
  let ?I = "drive_ok (sim_pio elf_disk) 0 elf_disk (\<lambda>d. sim_pos d = None)
      (\<lambda>n k d. if k = 128 then sim_pos d = None else sim_pos d = Some (n, k)) 1"
  have rd: "reader ?E = ide_read_all 1 (sim_pio elf_disk) 0" and cf: "config ?E = small_config" by (simp_all add: sample_env_def)
  have up: "\<forall>p \<in> {0x80001000}. user_page small_config p"
    by (simp add: user_page_def pm_offset_def is_special_def small_config_def)
  have cd: "card {0x80001000 :: u32} \<le> 2" by simp
  have m0: "umem ?E ?I {0x80001000} (reading_kernel k) (\<lambda>_. 0)"
    using sample_umem [OF up cd, of elf_disk E k]
    unfolding umem_def cur_pd_def by (simp add: reading_kernel_def sample_kernel_def sample_process_def)
  have w: "within {0x80001000} 0x80001004 (length reading_args)" "args_within {0x80001000} 0x80001000" "within {0x80001000} 0x80001020 3"
    by (simp_all add: args_within_def reading_args_def within_def frame_def All_less_Suc eval_nat_numeral)
  obtain k1 where k1: "store_bytes ?E 0x80001004 reading_args (reading_kernel k) = Inr ((), k1)" "same_rest (reading_kernel k) k1"
    "umem ?E ?I {0x80001000} k1 ?M" using store_bytes_does [OF m0 w(1)] unfolding does_def by blast
  have x: "procs k1 (cur_proc ?E k1) = sample_process\<lparr>files := Some 0 # replicate 9 None\<rparr>" "file_objs k1 0 = ShobhitFile elf_node 84"
    using same_rest_fields(1,3) [OF k1(2)] by (simp_all add: reading_kernel_def)
  have g: "getFile (procs k1 (cur_proc ?E k1)) (call_arg ?M 0x80001000 1) = Some 0"
    unfolding x reading_call_args by (simp add: getFile_def getFileIndex_def id_index_def FL_def INDEX_MASK_def NFILE_def)
  have c: "file_content elf_disk elf_node = elf_bytes"
  proof -
    have "file_content elf_disk elf_node = chunk (node_byte elf_disk elf_node) 0 87"
      by (simp add: file_content_def chunk_def elf_node_def node_new_def)
    also have "\<dots> = chunk ((!) elf_bytes) 0 87" by (rule elf_node_chunk) simp
    also have "\<dots> = elf_bytes" by (simp add: chunk_def) (simp add: elf_bytes_def upt_rec)
    finally show ?thesis .
  qed
  have xs: "take (unat (call_arg ?M 0x80001000 3)) (drop (unat (84 :: u32)) (file_content elf_disk elf_node)) = [7, 8, 9]"
    unfolding reading_call_args c by (simp add: elf_bytes_def)
  have b: "0x80000000 \<le> call_arg ?M 0x80001000 2" "within {0x80001000} (call_arg ?M 0x80001000 2) (length [7, 8, 9 :: u8])"
    unfolding reading_call_args using w(3) by (simp, simp add: eval_nat_numeral)
  from sys_read_correct [OF k1(3) w(2) rd elf_node_ok g x(2) xs [symmetric] b, of 0]
  obtain k2 where k2: "sysHandler ?E 12 0 0x80001000 k1 = Inr (Returns (of_nat (length [7, 8, 9 :: u8])), k2)"
    "umem ?E ?I {0x80001000} k2 (mem_put ?M (call_arg ?M 0x80001000 2) [7, 8, 9])" by blast
  have pages: "user_page small_config (frame 0x80001020)" "user_page small_config (frame 0x80001021)" "user_page small_config (frame 0x80001022)"
    by (simp_all add: frame_def user_page_def pm_offset_def is_special_def small_config_def)
  have view: "user_byte (phys k2) (cur_pd ?E k2) va = mem_put ?M 0x80001020 [7, 8, 9] va" if "user_page small_config (frame va)" for va
    using k2(2) that unfolding umem_def cf reading_call_args by blast
  have "map (user_byte (phys k2) (cur_pd ?E k2)) [0x80001020, 0x80001021, 0x80001022] = [7, 8, 9]"
    unfolding list.map pages [THEN view] by simp
  moreover have "sysHandler ?E 12 0 0x80001000 k1 = Inr (Returns 3, k2)" using k2(1) by simp
  ultimately show "\<exists>k1 k2. store_bytes ?E 0x80001004 reading_args (reading_kernel k) = Inr ((), k1) \<and>
     sysHandler ?E 12 0 0x80001000 k1 = Inr (Returns 3, k2) \<and>
     map (user_byte (phys k2) (cur_pd ?E k2)) [0x80001020, 0x80001021, 0x80001022] = [7, 8, 9]"
    using k1(1) by (intro exI conjI)
qed

end
