(* ===== verification/Shared.thy ===== *)
theory Shared
  imports Prelude
begin

text \<open>
  Counted references, \<^verbatim>\<open>kernel/shared.h\<close>. Objects have a number, their \<^verbatim>\<open>ref_count\<close> and the pointers of their
  members of type \<^verbatim>\<open>Shared\<close>; deleting an object runs the destructors of its members, the last one first. A place
  is a variable or a member of the object a variable points to. Every operation on a count is atomic; here
  one operation runs at a time.
\<close>

section \<open>State\<close>

datatype sh_err = NullPointer | Freed

record counted_obj =
  ref_count :: u32
  alive :: bool
  members :: "nat option list"

record sh =
  vars :: "nat option list"
  objs :: "counted_obj list"

datatype place = V nat | Member nat nat

text \<open>The place behind \<^verbatim>\<open>v\<close> and \<^verbatim>\<open>v->f\<close>.\<close>

datatype lv = Variable nat | Arrow nat nat

definition resolve :: "sh \<Rightarrow> lv \<Rightarrow> sh_err + place" where
  "resolve s l =
     (case l of
        Variable i \<Rightarrow> Inr (V i)
      | Arrow v i \<Rightarrow> (case vars s ! v of None \<Rightarrow> Inl NullPointer | Some ob \<Rightarrow> Inr (Member ob i)))"

definition valid :: "sh \<Rightarrow> place \<Rightarrow> bool" where
  "valid s p \<longleftrightarrow> (case p of V i \<Rightarrow> i < length (vars s)
     | Member ob i \<Rightarrow> ob < length (objs s) \<and> alive (objs s ! ob) \<and> i < length (members (objs s ! ob)))"

definition peek :: "sh \<Rightarrow> place \<Rightarrow> nat option" where
  "peek s p = (case p of V i \<Rightarrow> vars s ! i | Member ob i \<Rightarrow> members (objs s ! ob) ! i)"

definition poke :: "sh \<Rightarrow> place \<Rightarrow> nat option \<Rightarrow> sh" where
  "poke s p x =
     (case p of
        V i \<Rightarrow> s\<lparr>vars := (vars s)[i := x]\<rparr>
      | Member ob i \<Rightarrow> s\<lparr>objs := (objs s)[ob := (objs s ! ob)\<lparr>members := (members (objs s ! ob))[i := x]\<rparr>]\<rparr>)"

definition get_ptr :: "sh \<Rightarrow> place \<Rightarrow> sh_err + nat option" where
  "get_ptr s p = (if valid s p then Inr (peek s p) else Inl Freed)"

definition set_ptr :: "sh \<Rightarrow> place \<Rightarrow> nat option \<Rightarrow> sh_err + sh" where
  "set_ptr s p x = (if valid s p then Inr (poke s p x) else Inl Freed)"

section \<open>add and drop\<close>

definition set_count :: "sh \<Rightarrow> nat \<Rightarrow> u32 \<Rightarrow> sh" where
  "set_count s ob c = s\<lparr>objs := (objs s)[ob := (objs s ! ob)\<lparr>ref_count := c\<rparr>]\<rparr>"

definition kill :: "sh \<Rightarrow> nat \<Rightarrow> sh" where
  "kill s ob = s\<lparr>objs := (objs s)[ob := (objs s ! ob)\<lparr>ref_count := 0, alive := False\<rparr>]\<rparr>"

definition somes :: "'a option list \<Rightarrow> 'a list" where
  "somes xs = map the (filter (\<lambda>x. x \<noteq> None) xs)"

definition live_members :: "sh \<Rightarrow> nat" where
  "live_members s = (\<Sum>ob \<leftarrow> objs s. if alive ob then length (members ob) else 0)"

lemma somes_length: "length (somes xs) \<le> length xs"
  by (simp add: somes_def)

lemma sum_update:
  fixes f :: "'x \<Rightarrow> nat"
  assumes "k < length xs"
  shows "(\<Sum>x \<leftarrow> xs[k := y]. f x) + f (xs ! k) = (\<Sum>x \<leftarrow> xs. f x) + f y"
  using sum_list_update [of k "map f xs" "f y"] elem_le_sum_list [of k "map f xs"] assms by (simp add: map_update)

lemma live_members_kill:
  assumes "ob < length (objs s)" and "alive (objs s ! ob)"
  shows "live_members s = live_members (kill s ob) + length (members (objs s ! ob))"
  using assms sum_update [OF assms(1), of "\<lambda>x. if alive x then length (members x) else 0" "(objs s ! ob)\<lparr>ref_count := 0, alive := False\<rparr>"]
  by (simp add: live_members_def kill_def)

lemma live_members_count: "ob < length (objs s) \<Longrightarrow> live_members (set_count s ob c) = live_members s"
  using sum_update [of ob "objs s" "\<lambda>x. if alive x then length (members x) else 0" "(objs s ! ob)\<lparr>ref_count := c\<rparr>"]
  by (cases "alive (objs s ! ob)") (simp_all add: live_members_def set_count_def)

text \<open>The references that are still to be dropped are a stack.\<close>

function drops :: "sh \<Rightarrow> nat list \<Rightarrow> sh_err + sh" where
  "drops s [] = Inr s"
| "drops s (ob # obs) =
     (if \<not> (ob < length (objs s) \<and> alive (objs s ! ob)) then Inl Freed
      else if ref_count (objs s ! ob) - 1 = 0 then drops (kill s ob) (somes (rev (members (objs s ! ob))) @ obs)
      else drops (set_count s ob (ref_count (objs s ! ob) - 1)) obs)"
  by pat_completeness auto
termination
proof (relation "measure (\<lambda>(s, obs). live_members s + length obs)", goal_cases)
  case (2 s ob obs)
  then show ?case using live_members_kill [of ob s] somes_length [of "rev (members (objs s ! ob))"] by simp
qed (simp_all add: live_members_count)

definition drop_at :: "place \<Rightarrow> sh \<Rightarrow> sh_err + sh" where
  "drop_at p s =
     rbind (get_ptr s p) (\<lambda>x.
     case x of
       None \<Rightarrow> Inr s
     | Some ob \<Rightarrow>
         rbind (drops (poke s p None) [ob]) (\<lambda>s'.
         if alive (objs s' ! ob) then set_ptr s' p (Some ob) else Inr s'))"

definition add_ref :: "nat option \<Rightarrow> sh \<Rightarrow> sh_err + sh" where
  "add_ref x s =
     (case x of
        None \<Rightarrow> Inr s
      | Some ob \<Rightarrow>
          if ob < length (objs s) \<and> alive (objs s ! ob) then Inr (set_count s ob (ref_count (objs s ! ob) + 1)) else Inl Freed)"

section \<open>Operations\<close>

definition construct :: "place \<Rightarrow> nat option \<Rightarrow> sh \<Rightarrow> sh_err + sh" where
  "construct p it s = rbind (set_ptr s p it) (add_ref it)"

definition construct_copy :: "place \<Rightarrow> place \<Rightarrow> sh \<Rightarrow> sh_err + sh" where
  "construct_copy p rhs s = rbind (get_ptr s rhs) (\<lambda>x. rbind (set_ptr s p x) (add_ref x))"

definition construct_move :: "place \<Rightarrow> place \<Rightarrow> sh \<Rightarrow> sh_err + sh" where
  "construct_move p rhs s = rbind (get_ptr s rhs) (\<lambda>x. rbind (set_ptr s p x) (\<lambda>s. set_ptr s rhs None))"

text \<open>The destructor; the place holds no pointer afterwards.\<close>

definition destroy :: "place \<Rightarrow> sh \<Rightarrow> sh_err + sh" where
  "destroy p s = rbind (drop_at p s) (\<lambda>s. set_ptr s p None)"

definition assign_ptr :: "place \<Rightarrow> nat option \<Rightarrow> sh \<Rightarrow> sh_err + sh" where
  "assign_ptr p rhs s =
     rbind (get_ptr s p) (\<lambda>x.
     if x \<noteq> rhs then rbind (drop_at p s) (\<lambda>s. rbind (set_ptr s p rhs) (add_ref rhs)) else Inr s)"

definition assign :: "place \<Rightarrow> place \<Rightarrow> sh \<Rightarrow> sh_err + sh" where
  "assign p rhs s =
     rbind (get_ptr s rhs) (\<lambda>other_ptr.
     rbind (get_ptr s p) (\<lambda>x.
     if x \<noteq> other_ptr then rbind (drop_at p s) (\<lambda>s. rbind (set_ptr s p other_ptr) (add_ref other_ptr)) else Inr s))"

definition assign_move :: "place \<Rightarrow> place \<Rightarrow> sh \<Rightarrow> sh_err + sh" where
  "assign_move p rhs s =
     rbind (drop_at p s) (\<lambda>s.
     rbind (get_ptr s rhs) (\<lambda>x.
     rbind (set_ptr s p x) (\<lambda>s. set_ptr s rhs None)))"

text \<open>An object with members that are \<^verbatim>\<open>nullptr\<close>, and the first reference to it, made in the place.\<close>

definition make_shared :: "nat \<Rightarrow> place \<Rightarrow> sh \<Rightarrow> sh_err + sh" where
  "make_shared n p s =
     (let ob = length (objs s) in
      construct p (Some ob) (s\<lparr>objs := objs s @ [\<lparr>ref_count = 0, alive = True, members = replicate n None\<rparr>]\<rparr>))"

section \<open>Programs\<close>

text \<open>
  \<^verbatim>\<open>v = make(...)\<close> is the assignment of a temporary that is made and moved. The other statements are those
  of the comments in the class.
\<close>

datatype statement = Make lv nat | Copy lv lv | Move lv lv | Null lv

definition execute :: "nat \<Rightarrow> statement \<Rightarrow> sh \<Rightarrow> sh_err + sh" where
  "execute temp st s =
     (case st of
        Make l n \<Rightarrow> rbind (resolve s l) (\<lambda>p. rbind (make_shared n (V temp) s) (\<lambda>s. rbind (assign_move p (V temp) s) (destroy (V temp))))
      | Copy l r \<Rightarrow> rbind (resolve s l) (\<lambda>p. rbind (resolve s r) (\<lambda>q. assign p q s))
      | Move l r \<Rightarrow> rbind (resolve s l) (\<lambda>p. rbind (resolve s r) (\<lambda>q. assign_move p q s))
      | Null l \<Rightarrow> rbind (resolve s l) (\<lambda>p. assign_ptr p None s))"

fun run_program :: "nat \<Rightarrow> statement list \<Rightarrow> sh \<Rightarrow> sh_err + sh" where
  "run_program temp [] s = Inr s"
| "run_program temp (st # sts) s = rbind (execute temp st s) (run_program temp sts)"

end
