(* ===== verification/Shared_Props.thy ===== *)
theory Shared_Props
  imports Shared
begin

text \<open>Counts are the numbers of references, and what a reference points to is alive.\<close>

section \<open>References\<close>

definition refs :: "sh \<Rightarrow> nat \<Rightarrow> nat" where
  "refs s ob = count_list (vars s) (Some ob) + (\<Sum>x \<leftarrow> objs s. if alive x then count_list (members x) (Some ob) else 0)"

definition alive_at :: "sh \<Rightarrow> nat \<Rightarrow> bool" where
  "alive_at s ob \<longleftrightarrow> ob < length (objs s) \<and> alive (objs s ! ob)"

text \<open>The counts, while the references \<open>ws\<close> are still to be dropped.\<close>

definition counted :: "sh \<Rightarrow> nat list \<Rightarrow> bool" where
  "counted s ws \<longleftrightarrow>
     (\<forall>ob. if alive_at s ob then 0 < unat (ref_count (objs s ! ob)) \<and> unat (ref_count (objs s ! ob)) = refs s ob + count_list ws ob
           else refs s ob + count_list ws ob = 0)"

lemma countedD:
  assumes "counted s ws"
  shows "alive_at s ob \<Longrightarrow> unat (ref_count (objs s ! ob)) = refs s ob + count_list ws ob"
    and "0 < refs s ob + count_list ws ob \<longleftrightarrow> alive_at s ob"
  using assms unfolding counted_def by (metis, metis neq0_conv)

lemma count_update:
  "i < length xs \<Longrightarrow> count_list (xs[i := y]) x + of_bool (xs ! i = x) = count_list xs x + of_bool (y = x)"
proof (induction xs arbitrary: i)
  case (Cons z zs)
  then show ?case by (cases i) auto
qed simp

lemma count_append: "count_list (xs @ ys) x = count_list xs x + count_list ys x"
  by (induction xs) auto

lemma count_somes: "count_list (somes xs) x = count_list xs (Some x)"
  by (induction xs) (auto simp: somes_def)

lemma count_rev: "count_list (rev xs) x = count_list xs x"
  by (induction xs) (auto simp: count_append)

lemma count_zero: "count_list xs x = 0 \<longleftrightarrow> x \<notin> set xs"
  by (induction xs) auto

lemma refs_count: "ob < length (objs s) \<Longrightarrow> refs (set_count s ob c) x = refs s x"
  using sum_update [of ob "objs s" "\<lambda>y. if alive y then count_list (members y) (Some x) else 0" "(objs s ! ob)\<lparr>ref_count := c\<rparr>"]
  by (cases "alive (objs s ! ob)") (simp_all add: refs_def set_count_def)

lemma refs_kill: "alive_at s ob \<Longrightarrow> refs (kill s ob) x + count_list (members (objs s ! ob)) (Some x) = refs s x"
  using sum_update [of ob "objs s" "\<lambda>y. if alive y then count_list (members y) (Some x) else 0" "(objs s ! ob)\<lparr>ref_count := 0, alive := False\<rparr>"]
  by (simp add: refs_def kill_def alive_at_def)

lemma refs_poke: "valid s p \<Longrightarrow> refs (poke s p y) x + of_bool (peek s p = Some x) = refs s x + of_bool (y = Some x)"
proof (cases p)
  case (V i)
  then show "valid s p \<Longrightarrow> ?thesis" using count_update [of i "vars s" y "Some x"] by (simp add: valid_def poke_def peek_def refs_def)
next
  case (Member ob i)
  assume "valid s p"
  then have v: "ob < length (objs s)" "alive (objs s ! ob)" "i < length (members (objs s ! ob))" using Member by (simp_all add: valid_def)
  show ?thesis
    using Member v count_update [OF v(3), of y "Some x"]
      sum_update [OF v(1), of "\<lambda>y. if alive y then count_list (members y) (Some x) else 0" "(objs s ! ob)\<lparr>members := (members (objs s ! ob))[i := y]\<rparr>"]
    by (simp add: poke_def peek_def refs_def)
qed

section \<open>Dropping\<close>

text \<open>What a cascade of deletions leaves.\<close>

definition shrinks :: "sh \<Rightarrow> sh \<Rightarrow> bool" where
  "shrinks s s' \<longleftrightarrow> vars s' = vars s \<and> length (objs s') = length (objs s) \<and> live_members s' \<le> live_members s \<and>
     (\<forall>ob. members (objs s' ! ob) = members (objs s ! ob)) \<and> (\<forall>ob. alive_at s' ob \<longrightarrow> alive_at s ob)"

lemma shrinks_refl: "shrinks s s"
  by (simp add: shrinks_def)

lemma shrinks_trans: "shrinks s t \<Longrightarrow> shrinks t u \<Longrightarrow> shrinks s u"
  by (auto simp: shrinks_def)

lemma shrinks_kill: "alive_at s ob \<Longrightarrow> shrinks s (kill s ob)"
  using live_members_kill [of ob s] by (auto simp: shrinks_def kill_def alive_at_def nth_list_update)

lemma shrinks_count: "alive_at s ob \<Longrightarrow> shrinks s (set_count s ob c)"
  using live_members_count [of ob s] by (auto simp: shrinks_def set_count_def alive_at_def nth_list_update)

lemma alive_kill: "alive_at (kill s ob) x \<longleftrightarrow> alive_at s x \<and> x \<noteq> ob"
  by (cases "ob < length (objs s)") (auto simp: alive_at_def kill_def nth_list_update)

lemma alive_count: "alive_at (set_count s ob c) x \<longleftrightarrow> alive_at s x"
  by (cases "ob < length (objs s)") (auto simp: alive_at_def set_count_def nth_list_update)

lemma drops_sound: "counted s ws \<Longrightarrow> \<exists>s'. drops s ws = Inr s' \<and> counted s' [] \<and> shrinks s s'"
proof (induction s ws rule: drops.induct)
  case (1 s)
  then show ?case by (simp add: shrinks_refl)
next
  case (2 s ob obs)
  note C = countedD [OF 2(3)]
  have at: "if alive_at s x then 0 < unat (ref_count (objs s ! x)) \<and> unat (ref_count (objs s ! x)) = refs s x + count_list (ob # obs) x
      else refs s x + count_list (ob # obs) x = 0" for x
    using 2(3) unfolding counted_def by (rule spec)
  have al: "alive_at s ob" using C(2) [of ob] by simp
  then have al': "ob < length (objs s)" "alive (objs s ! ob)" by (simp_all add: alive_at_def)
  let ?c = "ref_count (objs s ! ob)"
  have c: "unat ?c = refs s ob + Suc (count_list obs ob)" using C(1) [OF al] by simp
  show ?case
  proof (cases "?c - 1 = 0")
    case True
    then have "unat ?c = 1" by simp
    then have z: "refs s ob = 0" "count_list obs ob = 0" using c by simp_all
    have "counted (kill s ob) (somes (rev (members (objs s ! ob))) @ obs)"
      unfolding counted_def
    proof (intro allI)
      fix x
      have total: "refs (kill s ob) x + count_list (somes (rev (members (objs s ! ob))) @ obs) x = refs s x + count_list obs x"
        using refs_kill [OF al, of x] by (simp add: count_append count_somes count_rev)
      show "if alive_at (kill s ob) x then 0 < unat (ref_count (objs (kill s ob) ! x)) \<and> unat (ref_count (objs (kill s ob) ! x)) =
          refs (kill s ob) x + count_list (somes (rev (members (objs s ! ob))) @ obs) x
        else refs (kill s ob) x + count_list (somes (rev (members (objs s ! ob))) @ obs) x = 0"
        unfolding total alive_kill using at [of x] z by (cases "x = ob") (auto simp: kill_def split: if_splits)
    qed
    from 2(1) [OF _ True this] al' obtain s' where "drops (kill s ob) (somes (rev (members (objs s ! ob))) @ obs) = Inr s'"
      "counted s' []" "shrinks (kill s ob) s'" by auto
    then show ?thesis using True al' shrinks_trans [OF shrinks_kill [OF al]] by auto
  next
    case False
    have u: "unat (?c - 1) = refs s ob + count_list obs ob"
    proof -
      have "?c \<noteq> 0" using c by auto
      then show ?thesis using c unat_minus_one [of ?c] by simp
    qed
    have pos: "0 < unat (?c - 1)" using False by (simp add: unat_gt_0)
    have "counted (set_count s ob (?c - 1)) obs"
      unfolding counted_def
    proof (intro allI)
      fix x
      show "if alive_at (set_count s ob (?c - 1)) x then 0 < unat (ref_count (objs (set_count s ob (?c - 1)) ! x)) \<and>
          unat (ref_count (objs (set_count s ob (?c - 1)) ! x)) = refs (set_count s ob (?c - 1)) x + count_list obs x
        else refs (set_count s ob (?c - 1)) x + count_list obs x = 0"
        unfolding refs_count [OF al'(1)] alive_count using at [of x] u pos al al'(1)
        by (cases "x = ob") (auto simp: set_count_def split: if_splits)
    qed
    from 2(2) [OF _ False this] al' obtain s' where "drops (set_count s ob (?c - 1)) obs = Inr s'"
      "counted s' []" "shrinks (set_count s ob (?c - 1)) s'" by auto
    then show ?thesis using False al' shrinks_trans [OF shrinks_count [OF al]] by auto
  qed
qed

section \<open>Places\<close>

text \<open>A place that cannot go away: a variable, or a member of what another variable points to.\<close>

definition held :: "sh \<Rightarrow> nat set \<Rightarrow> place \<Rightarrow> bool" where
  "held s X p \<longleftrightarrow>
     (case p of V i \<Rightarrow> i < length (vars s)
      | Member ob i \<Rightarrow> ob < length (objs s) \<and> i < length (members (objs s ! ob)) \<and> (\<exists>v < length (vars s). v \<notin> X \<and> vars s ! v = Some ob))"

lemma var_alive:
  assumes "counted s []" and "v < length (vars s)" and "vars s ! v = Some ob"
  shows "alive_at s ob"
proof -
  have "Some ob \<in> set (vars s)" using assms(2,3) by (metis nth_mem)
  then have "count_list (vars s) (Some ob) \<noteq> 0" by (simp add: count_zero)
  then have "0 < refs s ob" by (simp add: refs_def)
  then show ?thesis using countedD(2) [OF assms(1), of ob] by simp
qed

lemma held_valid: "counted s [] \<Longrightarrow> held s X p \<Longrightarrow> valid s p"
  using var_alive by (auto simp: held_def valid_def alive_at_def split: place.splits)

lemma peek_alive:
  assumes "counted s ws" and "valid s p" and "peek s p = Some ob"
  shows "alive_at s ob"
proof -
  have "0 < refs s ob" using refs_poke [OF assms(2), of None ob] assms(3) by simp
  then show ?thesis using countedD(2) [OF assms(1), of ob] by simp
qed

text \<open>Overwriting a place.\<close>

lemma poke_simps:
  "valid s p \<Longrightarrow> valid (poke s p x) p" "valid s p \<Longrightarrow> peek (poke s p x) p = x" "valid s p \<Longrightarrow> poke (poke s p x) p y = poke s p y"
  "valid s p \<Longrightarrow> poke s p (peek s p) = s"
  "length (vars (poke s p x)) = length (vars s)" "length (objs (poke s p x)) = length (objs s)"
  "alive_at (poke s p x) ob \<longleftrightarrow> alive_at s ob" "ref_count (objs (poke s p x) ! ob) = ref_count (objs s ! ob)"
  "length (members (objs (poke s p x) ! ob)) = length (members (objs s ! ob))"
  "valid (poke s p x) q \<longleftrightarrow> valid s q"
proof -
  show P: "length (vars (poke s p x)) = length (vars s)" "length (objs (poke s p x)) = length (objs s)"
    by (simp_all add: poke_def split: place.splits)
  have upd: "f (xs[i := y] ! j) = f (xs ! j)" if "f y = f (xs ! i)" for f :: "counted_obj \<Rightarrow> 'x" and xs i y j
    using that by (cases "i < length xs") (auto simp: nth_list_update list_update_beyond)
  have updl: "length (members (xs[i := y] ! j)) = length (members (xs ! j))" if "length (members y) = length (members (xs ! i))" for xs i y j
    using that by (cases "i < length xs") (auto simp: nth_list_update list_update_beyond)
  have A: "alive (objs (poke s p x) ! c) = alive (objs s ! c)" for c
    unfolding poke_def by (cases p) (auto simp: upd)
  show "ref_count (objs (poke s p x) ! ob) = ref_count (objs s ! ob)"
    unfolding poke_def by (cases p) (auto simp: upd)
  have L: "length (members (objs (poke s p x) ! c)) = length (members (objs s ! c))" for c
    unfolding poke_def by (cases p) (auto simp: updl)
  then show "length (members (objs (poke s p x) ! ob)) = length (members (objs s ! ob))" .
  show "alive_at (poke s p x) ob \<longleftrightarrow> alive_at s ob" using A P by (simp add: alive_at_def)
  show V: "valid (poke s p x) q \<longleftrightarrow> valid s q" for q using A P L by (simp add: valid_def split: place.splits)
  show "valid s p \<Longrightarrow> valid (poke s p x) p" using V by blast
  show "valid s p \<Longrightarrow> peek (poke s p x) p = x" "valid s p \<Longrightarrow> poke (poke s p x) p y = poke s p y" "valid s p \<Longrightarrow> poke s p (peek s p) = s"
    by (auto simp: valid_def peek_def poke_def split: place.splits)
qed

lemma poke_other: "p \<noteq> q \<Longrightarrow> peek (poke s p x) q = peek s q"
proof (cases p; cases q)
  fix ob i c j
  assume "p \<noteq> q" "p = Member ob i" "q = Member c j"
  then show ?thesis by (cases "ob < length (objs s)"; cases "ob = c") (auto simp: peek_def poke_def list_update_beyond)
qed (auto simp: peek_def poke_def)

lemma poke_slots: "live_members (poke s p x) = live_members s"
proof (cases p)
  case (Member ob i)
  show ?thesis
  proof (cases "ob < length (objs s)")
    case True
    then show ?thesis
      using Member sum_update [of ob "objs s" "\<lambda>x. if alive x then length (members x) else 0" "(objs s ! ob)\<lparr>members := (members (objs s ! ob))[i := x]\<rparr>"]
      by (cases "alive (objs s ! ob)") (simp_all add: live_members_def poke_def)
  qed (use Member in \<open>simp add: poke_def list_update_beyond\<close>)
qed (simp add: poke_def live_members_def)

section \<open>Operations\<close>

definition own :: "place \<Rightarrow> nat set" where
  "own p = (case p of V i \<Rightarrow> {i} | Member ob i \<Rightarrow> {})"

definition slots :: "sh \<Rightarrow> nat" where
  "slots s = length (vars s) + live_members s"

lemma refs_slots: "refs s x \<le> slots s"
proof -
  have "(\<Sum>y \<leftarrow> ys. if alive y then count_list (members y) (Some x) else 0) \<le> (\<Sum>y \<leftarrow> ys. if alive y then length (members y) else 0)" for ys
    by (induction ys) (auto simp: count_le_length intro!: add_mono)
  from add_mono [OF count_le_length [of "vars s" "Some x"] this [of "objs s"]] show ?thesis
    by (simp add: refs_def slots_def live_members_def)
qed

lemma held_shrinks:
  assumes t: "counted t []" "shrinks (poke s p None) t" and q: "held s (own p) q"
  shows "valid t q" and "p \<noteq> q \<Longrightarrow> peek t q = peek s q"
proof -
  have vars: "vars t ! v = vars s ! v" if "v \<notin> own p" for v
    using t(2) that by (cases p) (auto simp: shrinks_def own_def poke_def)
  have len: "length (vars t) = length (vars s)" "length (objs t) = length (objs s)"
    "\<And>ob. length (members (objs t ! ob)) = length (members (objs s ! ob))"
    using t(2) poke_simps(5,6,9) by (simp_all add: shrinks_def)
  show "valid t q"
  proof (cases q)
    case (V i)
    then show ?thesis using q len by (simp add: held_def valid_def)
  next
    case (Member ob i)
    then obtain v where v: "v < length (vars s)" "v \<notin> own p" "vars s ! v = Some ob" using q by (auto simp: held_def)
    then have "alive_at t ob" using var_alive [OF t(1), of v ob] vars len by simp
    then show ?thesis using Member q len by (simp add: held_def valid_def alive_at_def)
  qed
  have "peek t q = peek (poke s p None) q" using t(2) by (simp add: shrinks_def peek_def split: place.splits)
  then show "p \<noteq> q \<Longrightarrow> peek t q = peek s q" by (simp add: poke_other)
qed

lemma drop_at_sound:
  assumes c: "counted s []" and p: "held s (own p) p"
  obtains t y where "drop_at p s = Inr (poke t p y)" and "counted t []" and "valid t p" and "peek t p = None" and "shrinks (poke s p None) t"
proof -
  note v = held_valid [OF c p]
  show ?thesis
  proof (cases "peek s p")
    case None
    then have "poke s p None = s" using poke_simps(4) [OF v] by simp
    then show ?thesis using that [of s None] None v c by (simp add: drop_at_def get_ptr_def shrinks_refl)
  next
    case (Some ob)
    have H: "refs (poke s p None) x + count_list [ob] x = refs s x" for x using refs_poke [OF v, of None x] Some by (auto split: if_splits)
    then have "counted (poke s p None) [ob]" using c unfolding counted_def poke_simps(7,8) by (simp only: H count_list.simps(1) add_0_right)
    from drops_sound [OF this] obtain t where t: "drops (poke s p None) [ob] = Inr t" "counted t []" "shrinks (poke s p None) t" by blast
    have v': "valid t p" by (rule held_shrinks(1) [OF t(2,3) p])
    have "peek t p = peek (poke s p None) p" using t(3) by (simp add: shrinks_def peek_def split: place.splits)
    then have n: "peek t p = None" using poke_simps(2) [OF v] by simp
    then have "poke t p None = t" using poke_simps(4) [OF v'] by simp
    then have "drop_at p s = Inr (poke t p (if alive (objs t ! ob) then Some ob else None))"
      using t(1) v v' Some by (simp add: drop_at_def get_ptr_def set_ptr_def)
    then show ?thesis using that t(2,3) v' n by blast
  qed
qed

lemma set_add_sound:
  assumes c: "counted t []" and v: "valid t p" and n: "peek t p = None" and x: "\<And>q. x = Some q \<Longrightarrow> alive_at t q" and sl: "slots t < 2 ^ 32"
  obtains u where "rbind (set_ptr (poke t p y) p x) (add_ref x) = Inr u" and "counted u []" and "length (vars u) = length (vars t)"
    and "slots u = slots t" and "\<And>ob. length (members (objs u ! ob)) = length (members (objs t ! ob))" and "peek u p = x"
    and "length (objs u) = length (objs t)" and "\<And>q. q \<noteq> p \<Longrightarrow> peek u q = peek t q"
proof (cases x)
  case None
  then have "poke t p None = t" using poke_simps(4) [OF v] n by simp
  then show ?thesis using that [of t] None v c n poke_simps(3,10) by (simp add: set_ptr_def add_ref_def)
next
  case (Some q)
  let ?t = "poke t p x"
  note al = x [OF Some]
  have al': "alive_at ?t q" using al poke_simps(7) by simp
  have r: "refs ?t z = refs t z + of_bool (z = q)" for z using refs_poke [OF v, of x z] n Some by auto
  have sl': "slots ?t = slots t" using poke_simps(5) poke_slots by (simp add: slots_def)
  let ?u = "set_count ?t q (ref_count (objs ?t ! q) + 1)"
  have eq: "rbind (set_ptr (poke t p y) p x) (add_ref x) = Inr ?u"
    using v al' Some poke_simps(3,10) by (simp add: set_ptr_def add_ref_def alive_at_def)
  have cnt: "unat (ref_count (objs ?t ! q)) = refs t q" using countedD(1) [OF c al] poke_simps(8) by simp
  have "refs t q + 1 < 2 ^ 32" using r [of q] refs_slots [of ?t q] sl sl' by simp
  then have up: "unat (ref_count (objs ?t ! q) + 1) = refs t q + 1" using cnt by (simp add: unat_word_ariths)
  have "counted ?u []"
    unfolding counted_def
  proof (intro allI)
    fix z
    have at: "if alive_at t z then 0 < unat (ref_count (objs t ! z)) \<and> unat (ref_count (objs t ! z)) = refs t z + count_list [] z
      else refs t z + count_list [] z = 0" using c unfolding counted_def by (rule spec)
    have qq: "q < length (objs ?t)" using al' by (simp add: alive_at_def)
    show "if alive_at ?u z then 0 < unat (ref_count (objs ?u ! z)) \<and> unat (ref_count (objs ?u ! z)) = refs ?u z + count_list [] z
      else refs ?u z + count_list [] z = 0"
      unfolding refs_count [OF qq] alive_count poke_simps(7) r using at up al qq
      by (cases "z = q") (auto simp: set_count_def poke_simps(8) split: if_splits)
  qed
  moreover have "live_members ?u = live_members ?t" using al' live_members_count by (simp add: alive_at_def)
  moreover have "members (objs ?u ! ob) = members (objs ?t ! ob)" for ob
    by (cases "q < length (objs ?t)") (auto simp: set_count_def nth_list_update list_update_beyond)
  then have "peek ?u z = peek ?t z" for z by (auto simp: peek_def set_count_def split: place.splits)
  moreover have "vars ?u = vars ?t" by (simp add: set_count_def)
  ultimately show ?thesis
    using that [OF eq] sl' poke_simps(2,5,6,9) v poke_other \<open>\<And>ob. members (objs ?u ! ob) = members (objs ?t ! ob)\<close>
    by (simp add: slots_def set_count_def)
qed

text \<open>What every statement keeps; the variables other than \<open>p\<close> are not touched.\<close>

definition keeps :: "sh \<Rightarrow> sh \<Rightarrow> place \<Rightarrow> bool" where
  "keeps s u p \<longleftrightarrow> counted u [] \<and> length (vars u) = length (vars s) \<and> slots u \<le> slots s \<and> length (objs u) = length (objs s) \<and>
     (\<forall>ob. length (members (objs u ! ob)) = length (members (objs s ! ob))) \<and> (\<forall>i. V i \<noteq> p \<longrightarrow> vars u ! i = vars s ! i)"

lemma poke_vars: "V i \<noteq> p \<Longrightarrow> vars (poke s p x) ! i = vars s ! i"
  using poke_other [of p "V i" s x] by (simp add: peek_def)

lemma shrinks_keeps: "counted t [] \<Longrightarrow> shrinks (poke s p None) t \<Longrightarrow> keeps s t p"
  using poke_simps(5,6,9) [of s p None] poke_slots [of s p None] poke_vars [of _ p s None]
  by (auto simp: shrinks_def keeps_def slots_def)

lemma keeps_same:
  assumes "keeps s t p" and "counted u []" and "length (vars u) = length (vars t)" and "slots u = slots t"
    and "\<And>ob. length (members (objs u ! ob)) = length (members (objs t ! ob))" and "length (objs u) = length (objs t)"
    and same: "\<And>q. q \<noteq> p \<Longrightarrow> peek u q = peek t q"
  shows "keeps s u p"
proof -
  have "vars u ! i = vars t ! i" if "V i \<noteq> p" for i using same [OF that] by (simp add: peek_def)
  then show ?thesis using assms(1-6) by (simp add: keeps_def)
qed

lemma keeps_refl: "counted s [] \<Longrightarrow> keeps s s p"
  by (simp add: keeps_def)

lemma assign_ptr_sound:
  assumes c: "counted s []" and p: "held s (own p) p" and sl: "slots s < 2 ^ 32"
  shows "\<exists>u. assign_ptr p None s = Inr u \<and> keeps s u p"
proof -
  note v = held_valid [OF c p]
  show ?thesis
  proof (cases "peek s p = None")
    case True
    then show ?thesis using v keeps_refl [OF c] by (simp add: assign_ptr_def get_ptr_def)
  next
    case False
    obtain t y where t: "drop_at p s = Inr (poke t p y)" "counted t []" "valid t p" "peek t p = None" "shrinks (poke s p None) t"
      by (rule drop_at_sound [OF c p])
    note K = shrinks_keeps [OF t(2,5)]
    have "slots t < 2 ^ 32" using K sl by (simp add: keeps_def)
    obtain u where u: "rbind (set_ptr (poke t p y) p None) (add_ref None) = Inr u" "counted u []" "length (vars u) = length (vars t)"
      "slots u = slots t" "\<And>ob. length (members (objs u ! ob)) = length (members (objs t ! ob))" "peek u p = None"
      "length (objs u) = length (objs t)" "\<And>q. q \<noteq> p \<Longrightarrow> peek u q = peek t q"
      by (rule set_add_sound [OF t(2,3,4), of None y]) (use \<open>slots t < 2 ^ 32\<close> in auto)
    have "keeps s u p" by (rule keeps_same [OF K u(2-5,7,8)])
    with u(1) show ?thesis using t(1) False v by (auto simp: assign_ptr_def get_ptr_def)
  qed
qed

lemma assign_sound:
  assumes c: "counted s []" and p: "held s (own p) p" and q: "held s (own p) q" and sl: "slots s < 2 ^ 32"
  shows "\<exists>u. assign p q s = Inr u \<and> keeps s u p"
proof -
  note v = held_valid [OF c p] and w = held_valid [OF c q]
  show ?thesis
  proof (cases "peek s p = peek s q")
    case True
    then show ?thesis using v w keeps_refl [OF c] by (simp add: assign_def get_ptr_def)
  next
    case False
    obtain t y where t: "drop_at p s = Inr (poke t p y)" "counted t []" "valid t p" "peek t p = None" "shrinks (poke s p None) t"
      by (rule drop_at_sound [OF c p])
    note K = shrinks_keeps [OF t(2,5)]
    have sl': "slots t < 2 ^ 32" using K sl by (simp add: keeps_def)
    have "peek t q = peek s q" "valid t q" using held_shrinks [OF t(2,5) q] False by auto
    then have al: "alive_at t ob" if "peek s q = Some ob" for ob using peek_alive [OF t(2)] that by metis
    obtain u where u: "rbind (set_ptr (poke t p y) p (peek s q)) (add_ref (peek s q)) = Inr u" "counted u []" "length (vars u) = length (vars t)"
      "slots u = slots t" "\<And>ob. length (members (objs u ! ob)) = length (members (objs t ! ob))" "peek u p = peek s q"
      "length (objs u) = length (objs t)" "\<And>q. q \<noteq> p \<Longrightarrow> peek u q = peek t q"
      by (rule set_add_sound [OF t(2,3,4) al sl', of "peek s q" y]) auto
    have "keeps s u p" by (rule keeps_same [OF K u(2-5,7,8)])
    with u(1) show ?thesis using t(1) False v w by (auto simp: assign_def get_ptr_def)
  qed
qed

lemma assign_move_sound:
  assumes c: "counted s []" and p: "held s (own p) p" and q: "held s (own p) q"
  shows "\<exists>u. assign_move p q s = Inr u \<and> counted u [] \<and> length (vars u) = length (vars s) \<and> slots u \<le> slots s \<and> length (objs u) = length (objs s) \<and>
     (\<forall>ob. length (members (objs u ! ob)) = length (members (objs s ! ob))) \<and> (\<forall>i. V i \<noteq> p \<and> V i \<noteq> q \<longrightarrow> vars u ! i = vars s ! i) \<and> peek u q = None"
proof -
  obtain t y where t: "drop_at p s = Inr (poke t p y)" "counted t []" "valid t p" "peek t p = None" "shrinks (poke s p None) t"
    by (rule drop_at_sound [OF c p])
  note K = shrinks_keeps [OF t(2,5)]
  have vq: "valid t q" by (rule held_shrinks(1) [OF t(2,5) q])
  show ?thesis
  proof (cases "p = q")
    case True
    have "assign_move p q s = Inr t"
      using t(1,3,4) True poke_simps(1-4) [OF t(3)] by (simp add: assign_move_def get_ptr_def set_ptr_def poke_simps(10))
    then show ?thesis using K t(2,4) True by (auto simp: keeps_def)
  next
    case False
    let ?x = "peek t q"
    let ?u = "poke (poke t p ?x) q None"
    have "assign_move p q s = Inr ?u"
      using t(1,3) vq False poke_simps(3) [OF t(3)] by (simp add: assign_move_def get_ptr_def set_ptr_def poke_simps(10) poke_other)
    moreover have r: "refs ?u z = refs t z" for z
      using refs_poke [OF t(3), of ?x z] refs_poke [of "poke t p ?x" q None z] vq t(4) False by (simp add: poke_simps(10) poke_other)
    have "counted ?u []" using t(2) unfolding counted_def poke_simps(7,8) r .
    moreover have "peek ?u q = None" using vq by (simp add: poke_simps(2,10))
    moreover have "vars ?u ! i = vars t ! i" if "V i \<noteq> p" "V i \<noteq> q" for i
      using poke_other [of q "V i" "poke t p ?x" None] poke_other [of p "V i" t ?x] that by (simp add: peek_def)
    ultimately show ?thesis using K poke_slots by (auto simp: keeps_def slots_def poke_simps(5,6,9))
  qed
qed

lemma make_sound:
  assumes c: "counted s []" and i: "i < length (vars s)" "vars s ! i = None"
  shows "\<exists>u. make_shared N (V i) s = Inr u \<and> counted u [] \<and> vars u = (vars s)[i := Some (length (objs s))] \<and> slots u = slots s + N \<and>
    length (objs u) = length (objs s) + 1 \<and> (\<forall>ob < length (objs s). members (objs u ! ob) = members (objs s ! ob)) \<and>
    members (objs u ! length (objs s)) = replicate N None"
proof -
  let ?ob = "length (objs s)"
  let ?new = "\<lparr>ref_count = 0, alive = True, members = replicate N None\<rparr>"
  let ?u = "s\<lparr>vars := (vars s)[i := Some ?ob], objs := objs s @ [?new\<lparr>ref_count := 1\<rparr>]\<rparr>"
  have "make_shared N (V i) s = Inr ?u"
    using i by (simp add: make_shared_def construct_def set_ptr_def valid_def poke_def add_ref_def set_count_def Let_def)
  moreover have "count_list (replicate N None) (Some z) = 0" for z :: nat by (induction N) auto
  then have r: "refs ?u z = refs s z + of_bool (z = ?ob)" for z
    using count_update [OF i(1), of "Some ?ob" "Some z"] i(2) by (auto simp: refs_def)
  have a: "alive_at ?u z \<longleftrightarrow> alive_at s z \<or> z = ?ob" for z by (auto simp: alive_at_def nth_append)
  have "counted ?u []"
    unfolding counted_def
  proof (intro allI)
    fix z
    have at: "if alive_at s z then 0 < unat (ref_count (objs s ! z)) \<and> unat (ref_count (objs s ! z)) = refs s z + count_list [] z
      else refs s z + count_list [] z = 0" using c unfolding counted_def by (rule spec)
    show "if alive_at ?u z then 0 < unat (ref_count (objs ?u ! z)) \<and> unat (ref_count (objs ?u ! z)) = refs ?u z + count_list [] z
      else refs ?u z + count_list [] z = 0"
      unfolding a r using at by (cases "z = ?ob") (auto simp: alive_at_def nth_append split: if_splits)
  qed
  moreover have "slots ?u = slots s + N" by (simp add: slots_def live_members_def)
  ultimately show ?thesis by (auto simp: nth_append)
qed

section \<open>Programs\<close>

text \<open>Variables \<open>0\<close> to \<open>n - 1\<close>, the temporary \<open>n\<close>, and objects of a class with \<open>N\<close> members.\<close>

fun lv_ok :: "nat \<Rightarrow> nat \<Rightarrow> lv \<Rightarrow> bool" where
  "lv_ok n N (Variable i) \<longleftrightarrow> i < n"
| "lv_ok n N (Arrow v i) \<longleftrightarrow> v < n \<and> i < N"

text \<open>A variable is not assigned a member of the object it points to.\<close>

fun apart :: "lv \<Rightarrow> lv \<Rightarrow> bool" where
  "apart (Variable i) (Arrow v j) \<longleftrightarrow> v \<noteq> i"
| "apart l r \<longleftrightarrow> True"

fun statement_ok :: "nat \<Rightarrow> nat \<Rightarrow> statement \<Rightarrow> bool" where
  "statement_ok n N (Make l m) \<longleftrightarrow> lv_ok n N l \<and> m = N"
| "statement_ok n N (Copy l r) \<longleftrightarrow> lv_ok n N l \<and> lv_ok n N r \<and> apart l r"
| "statement_ok n N (Move l r) \<longleftrightarrow> lv_ok n N l \<and> lv_ok n N r \<and> apart l r"
| "statement_ok n N (Null l) \<longleftrightarrow> lv_ok n N l"

definition prog_ok :: "nat \<Rightarrow> nat \<Rightarrow> sh \<Rightarrow> bool" where
  "prog_ok n N s \<longleftrightarrow> counted s [] \<and> length (vars s) = n + 1 \<and> vars s ! n = None \<and> (\<forall>ob < length (objs s). length (members (objs s ! ob)) = N)"

lemma resolve_held:
  assumes ok: "prog_ok n N s" and l: "lv_ok n N l"
  obtains (null) "resolve s l = Inl NullPointer"
    | (place) p where "resolve s l = Inr p" and "p \<noteq> V n" and "held s (own p) p" and "\<And>k. apart k l \<Longrightarrow> resolve s k = Inr q \<Longrightarrow> held s (own q) p"
        and "\<And>x. held (s\<lparr>vars := (vars s)[n := x]\<rparr>) (own p) p"
proof (cases l)
  case (Variable i)
  then show ?thesis using place [of "V i"] l ok by (auto simp: resolve_def held_def prog_ok_def)
next
  case (Arrow v i)
  show ?thesis
  proof (cases "vars s ! v")
    case None
    then show ?thesis using null Arrow by (simp add: resolve_def)
  next
    case (Some ob)
    have v: "v < length (vars s)" "v \<noteq> n" using ok l Arrow by (simp_all add: prog_ok_def)
    have "alive_at s ob" using var_alive [OF _ v(1) Some] ok by (simp add: prog_ok_def)
    then have ob: "ob < length (objs s)" "i < length (members (objs s ! ob))" using ok l Arrow by (simp_all add: alive_at_def prog_ok_def)
    have h: "held s X (Member ob i)" if "v \<notin> X" for X using ob v Some that by (auto simp: held_def)
    have "held s (own q) (Member ob i)" if "apart k l" "resolve s k = Inr q" for k
      using that Arrow by (intro h) (cases k; auto simp: resolve_def own_def split: option.splits)
    moreover have "held (s\<lparr>vars := (vars s)[n := x]\<rparr>) (own (Member ob i)) (Member ob i)" for x
      using ob v Some by (auto simp: held_def own_def intro!: exI [of _ v])
    ultimately show ?thesis using place [of "Member ob i"] Arrow Some h by (simp add: resolve_def own_def)
  qed
qed

lemma keeps_prog: "prog_ok n N s \<Longrightarrow> keeps s u p \<Longrightarrow> p \<noteq> V n \<Longrightarrow> prog_ok n N u"
  by (auto simp: prog_ok_def keeps_def)

lemma execute_sound:
  assumes ok: "prog_ok n N s" and st: "statement_ok n N st" and sl: "slots s + N < 2 ^ 32"
  shows "execute n st s = Inl NullPointer \<or> (\<exists>u. execute n st s = Inr u \<and> prog_ok n N u \<and> slots u \<le> slots s + N)"
proof (cases st)
  case (Null l)
  show ?thesis
  proof (rule resolve_held [OF ok, of l])
    show "lv_ok n N l" using st Null by simp
    fix p
    assume p: "resolve s l = Inr p" "p \<noteq> V n" "held s (own p) p"
    obtain u where "assign_ptr p None s = Inr u" "keeps s u p"
      using assign_ptr_sound [OF _ p(3)] ok sl by (auto simp: prog_ok_def)
    then show ?thesis using Null p keeps_prog [OF ok] by (auto simp: execute_def keeps_def)
  qed (simp add: execute_def Null)
next
  case (Copy l r)
  show ?thesis
  proof (rule resolve_held [OF ok, of l])
    show "lv_ok n N l" using st Copy by simp
    fix p
    assume p: "resolve s l = Inr p" "p \<noteq> V n" "held s (own p) p"
    show ?thesis
    proof (rule resolve_held [OF ok, of r])
      show "lv_ok n N r" using st Copy by simp
      fix q
      assume q: "resolve s r = Inr q" "\<And>k. apart k r \<Longrightarrow> resolve s k = Inr p \<Longrightarrow> held s (own p) q"
      obtain u where "assign p q s = Inr u" "keeps s u p"
        using assign_sound [OF _ p(3) q(2) [of l]] p(1) ok sl st Copy by (auto simp: prog_ok_def)
      then show ?thesis using Copy p q(1) keeps_prog [OF ok] by (auto simp: execute_def keeps_def)
    qed (simp add: execute_def Copy p)
  qed (simp add: execute_def Copy)
next
  case (Move l r)
  show ?thesis
  proof (rule resolve_held [OF ok, of l])
    show "lv_ok n N l" using st Move by simp
    fix p
    assume p: "resolve s l = Inr p" "p \<noteq> V n" "held s (own p) p"
    show ?thesis
    proof (rule resolve_held [OF ok, of r])
      show "lv_ok n N r" using st Move by simp
      fix q
      assume q: "resolve s r = Inr q" "q \<noteq> V n" "\<And>k. apart k r \<Longrightarrow> resolve s k = Inr p \<Longrightarrow> held s (own p) q"
      obtain u where "assign_move p q s = Inr u" "counted u []" "length (vars u) = length (vars s)" "slots u \<le> slots s" "length (objs u) = length (objs s)"
        "\<forall>ob. length (members (objs u ! ob)) = length (members (objs s ! ob))" "\<forall>i. V i \<noteq> p \<and> V i \<noteq> q \<longrightarrow> vars u ! i = vars s ! i"
        using assign_move_sound [OF _ p(3) q(3) [of l]] p(1) ok st Move by (auto simp: prog_ok_def)
      then show ?thesis using Move p q(1,2) ok by (auto simp: execute_def prog_ok_def)
    qed (simp add: execute_def Move p)
  qed (simp add: execute_def Move)
next
  case (Make l m)
  show ?thesis
  proof (rule resolve_held [OF ok, of l])
    show "lv_ok n N l" using st Make by simp
    fix p
    assume p: "resolve s l = Inr p" "p \<noteq> V n" "\<And>x. held (s\<lparr>vars := (vars s)[n := x]\<rparr>) (own p) p"
    have n: "n < length (vars s)" "vars s ! n = None" "counted s []" using ok by (simp_all add: prog_ok_def)
    obtain t where t: "make_shared N (V n) s = Inr t" "counted t []" "vars t = (vars s)[n := Some (length (objs s))]" "slots t = slots s + N"
      "length (objs t) = length (objs s) + 1" "\<forall>ob < length (objs s). members (objs t ! ob) = members (objs s ! ob)"
      "members (objs t ! length (objs s)) = replicate N None"
      using make_sound [OF n(3,1,2), of N] by blast
    have p': "held t (own p) p" using p(3) [of "Some (length (objs s))"] t(3,5,6) by (auto simp: held_def split: place.splits)
    have q': "held t (own p) (V n)" using t(3) n by (simp add: held_def)
    obtain u where u: "assign_move p (V n) t = Inr u" "counted u []" "length (vars u) = length (vars t)" "slots u \<le> slots t" "length (objs u) = length (objs t)"
      "\<forall>ob. length (members (objs u ! ob)) = length (members (objs t ! ob))" "peek u (V n) = None"
      using assign_move_sound [OF t(2) p' q'] by blast
    have vn: "valid u (V n)" using u(3) t(3) n by (simp add: valid_def)
    have "poke u (V n) None = u" using poke_simps(4) [OF vn] u(7) by simp
    then have d: "destroy (V n) u = Inr u" using vn u(7) by (simp add: destroy_def drop_at_def get_ptr_def set_ptr_def)
    have "length (members (objs t ! ob)) = N" if "ob < length (objs t)" for ob
      using that t(5-7) ok by (cases "ob = length (objs s)") (auto simp: prog_ok_def)
    then have "prog_ok n N u" using u t(3) ok by (simp add: prog_ok_def peek_def)
    then show ?thesis using Make st p(1) t(1) u(1,4) d t(4) by (simp add: execute_def)
  qed (simp add: execute_def Make)
qed

lemma run_sound:
  "prog_ok n N s \<Longrightarrow> \<forall>st \<in> set sts. statement_ok n N st \<Longrightarrow> slots s + N * length sts < 2 ^ 32 \<Longrightarrow>
   run_program n sts s = Inl NullPointer \<or> (\<exists>u. run_program n sts s = Inr u \<and> prog_ok n N u)"
proof (induction sts arbitrary: s)
  case (Cons st sts)
  have "slots s + N < 2 ^ 32" using Cons.prems(3) by simp
  from execute_sound [OF Cons.prems(1) _ this, of st] Cons.prems(2)
  consider "execute n st s = Inl NullPointer" | u where "execute n st s = Inr u" "prog_ok n N u" "slots u \<le> slots s + N" by auto
  then show ?case
  proof cases
    case 2
    then show ?thesis using Cons.IH [of u] Cons.prems(2,3) by auto
  qed simp
qed simp

section \<open>Property\<close>

definition no_objects :: "nat \<Rightarrow> sh" where
  "no_objects n = \<lparr>vars = replicate (Suc n) None, objs = []\<rparr>"

lemma no_objects_ok: "prog_ok n N (no_objects n)" "slots (no_objects n) = n + 1"
proof -
  have "count_list (replicate m None) (Some x) = 0" for m and x :: nat by (induction m) auto
  then show "prog_ok n N (no_objects n)"
    by (auto simp: prog_ok_def no_objects_def counted_def refs_def alive_at_def simp del: replicate_Suc)
  show "slots (no_objects n) = n + 1" by (simp add: slots_def live_members_def no_objects_def)
qed

lemma no_objects_small: "no_objects 1 = \<lparr>vars = [None, None], objs = []\<rparr>" "no_objects 2 = \<lparr>vars = [None, None, None], objs = []\<rparr>"
  by (simp_all add: no_objects_def numeral_2_eq_2)

lemmas run_defs = execute_def resolve_def make_shared_def construct_def assign_move_def assign_def assign_ptr_def
  destroy_def drop_at_def get_ptr_def set_ptr_def add_ref_def valid_def peek_def poke_def set_count_def kill_def somes_def Let_def

text \<open>
  C34. In a program of assignments to variables and to members of the objects they point to, no freed object
  is ever used: it dereferences a null pointer itself, or it ends with every count equal to the number of
  references to its object, and exactly the objects without references deleted. This needs that no variable is
  assigned a member of the object it points to: \<^verbatim>\<open>p = p->next\<close> for the only reference to an object frees the next one
  before it counts the new reference.
\<close>

theorem shared_counts_references:
  assumes "\<forall>st \<in> set sts. statement_ok n N st" and "n + 1 + N * length sts < 2 ^ 32"
  shows "(run_program n sts (no_objects n) = Inl NullPointer \<or>
      (\<exists>s. run_program n sts (no_objects n) = Inr s \<and>
         (\<forall>ob. alive_at s ob \<longleftrightarrow> 0 < refs s ob) \<and> (\<forall>ob. alive_at s ob \<longrightarrow> unat (ref_count (objs s ! ob)) = refs s ob))) \<and>
    run_program 1 [Make (Variable 0) 1, Make (Arrow 0 0) 1, Copy (Variable 0) (Arrow 0 0)] (no_objects 1) = Inl Freed"
proof
  have "run_program n sts (no_objects n) = Inl NullPointer \<or> (\<exists>u. run_program n sts (no_objects n) = Inr u \<and> prog_ok n N u)"
    by (rule run_sound [OF no_objects_ok(1) assms(1)]) (use assms(2) in \<open>simp add: no_objects_ok(2)\<close>)
  then show "run_program n sts (no_objects n) = Inl NullPointer \<or>
      (\<exists>s. run_program n sts (no_objects n) = Inr s \<and>
         (\<forall>ob. alive_at s ob \<longleftrightarrow> 0 < refs s ob) \<and> (\<forall>ob. alive_at s ob \<longrightarrow> unat (ref_count (objs s ! ob)) = refs s ob))"
  proof
    assume "\<exists>u. run_program n sts (no_objects n) = Inr u \<and> prog_ok n N u"
    then obtain u where u: "run_program n sts (no_objects n) = Inr u" "counted u []" by (auto simp: prog_ok_def)
    have "alive_at u ob \<longleftrightarrow> 0 < refs u ob" for ob using countedD(2) [OF u(2), of ob] by simp
    moreover have "unat (ref_count (objs u ! ob)) = refs u ob" if "alive_at u ob" for ob using countedD(1) [OF u(2) that] by simp
    ultimately show ?thesis using u(1) by blast
  qed simp
  show "run_program 1 [Make (Variable 0) 1, Make (Arrow 0 0) 1, Copy (Variable 0) (Arrow 0 0)] (no_objects 1) = Inl Freed"
    unfolding no_objects_small by (simp add: run_defs)
qed

theorem shared_counts_references_witness:
  "\<exists>s. run_program 2 [Make (Variable 0) 1, Copy (Variable 1) (Variable 0), Make (Arrow 1 0) 1, Null (Variable 0)] (no_objects 2) = Inr s \<and>
     alive_at s 0 \<and> unat (ref_count (objs s ! 0)) = refs s 0"
proof -
  have "run_program 2 [Make (Variable 0) 1, Copy (Variable 1) (Variable 0), Make (Arrow 1 0) 1, Null (Variable 0)] (no_objects 2) =
      Inr \<lparr>vars = [None, Some 0, None], objs = [\<lparr>ref_count = 1, alive = True, members = [Some 1]\<rparr>, \<lparr>ref_count = 1, alive = True, members = [None]\<rparr>]\<rparr>"
    unfolding no_objects_small by (simp add: run_defs numeral_2_eq_2)
  then show ?thesis
    using shared_counts_references [of "[Make (Variable 0) 1, Copy (Variable 1) (Variable 0), Make (Arrow 1 0) 1, Null (Variable 0)]" 2 1]
    by (auto simp: alive_at_def)
qed

end
