(* ===== verification/Barrier.thy ===== *)
theory Barrier
  imports Semaphore
begin

text \<open>
  Condition variables, \<^verbatim>\<open>kernel/condition.h\<close>, and barriers, \<^verbatim>\<open>kernel/barrier.h\<close>, for any number of
  threads. The lock is a flag that a thread finds free and takes in one step; what a thread does while it has the
  lock is a step of its own up to its next change of the lock. The queue of a condition is the list of its
  threads. The 64-bit epochs are numbers: they would wrap around after \<open>2^64\<close> rounds. The assertions on the
  interrupt flag are those of the lock.
\<close>

section \<open>Condition variables\<close>

text \<open>
  The thread in \<open>CReleased e\<close> has released the lock in \<^verbatim>\<open>wait\<close> and blocks; the function it gave to
  \<^verbatim>\<open>block\<close>, which runs after it has left its stack, takes the lock (\<open>CDecides\<close>) and queues or schedules it.
\<close>

datatype wait_pc = CReleased nat | CDecides nat | CQueued | CReady

record 'p cond =
  taken :: bool
  c_epoch :: nat
  c_queue :: "nat list"
  c_pc :: "nat \<Rightarrow> 'p"

definition notify_turn :: "(nat \<Rightarrow> ('p, 'z) cond_scheme \<Rightarrow> ('p, 'z) cond_scheme) \<Rightarrow> ('p, 'z) cond_scheme \<Rightarrow> ('p, 'z) cond_scheme option" where
  "notify_turn schedule s = (case c_queue s of [] \<Rightarrow> None | t # q \<Rightarrow> Some (schedule t (s\<lparr>c_queue := q\<rparr>)))"

fun notify_loop :: "(nat \<Rightarrow> ('p, 'z) cond_scheme \<Rightarrow> ('p, 'z) cond_scheme) \<Rightarrow> nat \<Rightarrow> ('p, 'z) cond_scheme \<Rightarrow> ('p, 'z) cond_scheme" where
  "notify_loop schedule 0 s = s"
| "notify_loop schedule (Suc n) s = (case notify_turn schedule s of None \<Rightarrow> s | Some s' \<Rightarrow> notify_loop schedule n s')"

definition notify :: "(nat \<Rightarrow> ('p, 'z) cond_scheme \<Rightarrow> ('p, 'z) cond_scheme) \<Rightarrow> nat \<Rightarrow> ('p, 'z) cond_scheme \<Rightarrow> ('p, 'z) cond_scheme" where
  "notify schedule limit s = notify_loop schedule limit (s\<lparr>c_epoch := c_epoch s + 1\<rparr>)"

definition notifyOne :: "(nat \<Rightarrow> ('p, 'z) cond_scheme \<Rightarrow> ('p, 'z) cond_scheme) \<Rightarrow> ('p, 'z) cond_scheme \<Rightarrow> ('p, 'z) cond_scheme" where
  "notifyOne schedule s = notify schedule 1 s"

definition notifyAll :: "(nat \<Rightarrow> ('p, 'z) cond_scheme \<Rightarrow> ('p, 'z) cond_scheme) \<Rightarrow> ('p, 'z) cond_scheme \<Rightarrow> ('p, 'z) cond_scheme" where
  "notifyAll schedule s = notify schedule (2 ^ 64 - 1) s"

text \<open>The steps of \<^verbatim>\<open>wait\<close> of a thread; \<open>wrap\<close> is where it is in its program. \<open>None\<close>: an assertion fails.\<close>

definition wait_release :: "(wait_pc \<Rightarrow> 'p) \<Rightarrow> nat \<Rightarrow> ('p, 'z) cond_scheme \<Rightarrow> ('p, 'z) cond_scheme" where
  "wait_release wrap t s = s\<lparr>taken := False, c_pc := (c_pc s)(t := wrap (CReleased (c_epoch s)))\<rparr>"

definition wait_decide :: "(wait_pc \<Rightarrow> 'p) \<Rightarrow> nat \<Rightarrow> nat \<Rightarrow> ('p, 'z) cond_scheme \<Rightarrow> ('p, 'z) cond_scheme option" where
  "wait_decide wrap t old_epoch s =
     (if c_epoch s = old_epoch then Some (s\<lparr>c_queue := c_queue s @ [t], taken := False, c_pc := (c_pc s)(t := wrap CQueued)\<rparr>)
      else if c_epoch s > old_epoch then Some (s\<lparr>taken := False, c_pc := (c_pc s)(t := wrap CReady)\<rparr>)
      else None)"

section \<open>The reusable barrier\<close>

text \<open>
  Where a thread is in \<^verbatim>\<open>sync\<close>: \<open>RArrived\<close>, \<open>RLoop\<close> and \<open>RLeaves\<close> have the lock. \<open>epoch\<close> of the call is the
  number \<open>r\<close>. \<open>r_done\<close> counts the calls that have returned; it is not part of the code.
\<close>

datatype rb_pc = ROut | REnters | RArrived | RLoop nat | RWaits nat wait_pc | RLeaves | RFailed

record rb = "rb_pc cond" +
  r_count :: u32
  r_epoch :: nat
  r_done :: "nat \<Rightarrow> nat"

definition rb_new :: "u32 \<Rightarrow> rb" where
  "rb_new initial_count = \<lparr>taken = False, c_epoch = 0, c_queue = [], c_pc = (\<lambda>_. ROut), r_count = initial_count, r_epoch = 0, r_done = (\<lambda>_. 0)\<rparr>"

definition rb_schedule :: "nat \<Rightarrow> rb \<Rightarrow> rb" where
  "rb_schedule t s = (case c_pc s t of RWaits r w \<Rightarrow> s\<lparr>c_pc := (c_pc s)(t := RWaits r CReady)\<rparr> | _ \<Rightarrow> s)"

abbreviation rgo :: "rb \<Rightarrow> nat \<Rightarrow> rb_pc \<Rightarrow> rb" where
  "rgo s t p \<equiv> s\<lparr>c_pc := (c_pc s)(t := p)\<rparr>"

inductive rb_step :: "u32 \<Rightarrow> nat list \<Rightarrow> rb \<Rightarrow> nat \<Rightarrow> rb \<Rightarrow> bool" for initial_count ts where
  call: "t \<in> set ts \<Longrightarrow> c_pc s t = ROut \<Longrightarrow> rb_step initial_count ts s t (rgo s t REnters)"
| lock: "t \<in> set ts \<Longrightarrow> c_pc s t = REnters \<Longrightarrow> \<not> taken s \<Longrightarrow> rb_step initial_count ts s t (rgo (s\<lparr>taken := True\<rparr>) t RArrived)"
| fails: "t \<in> set ts \<Longrightarrow> c_pc s t = RArrived \<Longrightarrow> r_count s = 0 \<Longrightarrow> rb_step initial_count ts s t (rgo s t RFailed)"
| arrive: "t \<in> set ts \<Longrightarrow> c_pc s t = RArrived \<Longrightarrow> r_count s \<noteq> 0 \<Longrightarrow> r_count s - 1 \<noteq> 0 \<Longrightarrow>
    rb_step initial_count ts s t (rgo (s\<lparr>r_count := r_count s - 1\<rparr>) t (RLoop (r_epoch s)))"
| last_one: "t \<in> set ts \<Longrightarrow> c_pc s t = RArrived \<Longrightarrow> r_count s \<noteq> 0 \<Longrightarrow> r_count s - 1 = 0 \<Longrightarrow>
    rb_step initial_count ts s t
      (rgo (notifyAll rb_schedule (s\<lparr>r_epoch := r_epoch s + 1, r_count := initial_count\<rparr>)) t RLeaves)"
| waits: "t \<in> set ts \<Longrightarrow> c_pc s t = RLoop r \<Longrightarrow> r_epoch s \<le> r \<Longrightarrow> rb_step initial_count ts s t (wait_release (RWaits r) t s)"
| leaves: "t \<in> set ts \<Longrightarrow> c_pc s t = RLoop r \<Longrightarrow> \<not> r_epoch s \<le> r \<Longrightarrow> rb_step initial_count ts s t (rgo s t RLeaves)"
| blocks: "t \<in> set ts \<Longrightarrow> c_pc s t = RWaits r (CReleased e) \<Longrightarrow> \<not> taken s \<Longrightarrow>
    rb_step initial_count ts s t (rgo (s\<lparr>taken := True\<rparr>) t (RWaits r (CDecides e)))"
| decides: "t \<in> set ts \<Longrightarrow> c_pc s t = RWaits r (CDecides e) \<Longrightarrow> wait_decide (RWaits r) t e s = Some s' \<Longrightarrow> rb_step initial_count ts s t s'"
| decide_fails: "t \<in> set ts \<Longrightarrow> c_pc s t = RWaits r (CDecides e) \<Longrightarrow> wait_decide (RWaits r) t e s = None \<Longrightarrow>
    rb_step initial_count ts s t (rgo s t RFailed)"
| wakes: "t \<in> set ts \<Longrightarrow> c_pc s t = RWaits r CReady \<Longrightarrow> \<not> taken s \<Longrightarrow>
    rb_step initial_count ts s t (rgo (s\<lparr>taken := True\<rparr>) t (RLoop r))"
| unlock: "t \<in> set ts \<Longrightarrow> c_pc s t = RLeaves \<Longrightarrow>
    rb_step initial_count ts s t (rgo (s\<lparr>taken := False, r_done := (r_done s)(t := r_done s t + 1)\<rparr>) t ROut)"

inductive_cases rb_stepE: "rb_step initial_count ts s t s'"

section \<open>The barrier that is used once\<close>

datatype br_pc = BOut | BSyncs | BDowns | BBlocked | BUps | BBack | BPanics

record barrier =
  b_count :: int
  b_sem :: "nat asem"
  b_pc :: "nat \<Rightarrow> br_pc"

definition barrier_new :: "u32 \<Rightarrow> barrier" where
  "barrier_new count = \<lparr>b_count = sint count, b_sem = as_new 0, b_pc = (\<lambda>_. BOut)\<rparr>"

text \<open>The thread that \<^verbatim>\<open>up\<close> schedules has returned from \<^verbatim>\<open>down\<close>.\<close>

definition b_wake :: "nat option \<Rightarrow> (nat \<Rightarrow> br_pc) \<Rightarrow> nat \<Rightarrow> br_pc" where
  "b_wake r pc = (case r of None \<Rightarrow> pc | Some u \<Rightarrow> pc(u := BUps))"

inductive barrier_step :: "nat list \<Rightarrow> barrier \<Rightarrow> nat \<Rightarrow> barrier \<Rightarrow> bool" for ts where
  b_call: "t \<in> set ts \<Longrightarrow> b_pc s t = BOut \<Longrightarrow> barrier_step ts s t (s\<lparr>b_pc := (b_pc s)(t := BSyncs)\<rparr>)"
| b_add: "t \<in> set ts \<Longrightarrow> b_pc s t = BSyncs \<Longrightarrow>
    barrier_step ts s t (s\<lparr>b_count := b_count s - 1,
      b_pc := (b_pc s)(t := if b_count s - 1 < 0 then BPanics else if b_count s - 1 = 0 then BUps else BDowns)\<rparr>)"
| b_down: "t \<in> set ts \<Longrightarrow> b_pc s t = BDowns \<Longrightarrow> as_down (b_sem s) t = (m, now) \<Longrightarrow>
    barrier_step ts s t (s\<lparr>b_sem := m, b_pc := (b_pc s)(t := if now then BUps else BBlocked)\<rparr>)"
| b_up: "t \<in> set ts \<Longrightarrow> b_pc s t = BUps \<Longrightarrow> as_up (b_sem s) = (m, r) \<Longrightarrow>
    barrier_step ts s t (s\<lparr>b_sem := m, b_pc := b_wake r ((b_pc s)(t := BBack))\<rparr>)"

inductive_cases barrier_stepE: "barrier_step ts s t s'"

end
