(* ===== verification/Barrier_Props.thy ===== *)
theory Barrier_Props
  imports Barrier
begin

text \<open>A barrier lets no thread out before all are in, and lets all of them out then.\<close>

section \<open>notifyAll\<close>

definition readied :: "rb_pc \<Rightarrow> rb_pc" where
  "readied p = (case p of RWaits r w \<Rightarrow> RWaits r CReady | _ \<Rightarrow> p)"

lemma schedule_readied: "rb_schedule t s = s\<lparr>c_pc := (c_pc s)(t := readied (c_pc s t))\<rparr>"
  by (cases "c_pc s t") (simp_all add: rb_schedule_def readied_def fun_upd_idem)

lemma readied_twice [simp]: "readied (readied p) = readied p"
  by (cases p) (simp_all add: readied_def)

lemma notify_loop_all:
  "length (c_queue s) \<le> k \<Longrightarrow>
   notify_loop rb_schedule k s = s\<lparr>c_queue := [], c_pc := (\<lambda>t. if t \<in> set (c_queue s) then readied (c_pc s t) else c_pc s t)\<rparr>"
proof (induction k arbitrary: s)
  case (Suc k)
  show ?case
  proof (cases "c_queue s")
    case (Cons t q)
    let ?s = "rb_schedule t (s\<lparr>c_queue := q\<rparr>)"
    have "length (c_queue ?s) \<le> k" using Suc.prems Cons by (simp add: schedule_readied)
    from Suc.IH [OF this] show ?thesis
      using Cons by (auto simp: notify_turn_def schedule_readied fun_eq_iff)
  qed (simp add: notify_turn_def)
qed simp

lemma notifyAll_all:
  assumes "length (c_queue s) < 2 ^ 32"
  shows "notifyAll rb_schedule s = s\<lparr>c_epoch := c_epoch s + 1, c_queue := [], c_pc := (\<lambda>t. if t \<in> set (c_queue s) then readied (c_pc s t) else c_pc s t)\<rparr>"
proof -
  let ?s = "s\<lparr>c_epoch := c_epoch s + 1\<rparr>"
  have "notify_loop rb_schedule (2 ^ 64 - 1) ?s =
      ?s\<lparr>c_queue := [], c_pc := (\<lambda>t. if t \<in> set (c_queue ?s) then readied (c_pc ?s t) else c_pc ?s t)\<rparr>"
    by (rule notify_loop_all) (use assms in simp)
  then show ?thesis unfolding notifyAll_def notify_def by (simp cong: if_cong)
qed

section \<open>Invariant\<close>

fun has_lock :: "rb_pc \<Rightarrow> bool" where
  "has_lock RArrived = True" | "has_lock (RLoop r) = True" | "has_lock RLeaves = True"
| "has_lock (RWaits r (CDecides e)) = True" | "has_lock p = False"

text \<open>In the current round and not released.\<close>

fun here :: "nat \<Rightarrow> rb_pc \<Rightarrow> bool" where
  "here E (RLoop r) = (r = E)" | "here E (RWaits r w) = (r = E)" | "here E p = False"

fun is_queued :: "rb_pc \<Rightarrow> bool" where
  "is_queued (RWaits r CQueued) = True" | "is_queued p = False"

fun pc_ok :: "nat \<Rightarrow> nat \<Rightarrow> rb_pc \<Rightarrow> bool" where
  "pc_ok E d (RLoop r) = (d = r \<and> (r = E \<or> r + 1 = E))"
| "pc_ok E d (RWaits r (CReleased e)) = (d = r \<and> e = r \<and> (r = E \<or> r + 1 = E))"
| "pc_ok E d (RWaits r (CDecides e)) = (d = r \<and> e = r \<and> (r = E \<or> r + 1 = E))"
| "pc_ok E d (RWaits r CQueued) = (d = r \<and> r = E)"
| "pc_ok E d (RWaits r CReady) = (d = r \<and> r + 1 = E)"
| "pc_ok E d RLeaves = (d + 1 = E)"
| "pc_ok E d RFailed = False"
| "pc_ok E d p = (d = E)"

definition rb_inv :: "u32 \<Rightarrow> nat list \<Rightarrow> rb \<Rightarrow> bool" where
  "rb_inv ic ts s \<longleftrightarrow>
     tally ts has_lock (c_pc s) = of_bool (taken s) \<and>
     int (unat (r_count s)) + tally ts (here (r_epoch s)) (c_pc s) = int (unat ic) \<and> r_count s \<noteq> 0 \<and>
     c_epoch s = r_epoch s \<and>
     distinct (c_queue s) \<and> set (c_queue s) \<subseteq> set ts \<and> (\<forall>t \<in> set ts. t \<in> set (c_queue s) \<longleftrightarrow> is_queued (c_pc s t)) \<and>
     (\<forall>t \<in> set ts. pc_ok (r_epoch s) (r_done s t) (c_pc s t))"

lemma tally_not: "tally ts P pc + tally ts (\<lambda>p. \<not> P p) pc = int (length ts)"
  by (induction ts) auto

lemma tally_all_others:
  assumes "tally ts P pc = int (length ts) - 1" and "t \<in> set ts" and "\<not> P (pc t)" and "u \<in> set ts" and "u \<noteq> t" and "distinct ts"
  shows "P (pc u)"
proof (rule ccontr)
  assume "\<not> P (pc u)"
  have "tally ts (\<lambda>p. \<not> P p) pc \<le> 1" using tally_not [of ts P pc] assms(1) by simp
  from tally_unique [OF this assms(2,4)] show False using assms \<open>\<not> P (pc u)\<close> by auto
qed

lemma rb_inv_new: "ic \<noteq> 0 \<Longrightarrow> rb_inv ic ts (rb_new ic)"
  by (simp add: rb_inv_def rb_new_def tally_zero)

text \<open>A step of one thread that changes no epoch and no queue.\<close>

lemma rb_inv_move:
  assumes inv: "rb_inv ic ts s" and d: "distinct ts" and t: "t \<in> set ts"
    and same: "c_epoch s' = c_epoch s" "c_queue s' = c_queue s" "r_epoch s' = r_epoch s"
    and pc: "c_pc s' = (c_pc s)(t := p)" and dn: "r_done s' = (r_done s)(t := n)"
    and lock: "of_bool (taken s') + of_bool (has_lock (c_pc s t)) = (of_bool (taken s) + of_bool (has_lock p) :: int)"
    and count: "unat (r_count s') + of_bool (here (r_epoch s) p) = unat (r_count s) + of_bool (here (r_epoch s) (c_pc s t))" "r_count s' \<noteq> 0"
    and queue: "is_queued (c_pc s t) = is_queued p"
    and ok: "pc_ok (r_epoch s) n p"
  shows "rb_inv ic ts s'"
proof -
  have I: "tally ts has_lock (c_pc s) = of_bool (taken s)" "int (unat (r_count s)) + tally ts (here (r_epoch s)) (c_pc s) = int (unat ic)"
    "c_epoch s = r_epoch s" "distinct (c_queue s)" "set (c_queue s) \<subseteq> set ts" "\<forall>t \<in> set ts. t \<in> set (c_queue s) \<longleftrightarrow> is_queued (c_pc s t)"
    "\<forall>t \<in> set ts. pc_ok (r_epoch s) (r_done s t) (c_pc s t)"
    using inv by (simp_all add: rb_inv_def)
  have "tally ts has_lock (c_pc s') = of_bool (taken s')" unfolding pc tally_update [OF d t] I(1) using lock by simp
  moreover have "int (unat (r_count s')) + of_bool (here (r_epoch s) p) = int (unat (r_count s)) + of_bool (here (r_epoch s) (c_pc s t))"
    using arg_cong [OF count(1), of int] by (simp only: of_nat_add of_nat_of_bool)
  then have "int (unat (r_count s')) + tally ts (here (r_epoch s)) (c_pc s') = int (unat ic)"
    unfolding pc tally_update [OF d t] using I(2) by linarith
  ultimately show ?thesis using I count(2) queue ok by (simp add: rb_inv_def same pc dn)
qed

lemma rb_invD:
  assumes "rb_inv ic ts s"
  shows "tally ts has_lock (c_pc s) = of_bool (taken s)"
    and "int (unat (r_count s)) + tally ts (here (r_epoch s)) (c_pc s) = int (unat ic)" and "r_count s \<noteq> 0"
    and "c_epoch s = r_epoch s" and "distinct (c_queue s)" and "set (c_queue s) \<subseteq> set ts"
    and "t \<in> set ts \<Longrightarrow> t \<in> set (c_queue s) \<longleftrightarrow> is_queued (c_pc s t)"
    and "t \<in> set ts \<Longrightarrow> pc_ok (r_epoch s) (r_done s t) (c_pc s t)"
  using assms by (simp_all add: rb_inv_def)

lemma locked_taken: "rb_inv ic ts s \<Longrightarrow> t \<in> set ts \<Longrightarrow> has_lock (c_pc s t) \<Longrightarrow> taken s"
  using tally_pos [of t ts has_lock "c_pc s"] rb_invD(1) [of ic ts s] by (cases "taken s") auto

lemma one_locked:
  "rb_inv ic ts s \<Longrightarrow> distinct ts \<Longrightarrow> t \<in> set ts \<Longrightarrow> u \<in> set ts \<Longrightarrow> has_lock (c_pc s t) \<Longrightarrow> has_lock (c_pc s u) \<Longrightarrow> t = u"
  using tally_unique [of ts has_lock "c_pc s" t u] rb_invD(1) [of ic ts s] by (cases "taken s") auto

lemma tally_cong: "(\<And>t. t \<in> set ts \<Longrightarrow> P (f t) = Q (g t)) \<Longrightarrow> tally ts P f = tally ts Q g"
  by (induction ts) auto

text \<open>The thread that goes to the queue.\<close>

lemma rb_inv_queue:
  assumes inv: "rb_inv ic ts s" and d: "distinct ts" and t: "t \<in> set ts" and pc: "c_pc s t = RWaits r (CDecides e)"
    and r: "r = r_epoch s"
  shows "rb_inv ic ts (s\<lparr>c_queue := c_queue s @ [t], taken := False, c_pc := (c_pc s)(t := RWaits r CQueued)\<rparr>)"
proof -
  note I = rb_invD [OF inv]
  have "taken s" using locked_taken [OF inv t] pc by simp
  then have "tally ts has_lock ((c_pc s)(t := RWaits r CQueued)) = 0"
    unfolding tally_update [OF d t] I(1) using pc by simp
  moreover have "tally ts (here (r_epoch s)) ((c_pc s)(t := RWaits r CQueued)) = tally ts (here (r_epoch s)) (c_pc s)"
    unfolding tally_update [OF d t] using pc by simp
  moreover have "t \<notin> set (c_queue s)" using I(7) [OF t] pc by simp
  moreover have "r_done s t = r" using I(8) [OF t] pc by simp
  ultimately show ?thesis unfolding rb_inv_def using I t r by simp
qed

text \<open>When the last thread arrives, every other thread waits in this round.\<close>

lemma last_others:
  assumes inv: "rb_inv ic ts s" and d: "distinct ts" and len: "length ts = unat ic" and t: "t \<in> set ts"
    and pc: "c_pc s t = RArrived" and one: "r_count s - 1 = 0" and u: "u \<in> set ts" "u \<noteq> t"
  shows "c_pc s u = RWaits (r_epoch s) CQueued \<or> c_pc s u = RWaits (r_epoch s) (CReleased (r_epoch s))"
proof -
  have "r_count s = 1" using one by simp
  then have "tally ts (here (r_epoch s)) (c_pc s) = int (length ts) - 1" using rb_invD(2) [OF inv] len by simp
  from tally_all_others [OF this t _ u d] pc have "here (r_epoch s) (c_pc s u)" by simp
  moreover have "\<not> has_lock (c_pc s u)" using one_locked [OF inv d t u(1)] pc u(2) by auto
  moreover have "pc_ok (r_epoch s) (r_done s u) (c_pc s u)" by (rule rb_invD(8) [OF inv u(1)])
  ultimately show ?thesis
    by (cases "(r_epoch s, c_pc s u)" rule: here.cases; cases "(r_epoch s, r_done s u, c_pc s u)" rule: pc_ok.cases) auto
qed

lemma last_state:
  assumes inv: "rb_inv ic ts s" and d: "distinct ts" and len: "length ts = unat ic"
  shows "notifyAll rb_schedule (s\<lparr>r_epoch := r_epoch s + 1, r_count := ic\<rparr>) =
    s\<lparr>r_epoch := r_epoch s + 1, r_count := ic, c_epoch := c_epoch s + 1, c_queue := [],
      c_pc := (\<lambda>t. if t \<in> set (c_queue s) then readied (c_pc s t) else c_pc s t)\<rparr>"
proof -
  have "length (c_queue s) = card (set (c_queue s))" using rb_invD(5) [OF inv] by (simp add: distinct_card)
  also have "\<dots> \<le> card (set ts)" by (intro card_mono rb_invD(6) [OF inv]) simp
  also have "\<dots> \<le> length ts" by (rule card_length)
  also have "\<dots> < 2 ^ 32" using len unsigned_less [of ic] by simp
  finally have "length (c_queue (s\<lparr>r_epoch := r_epoch s + 1, r_count := ic\<rparr>)) < 2 ^ 32" by simp
  from notifyAll_all [OF this] show ?thesis by (simp cong: if_cong)
qed

text \<open>The program counters after the last thread has notified.\<close>

lemma last_pcs:
  assumes inv: "rb_inv ic ts s" and d: "distinct ts" and len: "length ts = unat ic" and t: "t \<in> set ts"
    and pc: "c_pc s t = RArrived" and one: "r_count s - 1 = 0" and u: "u \<in> set ts" "u \<noteq> t"
  shows "(if u \<in> set (c_queue s) then readied (c_pc s u) else c_pc s u) \<in>
    {RWaits (r_epoch s) CReady, RWaits (r_epoch s) (CReleased (r_epoch s))}"
  using last_others [OF assms] rb_invD(7) [OF inv u(1)] by (auto simp: readied_def)

lemma rb_inv_last:
  assumes inv: "rb_inv ic ts s" and d: "distinct ts" and len: "length ts = unat ic" and ic: "ic \<noteq> 0" and t: "t \<in> set ts"
    and pc: "c_pc s t = RArrived" and one: "r_count s - 1 = 0"
  shows "rb_inv ic ts (rgo (notifyAll rb_schedule (s\<lparr>r_epoch := r_epoch s + 1, r_count := ic\<rparr>)) t RLeaves)"
proof -
  note I = rb_invD [OF inv]
  let ?pc = "(\<lambda>t. if t \<in> set (c_queue s) then readied (c_pc s t) else c_pc s t)(t := RLeaves)"
  have others: "?pc u \<in> {RWaits (r_epoch s) CReady, RWaits (r_epoch s) (CReleased (r_epoch s))}" if "u \<in> set ts" "u \<noteq> t" for u
    using last_pcs [OF inv d len t pc one that] that by simp
  have "tally ts has_lock ?pc = tally ts has_lock (c_pc s)"
  proof (rule tally_cong)
    fix u assume u: "u \<in> set ts"
    show "has_lock (?pc u) = has_lock (c_pc s u)"
    proof (cases "u = t")
      case False
      then show ?thesis using others [OF u] last_others [OF inv d len t pc one u] by auto
    qed (simp add: pc)
  qed
  moreover have "tally ts (here (r_epoch s + 1)) ?pc = 0"
  proof (rule tally_zero)
    fix u assume u: "u \<in> set ts"
    show "\<not> here (r_epoch s + 1) (?pc u)" by (cases "u = t") (use others [OF u] in auto)
  qed
  moreover have "is_queued (?pc u) = False" if "u \<in> set ts" for u
    by (cases "u = t") (use others [OF that] in auto)
  moreover have "pc_ok (r_epoch s + 1) (r_done s u) (?pc u)" if "u \<in> set ts" for u
  proof (cases "u = t")
    case True
    then show ?thesis using I(8) [OF t] pc by simp
  next
    case False
    have "r_done s u = r_epoch s" using I(8) [OF that] last_others [OF inv d len t pc one that False] by auto
    then show ?thesis using others [OF that False] by auto
  qed
  ultimately show ?thesis unfolding last_state [OF inv d len] rb_inv_def using I(1,4) ic by simp
qed

lemma rb_inv_step:
  assumes st: "rb_step ic ts s t s'" and inv: "rb_inv ic ts s" and d: "distinct ts" and len: "length ts = unat ic" and ic: "ic \<noteq> 0"
  shows "rb_inv ic ts s'"
  using st
proof cases
  case call
  show ?thesis
    by (rule rb_inv_move [OF inv d call(2), where p = REnters and n = "r_done s t"])
      (use call rb_invD(3) [OF inv] rb_invD(8) [OF inv call(2)] in auto)
next
  case lock
  show ?thesis
    by (rule rb_inv_move [OF inv d lock(2), where p = RArrived and n = "r_done s t"])
      (use lock rb_invD(3) [OF inv] rb_invD(8) [OF inv lock(2)] in auto)
next
  case fails
  then show ?thesis using rb_invD(3) [OF inv] by simp
next
  case arrive
  have c: "Suc (unat (r_count s - 1)) = unat (r_count s)" using arrive(4) by (simp add: unat_minus_one unat_gt_0)
  show ?thesis
    by (rule rb_inv_move [OF inv d arrive(2), where p = "RLoop (r_epoch s)" and n = "r_done s t"])
      (use arrive c rb_invD(8) [OF inv arrive(2)] in auto)
next
  case last_one
  show ?thesis unfolding last_one(1) by (rule rb_inv_last [OF inv d len ic last_one(2,3,5)])
next
  case (waits r)
  have k: "taken s" using locked_taken [OF inv waits(2)] waits(3) by simp
  show ?thesis
    by (rule rb_inv_move [OF inv d waits(2), where p = "RWaits r (CReleased (c_epoch s))" and n = "r_done s t"])
      (use waits k rb_invD(3,4) [OF inv] rb_invD(8) [OF inv waits(2)] in \<open>auto simp: wait_release_def\<close>)
next
  case (leaves r)
  have k: "taken s" using locked_taken [OF inv leaves(2)] leaves(3) by simp
  show ?thesis
    by (rule rb_inv_move [OF inv d leaves(2), where p = RLeaves and n = "r_done s t"])
      (use leaves k rb_invD(3,4) [OF inv] rb_invD(8) [OF inv leaves(2)] in auto)
next
  case (blocks r e)
  show ?thesis
    by (rule rb_inv_move [OF inv d blocks(2), where p = "RWaits r (CDecides e)" and n = "r_done s t"])
      (use blocks rb_invD(3,4) [OF inv] rb_invD(8) [OF inv blocks(2)] in auto)
next
  case (decides r e)
  have ok: "r_done s t = r" "e = r" "r = r_epoch s \<or> r + 1 = r_epoch s" using rb_invD(8) [OF inv decides(1)] decides(2) by auto
  have k: "taken s" using locked_taken [OF inv decides(1)] decides(2) by simp
  show ?thesis
  proof (cases "r = r_epoch s")
    case True
    then have "s' = s\<lparr>c_queue := c_queue s @ [t], taken := False, c_pc := (c_pc s)(t := RWaits r CQueued)\<rparr>"
      using decides(3) ok rb_invD(4) [OF inv] by (simp add: wait_decide_def)
    then show ?thesis using rb_inv_queue [OF inv d decides(1,2) True] by simp
  next
    case False
    then have s': "s' = s\<lparr>taken := False, c_pc := (c_pc s)(t := RWaits r CReady)\<rparr>"
      using decides(3) ok rb_invD(4) [OF inv] by (simp add: wait_decide_def)
    show ?thesis
      by (rule rb_inv_move [OF inv d decides(1), where p = "RWaits r CReady" and n = "r_done s t"])
        (use decides(2) s' k ok False rb_invD(3) [OF inv] in auto)
  qed
next
  case (decide_fails r e)
  have "e = r" "r = r_epoch s \<or> r + 1 = r_epoch s" using rb_invD(8) [OF inv decide_fails(2)] decide_fails(3) by auto
  then show ?thesis using decide_fails(4) rb_invD(4) [OF inv] by (auto simp: wait_decide_def split: if_splits)
next
  case (wakes r)
  show ?thesis
    by (rule rb_inv_move [OF inv d wakes(2), where p = "RLoop r" and n = "r_done s t"])
      (use wakes rb_invD(3,4) [OF inv] rb_invD(8) [OF inv wakes(2)] in auto)
next
  case unlock
  have k: "taken s" using locked_taken [OF inv unlock(2)] unlock(3) by simp
  show ?thesis
    by (rule rb_inv_move [OF inv d unlock(2), where p = ROut and n = "r_done s t + 1"])
      (use unlock k rb_invD(3,4) [OF inv] rb_invD(8) [OF inv unlock(2)] in auto)
qed

lemma rb_inv_reachable:
  assumes "reachable (rb_step ic ts) (rb_new ic) s" and "distinct ts" and "length ts = unat ic" and "ic \<noteq> 0"
  shows "rb_inv ic ts s"
  by (rule reachable_invariant [OF assms(1), where I = "rb_inv ic ts"]) (use rb_inv_new rb_inv_step assms in blast)+

section \<open>No thread is early\<close>

text \<open>The thread has come to the barrier in this call and has been counted.\<close>

definition has_arrived :: "rb_pc \<Rightarrow> bool" where
  "has_arrived p \<longleftrightarrow> p \<noteq> ROut \<and> p \<noteq> REnters \<and> p \<noteq> RArrived"

lemma done_bounds:
  "pc_ok E d p \<Longrightarrow> d \<le> E \<and> E \<le> d + of_bool (has_arrived p) \<and> p \<noteq> RFailed"
  by (cases "(E, d, p)" rule: pc_ok.cases) (auto simp: has_arrived_def)

text \<open>Of two threads the first comes to the barrier and blocks.\<close>

definition one_comes :: "nat \<Rightarrow> rb" where
  "one_comes n = (let b = rgo (rb_new 2) 0 REnters; c = b\<lparr>r_count := 1, c_pc := (c_pc b)(0 := RWaits 0 (CReleased 0))\<rparr> in
     if n = 0 then b
     else if n = 1 then b\<lparr>taken := True, c_pc := (c_pc b)(0 := RArrived)\<rparr>
     else if n = 2 then b\<lparr>taken := True, r_count := 1, c_pc := (c_pc b)(0 := RLoop 0)\<rparr>
     else if n = 3 then c
     else if n = 4 then c\<lparr>taken := True, c_pc := (c_pc c)(0 := RWaits 0 (CDecides 0))\<rparr>
     else c\<lparr>c_queue := [0], c_pc := (c_pc c)(0 := RWaits 0 CQueued)\<rparr>)"

lemma sample_call: "reachable (rb_step 2 [0, 1]) (rb_new 2) (one_comes 0)"
  using reachable.move [OF reachable.start, of "rb_step 2 [0, 1]" "rb_new 2" 0] rb_step.call [of 0 "[0, 1]" "rb_new 2" 2]
  by (simp add: one_comes_def rb_new_def)

lemma sample_steps:
  "rb_step 2 [0, 1] (one_comes 0) 0 (one_comes 1)" "rb_step 2 [0, 1] (one_comes 1) 0 (one_comes 2)"
  "rb_step 2 [0, 1] (one_comes 2) 0 (one_comes 3)" "rb_step 2 [0, 1] (one_comes 3) 0 (one_comes 4)"
  "rb_step 2 [0, 1] (one_comes 4) 0 (one_comes 5)"
  using rb_step.lock [of 0 "[0, 1]" "one_comes 0" 2] rb_step.arrive [of 0 "[0, 1]" "one_comes 1" 2]
    rb_step.waits [of 0 "[0, 1]" "one_comes 2" 0 2] rb_step.blocks [of 0 "[0, 1]" "one_comes 3" 0 0 2]
    rb_step.decides [of 0 "[0, 1]" "one_comes 4" 0 0 "one_comes 5" 2]
  by (simp_all add: one_comes_def rb_new_def Let_def wait_release_def wait_decide_def)

lemma sample_reachable: "reachable (rb_step 2 [0, 1]) (rb_new 2) (one_comes 5)"
  by (rule reachable.move [OF reachable.move [OF reachable.move [OF reachable.move [OF reachable.move [OF sample_call
    sample_steps(1)] sample_steps(2)] sample_steps(3)] sample_steps(4)] sample_steps(5)])

lemma sample_end: "c_pc (one_comes 5) 0 = RWaits 0 CQueued" "c_pc (one_comes 5) 1 = ROut" "r_done (one_comes 5) t = 0"
  by (simp_all add: one_comes_def rb_new_def Let_def)

text \<open>
  C32. No run of the threads of a reusable barrier fails an assertion, and no thread has left the barrier more often
  than every other thread has arrived at it.
\<close>

theorem reusable_barrier_safe:
  assumes "reachable (rb_step initial_count ts) (rb_new initial_count) s" and "distinct ts"
    and "length ts = unat initial_count" and "initial_count \<noteq> 0" and "t \<in> set ts" and "u \<in> set ts"
  shows "c_pc s t \<noteq> RFailed \<and> r_done s t \<le> r_done s u + of_bool (has_arrived (c_pc s u))"
  using done_bounds [OF rb_invD(8) [OF rb_inv_reachable [OF assms(1-4)] assms(5)]]
    done_bounds [OF rb_invD(8) [OF rb_inv_reachable [OF assms(1-4)] assms(6)]] by linarith

theorem reusable_barrier_safe_witness:
  "reachable (rb_step 2 [0, 1]) (rb_new 2) (one_comes 5) \<and> c_pc (one_comes 5) 0 = RWaits 0 CQueued \<and>
   c_pc (one_comes 5) 1 \<noteq> RFailed \<and> r_done (one_comes 5) 1 \<le> r_done (one_comes 5) 0 + of_bool (has_arrived (c_pc (one_comes 5) 0))"
  using reusable_barrier_safe [of 2 "[0, 1]" "one_comes 5" 1 0] sample_reachable sample_end(1) by simp

section \<open>Every thread gets out\<close>

text \<open>Runs in which no thread calls \<^verbatim>\<open>sync\<close>.\<close>

inductive rb_runs :: "u32 \<Rightarrow> nat list \<Rightarrow> nat \<Rightarrow> rb \<Rightarrow> rb \<Rightarrow> bool" for initial_count ts where
  stays: "rb_runs initial_count ts 0 s s"
| steps: "rb_runs initial_count ts n s s' \<Longrightarrow> rb_step initial_count ts s' t s'' \<Longrightarrow> c_pc s' t \<noteq> ROut \<Longrightarrow> rb_runs initial_count ts (Suc n) s s''"

definition quiet :: "u32 \<Rightarrow> nat list \<Rightarrow> rb \<Rightarrow> bool" where
  "quiet initial_count ts s \<longleftrightarrow> (\<forall>t s'. rb_step initial_count ts s t s' \<longrightarrow> c_pc s t = ROut)"

fun weight :: "nat \<Rightarrow> rb_pc \<Rightarrow> nat" where
  "weight E REnters = 9" | "weight E RArrived = 8" | "weight E (RLoop r) = (if r = E then 7 else 2)"
| "weight E (RWaits r (CReleased e)) = 6" | "weight E (RWaits r (CDecides e)) = 5" | "weight E (RWaits r CQueued) = 4"
| "weight E (RWaits r CReady) = 3" | "weight E RLeaves = 1" | "weight E ROut = 0" | "weight E RFailed = 0"

lemma weight_le: "weight E p \<le> 9"
  by (cases "(E, p)" rule: weight.cases) auto

definition work :: "nat list \<Rightarrow> rb \<Rightarrow> nat" where
  "work ts s = sum_list (map (\<lambda>t. weight (r_epoch s) (c_pc s t)) ts)"

lemma work_less:
  assumes "t \<in> set ts" and "weight (r_epoch s') (c_pc s' t) < weight (r_epoch s) (c_pc s t)"
    and "\<And>u. u \<in> set ts \<Longrightarrow> u \<noteq> t \<Longrightarrow> weight (r_epoch s') (c_pc s' u) \<le> weight (r_epoch s) (c_pc s u)"
  shows "work ts s' < work ts s"
proof -
  have le: "work us s' \<le> work us s" if "set us \<subseteq> set ts" for us
    unfolding work_def by (rule sum_list_mono) (use that assms(2,3) less_imp_le in blast)
  obtain us vs where ts: "ts = us @ t # vs" using split_list [OF assms(1)] by blast
  have "work us s' \<le> work us s" and "work vs s' \<le> work vs s" using le ts by auto
  then show ?thesis using assms(2) ts by (simp add: work_def)
qed

lemma step_works:
  assumes st: "rb_step ic ts s t s'" and inv: "rb_inv ic ts s" and d: "distinct ts" and len: "length ts = unat ic" and called: "c_pc s t \<noteq> ROut"
  shows "work ts s' < work ts s"
  using st
proof cases
  case last_one
  show ?thesis unfolding last_one(1) last_state [OF inv d len]
  proof (rule work_less [OF last_one(2)])
    fix u assume u: "u \<in> set ts" "u \<noteq> t"
    show "weight (r_epoch (rgo (s\<lparr>r_epoch := r_epoch s + 1, r_count := ic, c_epoch := c_epoch s + 1, c_queue := [],
        c_pc := \<lambda>t. if t \<in> set (c_queue s) then readied (c_pc s t) else c_pc s t\<rparr>) t RLeaves))
      (c_pc (rgo (s\<lparr>r_epoch := r_epoch s + 1, r_count := ic, c_epoch := c_epoch s + 1, c_queue := [],
        c_pc := \<lambda>t. if t \<in> set (c_queue s) then readied (c_pc s t) else c_pc s t\<rparr>) t RLeaves) u) \<le> weight (r_epoch s) (c_pc s u)"
      using last_others [OF inv d len last_one(2,3,5) u] u(2) by (auto simp: readied_def)
  qed (simp add: last_one(3))
next
  case (decides r e)
  then show ?thesis by (intro work_less [OF decides(1)]) (auto simp: wait_decide_def split: if_splits)
next
  case (waits r)
  have "r = r_epoch s" using rb_invD(8) [OF inv waits(2)] waits(3,4) by auto
  then show ?thesis using waits by (intro work_less [OF waits(2)]) (auto simp: wait_release_def)
next
  case (wakes r)
  have "r + 1 = r_epoch s" using rb_invD(8) [OF inv wakes(2)] wakes(3) by auto
  then show ?thesis using wakes by (intro work_less [OF wakes(2)]) auto
qed (use called in \<open>auto intro!: work_less [of t]\<close>)

lemma runs_inv:
  assumes "rb_runs ic ts n s s'" and "rb_inv ic ts s" and "distinct ts" and "length ts = unat ic" and "ic \<noteq> 0"
  shows "rb_inv ic ts s' \<and> n + work ts s' \<le> work ts s"
  using assms
proof (induction rule: rb_runs.induct)
  case (steps n s s' t s'')
  then have I: "rb_inv ic ts s'" and n: "n + work ts s' \<le> work ts s" by simp_all
  show ?case using rb_inv_step [OF steps.hyps(2) I steps.prems(2,3,4)] step_works [OF steps.hyps(2) I steps.prems(2,3) steps.hyps(3)] n by simp
qed simp

lemma work_le: "work ts s \<le> 9 * length ts"
proof (induction ts)
  case (Cons t ts)
  then show ?case using weight_le [of "r_epoch s" "c_pc s t"] by (simp add: work_def)
qed (simp add: work_def)

text \<open>Who can take a step.\<close>

lemma holder_steps: "t \<in> set ts \<Longrightarrow> has_lock (c_pc s t) \<Longrightarrow> \<exists>s'. rb_step ic ts s t s'"
proof (cases "c_pc s t" rule: has_lock.cases)
  case 1
  assume "t \<in> set ts"
  with 1 show ?thesis using rb_step.fails rb_step.arrive rb_step.last_one by blast
next
  case (2 r)
  assume "t \<in> set ts"
  with 2 show ?thesis using rb_step.waits rb_step.leaves by blast
next
  case (4 r e)
  assume "t \<in> set ts"
  with 4 show ?thesis using rb_step.decides rb_step.decide_fails by (cases "wait_decide (RWaits r) t e s") blast+
next
  case 3
  assume "t \<in> set ts"
  with 3 show ?thesis using rb_step.unlock by blast
qed simp_all

lemma free_steps:
  assumes "t \<in> set ts" and "\<not> taken s" and "\<not> has_lock (c_pc s t)" and "\<not> is_queued (c_pc s t)" and "c_pc s t \<noteq> RFailed"
  shows "\<exists>s'. rb_step ic ts s t s'"
proof (cases "c_pc s t")
  case (RWaits r w)
  show ?thesis
  proof (cases w)
    case (CReleased e)
    then show ?thesis using RWaits assms(1,2) rb_step.blocks by blast
  next
    case CReady
    then show ?thesis using RWaits assms(1,2) rb_step.wakes by blast
  qed (use RWaits assms in auto)
next
  case ROut
  then show ?thesis using assms(1) rb_step.call by blast
next
  case REnters
  then show ?thesis using assms(1,2) rb_step.lock by blast
qed (use assms in auto)

lemma quiet_free:
  assumes q: "quiet ic ts s" and inv: "rb_inv ic ts s"
  shows "\<not> taken s"
proof -
  have "\<not> has_lock (c_pc s t)" if "t \<in> set ts" for t
    using holder_steps [OF that, of s ic] q by (auto simp: quiet_def)
  then have "tally ts has_lock (c_pc s) = 0" by (rule tally_zero)
  then show ?thesis using rb_invD(1) [OF inv] by simp
qed

lemma quiet_states:
  assumes q: "quiet ic ts s" and inv: "rb_inv ic ts s" and t: "t \<in> set ts"
  shows "c_pc s t = ROut \<and> r_done s t = r_epoch s \<or> c_pc s t = RWaits (r_epoch s) CQueued \<and> r_done s t = r_epoch s"
proof -
  have ok: "pc_ok (r_epoch s) (r_done s t) (c_pc s t)" by (rule rb_invD(8) [OF inv t])
  have "\<not> has_lock (c_pc s t)" using holder_steps [OF t, of s ic] q by (auto simp: quiet_def)
  then have "is_queued (c_pc s t) \<or> c_pc s t = ROut"
    using free_steps [OF t quiet_free [OF q inv], of ic] q done_bounds [OF ok] by (auto simp: quiet_def)
  then show ?thesis using ok by (cases "c_pc s t" rule: is_queued.cases) auto
qed

text \<open>
  C33. While no thread calls \<^verbatim>\<open>sync\<close>, the threads of a reusable barrier take at most 9 steps each; when none can take
  one, a thread is blocked in \<^verbatim>\<open>sync\<close> only because another one, that has left the barrier as often, has not come to it.
\<close>

theorem reusable_barrier_live:
  assumes "reachable (rb_step initial_count ts) (rb_new initial_count) s" and "distinct ts"
    and "length ts = unat initial_count" and "initial_count \<noteq> 0" and "rb_runs initial_count ts n s s'"
  shows "n \<le> 9 * length ts \<and>
    (quiet initial_count ts s' \<longrightarrow> (\<forall>t \<in> set ts. c_pc s' t = ROut \<or>
      (c_pc s' t = RWaits (r_done s' t) CQueued \<and> (\<exists>u \<in> set ts. c_pc s' u = ROut \<and> r_done s' u = r_done s' t))))"
proof (intro conjI impI ballI)
  have inv: "rb_inv initial_count ts s'" and n: "n + work ts s' \<le> work ts s"
    using runs_inv [OF assms(5) rb_inv_reachable [OF assms(1-4)] assms(2-4)] by simp_all
  show "n \<le> 9 * length ts" using n work_le [of ts s] by simp
  fix t assume q: "quiet initial_count ts s'" and t: "t \<in> set ts"
  have "\<exists>u \<in> set ts. c_pc s' u = ROut"
  proof (rule ccontr)
    assume "\<not> ?thesis"
    then have "here (r_epoch s') (c_pc s' u)" if "u \<in> set ts" for u using quiet_states [OF q inv that] that by auto
    then have "tally ts (\<lambda>p. \<not> here (r_epoch s') p) (c_pc s') = 0" by (intro tally_zero) simp
    then have "tally ts (here (r_epoch s')) (c_pc s') = int (length ts)" using tally_not [of ts "here (r_epoch s')" "c_pc s'"] by simp
    then have "int (unat (r_count s')) = 0" using rb_invD(2) [OF inv] assms(3) by simp
    then show False using rb_invD(3) [OF inv] by (simp add: uint_0_iff)
  qed
  then obtain u where u: "u \<in> set ts" "c_pc s' u = ROut" by blast
  show "c_pc s' t = ROut \<or> (c_pc s' t = RWaits (r_done s' t) CQueued \<and> (\<exists>u \<in> set ts. c_pc s' u = ROut \<and> r_done s' u = r_done s' t))"
    using quiet_states [OF q inv t] quiet_states [OF q inv u(1)] u by auto
qed

lemma sample_runs: "rb_runs 2 [0, 1] 5 (one_comes 0) (one_comes 5)"
proof -
  have "rb_runs 2 [0, 1] (Suc (Suc (Suc (Suc (Suc 0))))) (one_comes 0) (one_comes 5)"
    by (rule rb_runs.steps [OF rb_runs.steps [OF rb_runs.steps [OF rb_runs.steps [OF rb_runs.steps [OF rb_runs.stays
      sample_steps(1)] sample_steps(2)] sample_steps(3)] sample_steps(4)] sample_steps(5)])
      (simp_all add: one_comes_def rb_new_def Let_def)
  then show ?thesis by (simp add: eval_nat_numeral)
qed

lemma sample_quiet: "quiet 2 [0, 1] (one_comes 5)"
  unfolding quiet_def by (auto simp: one_comes_def rb_new_def Let_def elim!: rb_stepE split: if_splits)

theorem reusable_barrier_live_witness:
  "rb_runs 2 [0, 1] 5 (one_comes 0) (one_comes 5) \<and> (5 :: nat) \<le> 9 * length [0 :: nat, 1] \<and> c_pc (one_comes 5) 0 = RWaits 0 CQueued \<and>
   (\<exists>u \<in> set [0, 1]. c_pc (one_comes 5) u = ROut \<and> r_done (one_comes 5) u = r_done (one_comes 5) 0)"
proof -
  have "5 \<le> 9 * length [0 :: nat, 1] \<and> (quiet 2 [0, 1] (one_comes 5) \<longrightarrow> (\<forall>t \<in> set [0, 1]. c_pc (one_comes 5) t = ROut \<or>
      (c_pc (one_comes 5) t = RWaits (r_done (one_comes 5) t) CQueued \<and>
        (\<exists>u \<in> set [0, 1]. c_pc (one_comes 5) u = ROut \<and> r_done (one_comes 5) u = r_done (one_comes 5) t))))"
    by (rule reusable_barrier_live [OF sample_call _ _ _ sample_runs]) simp_all
  with sample_quiet sample_runs sample_end(1) show ?thesis by simp
qed

end
