(* ===== verification/Sys_Types.thy ===== *)
theory Sys_Types
  imports Sys_Props
begin

text \<open>
  The types of the kernel's data: tables have their lengths and pointers point to objects that have been made. Every system
  call keeps this, whatever the program asks for.
\<close>

section \<open>Well-formed states\<close>

definition pointers_below :: "nat \<Rightarrow> nat option list \<Rightarrow> bool" where
  "pointers_below n xs \<longleftrightarrow> length xs = 10 \<and> (\<forall>i. Some i \<in> set xs \<longrightarrow> i < n)"

definition typed_process :: "'d kernel \<Rightarrow> process \<Rightarrow> bool" where
  "typed_process k x \<longleftrightarrow>
     pointers_below (next_file k) (files x) \<and> pointers_below (next_sem k) (sems x) \<and> pointers_below (next_future k) (children x) \<and>
     p_output x < next_future k"

definition typed_kernel :: "'d kernel \<Rightarrow> bool" where
  "typed_kernel k \<longleftrightarrow> (\<forall>p. typed_process k (procs k p)) \<and> (\<forall>f < next_future k. go (futures k f) < next_sem k)"

lemma pointers_mono: "pointers_below n xs \<Longrightarrow> n \<le> m \<Longrightarrow> pointers_below m xs"
  by (auto simp: pointers_below_def)

lemma pointers_Suc: "pointers_below n xs \<Longrightarrow> pointers_below (Suc n) xs"
  by (erule pointers_mono) simp

lemma pointers_update:
  assumes "pointers_below n xs" and "\<And>j. x = Some j \<Longrightarrow> j < n"
  shows "pointers_below n (xs[i := x])"
proof -
  have "set (xs[i := x]) \<subseteq> insert x (set xs)" by (rule set_update_subset_insert)
  then show ?thesis using assms unfolding pointers_below_def by auto
qed

lemma pointers_set: "pointers_below n xs \<Longrightarrow> pointers_below n (xs[i := None])" "pointers_below n xs \<Longrightarrow> j < n \<Longrightarrow> pointers_below n (xs[i := Some j])"
  by (rule pointers_update, simp_all)+

lemma pointers_none: "pointers_below n (replicate 10 None)"
  by (simp add: pointers_below_def)

text \<open>What typing depends on.\<close>

definition objects :: "'d kernel \<Rightarrow> (nat \<Rightarrow> process) \<times> nat \<times> nat \<times> (nat \<Rightarrow> future) \<times> nat" where
  "objects k = (procs k, next_file k, next_sem k, futures k, next_future k)"

lemma typed_objects: "objects k' = objects k \<Longrightarrow> typed_kernel k' = typed_kernel k"
  by (simp add: objects_def typed_kernel_def typed_process_def)

lemma typed_same: "objects k' = objects k \<Longrightarrow> typed_process k' x = typed_process k x"
  by (simp add: objects_def typed_process_def)

section \<open>Operations that make and change no objects\<close>

definition plain :: "('d kernel, 'a) st \<Rightarrow> bool" where
  "plain m \<longleftrightarrow> (\<forall>k x k'. m k = Inr (x, k') \<longrightarrow> objects k' = objects k)"

named_theorems plains

lemma plain_sbind [plains]: "plain m \<Longrightarrow> (\<And>x. plain (f x)) \<Longrightarrow> plain (sbind m f)"
  unfolding plain_def sbind_def by (fastforce split: sum.splits)

lemma plain_if [plains]: "plain m \<Longrightarrow> plain n \<Longrightarrow> plain (if b then m else n)"
  by simp

lemma plain_option [plains]: "plain m \<Longrightarrow> (\<And>x. plain (f x)) \<Longrightarrow> plain (case y of None \<Rightarrow> m | Some x \<Rightarrow> f x)"
  by (cases y) simp_all

lemma plain_pair [plains]: "(\<And>x y. plain (f x y)) \<Longrightarrow> plain (case p of (x, y) \<Rightarrow> f x y)"
  by (cases p) simp

text \<open>An operation that looks at the state first.\<close>

lemma plain_here: "(\<And>k0. plain (f k0)) \<Longrightarrow> plain (\<lambda>k. f k k)"
  by (simp add: plain_def)

lemma plainD: "plain m \<Longrightarrow> m k = Inr (x, k') \<Longrightarrow> objects k' = objects k"
  by (simp add: plain_def)

lemma plain_basic [plains]:
  "plain (ret x)" "plain (fail e)" "plain (assert b)" "plain (on_io m)" "plain (on_phys n)" "plain (on_threads t)"
  "plain (this_proc E)" "plain (get_proc p)"
  by (auto simp: plain_def ret_def fail_def assert_def on_io_def on_phys_def on_threads_def this_proc_def get_proc_def objects_def
    split: sum.splits option.splits)

lemma plain_memory [plains]: "plain (walk E va)" "plain (touch E va)" "plain (load8 E va)" "plain (store8 E va b)"
proof -
  show w: "plain (walk E va)" by (auto simp: plain_def walk_def split: option.splits)
  show t: "plain (touch E va)"
    unfolding plain_def
  proof (intro allI impI)
    fix k x k' assume r: "touch E va k = Inr (x, k')"
    let ?d = "pd (procs k (cur_proc E k))"
    show "objects k' = objects k"
    proof (cases "translate (pm_mem (phys k)) ?d va = None")
      case True
      then have "sbind (on_phys (vmm_pageFault ?d ?d ?d va)) (\<lambda>_. walk E va) k = Inr (x, k')" using r by (simp add: touch_def Let_def)
      then show ?thesis by (rule plainD [OF plain_sbind [OF plain_basic(5) w]])
    next
      case False
      then have "walk E va k = Inr (x, k')" using r unfolding touch_def Let_def by (simp only: if_False)
      then show ?thesis by (rule plainD [OF w])
    qed
  qed
  show "plain (load8 E va)" "plain (store8 E va b)"
    unfolding load8_def store8_def by (rule plain_sbind [OF t], simp add: plain_def objects_def Let_def)+
qed

lemma plain_bytes [plains]: "plain (load_bytes E n va)" "plain (store_bytes E va xs)" "plain (load_string n E va)"
proof -
  show "plain (load_bytes E n va)" by (induction n arbitrary: va) (simp_all, (intro plains | simp)+)
  show "plain (store_bytes E va xs)" by (induction xs arbitrary: va) (simp_all, (intro plains | simp)+)
  show "plain (load_string n E va)" by (induction n arbitrary: va) (simp_all, (intro plains | simp)+)
qed

lemma plain_words [plains]: "plain (load32 E va)" "plain (store32 E va v)" "plain (arg E sp i)" "plain (node_reader E nd off n)" "plain (find_path E path)"
  unfolding load32_def store32_def arg_def node_reader_def find_path_def by (intro plains)+

text \<open>The loops of the loader and of \<^verbatim>\<open>execl\<close>.\<close>

lemma plain_loops [plains]:
  "plain (elf_segments E nd hoff step n)" "plain (exec_args E sp st argv)" "plain (follow j r E nd)" "plain (count_args n E sp i)"
  "plain (load_strings E as)" "plain (check_headers E nd hoff n)"
proof -
  show "plain (elf_segments E nd hoff step n)"
    by (induction n arbitrary: hoff) (simp_all add: Let_def bio_read_thing_def, (intro plains | simp)+)
  show "plain (exec_args E sp st argv)" by (induction argv arbitrary: sp st) (simp_all add: Let_def, (intro plains | simp)+)
  show "plain (follow j r E nd)"
  proof (induction j arbitrary: nd)
    case 0
    show ?case unfolding follow.simps by (intro plains)
  next
    case (Suc j)
    show ?case unfolding follow.simps by (intro plains Suc.IH)
  qed
  show "plain (count_args n E sp i)" by (induction n arbitrary: i) (simp_all, (intro plains | simp)+)
  show "plain (load_strings E as)" by (induction as) (simp_all, (intro plains | simp)+)
  show "plain (check_headers E nd hoff n)" by (induction n) (simp_all add: Let_def bio_read_thing_def, (intro plains | simp)+)
qed

lemma plain_exec [plains]: "plain (elf_load E nd)" "plain (exec E path argv)"
  unfolding elf_load_def exec_def Let_def bio_read_thing_def by (intro plains)+

lemma plain_woken [plains]: "plain (future_woken f)"
  unfolding future_woken_def by (rule plain_here) (rule plain_sbind [OF plain_basic(6)], simp add: plain_def)

lemma plain_get [plains]: "plain (future_get c f)"
  unfolding plain_def
proof (intro allI impI)
  fix k x k' assume r: "future_get c f k = Inr (x, k')"
  show "objects k' = objects k"
  proof (cases "isReady (futures k f)")
    case False
    then have "sbind (on_threads (down (go (futures k f)) c))
        (\<lambda>_. if s_count (semas (threads k) (go (futures k f))) = 0 then ret None else sbind (future_woken f) (\<lambda>v. ret (Some v))) k = Inr (x, k')"
      using r unfolding future_get_def Let_def by (simp only: if_False)
    then show ?thesis by (rule plainD [rotated]) (intro plains)
  qed (use r in \<open>simp add: future_get_def\<close>)
qed

lemma plain_wait [plains]: "plain (wait c p d)" "plain (clear_private cfg cr3 p)"
  unfolding wait_def clear_private_def by (intro plains)+

section \<open>Operations that keep the types\<close>

definition keeps :: "('d kernel, 'a) st \<Rightarrow> bool" where
  "keeps m \<longleftrightarrow> (\<forall>k x k'. typed_kernel k \<longrightarrow> m k = Inr (x, k') \<longrightarrow> typed_kernel k')"

lemma keepsD: "keeps m \<Longrightarrow> typed_kernel k \<Longrightarrow> m k = Inr (x, k') \<Longrightarrow> typed_kernel k'"
  by (simp add: keeps_def)

lemma plain_keeps: "plain m \<Longrightarrow> keeps m"
  unfolding keeps_def by (auto dest!: plainD typed_objects)

lemma keeps_sbind: "keeps m \<Longrightarrow> (\<And>x. keeps (f x)) \<Longrightarrow> keeps (sbind m f)"
proof -
  assume m: "keeps m" and f: "\<And>x. keeps (f x)"
  show ?thesis
    unfolding keeps_def
  proof (intro allI impI)
    fix k x k' assume k: "typed_kernel k" and r: "sbind m f k = Inr (x, k')"
    obtain y u where "m k = Inr (y, u)" "f y u = Inr (x, k')" using r by (auto simp: sbind_def split: sum.splits)
    then show "typed_kernel k'" using keepsD [OF m k] keepsD [OF f] by blast
  qed
qed

lemma keeps_if: "keeps m \<Longrightarrow> keeps n \<Longrightarrow> keeps (if b then m else n)"
  by simp

lemma keeps_option: "keeps m \<Longrightarrow> (\<And>x. keeps (f x)) \<Longrightarrow> keeps (case y of None \<Rightarrow> m | Some x \<Rightarrow> f x)"
  by (cases y) simp_all

lemma keeps_here: "(\<And>k0. keeps (f k0)) \<Longrightarrow> keeps (\<lambda>k. f k k)"
  by (simp add: keeps_def)

text \<open>What follows \<^verbatim>\<open>this_proc\<close> may rely on the type of the process.\<close>

lemma keeps_this:
  assumes "\<And>k x k' y. typed_kernel k \<Longrightarrow> typed_process k x \<Longrightarrow> f x k = Inr (y, k') \<Longrightarrow> typed_kernel k'"
  shows "keeps (sbind (this_proc E) f)"
  unfolding keeps_def
proof (intro allI impI)
  fix k x k' assume k: "typed_kernel k" and r: "sbind (this_proc E) f k = Inr (x, k')"
  have "typed_process k (procs k (cur_proc E k))" using k by (simp add: typed_kernel_def)
  moreover have "f (procs k (cur_proc E k)) k = Inr (x, k')" using r by (simp add: sbind_def this_proc_def)
  ultimately show "typed_kernel k'" by (rule assms [OF k])
qed

lemma typed_put: "typed_kernel k \<Longrightarrow> typed_process k x \<Longrightarrow> put_proc E x k = Inr (y, k') \<Longrightarrow> typed_kernel k'"
  by (auto simp: put_proc_def set_proc_def typed_kernel_def typed_process_def)

lemma typed_set: "typed_kernel k \<Longrightarrow> typed_process k x \<Longrightarrow> set_proc p x k = Inr (y, k') \<Longrightarrow> typed_kernel k' \<and> typed_process k' = typed_process k"
  by (auto simp: set_proc_def typed_kernel_def typed_process_def)

text \<open>New objects.\<close>

lemma typed_make_file:
  "typed_kernel k \<Longrightarrow> make_file f k = Inr (i, k') \<Longrightarrow>
   typed_kernel k' \<and> i < next_file k' \<and> (\<forall>x. typed_process k x \<longrightarrow> typed_process k' x) \<and> procs k' = procs k"
  by (auto simp: make_file_def typed_kernel_def typed_process_def pointers_Suc)

lemma typed_make_sem:
  "typed_kernel k \<Longrightarrow> make_sem n k = Inr (i, k') \<Longrightarrow>
   typed_kernel k' \<and> i < next_sem k' \<and> (\<forall>x. typed_process k x \<longrightarrow> typed_process k' x) \<and> procs k' = procs k"
  by (auto simp: make_sem_def Let_def typed_kernel_def typed_process_def pointers_Suc less_SucI)

lemma typed_make_future:
  "typed_kernel k \<Longrightarrow> make_future k = Inr (i, k') \<Longrightarrow>
   typed_kernel k' \<and> i < next_future k' \<and> (\<forall>x. typed_process k x \<longrightarrow> typed_process k' x) \<and> procs k' = procs k"
  by (auto simp: make_future_def make_sem_def sbind_def Let_def typed_kernel_def typed_process_def less_Suc_eq pointers_Suc)

lemma sbind_Inr: "sbind m f k = Inr (x, k') \<longleftrightarrow> (\<exists>y u. m k = Inr (y, u) \<and> f y u = Inr (x, k'))"
  by (auto simp: sbind_def split: sum.splits)

lemma typed_close: "typed_process k x \<Longrightarrow> typed_process k (fst (close d x))"
  by (auto simp: close_def typed_process_def pointers_set split: option.splits)

lemma typed_setFile: "typed_process k x \<Longrightarrow> f < next_file k \<Longrightarrow> typed_process k (fst (setFile (Some f) x))"
  by (auto simp: setFile_def typed_process_def pointers_set split: option.splits)

lemma keeps_future_set: "keeps (future_set f v)"
  unfolding keeps_def
proof (intro allI impI)
  fix k :: "'d kernel" and x k' assume k: "typed_kernel k" and r: "future_set f v k = Inr (x, k')"
  let ?k = "k\<lparr>futures := (futures k)(f := (futures k f)\<lparr>f_t := v, isReady := True\<rparr>)\<rparr>"
  have "on_threads (up (go (futures k f))) ?k = Inr (x, k')"
    using r by (auto simp: future_set_def sbind_Inr assert_def ret_def fail_def split: if_splits)
  then have "objects k' = objects ?k" by (rule plainD [OF plain_basic(6)])
  then have "typed_kernel k' = typed_kernel ?k" by (rule typed_objects)
  then show "typed_kernel k'" using k by (simp add: typed_kernel_def typed_process_def)
qed

lemma keeps_newSemaphore: "keeps (newSemaphore p n)"
  unfolding keeps_def
proof (intro allI impI)
  fix k :: "'d kernel" and x k' assume k: "typed_kernel k" and r: "newSemaphore p n k = Inr (x, k')"
  show "typed_kernel k'"
  proof (cases "first_null 0 (sems (procs k p))")
    case None
    then show ?thesis using r k by (simp add: newSemaphore_def sbind_Inr get_proc_def ret_def)
  next
    case (Some i)
    then obtain j k1 where j: "make_sem n k = Inr (j, k1)"
      "set_proc p ((procs k p)\<lparr>sems := (sems (procs k p))[i := Some j]\<rparr>) k1 = Inr ((), k')"
      using r by (auto simp: newSemaphore_def sbind_Inr get_proc_def ret_def)
    note M = typed_make_sem [OF k j(1)]
    have "typed_process k1 (procs k p)" using M k by (simp add: typed_kernel_def)
    then have "typed_process k1 ((procs k p)\<lparr>sems := (sems (procs k p))[i := Some j]\<rparr>)"
      using M by (simp add: typed_process_def pointers_set)
    then show ?thesis using typed_set [OF _ _ j(2)] M by blast
  qed
qed

lemma typed_make_process:
  assumes k: "typed_kernel k" and r: "make_process cfg sh isInit k = Inr (p, k')"
  shows "typed_kernel k' \<and> (\<forall>x. typed_process k x \<longrightarrow> typed_process k' x)"
proof -
  obtain out k1 where 1: "make_future k = Inr (out, k1)" using r by (auto simp: make_process_def sbind_Inr)
  note M1 = typed_make_future [OF k 1]
  obtain s d where 2: "make_pd cfg sh (phys k1) = Inr (s, d)" using r 1 by (auto simp: make_process_def sbind_Inr split: sum.splits)
  have o2: "objects (k1\<lparr>phys := s\<rparr>) = objects k1" by (simp add: objects_def)
  obtain fs k3 where 3: "(if isInit then sbind (make_file U8250File) (\<lambda>f. ret (replicate 3 (Some f) @ replicate 7 None)) else ret (replicate NFILE None))
      (k1\<lparr>phys := s\<rparr>) = Inr (fs, k3)"
    and k': "k' = k3\<lparr>procs := (procs k3)(next_proc k3 := \<lparr>files = fs, sems = replicate NSEM None, children = replicate NCHILD None, p_output = out, pd = d\<rparr>),
        next_proc := next_proc k3 + 1\<rparr>"
    using r 1 2 by (auto simp: make_process_def sbind_Inr)
  have T2: "typed_kernel (k1\<lparr>phys := s\<rparr>)" "typed_process (k1\<lparr>phys := s\<rparr>) = typed_process k1"
    using typed_objects [OF o2] typed_same [OF o2] M1 by (auto simp: fun_eq_iff)
  have T3: "typed_kernel k3 \<and> pointers_below (next_file k3) fs \<and> next_future k3 = next_future k1 \<and> (\<forall>x. typed_process k1 x \<longrightarrow> typed_process k3 x)"
  proof (cases isInit)
    case True
    then obtain f where f: "make_file U8250File (k1\<lparr>phys := s\<rparr>) = Inr (f, k3)" "fs = replicate 3 (Some f) @ replicate 7 None"
      using 3 by (auto simp: sbind_Inr ret_def)
    moreover have "next_future k3 = next_future k1" using f(1) by (auto simp: make_file_def)
    ultimately show ?thesis using typed_make_file [OF T2(1) f(1)] T2(2) by (auto simp: pointers_below_def)
  next
    case False
    then show ?thesis using 3 T2 by (auto simp: ret_def NFILE_def pointers_none)
  qed
  have "out < next_future k3" using M1 T3 by simp
  then show ?thesis using T3 M1 unfolding k' by (auto simp: typed_kernel_def typed_process_def NSEM_def NCHILD_def pointers_none)
qed

lemma pointers_map:
  assumes "pointers_below n xs" and "pointers_below n ys" and "\<And>i. i < 10 \<Longrightarrow> f i = xs ! i \<or> f i = ys ! i"
  shows "pointers_below n (map f [0..<10])"
proof -
  have "f i \<in> set xs \<union> set ys" if "i < 10" for i
    using assms(3) [OF that] that assms(1,2) by (auto simp: pointers_below_def)
  then have "set (map f [0..<10]) \<subseteq> set xs \<union> set ys"
    unfolding set_map set_upt image_subset_iff by (metis atLeastLessThan_iff)
  then show ?thesis using assms(1,2) unfolding pointers_below_def by fastforce
qed

lemma keeps_fork: "keeps (process_fork cfg sh p)"
  unfolding keeps_def
proof (intro allI impI)
  fix k :: "'d kernel" and r k' assume k: "typed_kernel k" and run: "process_fork cfg sh p k = Inr (r, k')"
  let ?x = "procs k p"
  show "typed_kernel k'"
  proof (cases "first_null 0 (children ?x)")
    case None
    then show ?thesis using run k by (simp add: process_fork_def sbind_Inr get_proc_def ret_def)
  next
    case (Some index)
    obtain child k1 where 1: "make_process cfg sh False k = Inr (child, k1)"
      using run Some by (auto simp: process_fork_def sbind_Inr get_proc_def)
    let ?y = "procs k1 child"
    let ?y' = "?y\<lparr>sems := map (\<lambda>i. if sems ?x ! i \<noteq> None then sems ?x ! i else sems ?y ! i) [0..<NSEM], files := map (\<lambda>i. files ?x ! i) [0..<NFILE]\<rparr>"
    obtain k2 k3 where 2: "on_phys (fork_pages (pd ?x) (pd ?y)) k1 = Inr ((), k2)" and 3: "set_proc child ?y' k2 = Inr ((), k3)"
      and 4: "set_proc p (?x\<lparr>children := (children ?x)[index := Some (p_output ?y)]\<rparr>) k3 = Inr ((), k')"
      using run Some 1 by (auto simp: process_fork_def sbind_Inr get_proc_def ret_def)
    note M = typed_make_process [OF k 1]
    have o2: "objects k2 = objects k1" by (rule plainD [OF plain_basic(5) 2])
    have x: "typed_process k1 ?x" and y: "typed_process k1 ?y" using M k by (auto simp: typed_kernel_def)
    have "pointers_below (next_sem k1) (map (\<lambda>i. if sems ?x ! i \<noteq> None then sems ?x ! i else sems ?y ! i) [0..<10])"
      by (rule pointers_map [where xs = "sems ?x" and ys = "sems ?y"]) (use x y in \<open>simp_all add: typed_process_def\<close>)
    moreover have "pointers_below (next_file k1) (map (\<lambda>i. files ?x ! i) [0..<10])"
      by (rule pointers_map [where xs = "files ?x" and ys = "files ?x"]) (use x in \<open>simp_all add: typed_process_def\<close>)
    ultimately have "typed_process k1 ?y'"
      using y by (simp add: typed_process_def NSEM_def NFILE_def del: upt_Suc upt_rec_numeral)
    then have "typed_process k2 ?y'" and t2: "typed_kernel k2" using typed_same [OF o2] typed_objects [OF o2] M by auto
    then have t3: "typed_kernel k3" "typed_process k3 = typed_process k2" using typed_set [OF _ _ 3] by blast+
    have "typed_process k1 (?x\<lparr>children := (children ?x)[index := Some (p_output ?y)]\<rparr>)"
      using x y by (simp add: typed_process_def pointers_set)
    then have "typed_process k3 (?x\<lparr>children := (children ?x)[index := Some (p_output ?y)]\<rparr>)" using t3 typed_same [OF o2] by simp
    then show ?thesis using typed_set [OF t3(1) _ 4] by blast
  qed
qed

section \<open>System calls\<close>

lemma plain_calls: "plain (sys_write E esp)" "plain (sys_up E esp)" "plain (sys_down E esp)" "plain (sys_len E esp)"
proof -
  show "plain (sys_write E esp)" unfolding sys_write_def
    by (intro plains) (rule plain_here, intro plains)
  show "plain (sys_up E esp)" unfolding sys_up_def by (intro plains)
  show "plain (sys_down E esp)" unfolding sys_down_def Let_def
    by (intro plains) (rule plain_here, intro plains)
  show "plain (sys_len E esp)" unfolding sys_len_def
    by (intro plains) (rule plain_here, intro plains)
qed

lemma plain_files: "plain (sys_read E esp)" "plain (sys_seek E esp)"
proof -
  have 1: "plain (\<lambda>k. sbind (store_bytes E buf xs) (\<lambda>_. ret r) (k\<lparr>file_objs := g k\<rparr>))" for buf xs r and g :: "'a kernel \<Rightarrow> nat \<Rightarrow> open_file"
    unfolding plain_def
  proof (intro allI impI)
    fix k x k' assume "sbind (store_bytes E buf xs) (\<lambda>_. ret r) (k\<lparr>file_objs := g k\<rparr>) = Inr (x, k')"
    then have "objects k' = objects (k\<lparr>file_objs := g k\<rparr>)" by (rule plainD [rotated]) (intro plains)
    then show "objects k' = objects k" by (simp add: objects_def)
  qed
  show "plain (sys_read E esp)" unfolding sys_read_def
    by (intro plains) (rule plain_here, intro plains 1)
  show "plain (sys_seek E esp)" unfolding sys_seek_def Let_def
    by (intro plains) (rule plain_here, intro plains, simp add: plain_def objects_def split: prod.splits)
qed

text \<open>A part that makes and changes no objects, then the rest.\<close>

lemmas keeps_after = keeps_sbind [OF plain_keeps]

lemma keeps_wait_clear: "keeps (wait_clear p i)"
  unfolding keeps_def
proof (intro allI impI)
  fix k :: "'d kernel" and x k' assume k: "typed_kernel k" and r: "wait_clear p i k = Inr (x, k')"
  have "typed_process k ((procs k p)\<lparr>children := (children (procs k p))[i := None]\<rparr>)"
    using k by (simp add: typed_kernel_def typed_process_def pointers_set)
  moreover have "set_proc p ((procs k p)\<lparr>children := (children (procs k p))[i := None]\<rparr>) k = Inr ((), k')"
    using r by (auto simp: wait_clear_def sbind_Inr get_proc_def)
  ultimately show "typed_kernel k'" using typed_set [OF k] by blast
qed

lemma keeps_waited: "keeps (sys_waited E i ptr v)"
  unfolding sys_waited_def
  by (rule keeps_after, rule plain_words, rule keeps_here, rule keeps_sbind [OF keeps_wait_clear plain_keeps], rule plain_basic)

lemma keeps_wait: "keeps (sys_wait E esp)"
proof -
  have 1: "keeps (case r of WaitFails \<Rightarrow> error | WaitBlocks i f \<Rightarrow> ret (Awaits i f ptr) | WaitValue i v \<Rightarrow> sys_waited E i ptr v)" for r ptr
    by (cases r) (simp_all add: keeps_waited plain_keeps [OF plain_basic(1)])
  show ?thesis
    unfolding sys_wait_def Let_def
    by (rule keeps_after, rule plain_basic, rule keeps_after, rule plain_words, rule keeps_if, rule plain_keeps, rule plain_basic,
      rule keeps_if, rule plain_keeps, rule plain_basic, rule keeps_after, rule plain_words, rule keeps_if, rule plain_keeps, rule plain_basic,
      rule keeps_here, rule keeps_after, rule plain_wait, rule 1)
qed

lemma keeps_exit: "keeps (sys_exit E esp)"
  unfolding sys_exit_def
  by (rule keeps_after, rule plain_words, rule keeps_after, rule plain_basic, rule keeps_here, rule keeps_after, rule plain_wait,
    rule keeps_sbind [OF keeps_future_set plain_keeps], intro plains)

lemma keeps_sys_close: "keeps (sys_close E esp)"
  unfolding sys_close_def
proof (rule keeps_after [OF plain_words(3)], rule keeps_this)
  fix d and k :: "'a kernel" and x k' y
  assume "typed_kernel k" "typed_process k x" "(let (x', r) = close d x in sbind (put_proc E x') (\<lambda>_. ret (Returns r))) k = Inr (y, k')"
  then show "typed_kernel k'"
    using typed_put [of k "fst (close d x)" E "()" k'] typed_close [of k x d] by (auto simp: split_def sbind_Inr ret_def Let_def)
qed

lemma keeps_sys_fork: "keeps (sys_fork E pc esp)"
proof -
  have 1: "plain (case child of None \<Rightarrow> error | Some p \<Rightarrow> sbind (on_threads (thread (bound E) (new_tid E) p (new_stack E)))
      (\<lambda>_ k. Inr (Returns index, k\<lparr>works := (works k)(new_tid E \<mapsto> (pc, esp))\<rparr>)))" for child index
    by (intro plains) (simp add: plain_def objects_def)
  show ?thesis
    unfolding sys_fork_def by (rule keeps_here, rule keeps_sbind [OF keeps_fork]) (use plain_keeps [OF 1] in \<open>simp add: split_def\<close>)
qed

lemma keeps_sys_sem: "keeps (sys_sem E esp)"
  unfolding sys_sem_def
  by (rule keeps_after, rule plain_words, rule keeps_here, rule keeps_sbind [OF keeps_newSemaphore plain_keeps], rule plain_basic)

lemma keeps_sys_open: "keeps (sys_open E esp)"
proof -
  have 1: "keeps (sbind (this_proc E) (\<lambda>x. sbind (make_file (ShobhitFile nd 0)) (\<lambda>f. let (x', r) = setFile (Some f) x in sbind (put_proc E x') (\<lambda>_. ret (Returns r)))))" for nd
  proof (rule keeps_this)
    fix k :: "'a kernel" and x k' y
    assume k: "typed_kernel k" "typed_process k x"
      and r: "sbind (make_file (ShobhitFile nd 0)) (\<lambda>f. let (x', r) = setFile (Some f) x in sbind (put_proc E x') (\<lambda>_. ret (Returns r))) k = Inr (y, k')"
    obtain f k1 where f: "make_file (ShobhitFile nd 0) k = Inr (f, k1)" "put_proc E (fst (setFile (Some f) x)) k1 = Inr ((), k')"
      using r by (auto simp: sbind_Inr split_def ret_def Let_def)
    note M = typed_make_file [OF k(1) f(1)]
    have "typed_process k1 (fst (setFile (Some f) x))" by (rule typed_setFile) (use M k(2) in blast)+
    then show "typed_kernel k'" using typed_put [OF _ _ f(2)] M by blast
  qed
  show ?thesis
    unfolding sys_open_def
    by (rule keeps_after, rule plain_words, rule keeps_if, rule plain_keeps, rule plain_basic, rule keeps_after, rule plain_bytes,
      rule keeps_after, rule plain_words, rule keeps_option, rule plain_keeps, rule plain_basic, rule keeps_after, rule plain_loops,
      rule keeps_option, rule plain_keeps, rule plain_basic, rule 1)
qed

lemma keeps_sys_execl: "keeps (sys_execl E esp)"
proof -
  have 1: "keeps (sbind (this_proc E) (\<lambda>x k. (sbind (clear_private (config E) (pd x) (cur_proc E k)) (\<lambda>_.
      sbind (put_proc E (x\<lparr>sems := replicate 10 None, children := replicate 10 None\<rparr>)) (\<lambda>_. exec E path argv))) k))" for path argv
  proof (rule keeps_this)
    fix k :: "'a kernel" and x k' y
    assume k: "typed_kernel k" "typed_process k x"
      and r: "(sbind (clear_private (config E) (pd x) (cur_proc E k)) (\<lambda>_.
        sbind (put_proc E (x\<lparr>sems := replicate 10 None, children := replicate 10 None\<rparr>)) (\<lambda>_. exec E path argv))) k = Inr (y, k')"
    obtain k1 k2 where 1: "clear_private (config E) (pd x) (cur_proc E k) k = Inr ((), k1)"
      and 2: "put_proc E (x\<lparr>sems := replicate 10 None, children := replicate 10 None\<rparr>) k1 = Inr ((), k2)" and 3: "exec E path argv k2 = Inr (y, k')"
      using r by (auto simp: sbind_Inr)
    have o1: "objects k1 = objects k" by (rule plainD [OF plain_wait(2) 1])
    have "typed_process k1 (x\<lparr>sems := replicate 10 None, children := replicate 10 None\<rparr>)"
      using k(2) typed_same [OF o1, of x] by (simp add: typed_process_def pointers_none)
    then have "typed_kernel k2" using typed_put [OF _ _ 2] typed_objects [OF o1] k(1) by blast
    then show "typed_kernel k'" using typed_objects [OF plainD [OF plain_exec(2) 3]] by simp
  qed
  have 2: "keeps (case as of None \<Rightarrow> error | Some as \<Rightarrow> sbind (load_strings E as) (\<lambda>argv. sbind (load_string (bound E) E pathp) (\<lambda>path.
      sbind (this_proc E) (\<lambda>x k. (sbind (clear_private (config E) (pd x) (cur_proc E k)) (\<lambda>_.
      sbind (put_proc E (x\<lparr>sems := replicate 10 None, children := replicate 10 None\<rparr>)) (\<lambda>_. exec E path argv))) k))))" for as pathp
    by (rule keeps_option, rule plain_keeps, rule plain_basic, rule keeps_after, rule plain_loops, rule keeps_after, rule plain_bytes, rule 1)
  show ?thesis
    unfolding sys_execl_def Let_def
    apply (rule keeps_after, rule plain_words, rule keeps_if, rule plain_keeps, rule plain_basic, rule keeps_after, rule plain_bytes,
      rule keeps_after, rule plain_words, rule keeps_option, rule plain_keeps, rule plain_basic, rule keeps_after, rule plain_loops,
      rule keeps_option, rule plain_keeps, rule plain_basic, rule keeps_after, rule plain_words)
    subgoal for pathp path r nd r' nd' p
      by (cases p, simp only: prod.case, rule keeps_if, rule plain_keeps, rule plain_basic, rule keeps_after, rule plain_loops,
        rule keeps_if, rule plain_keeps, rule plain_basic, rule keeps_after, rule plain_loops, rule 2)
    done
qed


text \<open>A kernel whose only process has a file, and whose one future stands for the process itself.\<close>

definition typed_sample :: "sim kernel \<Rightarrow> sim kernel" where
  "typed_sample k = (reading_kernel k)\<lparr>next_file := 1, next_sem := 1, next_future := 1, futures := \<lambda>_. \<lparr>go = 0, isReady = False, f_t = 0\<rparr>\<rparr>"

lemma typed_sample: "typed_kernel (typed_sample k)"
  by (simp add: typed_sample_def reading_kernel_def sample_kernel_def sample_process_def typed_kernel_def typed_process_def pointers_below_def)


end
