(* ===== verification/Acpi.thy ===== *)
theory Acpi
  imports Config Ext2
begin

text \<open>
  Reading the machine configuration, \<^verbatim>\<open>kernel/config.cc\<close>. \<open>m\<close> is the physical memory the firmware has left
  and \<open>mem_info\<close> what \<^verbatim>\<open>mbr.S\<close> has asked the BIOS; neither changes here. A loop that may never end is a partial
  function. A write past \<^verbatim>\<open>apicInfo\<close> is an error.
\<close>

section \<open>Memory\<close>

type_synonym memory = "u32 \<Rightarrow> u8"

definition ld32 :: "memory \<Rightarrow> u32 \<Rightarrow> u32" where
  "ld32 m a = le32_at (\<lambda>k. m (a + of_nat k)) 0"

definition ld16 :: "memory \<Rightarrow> u32 \<Rightarrow> u16" where
  "ld16 m a = ucast (m a) OR push_bit 8 (ucast (m (a + 1)))"

record mem_info =
  mi_ax :: u16
  mi_bx :: u16
  mi_cx :: u16
  mi_dx :: u16

datatype cfg_err = AssertFailed | PastApicInfo

definition memAbove1M :: "mem_info \<Rightarrow> cfg_err + u32" where
  "memAbove1M mi =
     (if mi_cx mi = 15 * 1024 \<or> mi_dx mi = 0
      then Inr (push_bit 10 (ucast (mi_ax mi OR mi_cx mi)) + push_bit 16 (ucast (mi_bx mi OR mi_dx mi)))
      else Inl AssertFailed)"

section \<open>Tables\<close>

definition sig :: "string \<Rightarrow> u8 list" where
  "sig s = map of_char s"

fun iseq :: "memory \<Rightarrow> u32 \<Rightarrow> u8 list \<Rightarrow> bool" where
  "iseq m a [] = True"
| "iseq m a (b # bs) = (if m a \<noteq> b then False else iseq m (a + 1) bs)"

partial_function (option) findRSDInRange :: "memory \<Rightarrow> u32 \<Rightarrow> u32 \<Rightarrow> u32 option" where
  "findRSDInRange m i bound =
     (if i < bound then (if iseq m i (sig ''RSD PTR '') then Some i else findRSDInRange m (i + 16) bound) else Some 0)"

definition findRSD :: "memory \<Rightarrow> u32 option" where
  "findRSD m =
     Option.bind (findRSDInRange m 0x000E0000 0x00100000) (\<lambda>it.
     if it = 0 then
       let base = push_bit 4 (ucast (ld16 m 0x40E)) in findRSDInRange m base (base + push_bit 10 1)
     else Some it)"

text \<open>\<^verbatim>\<open>rootSDT\<close> is at 16 in the \<^verbatim>\<open>RSD\<close>, \<^verbatim>\<open>Length\<close> at 4 in an \<^verbatim>\<open>SDT\<close>, which has 36 bytes.\<close>

fun findSDT_loop :: "memory \<Rightarrow> u32 \<Rightarrow> u8 list \<Rightarrow> nat \<Rightarrow> nat \<Rightarrow> u32" where
  "findSDT_loop m others name i 0 = 0"
| "findSDT_loop m others name i (Suc n) =
     (let h = ld32 m (others + 4 * of_nat i) in if iseq m h name then h else findSDT_loop m others name (i + 1) n)"

definition findSDT :: "memory \<Rightarrow> u32 \<Rightarrow> u8 list \<Rightarrow> u32" where
  "findSDT m rsdp name =
     (let rsdt = ld32 m (rsdp + 16);
          others = rsdt + 36;
          entries = (ld32 m (rsdt + 4) - 36) div 4 in
      findSDT_loop m others name 0 (unat entries))"

section \<open>configInit\<close>

text \<open>An entry has its type and length in the first two bytes, then those of its type.\<close>

definition apic_at :: "memory \<Rightarrow> u32 \<Rightarrow> ApicInfo" where
  "apic_at m p = \<lparr>processorId = m (p + 2), apicId = m (p + 3), apicFlags = ld32 m (p + 4)\<rparr>"

definition add_apic :: "ApicInfo \<Rightarrow> Config \<Rightarrow> cfg_err + Config" where
  "add_apic a c =
     (if nOtherProcs c < 16 then Inr (c\<lparr>apicInfo := (apicInfo c)[unat (nOtherProcs c) := a], nOtherProcs := nOtherProcs c + 1\<rparr>)
      else Inl PastApicInfo)"

definition take_entry :: "memory \<Rightarrow> u32 \<Rightarrow> Config \<Rightarrow> cfg_err + Config" where
  "take_entry m p c =
     (if m p = 0 then (if processorId (apic_at m p) = 0 then Inr c else add_apic (apic_at m p) c)
      else if m p = 1 then Inr (c\<lparr>ioAPIC := ld32 m (p + 4)\<rparr>)
      else Inr c)"

partial_function (option) entry_loop :: "memory \<Rightarrow> u32 \<Rightarrow> u32 \<Rightarrow> Config \<Rightarrow> (cfg_err + Config) option" where
  "entry_loop m entryPtr bytesForEntries c =
     (if sint bytesForEntries > 0 then
        (let len = ucast (m (entryPtr + 1)); entryPtr = entryPtr + len; bytesForEntries = bytesForEntries - len in
         case take_entry m entryPtr c of
           Inl e \<Rightarrow> Some (Inl e)
         | Inr c \<Rightarrow> entry_loop m entryPtr bytesForEntries c)
      else Some (Inr c))"

definition configInit :: "memory \<Rightarrow> mem_info \<Rightarrow> Config \<Rightarrow> (cfg_err + Config) option" where
  "configInit m mi c =
     (case memAbove1M mi of
        Inl e \<Rightarrow> Some (Inl e)
      | Inr size1 \<Rightarrow>
          Option.bind (findRSD m) (\<lambda>rsdp.
          let c = c\<lparr>memSize := size1 + push_bit 20 1\<rparr>;
              c = (if rsdp \<noteq> 0 then c\<lparr>oemid := map (\<lambda>i. m (rsdp + 9 + of_nat i)) [0..<6] @ [0]\<rparr> else c);
              madt = findSDT m rsdp (sig ''APIC'');
              c = c\<lparr>localAPIC := ld32 m (madt + 36), madtFlags := ld32 m (madt + 40), nOtherProcs := 0\<rparr> in
          map_option (map_sum id (\<lambda>c. c\<lparr>totalProcs := nOtherProcs c + 1\<rparr>))
            (entry_loop m (madt + 44) (ld32 m (madt + 4) - 44) c)))"

section \<open>Where the tables are\<close>

definition rsd_at :: "memory \<Rightarrow> u32" where
  "rsd_at m =
     (case find (\<lambda>a. iseq m a (sig ''RSD PTR '')) (map (\<lambda>k. 0xE0000 + 16 * of_nat k) [0..<8192]) of
        Some a \<Rightarrow> a
      | None \<Rightarrow>
          (case find (\<lambda>a. iseq m a (sig ''RSD PTR '')) (map (\<lambda>k. push_bit 4 (ucast (ld16 m 0x40E)) + 16 * of_nat k) [0..<64]) of
             Some a \<Rightarrow> a
           | None \<Rightarrow> 0))"

definition madt_at :: "memory \<Rightarrow> u32" where
  "madt_at m =
     (let rsdt = ld32 m (rsd_at m + 16) in
      case find (\<lambda>h. iseq m h (sig ''APIC'')) (map (\<lambda>i. ld32 m (rsdt + 36 + 4 * of_nat i)) [0..<unat ((ld32 m (rsdt + 4) - 36) div 4)]) of
        Some h \<Rightarrow> h
      | None \<Rightarrow> 0)"

lemma range_found:
  assumes "unat i + 16 * n < 2 ^ 32"
  shows "findRSDInRange m i (i + 16 * of_nat n) =
    Some (case find (\<lambda>a. iseq m a (sig ''RSD PTR '')) (map (\<lambda>k. i + 16 * of_nat k) [0..<n]) of Some a \<Rightarrow> a | None \<Rightarrow> 0)"
  using assms
proof (induction n arbitrary: i)
  case 0
  then show ?case by (simp add: findRSDInRange.simps)
next
  case (Suc n)
  have u: "unat (16 * of_nat (Suc n) :: u32) = 16 * Suc n" using Suc.prems by (simp add: unat_word_ariths unat_of_nat)
  have lt: "i < i + 16 * of_nat (Suc n)"
    unfolding word_less_nat_alt using Suc.prems u unat_add_lem [of i "16 * of_nat (Suc n)"] by simp
  have e: "i + 16 * of_nat (Suc n) = (i + 16) + 16 * of_nat n" by (simp add: algebra_simps)
  have "unat (i + 16) = unat i + 16" using Suc.prems by (simp add: unat_word_ariths)
  then have "unat (i + 16) + 16 * n < 2 ^ 32" using Suc.prems by simp
  from Suc.IH [OF this]
  have IH: "findRSDInRange m (i + 16) (i + 16 * of_nat (Suc n)) =
    Some (case find (\<lambda>a. iseq m a (sig ''RSD PTR '')) (map (\<lambda>k. (i + 16) + 16 * of_nat k) [0..<n]) of Some a \<Rightarrow> a | None \<Rightarrow> 0)"
    unfolding e .
  have l: "map (\<lambda>k. i + 16 * of_nat k) [0..<Suc n] = i # map (\<lambda>k. (i + 16) + 16 * of_nat k) [0..<n]"
    unfolding upt_rec [of 0 "Suc n"] map_Suc_upt [symmetric] by (simp add: algebra_simps comp_def)
  show ?case unfolding l findRSDInRange.simps [of m i] using lt IH by simp
qed

lemma rsd_at_found: "find P (map f [0..<n]) = Some a \<Longrightarrow> (\<And>k. k < n \<Longrightarrow> f k \<noteq> 0) \<Longrightarrow> a \<noteq> (0 :: u32)"
  by (auto simp: find_Some_iff)

lemma findRSD_at: "findRSD m = Some (rsd_at m)"
proof -
  let ?P = "\<lambda>a. iseq m a (sig ''RSD PTR '')"
  let ?base = "push_bit 4 (ucast (ld16 m 0x40E)) :: u32"
  have 1: "findRSDInRange m 0x000E0000 0x00100000 = Some (case find ?P (map (\<lambda>k. 0xE0000 + 16 * of_nat k) [0..<8192]) of Some a \<Rightarrow> a | None \<Rightarrow> 0)"
    using range_found [where i = "0xE0000" and n = 8192 and m = m] by simp
  have "unat ?base \<le> 2 ^ 20"
  proof -
    have "unat (ld16 m 0x40E) < 2 ^ 16" by (rule less_le_trans [OF unsigned_less]) simp
    moreover have "unat ?base \<le> push_bit 4 (unat (ucast (ld16 m 0x40E) :: u32))"
      unfolding unsigned_push_bit_eq by (rule take_bit_nat_less_eq_self)
    moreover have "unat (ucast (ld16 m 0x40E) :: u32) \<le> unat (ld16 m 0x40E)"
      unfolding unsigned_ucast_eq by (rule take_bit_nat_less_eq_self)
    ultimately show ?thesis by (simp add: push_bit_eq_mult)
  qed
  then have 2: "findRSDInRange m ?base (?base + push_bit 10 1) = Some (case find ?P (map (\<lambda>k. ?base + 16 * of_nat k) [0..<64]) of Some a \<Rightarrow> a | None \<Rightarrow> 0)"
    using range_found [where i = ?base and n = 64 and m = m] by (simp add: push_bit_eq_mult)
  show ?thesis
  proof (cases "find ?P (map (\<lambda>k. 0xE0000 + 16 * of_nat k) [0..<8192])")
    case None
    then show ?thesis using 1 2 by (simp add: findRSD_def rsd_at_def Let_def)
  next
    case (Some a)
    have "a \<noteq> 0"
    proof (rule rsd_at_found [OF Some])
      fix k :: nat assume "k < 8192"
      then have "unat (0xE0000 + 16 * of_nat k :: u32) = 0xE0000 + 16 * k" by (simp add: unat_word_ariths unat_of_nat)
      then show "0xE0000 + 16 * of_nat k \<noteq> (0 :: u32)" by (metis add_is_0 unsigned_0 zero_neq_numeral)
    qed
    then show ?thesis using 1 Some by (simp add: findRSD_def rsd_at_def)
  qed
qed

lemma findSDT_loop_find:
  "findSDT_loop m others name i n = (case find (\<lambda>h. iseq m h name) (map (\<lambda>k. ld32 m (others + 4 * of_nat k)) [i..<i + n]) of Some h \<Rightarrow> h | None \<Rightarrow> 0)"
proof (induction n arbitrary: i)
  case (Suc n)
  have "[i..<i + Suc n] = i # [i + 1..<(i + 1) + n]" by (simp add: upt_conv_Cons del: upt_Suc)
  then show ?case using Suc.IH [of "i + 1"] by (simp add: Let_def del: upt_Suc)
qed simp

lemma findSDT_at: "findSDT m (rsd_at m) (sig ''APIC'') = madt_at m"
  by (simp add: findSDT_def madt_at_def Let_def findSDT_loop_find)

section \<open>The entries\<close>

text \<open>The lengths \<open>ls\<close> of the entries from \<open>p\<close> on, and where each of them ends.\<close>

fun entries_at :: "memory \<Rightarrow> u32 \<Rightarrow> nat list \<Rightarrow> bool" where
  "entries_at m p [] = True"
| "entries_at m p (l # ls) = (unat (m (p + 1)) = l \<and> 0 < l \<and> entries_at m (p + of_nat l) ls)"

fun entry_ends :: "u32 \<Rightarrow> nat list \<Rightarrow> u32 list" where
  "entry_ends p [] = []"
| "entry_ends p (l # ls) = (p + of_nat l) # entry_ends (p + of_nat l) ls"

lemma sint_of_small: "N < 2 ^ 31 \<Longrightarrow> sint (of_nat N :: u32) = int N"
  by (simp add: sint_uint signed_take_bit_int_eq_self unsigned_of_nat take_bit_nat_eq_self)

lemma entry_loop_fold:
  "entries_at m p ls \<Longrightarrow> sum_list ls < 2 ^ 31 \<Longrightarrow>
   entry_loop m p (of_nat (sum_list ls)) c = Some (rfold (take_entry m) (entry_ends p ls) c)"
proof (induction ls arbitrary: p c)
  case Nil
  then show ?case by (simp add: entry_loop.simps)
next
  case (Cons l ls)
  have "sint (of_nat (sum_list (l # ls)) :: u32) = int (sum_list (l # ls))"
    by (rule sint_of_small [OF Cons.prems(2)])
  moreover have "ucast (m (p + 1)) = (of_nat l :: u32)"
    using Cons.prems(1) by (metis entries_at.simps(2) of_nat_unat)
  ultimately have "entry_loop m p (of_nat (sum_list (l # ls))) c =
      (case take_entry m (p + of_nat l) c of Inl e \<Rightarrow> Some (Inl e) | Inr c \<Rightarrow> entry_loop m (p + of_nat l) (of_nat (sum_list ls)) c)"
    using Cons.prems(1) by (subst entry_loop.simps) (simp add: Let_def cong: sum.case_cong)
  also have "\<dots> = Some (rfold (take_entry m) (entry_ends p (l # ls)) c)"
    using Cons by (auto split: sum.splits)
  finally show ?case .
qed

definition is_cpu :: "memory \<Rightarrow> u32 \<Rightarrow> bool" where
  "is_cpu m a \<longleftrightarrow> m a = 0 \<and> m (a + 2) \<noteq> 0"

text \<open>What the entries at \<open>as\<close> make of a configuration with \<open>k\<close> processors.\<close>

definition with_entries :: "memory \<Rightarrow> nat \<Rightarrow> u32 list \<Rightarrow> Config \<Rightarrow> Config" where
  "with_entries m k as c =
     c\<lparr>apicInfo := take k (apicInfo c) @ map (apic_at m) (filter (is_cpu m) as) @ drop (k + length (filter (is_cpu m) as)) (apicInfo c),
       nOtherProcs := of_nat (k + length (filter (is_cpu m) as)),
       ioAPIC := last (ioAPIC c # map (\<lambda>a. ld32 m (a + 4)) (filter (\<lambda>a. m a = 1) as))\<rparr>"

lemma take_entries:
  assumes "nOtherProcs c = of_nat k" and "k \<le> 16" and "length (apicInfo c) = 16"
  shows "rfold (take_entry m) as c =
    (if k + length (filter (is_cpu m) as) \<le> 16 then Inr (with_entries m k as c) else Inl PastApicInfo)"
  using assms
proof (induction as arbitrary: c k)
  case Nil
  then show ?case by (cases c) (simp add: with_entries_def)
next
  case (Cons a as)
  have n16: "of_nat k < (16 :: u32) \<longleftrightarrow> k < 16" using Cons.prems(2) by (simp add: word_less_nat_alt unat_of_nat)
  show ?case
  proof (cases "is_cpu m a")
    case True
    then have m: "m a = 0" "m (a + 2) \<noteq> 0" by (simp_all add: is_cpu_def)
    show ?thesis
    proof (cases "k < 16")
      case False
      then show ?thesis using True m Cons.prems n16 by (simp add: take_entry_def add_apic_def apic_at_def)
    next
      case k: True
      let ?c = "c\<lparr>apicInfo := (apicInfo c)[k := apic_at m a], nOtherProcs := of_nat (k + 1)\<rparr>"
      have u: "unat (of_nat k :: u32) = k" using k by (simp add: unat_of_nat)
      have st: "take_entry m a c = Inr ?c"
        using m Cons.prems(1) n16 k u by (simp add: take_entry_def add_apic_def apic_at_def add.commute)
      have "rfold (take_entry m) as ?c =
          (if (k + 1) + length (filter (is_cpu m) as) \<le> 16 then Inr (with_entries m (k + 1) as ?c) else Inl PastApicInfo)"
        by (rule Cons.IH) (use k Cons.prems(3) in simp_all)
      moreover have "with_entries m (k + 1) as ?c = with_entries m k (a # as) c"
        using True k m Cons.prems(3) by (simp add: with_entries_def take_Suc_conv_app_nth algebra_simps)
      ultimately show ?thesis using True st by simp
    qed
  next
    case False
    show ?thesis
    proof (cases "m a = 1")
      case True
      let ?c = "c\<lparr>ioAPIC := ld32 m (a + 4)\<rparr>"
      have st: "take_entry m a c = Inr ?c" using True by (simp add: take_entry_def)
      have "with_entries m k as ?c = with_entries m k (a # as) c" using True False by (simp add: with_entries_def)
      then show ?thesis using False st Cons.IH [of ?c k] Cons.prems by simp
    next
      case other: False
      then have st: "take_entry m a c = Inr c" using False by (auto simp: take_entry_def is_cpu_def apic_at_def)
      have "with_entries m k as c = with_entries m k (a # as) c" using other False by (simp add: with_entries_def)
      then show ?thesis using False st Cons.IH [of c k] Cons.prems by simp
    qed
  qed
qed

section \<open>The processors that are found\<close>

text \<open>
  C39. For tables whose entries have lengths \<open>ls\<close> that add up to the length of the table, \<^verbatim>\<open>configInit\<close> ends. It
  lists, in their order, the processors other than 0 of all the entries but the first, and of the bytes that follow the
  last one, as it goes on to the end of an entry before it looks at the type; if these are more than 16 it writes past the
  array. The last interrupt controller among them is the one that is kept.
\<close>

theorem configInit_correct:
  assumes "entries_at m (madt_at m + 44) ls" and "sum_list ls < 2 ^ 31" and "ld32 m (madt_at m + 4) = of_nat (44 + sum_list ls)"
    and "memAbove1M mi = Inr size1" and "length (apicInfo c) = 16"
    and as: "as = entry_ends (madt_at m + 44) ls"
  shows "(length (filter (is_cpu m) as) > 16 \<longrightarrow> configInit m mi c = Some (Inl PastApicInfo)) \<and>
    (length (filter (is_cpu m) as) \<le> 16 \<longrightarrow> (\<exists>c'. configInit m mi c = Some (Inr c') \<and>
       memSize c' = size1 + 2 ^ 20 \<and> localAPIC c' = ld32 m (madt_at m + 36) \<and>
       take (unat (nOtherProcs c')) (apicInfo c') = map (apic_at m) (filter (is_cpu m) as) \<and>
       unat (totalProcs c') = length (filter (is_cpu m) as) + 1 \<and>
       ioAPIC c' = last (ioAPIC c # map (\<lambda>a. ld32 m (a + 4)) (filter (\<lambda>a. m a = 1) as))))"
proof -
  let ?procs = "filter (is_cpu m) as"
  let ?c1 = "c\<lparr>memSize := size1 + push_bit 20 1\<rparr>"
  let ?c2 = "if rsd_at m \<noteq> 0 then ?c1\<lparr>oemid := map (\<lambda>i. m (rsd_at m + 9 + of_nat i)) [0..<6] @ [0]\<rparr> else ?c1"
  define c0 where "c0 = ?c2\<lparr>localAPIC := ld32 m (madt_at m + 36), madtFlags := ld32 m (madt_at m + 40), nOtherProcs := 0\<rparr>"
  have c0: "nOtherProcs c0 = of_nat 0" "length (apicInfo c0) = 16" "memSize c0 = size1 + 2 ^ 20" "localAPIC c0 = ld32 m (madt_at m + 36)" "ioAPIC c0 = ioAPIC c"
    using assms(5) by (simp_all add: c0_def)
  have "ld32 m (madt_at m + 4) - 44 = of_nat (sum_list ls)" unfolding assms(3) by simp
  then have "configInit m mi c = map_option (map_sum id (\<lambda>c. c\<lparr>totalProcs := nOtherProcs c + 1\<rparr>)) (Some (rfold (take_entry m) as c0))"
    unfolding configInit_def assms(4) sum.case findRSD_at Option.bind.bind_lunit Let_def findSDT_at as
    using entry_loop_fold [OF assms(1,2), of c0] by (simp add: c0_def cong: if_cong)
  then have run: "configInit m mi c = map_option (map_sum id (\<lambda>c. c\<lparr>totalProcs := nOtherProcs c + 1\<rparr>))
      (Some (if 0 + length ?procs \<le> 16 then Inr (with_entries m 0 as c0) else Inl PastApicInfo))"
    unfolding take_entries [OF c0(1) le0 c0(2)] .
  show ?thesis
  proof (cases "length ?procs \<le> 16")
    case True
    then have u: "unat (of_nat (length ?procs) :: u32) = length ?procs" by (simp add: unat_of_nat)
    have "unat (of_nat (length ?procs) + 1 :: u32) = length ?procs + 1"
      using True by (simp add: unat_word_ariths unat_of_nat)
    then show ?thesis using True run u c0 by (simp add: with_entries_def)
  qed (simp add: run)
qed

text \<open>A machine with a second processor, 1, and an interrupt controller at \<open>0xFEC00000\<close>.\<close>

definition boot_memory :: memory where
  "boot_memory a =
     (if 0xE0000 \<le> a \<and> a < 0xE0014 then [82, 83, 68, 32, 80, 84, 82, 32, 0, 66, 79, 67, 72, 83, 32, 0, 0, 0x10, 0, 0] ! unat (a - 0xE0000)
      else if a = 0x1004 then 40
      else if a = 0x1025 then 0x20
      else if 0x2000 \<le> a \<and> a < 0x2008 then [65, 80, 73, 67, 72, 0, 0, 0] ! unat (a - 0x2000)
      else if 0x2024 \<le> a \<and> a < 0x2048 then
        [0, 0, 0xE0, 0xFE, 1, 0, 0, 0, 0, 8, 0, 0, 1, 0, 0, 0, 0, 8, 1, 1, 1, 0, 0, 0, 1, 12, 2, 0, 0, 0, 0xC0, 0xFE, 0, 0, 0, 0] ! unat (a - 0x2024)
      else 0)"

lemma sigs: "sig ''RSD PTR '' = [82, 83, 68, 32, 80, 84, 82, 32]" "sig ''APIC'' = [65, 80, 73, 67]"
  by (simp_all add: sig_def of_char_def)

lemma find_first: "P (f 0) \<Longrightarrow> 0 < n \<Longrightarrow> find P (map f [0..<n]) = Some (f 0)"
  by (simp add: upt_conv_Cons del: upt_Suc)

lemma boot_rsd: "rsd_at boot_memory = 0xE0000"
proof -
  have "iseq boot_memory (0xE0000 + 16 * of_nat 0) (sig ''RSD PTR '')" by (simp add: sigs boot_memory_def)
  from find_first [of "\<lambda>a. iseq boot_memory a (sig ''RSD PTR '')" "\<lambda>k. 0xE0000 + 16 * of_nat k" 8192, OF this]
  show ?thesis by (simp add: rsd_at_def)
qed

lemmas boot_reads = ld32_def le32_at_def boot_memory_def

lemma boot_madt: "madt_at boot_memory = 0x2000"
proof -
  have 1: "ld32 boot_memory (0xE0000 + 16) = 0x1000" by (simp add: boot_reads)
  have 2: "ld32 boot_memory (0x1000 + 4) = 40" by (simp add: boot_reads)
  have 3: "ld32 boot_memory (0x1000 + 36 + 4 * of_nat 0) = 0x2000" by (simp add: boot_reads)
  have "iseq boot_memory 0x2000 (sig ''APIC'')" by (simp add: sigs boot_memory_def)
  then show ?thesis unfolding madt_at_def boot_rsd 1 Let_def 2 using 3 by simp
qed

definition blank_config :: Config where
  "blank_config = \<lparr>memSize = 0, nOtherProcs = 0, totalProcs = 0, localAPIC = 0, madtFlags = 0, ioAPIC = 0,
     apicInfo = replicate 16 \<lparr>processorId = 0, apicId = 0, apicFlags = 0\<rparr>, oemid = replicate 7 0\<rparr>"

theorem configInit_correct_witness:
  "\<exists>c'. configInit boot_memory \<lparr>mi_ax = 0, mi_bx = 0, mi_cx = 15 * 1024, mi_dx = 0x700\<rparr> blank_config = Some (Inr c') \<and>
     memSize c' = 0x8000000 \<and> localAPIC c' = 0xFEE00000 \<and> totalProcs c' = 2 \<and>
     take (unat (nOtherProcs c')) (apicInfo c') = [\<lparr>processorId = 1, apicId = 1, apicFlags = 1\<rparr>] \<and> ioAPIC c' = 0xFEC00000"
proof -
  let ?mi = "\<lparr>mi_ax = 0, mi_bx = 0, mi_cx = 15 * 1024, mi_dx = 0x700\<rparr> :: mem_info"
  have at: "entries_at boot_memory (madt_at boot_memory + 44) [8, 8, 12]" by (simp add: boot_madt boot_memory_def)
  have len: "ld32 boot_memory (madt_at boot_memory + 4) = of_nat (44 + sum_list [8, 8, 12])" by (simp add: boot_madt boot_reads)
  have mi: "memAbove1M ?mi = Inr 0x7F00000" by (simp add: memAbove1M_def)
  have procs: "filter (is_cpu boot_memory) [0x2034, 0x203C, 0x2048] = [0x2034]"
    "filter (\<lambda>a. boot_memory a = 1) [0x2034, 0x203C, 0x2048] = [0x203C]"
    by (simp_all add: is_cpu_def boot_memory_def)
  have ends: "[0x2034, 0x203C, 0x2048] = entry_ends (madt_at boot_memory + 44) [8, 8, 12]" by (simp add: boot_madt)
  have vals: "ld32 boot_memory (0x2000 + 36) = 0xFEE00000" "ld32 boot_memory (0x203C + 4) = 0xFEC00000"
    "apic_at boot_memory 0x2034 = \<lparr>processorId = 1, apicId = 1, apicFlags = 1\<rparr>"
    by (simp_all add: boot_reads apic_at_def)
  obtain c' where "configInit boot_memory ?mi blank_config = Some (Inr c')" "memSize c' = 0x7F00000 + 2 ^ 20"
    "localAPIC c' = ld32 boot_memory (0x2000 + 36)"
    "take (unat (nOtherProcs c')) (apicInfo c') = map (apic_at boot_memory) [0x2034]" "unat (totalProcs c') = 2"
    "ioAPIC c' = last (0 # map (\<lambda>a. ld32 boot_memory (a + 4)) [0x203C])"
    using configInit_correct [OF at _ len mi _ ends, of blank_config] unfolding procs boot_madt by (auto simp: blank_config_def)
  moreover have "totalProcs c' = 2" using arg_cong [OF calculation(5), of "of_nat :: nat \<Rightarrow> u32"] by simp
  ultimately show ?thesis using vals by auto
qed

end
