(* ===== verification/Machine.thy ===== *)
theory Machine
  imports Vga Ide
begin

text \<open>
  Setting up the processor and its devices: the interrupt table (\<^verbatim>\<open>kernel/idt.cc\<close>), the local interrupt controller
  (\<^verbatim>\<open>kernel/smp.h\<close>, \<^verbatim>\<open>kernel/smp.cc\<close>), the timer (\<^verbatim>\<open>kernel/pit.cc\<close>) and the keyboard controller
  (\<^verbatim>\<open>kernel/kb.cc\<close>). Ports, registers in memory and the model specific registers are parameters; polling loops have a
  bound. What is printed is left out.
\<close>

section \<open>The interrupt table\<close>

definition idt_interrupt :: "u32 \<Rightarrow> nat \<Rightarrow> u32 \<Rightarrow> u32 list \<Rightarrow> u32 list" where
  "idt_interrupt kernelCS index handler idt =
     (let i0 = 2 * index; i1 = i0 + 1 in
      idt[i0 := push_bit 16 kernelCS + (handler AND 0xffff), i1 := (handler AND 0xffff0000) OR 0x8e00])"

definition idt_trap :: "u32 \<Rightarrow> nat \<Rightarrow> u32 \<Rightarrow> u32 \<Rightarrow> u32 list \<Rightarrow> u32 list" where
  "idt_trap kernelCS index handler dpl idt =
     (let i0 = 2 * index; i1 = i0 + 1 in
      idt[i0 := push_bit 16 kernelCS + (handler AND 0xffff), i1 := (handler AND 0xffff0000) OR 0x8f00 OR push_bit 13 dpl])"

text \<open>How the processor reads a gate: its handler, code segment and privilege level, and whether it is a trap.\<close>

definition gate :: "u32 list \<Rightarrow> nat \<Rightarrow> u32 \<times> u32 \<times> u32 \<times> bool" where
  "gate idt index =
     (let lo = idt ! (2 * index); hi = idt ! (2 * index + 1) in
      ((hi AND 0xffff0000) OR (lo AND 0xffff), drop_bit 16 lo, drop_bit 13 hi AND 3, bit hi 8))"

section \<open>The local interrupt controller\<close>

record 'd apic =
  reg_get :: "u32 \<Rightarrow> 'd \<Rightarrow> u32 \<times> 'd"
  reg_set :: "u32 \<Rightarrow> u32 \<Rightarrow> 'd \<Rightarrow> 'd"
  msr_get :: "u32 \<Rightarrow> 'd \<Rightarrow> u64 \<times> 'd"
  msr_set :: "u32 \<Rightarrow> u64 \<Rightarrow> 'd \<Rightarrow> 'd"

definition load_reg :: "'d apic \<Rightarrow> u32 \<Rightarrow> ('d ide_st, u32) st" where
  "load_reg L a s = (let (v, d) = reg_get L a (dev s) in Inr (v, s\<lparr>dev := d\<rparr>))"

definition store_reg :: "'d apic \<Rightarrow> u32 \<Rightarrow> u32 \<Rightarrow> ('d ide_st, unit) st" where
  "store_reg L a v s = Inr ((), s\<lparr>dev := reg_set L a v (dev s)\<rparr>)"

definition rdmsr :: "'d apic \<Rightarrow> u32 \<Rightarrow> ('d ide_st, u64) st" where
  "rdmsr L r s = (let (v, d) = msr_get L r (dev s) in Inr (v, s\<lparr>dev := d\<rparr>))"

definition wrmsr :: "'d apic \<Rightarrow> u32 \<Rightarrow> u64 \<Rightarrow> ('d ide_st, unit) st" where
  "wrmsr L r v s = Inr ((), s\<lparr>dev := msr_set L r v (dev s)\<rparr>)"

record smp =
  smp_id :: u32
  smp_eoi_reg :: u32
  smp_spurious :: u32
  smp_icr_low :: u32
  smp_icr_high :: u32
  apit_lvt_timer :: u32
  apit_initial_count :: u32
  apit_current_count :: u32
  apit_divide :: u32

definition smp_registers :: "u32 \<Rightarrow> smp" where
  "smp_registers base = \<lparr>smp_id = base + 0x20, smp_eoi_reg = base + 0xb0, smp_spurious = base + 0xf0, smp_icr_low = base + 0x300,
     smp_icr_high = base + 0x310, apit_lvt_timer = base + 0x320, apit_initial_count = base + 0x380,
     apit_current_count = base + 0x390, apit_divide = base + 0x3e0\<rparr>"

definition smp_init :: "'d pio \<Rightarrow> 'd apic \<Rightarrow> u32 \<Rightarrow> u32 \<Rightarrow> u32 \<Rightarrow> bool \<Rightarrow> smp \<times> u32 list \<Rightarrow> ('d ide_st, smp \<times> u32 list) st" where
  "smp_init P L kernelCS spuriousHandler base isFirst = (\<lambda>(R, idt).
     let (R, idt) = (if isFirst then (smp_registers base, idt_interrupt kernelCS 0xff spuriousHandler idt) else (R, idt)) in
     sbind (outb P 0x21 0xff) (\<lambda>_.
     sbind (outb P 0xa1 0xff) (\<lambda>_.
     sbind (rdmsr L 0x1B) (\<lambda>msr.
     sbind (wrmsr L 0x1B (msr OR push_bit 11 1)) (\<lambda>_.
     sbind (store_reg L (smp_spurious R) 0x1ff) (\<lambda>_. ret (R, idt)))))))"

definition smp_me :: "'d apic \<Rightarrow> smp \<Rightarrow> ('d ide_st, u32) st" where
  "smp_me L R = sbind (load_reg L (smp_id R)) (\<lambda>v. ret (drop_bit 24 v))"

definition smp_eoi :: "'d apic \<Rightarrow> smp \<Rightarrow> ('d ide_st, unit) st" where
  "smp_eoi L R = store_reg L (smp_eoi_reg R) 0"

fun ipi_wait :: "nat \<Rightarrow> 'd apic \<Rightarrow> smp \<Rightarrow> ('d ide_st, unit) st" where
  "ipi_wait 0 L R = fail Diverges"
| "ipi_wait (Suc k) L R = sbind (load_reg L (smp_icr_low R)) (\<lambda>v. if v AND push_bit 12 1 \<noteq> 0 then ipi_wait k L R else ret ())"

definition smp_ipi :: "nat \<Rightarrow> 'd apic \<Rightarrow> smp \<Rightarrow> u32 \<Rightarrow> u32 \<Rightarrow> ('d ide_st, unit) st" where
  "smp_ipi polls L R cpu num =
     sbind (store_reg L (smp_icr_high R) (push_bit 24 cpu)) (\<lambda>_.
     sbind (store_reg L (smp_icr_low R) num) (\<lambda>_. ipi_wait polls L R))"

section \<open>The timer\<close>

definition PIT_FREQ :: u32 where "PIT_FREQ = 1193182"
definition APIT_vector :: u32 where "APIT_vector = 40"

record pit =
  jiffiesPerSecond :: u32
  apitCounter :: u32
  pit_jiffies :: u32

fun pit_wait :: "nat \<Rightarrow> 'd pio \<Rightarrow> u8 \<Rightarrow> nat \<Rightarrow> ('d ide_st, unit) st" where
  "pit_wait 0 P last1 changes = fail Diverges"
| "pit_wait (Suc k) P last1 changes =
     (if changes < 40 then
        sbind (inb P 0x61) (\<lambda>v. let t = v AND 0x20 in if t \<noteq> last1 then pit_wait k P t (changes + 1) else pit_wait k P last1 changes)
      else ret ())"

definition pit_calibrate :: "nat \<Rightarrow> 'd pio \<Rightarrow> 'd apic \<Rightarrow> smp \<Rightarrow> u32 \<Rightarrow> u32 \<Rightarrow> u32 \<Rightarrow> pit \<times> u32 list \<Rightarrow> ('d ide_st, pit \<times> u32 list) st" where
  "pit_calibrate polls P L R kernelCS apitHandler hz = (\<lambda>(g, idt).
     sbind (store_reg L (apit_lvt_timer R) 0x00010000) (\<lambda>_.
     sbind (store_reg L (apit_divide R) 0x0000000B) (\<lambda>_.
     let d = PIT_FREQ div 20; d = (if d AND 0xffff \<noteq> d then 0xffff else d); initial = 0xffffffff in
     sbind (store_reg L (apit_initial_count R) initial) (\<lambda>_.
     sbind (outb P 0x61 1) (\<lambda>_.
     sbind (outb P 0x43 0xB6) (\<lambda>_.
     sbind (outb P 0x42 d) (\<lambda>_.
     sbind (outb P 0x42 (drop_bit 8 d)) (\<lambda>_.
     sbind (inb P 0x61) (\<lambda>v.
     sbind (pit_wait polls P (v AND 0x20) 0) (\<lambda>_.
     sbind (load_reg L (apit_current_count R)) (\<lambda>c.
     let diff = initial - c in
     sbind (outb P 0x61 0) (\<lambda>_.
     if hz = 0 then fail Undefined
     else ret (g\<lparr>apitCounter := diff div hz, jiffiesPerSecond := hz\<rparr>, idt_interrupt kernelCS (unat APIT_vector) apitHandler idt)))))))))))))"

definition pit_init :: "'d apic \<Rightarrow> smp \<Rightarrow> pit \<Rightarrow> ('d ide_st, unit) st" where
  "pit_init L R g =
     (if apitCounter g = 0 then fail Panic
      else
        sbind (store_reg L (apit_divide R) 0x0000000B) (\<lambda>_.
        sbind (store_reg L (apit_lvt_timer R) (push_bit 17 1 OR push_bit 16 0 OR APIT_vector)) (\<lambda>_.
        store_reg L (apit_initial_count R) (apitCounter g))))"

definition secondsToJiffies :: "pit \<Rightarrow> u32 \<Rightarrow> u32" where
  "secondsToJiffies g secs = jiffiesPerSecond g * secs"

definition pit_seconds :: "pit \<Rightarrow> u32 option" where
  "pit_seconds g = (if jiffiesPerSecond g = 0 then None else Some (pit_jiffies g div jiffiesPerSecond g))"

section \<open>The keyboard controller\<close>

text \<open>\<^verbatim>\<open>while (inb(port) & mask)\<close> and \<^verbatim>\<open>while ((inb(port) & mask) == 0)\<close>.\<close>

fun wait_clear_bits :: "nat \<Rightarrow> 'd pio \<Rightarrow> u32 \<Rightarrow> u8 \<Rightarrow> ('d ide_st, unit) st" where
  "wait_clear_bits 0 P p m = fail Diverges"
| "wait_clear_bits (Suc k) P p m = sbind (inb P p) (\<lambda>v. if v AND m \<noteq> 0 then wait_clear_bits k P p m else ret ())"

fun wait_set_bits :: "nat \<Rightarrow> 'd pio \<Rightarrow> u32 \<Rightarrow> u8 \<Rightarrow> ('d ide_st, unit) st" where
  "wait_set_bits 0 P p m = fail Diverges"
| "wait_set_bits (Suc k) P p m = sbind (inb P p) (\<lambda>v. if v AND m = 0 then wait_set_bits k P p m else ret ())"

definition DATA_PORT :: u32 where "DATA_PORT = 0x60"
definition STATUS_REG :: u32 where "STATUS_REG = 0x64"
definition CMD_REG :: u32 where "CMD_REG = 0x64"

text \<open>A command: wait until the controller takes one, then give it.\<close>

definition kb_command :: "nat \<Rightarrow> 'd pio \<Rightarrow> u32 \<Rightarrow> ('d ide_st, unit) st" where
  "kb_command polls P c = sbind (wait_clear_bits polls P STATUS_REG 0x2) (\<lambda>_. outb P CMD_REG c)"

definition initializeController :: "nat \<Rightarrow> 'd pio \<Rightarrow> fb \<Rightarrow> ('d ide_st, u8 \<times> fb) st" where
  "initializeController polls P screen =
     sbind (kb_command polls P 0xAD) (\<lambda>_.
     sbind (kb_command polls P 0xA7) (\<lambda>_.
     sbind (inb P DATA_PORT) (\<lambda>_.
     sbind (kb_command polls P 0x20) (\<lambda>_.
     sbind (wait_set_bits polls P STATUS_REG 0x1) (\<lambda>_.
     sbind (inb P DATA_PORT) (\<lambda>v.
     let configByte = v OR 0x37 in
     sbind (wait_clear_bits polls P STATUS_REG 0x1) (\<lambda>_.
     sbind (outb P CMD_REG 0x60) (\<lambda>_.
     sbind (kb_command polls P (ucast configByte)) (\<lambda>_.
     sbind (kb_command polls P 0xAA) (\<lambda>_.
     sbind (wait_set_bits polls P STATUS_REG 0x1) (\<lambda>_.
     sbind (inb P DATA_PORT) (\<lambda>v.
     sbind (assert (v = 0x55)) (\<lambda>_.
     sbind (kb_command polls P 0xAE) (\<lambda>_.
     sbind (wait_clear_bits polls P (STATUS_REG AND 0x1) 0xFF) (\<lambda>_.
     sbind (inb P DATA_PORT) (\<lambda>val. ret (val, putPixel 10 10 0 screen)))))))))))))))))"

section \<open>What the set-up achieves\<close>

text \<open>The processor reads from the table what was put into it, and the other gates are as they were.\<close>

lemma idt_masks: "(0xffff :: u32) = mask 16" "(0xffff0000 :: u32) = push_bit 16 (mask 16)" "(3 :: u32) = mask 2"
  by (simp_all add: mask_eq_exp_minus_1)

lemma low_half: "push_bit 16 c + (h AND mask 16) = (push_bit 16 c OR (h AND mask 16) :: u32)"
  by (rule disjunctive_add) (auto simp: bit_simps)

lemma gate_parts:
  fixes c h f :: u32
  assumes "c < 0x10000" and "f < 0x10000"
  shows "((h AND 0xffff0000) OR f) AND 0xffff0000 OR ((push_bit 16 c + (h AND 0xffff)) AND 0xffff) = h"
    and "drop_bit 16 (push_bit 16 c + (h AND 0xffff)) = c"
    and "drop_bit 13 ((h AND 0xffff0000) OR f) AND 3 = drop_bit 13 f AND 3"
    and "bit ((h AND 0xffff0000) OR f) 8 = bit f 8"
proof -
  have small: "bit x n \<Longrightarrow> n < 16" if "x < 0x10000" for x :: u32 and n
  proof (rule ccontr)
    assume b: "bit x n" "\<not> n < 16"
    have "x AND mask 16 = x" by (rule less_mask_eq) (use that in simp)
    then have "bit (x AND mask 16) n" using b by simp
    then show False using b by (simp add: bit_simps)
  qed
  show "((h AND 0xffff0000) OR f) AND 0xffff0000 OR ((push_bit 16 c + (h AND 0xffff)) AND 0xffff) = h"
    unfolding idt_masks low_half by (rule bit_word_eqI) (auto simp: bit_simps dest: small [OF assms(2)])
  show "drop_bit 16 (push_bit 16 c + (h AND 0xffff)) = c"
    unfolding idt_masks low_half by (rule bit_word_eqI) (auto simp: bit_simps dest: small [OF assms(1)])
  show "drop_bit 13 ((h AND 0xffff0000) OR f) AND 3 = drop_bit 13 f AND 3"
    unfolding idt_masks by (rule bit_word_eqI) (auto simp: bit_simps)
  show "bit ((h AND 0xffff0000) OR f) 8 = bit f 8"
    unfolding idt_masks by (auto simp: bit_simps)
qed

lemma gate_trap:
  assumes "2 * i + 1 < length idt" and "kernelCS < 0x10000" and "dpl < 4"
  shows "gate (idt_trap kernelCS i handler dpl idt) i = (handler, kernelCS, dpl, True)"
proof -
  have "unat dpl = 0 \<or> unat dpl = 1 \<or> unat dpl = 2 \<or> unat dpl = 3" using assms(3) by (simp add: word_less_nat_alt) linarith
  moreover have "dpl = of_nat (unat dpl)" by simp
  ultimately have "dpl = 0 \<or> dpl = 1 \<or> dpl = 2 \<or> dpl = 3" by (elim disjE) simp_all
  then have f: "0x8f00 OR push_bit 13 dpl < 0x10000" "drop_bit 13 (0x8f00 OR push_bit 13 dpl) AND 3 = dpl" "bit (0x8f00 OR push_bit 13 dpl) 8"
    by auto
  from gate_parts [OF assms(2) f(1), of handler] show ?thesis
    using assms(1) f by (simp add: gate_def idt_trap_def Let_def or.assoc)
qed

lemma gate_interrupt:
  assumes "2 * i + 1 < length idt" and "kernelCS < 0x10000"
  shows "gate (idt_interrupt kernelCS i handler idt) i = (handler, kernelCS, 0, False)"
proof -
  have "(0x8e00 :: u32) < 0x10000" by simp
  from gate_parts [OF assms(2) this, of handler] show ?thesis
    using assms(1) by (simp add: gate_def idt_interrupt_def Let_def)
qed

lemma gate_other: "i \<noteq> j \<Longrightarrow> gate (idt_interrupt kernelCS j handler idt) i = gate idt i" "i \<noteq> j \<Longrightarrow> gate (idt_trap kernelCS j handler dpl idt) i = gate idt i"
proof -
  assume "i \<noteq> j"
  then have "2 * i \<noteq> 2 * j" "2 * i \<noteq> 2 * j + 1" "2 * i + 1 \<noteq> 2 * j" by presburger+
  then show "gate (idt_interrupt kernelCS j handler idt) i = gate idt i" "gate (idt_trap kernelCS j handler dpl idt) i = gate idt i"
    by (simp_all add: gate_def idt_interrupt_def idt_trap_def Let_def)
qed

text \<open>Every write of the keyboard set-up is a command: the new configuration is never given to the controller as data.\<close>

definition traced :: "'d pio \<Rightarrow> ('d \<times> u32 list) pio" where
  "traced P = \<lparr>p_inb = (\<lambda>p (d, w). let (v, d) = p_inb P p d in (v, (d, w))),
     p_inl = (\<lambda>p (d, w). let (v, d) = p_inl P p d in (v, (d, w))),
     p_outb = (\<lambda>p v (d, w). (p_outb P p v d, w @ [p]))\<rparr>"

definition writes_only :: "u32 \<Rightarrow> (('d \<times> u32 list) ide_st, 'a) st \<Rightarrow> bool" where
  "writes_only p m \<longleftrightarrow> (\<forall>s x s'. set (snd (dev s)) \<subseteq> {p} \<longrightarrow> m s = Inr (x, s') \<longrightarrow> set (snd (dev s')) \<subseteq> {p})"

lemma writes_only_sbind: "writes_only p m \<Longrightarrow> (\<And>x. writes_only p (f x)) \<Longrightarrow> writes_only p (sbind m f)"
proof -
  assume m: "writes_only p m" and f: "\<And>x. writes_only p (f x)"
  show ?thesis
    unfolding writes_only_def
  proof (intro allI impI)
    fix s x s' assume "set (snd (dev s)) \<subseteq> {p}" and run: "sbind m f s = Inr (x, s')"
    moreover obtain y u where "m s = Inr (y, u)" "f y u = Inr (x, s')" using run by (auto simp: sbind_def split: sum.splits)
    ultimately show "set (snd (dev s')) \<subseteq> {p}" using m f [of y] unfolding writes_only_def by meson
  qed
qed

lemma writes_only_ret: "writes_only p (ret x)" "writes_only p (fail e)" "writes_only p (assert b)"
  by (simp_all add: writes_only_def ret_def fail_def assert_def)

lemma writes_only_io: "writes_only p (inb (traced P) q)" "writes_only p (outb (traced P) p v)"
  by (auto simp: writes_only_def inb_def outb_def traced_def Let_def split_def)

lemma writes_only_waits: "writes_only p (wait_clear_bits k (traced P) q m)" "writes_only p (wait_set_bits k (traced P) q m)"
  by (induction k) (auto intro!: writes_only_sbind writes_only_io writes_only_ret)

lemma kb_writes_commands: "writes_only CMD_REG (initializeController polls (traced P) screen)"
  unfolding initializeController_def kb_command_def Let_def
  by (intro writes_only_sbind writes_only_io writes_only_ret writes_only_waits)

end
