(* ===== verification/Mwc_Random.thy ===== *)
theory Mwc_Random
  imports Prelude
begin

text \<open>
  The multiply-with-carry generator of \<^verbatim>\<open>kernel/random.h\<close>: two words, each replaced by a multiple of its low half
  plus its high half.
\<close>

record random =
  rnd_w :: u32
  rnd_z :: u32

definition random_new :: "u32 \<Rightarrow> random" where
  "random_new seed =
     (let w = seed; z = NOT seed;
          w = (if w = 0 \<or> w = 0x464fffff then w + 1 else w);
          z = (if z = 0 \<or> z = 0x9068ffff then z + 1 else z) in
      \<lparr>rnd_w = w, rnd_z = z\<rparr>)"

definition mwc :: "u32 \<Rightarrow> u32 \<Rightarrow> u32" where
  "mwc a x = a * (x AND 65535) + drop_bit 16 x"

definition random_next :: "random \<Rightarrow> u32 \<times> random" where
  "random_next r =
     (let z = mwc 36969 (rnd_z r); w = mwc 18000 (rnd_w r) in (push_bit 16 z + w, r\<lparr>rnd_z := z, rnd_w := w\<rparr>))"

text \<open>The state after \<open>n\<close> numbers.\<close>

definition random_after :: "nat \<Rightarrow> u32 \<Rightarrow> random" where
  "random_after n seed = ((\<lambda>r. snd (random_next r)) ^^ n) (random_new seed)"

lemma unat_mwc:
  assumes "unat a \<le> 65535"
  shows "unat (mwc a x) = unat a * (unat x mod 65536) + unat x div 65536"
proof -
  have m: "unat (x AND 65535) = unat x mod 65536"
  proof -
    have "x AND 65535 = take_bit 16 x" by (simp add: take_bit_eq_mask mask_eq_exp_minus_1)
    then show ?thesis by (simp add: take_bit_eq_mod unat_mod)
  qed
  have d: "unat (drop_bit 16 x) = unat x div 65536" by (simp add: unsigned_drop_bit_eq drop_bit_eq_div unat_div)
  have "unat x < 2 ^ 32" by (rule less_le_trans [OF unsigned_less]) simp
  then have h: "unat x div 65536 \<le> 65535" by simp
  have "unat a * (unat x mod 65536) \<le> 65535 * 65535" by (rule mult_le_mono) (use assms in simp_all)
  with h show ?thesis unfolding mwc_def by (simp add: unat_word_ariths m d)
qed

text \<open>Which words are taken to 0 and to the fixed points.\<close>

lemma parts: "unat (x :: u32) = 65536 * (unat x div 65536) + unat x mod 65536" "unat (x :: u32) div 65536 < 65536"
proof -
  have "unat x < 2 ^ 32" by (rule less_le_trans [OF unsigned_less]) simp
  then show "unat x div 65536 < 65536" by simp
qed simp

lemma unat_is: "unat (x :: u32) = n \<Longrightarrow> x = of_nat n"
  by auto

lemma mwc_zero: "0 < a \<Longrightarrow> unat a \<le> 65535 \<Longrightarrow> mwc a x = 0 \<Longrightarrow> x = 0"
proof -
  assume a: "0 < a" "unat a \<le> 65535" "mwc a x = 0"
  then have "unat a * (unat x mod 65536) + unat x div 65536 = 0" using unat_mwc [of a x] by simp
  moreover have "0 < unat a" using a(1) by (simp add: word_less_nat_alt)
  ultimately have "unat x = 0" using parts(1) [of x] by simp
  then show "x = 0" by (simp add: unat_0_iff)
qed

lemma mwc_z_fixed: "mwc 36969 x = 0x9068ffff \<longleftrightarrow> x = 0x9068ffff"
proof
  assume "mwc 36969 x = 0x9068ffff"
  then have e: "36969 * (unat x mod 65536) + unat x div 65536 = 0x9068ffff" using unat_mwc [of 36969 x] by simp
  have l: "unat x mod 65536 < 65536" by simp
  have "unat x mod 65536 = 65535" using e l parts(2) [of x] by linarith
  then have "unat x = 0x9068ffff" using e parts(1) [of x] by linarith
  from unat_is [OF this] show "x = 0x9068ffff" by simp
qed (simp add: mwc_def)

lemma mwc_w_fixed: "mwc 18000 x = 0x464fffff \<longleftrightarrow> x = 0x464fffff \<or> x = 0x8C9FFFFE \<or> x = 0xD2EFFFFD"
proof
  assume "mwc 18000 x = 0x464fffff"
  then have e: "18000 * (unat x mod 65536) + unat x div 65536 = 0x464fffff" using unat_mwc [of 18000 x] by simp
  have l: "unat x mod 65536 < 65536" by simp
  have "unat x mod 65536 \<ge> 65533" using e l parts(2) [of x] by linarith
  then have "unat x mod 65536 = 65535 \<or> unat x mod 65536 = 65534 \<or> unat x mod 65536 = 65533" using l by linarith
  then have "unat x = 0x464fffff \<or> unat x = 0x8C9FFFFE \<or> unat x = 0xD2EFFFFD" using e parts(1) [of x] by linarith
  then show "x = 0x464fffff \<or> x = 0x8C9FFFFE \<or> x = 0xD2EFFFFD"
    by (elim disjE) (drule unat_is, simp)+
qed (auto simp: mwc_def)

lemma mwc_w_small: "mwc 18000 x \<noteq> 0x8C9FFFFE \<and> mwc 18000 x \<noteq> 0xD2EFFFFD"
proof -
  have l: "unat x mod 65536 < 65536" by simp
  have "unat (mwc 18000 x) < 0x8C9FFFFE" using unat_mwc [of 18000 x] l parts(2) [of x] by simp
  then show ?thesis by auto
qed

lemma bumped:
  fixes k x :: u32
  assumes "k \<noteq> 0" and "k \<noteq> 1" and "k + 1 \<noteq> 0"
  shows "(if x = 0 \<or> x = k then x + 1 else x) \<noteq> 0 \<and> (if x = 0 \<or> x = k then x + 1 else x) \<noteq> k"
  using assms by (cases "x = 0"; cases "x = k") simp_all

lemma random_after_Suc: "random_after (Suc n) seed = snd (random_next (random_after n seed))"
  by (simp add: random_after_def)

text \<open>
  C40. The second word never becomes one that stays as it is, 0 or \<open>0x9068ffff\<close>; the first one never becomes 0, and it
  becomes \<open>0x464fffff\<close>, and stays it, for exactly two seeds.
\<close>

theorem random_stuck_seeds:
  "rnd_z (random_after n seed) \<noteq> 0 \<and> rnd_z (random_after n seed) \<noteq> 0x9068ffff \<and> rnd_w (random_after n seed) \<noteq> 0 \<and>
   (rnd_w (random_after n seed) = 0x464fffff \<longleftrightarrow> 0 < n \<and> (seed = 0x8C9FFFFE \<or> seed = 0xD2EFFFFD))"
proof (induction n)
  case 0
  have w: "rnd_w (random_after 0 seed) = (if seed = 0 \<or> seed = 0x464fffff then seed + 1 else seed)"
    and z: "rnd_z (random_after 0 seed) = (if NOT seed = 0 \<or> NOT seed = 0x9068ffff then NOT seed + 1 else NOT seed)"
    unfolding random_after_def random_new_def Let_def funpow_0 random.select_convs by (rule refl)+
  have "rnd_w (random_after 0 seed) \<noteq> 0 \<and> rnd_w (random_after 0 seed) \<noteq> 0x464fffff" unfolding w by (rule bumped) simp_all
  moreover have "rnd_z (random_after 0 seed) \<noteq> 0 \<and> rnd_z (random_after 0 seed) \<noteq> 0x9068ffff" unfolding z by (rule bumped) simp_all
  ultimately show ?case by simp
next
  case (Suc n)
  let ?r = "random_after n seed"
  have z: "rnd_z (random_after (Suc n) seed) = mwc 36969 (rnd_z ?r)" "rnd_w (random_after (Suc n) seed) = mwc 18000 (rnd_w ?r)"
    by (simp_all add: random_after_Suc random_next_def Let_def)
  have small: "rnd_w ?r \<noteq> 0x8C9FFFFE \<and> rnd_w ?r \<noteq> 0xD2EFFFFD" if "0 < n"
    using that mwc_w_small [of "rnd_w (random_after (n - 1) seed)"] random_after_Suc [of "n - 1" seed]
    by (simp add: random_next_def Let_def)
  have first: "rnd_w ?r = 0x8C9FFFFE \<or> rnd_w ?r = 0xD2EFFFFD \<longleftrightarrow> seed = 0x8C9FFFFE \<or> seed = 0xD2EFFFFD" if "n = 0"
    using that by (auto simp: random_after_def random_new_def Let_def)
  have "rnd_z ?r \<noteq> 0" "rnd_w ?r \<noteq> 0" "rnd_z ?r \<noteq> 0x9068ffff" using Suc by blast+
  then have "mwc 36969 (rnd_z ?r) \<noteq> 0" "mwc 18000 (rnd_w ?r) \<noteq> 0" "mwc 36969 (rnd_z ?r) \<noteq> 0x9068ffff"
    using mwc_zero [of 36969 "rnd_z ?r"] mwc_zero [of 18000 "rnd_w ?r"] mwc_z_fixed [of "rnd_z ?r"] by auto
  moreover have "mwc 18000 (rnd_w ?r) = 0x464fffff \<longleftrightarrow> seed = 0x8C9FFFFE \<or> seed = 0xD2EFFFFD"
  proof (cases "n = 0")
    case True
    with Suc have "rnd_w ?r \<noteq> 0x464fffff" by simp
    then show ?thesis unfolding mwc_w_fixed using first [OF True] by blast
  next
    case False
    then show ?thesis unfolding mwc_w_fixed using Suc small by blast
  qed
  ultimately show ?case unfolding z by blast
qed

end
