(* ===== verification/Bmp.thy ===== *)
theory Bmp
  imports Ext22_Props
begin

text \<open>
  \<^verbatim>\<open>read_bmp\<close> of \<^verbatim>\<open>kernel/Ext22.h\<close>: the picture of a song, 70 by 70 pixels of four bytes behind a header of 138.
\<close>

definition read_bmp :: "'s reader \<Rightarrow> (nat \<Rightarrow> u8) \<Rightarrow> node2 \<Rightarrow> ('s cached, u8 list) st" where
  "read_bmp rd junk bmp =
     sbind (node2_read_all rd junk bmp 0 14) (\<lambda>_.
     sbind (node2_read_all rd junk bmp 14 40) (\<lambda>_.
     sbind (node2_read_all rd junk bmp 138 (19738 - 138)) (\<lambda>(cnt, xs).
     let buf = (\<lambda>i. if i < length xs then xs ! i else junk i) in
     ret (concat (map (\<lambda>k. [buf (4 * k + 2), buf (4 * k + 1), buf (4 * k)]) [0..<4900])))))"

text \<open>For a file that is long enough the red, green and blue bytes of every pixel, in this order.\<close>

lemma read_bmp_correct:
  assumes holds: "cached_node.holds rd junk nd I (size_in_bytes2 (iNode2 nd)) d" and len: "19738 \<le> unat (size_in_bytes2 (iNode2 nd))"
  shows "gives I (read_bmp rd junk nd) (concat (map (\<lambda>k. [d (138 + (4 * k + 2)), d (138 + (4 * k + 1)), d (138 + 4 * k)]) [0..<4900]))"
proof -
  have read: "gives I (node2_read_all rd junk nd offset n) (int (unat n), chunk d (unat offset) (unat n))"
    if "unat offset + unat n \<le> unat (size_in_bytes2 (iNode2 nd))" for offset n
    unfolding node2_read_all_def by (rule cached_node.read_all_gives [OF holds that])
  have 1: "gives I (node2_read_all rd junk nd 0 14) (14, chunk d 0 14)" using read [of 0 14] len by simp
  have 2: "gives I (node2_read_all rd junk nd 14 40) (40, chunk d 14 40)" using read [of 14 40] len by simp
  have 3: "gives I (node2_read_all rd junk nd 138 (19738 - 138)) (19600, chunk d 138 19600)" using read [of 138 "19738 - 138"] len by simp
  let ?buf = "\<lambda>i. if i < length (chunk d 138 19600) then chunk d 138 19600 ! i else junk i"
  have eq: "map (\<lambda>k. [?buf (4 * k + 2), ?buf (4 * k + 1), ?buf (4 * k)]) [0..<4900] =
      map (\<lambda>k. [d (138 + (4 * k + 2)), d (138 + (4 * k + 1)), d (138 + 4 * k)]) [0..<4900]"
    by (rule map_cong [OF refl]) (simp add: chunk_def del: upt_Suc upt_rec_numeral)
  show ?thesis
    unfolding read_bmp_def
    by (rule gives_bind [OF 1], rule gives_bind [OF 2], rule gives_bind [OF 3], simp only: prod.case Let_def eq, rule gives_ret)
qed

end
