(* ===== verification/Spec2Isabelle.thy ===== *)
theory Spec2Isabelle
  imports Heap_Alloc UserHeap VMM_Props Locks BoundedBuffer Printf Vga_Props Snake Ext2_Paths Ext22_Props Audio_Props Threads_Props
    Fork_Props Files_Props Process_Props Elf_Props Sys_Props Shared_Props Barrier_Props
    Sys_Types Acpi Machine Mwc_Random Bmp
begin

text \<open>
  A verification of the kernel and the user library of OSpotify.

  \<^bold>\<open>The program\<close>

  OSpotify is a small operating system for the i386 that plays music. Its kernel is in \<^verbatim>\<open>src/kernel\<close>, the library and the
  programs that run on it in \<^verbatim>\<open>src/t0.dir/sbin\<close>. This development models the kernel and the library and proves what makes
  their parts correct.

  A boot goes through \<^verbatim>\<open>init.cc\<close>: the configuration is read from the tables of the firmware, the heap takes the memory
  from 1 MB to 6 MB, the frames behind it go to the frame allocator, page tables that map them are made for the
  kernel, and every core gets its page tables, its timer and an idle thread. Threads are scheduled round robin by the timer
  and block on semaphores, on which bounded buffers and futures are built; condition variables and reusable barriers have queues of their own. A process is
  an address space and tables of descriptors; programs are ELF files on an ext2 disk, read in blocks by the polling IDE
  driver, and reach the kernel through fourteen system calls. The player itself uses a second file system with caches,
  the display in graphics mode and the sound controller, for which it reads a wave file into a ring of pages.

  \<^bold>\<open>How the code is modelled\<close>

  The theories follow the files of the source and keep their names for operations, fields and constants; a name that HOL has
  already, or that two files share, gets a prefix (\<^verbatim>\<open>heap_free\<close>, \<^verbatim>\<open>sys_read\<close>, \<^verbatim>\<open>node2_read_all\<close>). The model of a state is a
  record with the fields of the class or the globals of the file; an operation takes the state and returns the new one. A panic, a
  failed assertion or behaviour that C++ leaves undefined is the value \<^verbatim>\<open>Inl\<close> of a sum, \<^verbatim>\<open>None\<close>, or an error of the type
  \<^verbatim>\<open>fs_err\<close>, and ends the operation. Machine integers are words of their width; the heaps and the formatted output, whose code is about
  signed numbers, use \<^verbatim>\<open>int\<close> with the wrap-around written out. What several threads do at once is an inductive step relation,
  one rule for each atomic access of the code, and the properties hold in all states that any interleaving reaches
  (\<^verbatim>\<open>reachable\<close> of \<^verbatim>\<open>Prelude\<close>).

  Hardware is a parameter: an operation that uses ports takes functions for what the port instructions do to a device of any
  type. The properties of the disk driver and of what rests on it assume a drive that follows the ATA protocol (\<^verbatim>\<open>ata_drive\<close>);
  a simulated drive in \<^verbatim>\<open>Ide\<close> shows that there is one, and the witnesses run the code on it.

  \<^bold>\<open>The theories\<close>

  \<^item> \<^verbatim>\<open>Prelude\<close>: the types of \<^verbatim>\<open>stdint.h\<close>, results that can fail, interleavings, counting threads, facts on words and lists.

  \<^item> Memory. \<^verbatim>\<open>Heap\<close> is \<^verbatim>\<open>heap.cc\<close>: blocks with their size at both ends in one array, the available ones in a list.
  \<^verbatim>\<open>Heap_Layout\<close> reads the array as a list of blocks, \<^verbatim>\<open>Heap_Correct\<close> has the invariant and what each operation does to the
  blocks, \<^verbatim>\<open>Heap_Alloc\<close> the contract of an allocator (locale \<^verbatim>\<open>allocator\<close>), met by this heap and, in \<^verbatim>\<open>UserHeap\<close>, by that of
  \<^verbatim>\<open>sbin/heap.c\<close>. \<^verbatim>\<open>PhysMem\<close> is \<^verbatim>\<open>physmem.cc\<close>, frames in a list kept in the frames themselves (locale
  \<^verbatim>\<open>frame_pool\<close>). \<^verbatim>\<open>VMM\<close> is \<^verbatim>\<open>vmm.cc\<close>; \<^verbatim>\<open>VMM_Spaces\<close> and \<^verbatim>\<open>VMM_Props\<close> show which addresses each operation maps and that every frame has one
  use. \<^verbatim>\<open>Fork\<close>, \<^verbatim>\<open>Fork_Props\<close>: copying an address space. \<^verbatim>\<open>User_Memory\<close>: the memory of a process as a function
  from addresses to bytes, which page faults do not change.

  \<^item> Threads. \<^verbatim>\<open>Queue\<close> is the intrusive queue, shown to be a queue (locale \<^verbatim>\<open>fifo\<close>); \<^verbatim>\<open>Locks\<close> the three locks of \<^verbatim>\<open>atomic.h\<close>,
  shown to exclude each other and to restore the interrupt flag (locale \<^verbatim>\<open>test_and_set\<close>); \<^verbatim>\<open>Semaphore\<close>, with \<^verbatim>\<open>BlockingLock\<close>;
  \<^verbatim>\<open>BoundedBuffer\<close>; \<^verbatim>\<open>Barrier\<close>, \<^verbatim>\<open>Barrier_Props\<close>: conditions and barriers; \<^verbatim>\<open>Threads\<close>, \<^verbatim>\<open>Threads_Props\<close>: \<^verbatim>\<open>threads.cc\<close> with the
  timer interrupt, on any number of cores; \<^verbatim>\<open>Shared\<close>, \<^verbatim>\<open>Shared_Props\<close>: counted references.

  \<^item> Files. \<^verbatim>\<open>BlockIo\<close> reads ranges of bytes from whatever is read in blocks (locales \<^verbatim>\<open>block_reader\<close>, \<^verbatim>\<open>block_io\<close>); \<^verbatim>\<open>Ide\<close> is
  the driver; \<^verbatim>\<open>Ext2\<close>, \<^verbatim>\<open>Ext2_Props\<close>, \<^verbatim>\<open>Ext2_Paths\<close> the file system of the kernel over any disk (locale \<^verbatim>\<open>disk\<close>, a
  \<^verbatim>\<open>block_io\<close> for each node, interpreted by the driver); \<^verbatim>\<open>Ext22\<close>, \<^verbatim>\<open>Ext22_Props\<close> the one of the player, whose cache is shown to
  be invisible (locale \<^verbatim>\<open>cached_source\<close>); \<^verbatim>\<open>Files\<close>, \<^verbatim>\<open>Files_Props\<close>: open files and the serial port.

  \<^item> Processes. \<^verbatim>\<open>Process\<close>, \<^verbatim>\<open>Process_Props\<close>: descriptors, futures, \<^verbatim>\<open>fork\<close>, \<^verbatim>\<open>wait\<close>; \<^verbatim>\<open>Sys\<close> is \<^verbatim>\<open>sys.cc\<close> and \<^verbatim>\<open>elf.cc\<close>, every case of
  \<^verbatim>\<open>sysHandler\<close> over the memory of the caller; \<^verbatim>\<open>Elf_Props\<close>: what loading a program leaves in memory; \<^verbatim>\<open>Sys_Props\<close>: refused calls and
  \<^verbatim>\<open>read\<close>; \<^verbatim>\<open>Sys_Types\<close>: every call keeps the kernel's data well formed.

  \<^item> Output. \<^verbatim>\<open>Snprintf\<close> is the state machine of \<^verbatim>\<open>snprintf.cc\<close>; \<^verbatim>\<open>Snprintf_Convert\<close> and \<^verbatim>\<open>Snprintf_Props\<close> its conversions,
  \<^verbatim>\<open>Snprintf_Format\<close> formats as lists of directives with their meaning; \<^verbatim>\<open>Printf\<close> the copy of it in the user library.
  \<^verbatim>\<open>Vga\<close>, \<^verbatim>\<open>Vga_Props\<close>: the display and its palette; \<^verbatim>\<open>Snake\<close>; \<^verbatim>\<open>Wave\<close>, \<^verbatim>\<open>Audio\<close>, \<^verbatim>\<open>Audio_Props\<close>: \<^verbatim>\<open>list_wave.h\<close> and
  \<^verbatim>\<open>audio.h\<close>, the ring of 16 pages the controller plays; \<^verbatim>\<open>Bmp\<close>: the picture of a song.

  \<^item> Setting up. \<^verbatim>\<open>Config\<close>, \<^verbatim>\<open>Acpi\<close>: \<^verbatim>\<open>config.cc\<close>; \<^verbatim>\<open>Machine\<close>: the interrupt table, local interrupt controller, timer and keyboard
  controller; \<^verbatim>\<open>Mwc_Random\<close>: \<^verbatim>\<open>random.h\<close>.

  \<^bold>\<open>What is shown\<close>

  \<^item> Memory is never given out twice: blocks of either heap do not overlap, whatever sequence of calls made them, a frame has one use,
  taking an address space down gives back exactly its frames and tables, a fork's child has frames of its own
  with the parent's contents. Requests close to 4 GB wrap around and succeed: this is stated as it is.

  \<^item> Mutual exclusion and order: locks, semaphores, bounded buffers and barriers for every interleaving of any number of
  threads; in the scheduler every thread is always in exactly one place. With one core the timer serves the
  ready threads in turn; a thread that it finds alone keeps the core for good, which is a defect.

  \<^item> Reading is right through all layers: the bytes that the port instructions deliver are those of the block, the file, the open file, the
  buffer of the program that calls \<^verbatim>\<open>read\<close>, and of the segments of a program that is loaded, with and without caches.

  \<^item> System calls: bad arguments are refused without effect, descriptors are a partial map, and well-formed data stays
  well formed.

  \<^item> Defects are theorems where they could be stated: \<^verbatim>\<open>p = p->next\<close> with counted references uses freed memory, the first processor entry of the
  firmware's table is skipped, two seeds stop half of the random numbers.

  \<^bold>\<open>Bounds\<close>

  A loop whose end depends on its data is \<^verbatim>\<open>partial_function (option)\<close> and \<^verbatim>\<open>None\<close> says that it does not end: the searches of the heaps, the identity map,
  rectangles, the searches for tables and \<^verbatim>\<open>configInit\<close>, the game. Each is shown to end where a property says what it returns.
  Polling loops take a number of polls and fail with \<^verbatim>\<open>Diverges\<close>: with a drive that is ready one poll is enough, and the properties hold
  for any positive number. \<^verbatim>\<open>dopr\<close> runs on fuel, 8 turns for every character of the format and 2 more, which is
  shown to be enough. Scanning the entries of a directory runs on its size: a turn that does not move on would repeat for ever. Symbolic links are
  followed 9 times, as in the code. Loops over an index or a list are recursion on them. The epochs of conditions are not wrapped: this would take
  \<open>2 ^ 64\<close> rounds.

  \<^bold>\<open>What is not modelled\<close>

  \<^item> Assembly (\<^verbatim>\<open>mbr.S\<close>, \<^verbatim>\<open>machine.S\<close>, \<^verbatim>\<open>context.s\<close>, \<^verbatim>\<open>crt0.S\<close>, \<^verbatim>\<open>sys.S\<close>) and single instructions (\<^verbatim>\<open>machine.h\<close>, \<^verbatim>\<open>tss.h\<close>); a context switch is a step of
  the scheduler, loading the page directory has no effect on the tables, and there is no translation cache.

  \<^item> \<^verbatim>\<open>init.cc\<close>, \<^verbatim>\<open>kernel.cc\<close>, \<^verbatim>\<open>crt*\<close>: straight calls of the initialisations above. \<^verbatim>\<open>per_core_init\<close> of \<^verbatim>\<open>vmm.cc\<close> is one such call.

  \<^item> \<^verbatim>\<open>debug.cc\<close>: what is printed is left out everywhere; a panic is the error of its caller.

  \<^item> \<^verbatim>\<open>future(work)\<close> and \<^verbatim>\<open>stream(n, work)\<close>, threads that run a closure, which nothing uses.

  \<^item> Writing to the disk, which is commented out. \<^verbatim>\<open>moveSnake\<close> and \<^verbatim>\<open>changeDirection\<close>, which are declared only, and the food of the game, a pointer that is never set.

  \<^item> The destructors of processes and threads inside \<^verbatim>\<open>Process\<close>: objects behind counted references stay there, while \<^verbatim>\<open>Shared\<close> models the counting on its own; the destruction of an
  address space is \<^verbatim>\<open>delete_pd\<close> of \<^verbatim>\<open>VMM\<close>.

  \<^item> The programs \<^verbatim>\<open>init\<close> and \<^verbatim>\<open>shell\<close>, a few calls each.
\<close>

end
